(* ===== verification/Prelude.thy ===== *)
theory Prelude
  imports Main "HOL-Library.Word"
begin

text \<open>
  Shared vocabulary of the development: the machine types of the browser's C++ code
  (the target is a 32-bit ARM: \<open>int\<close>, \<open>unsigned\<close> and \<open>size_t\<close> have 32 bits, \<open>char\<close>
  has 8 and \<open>UChar\<close> has 16), string literals at both character widths, reads from a
  NUL-terminated buffer, the scanning loop every parser here is built from, and the
  facts about lists that the components share.
\<close>

section \<open>Types\<close>

type_synonym byte = "8 word"
type_synonym uchar = "16 word"
type_synonym u16 = "16 word"
type_synonym u32 = "32 word"
type_synonym ustring = "uchar list"

named_theorems string_simps \<open>definitions that evaluate string operations on literals\<close>
named_theorems bounds_intros \<open>index and length bounds of the loops\<close>

section \<open>Literals\<close>

text \<open>
  \<open>ch CHR ''a''\<close> is a character constant of either width and \<open>lit ''abc''\<close> a string
  constant; both simplify to numerals.
\<close>

abbreviation ch :: "char \<Rightarrow> 'a::len word" where
  "ch c \<equiv> of_char c"

definition lit :: "string \<Rightarrow> 'a::len word list" where
  "lit s = map of_char s"

lemma lit_Nil [simp]: "lit [] = []"
  by (simp add: lit_def)

lemma lit_Cons [simp]: "lit (c # s) = of_char c # lit s"
  by (simp add: lit_def)

lemma length_lit [simp]: "length (lit s) = length s"
  by (simp add: lit_def)

section \<open>Reading a NUL-terminated buffer\<close>

text \<open>
  A \<open>const char*\<close> argument is the list of its bytes before the terminating NUL.
  \<open>at s i\<close> is \<open>s[i]\<close>; at the end it reads the terminator.
\<close>

definition at :: "'a::len word list \<Rightarrow> nat \<Rightarrow> 'a word" where
  "at s i = (if i < length s then s ! i else 0)"

lemma at_in [simp]: "i < length s \<Longrightarrow> at s i = s ! i"
  by (simp add: at_def)

lemma at_end [simp]: "length s \<le> i \<Longrightarrow> at s i = 0"
  by (simp add: at_def)

lemma at_Nil [simp]: "at [] i = 0"
  by (simp add: at_def)

lemma at_Cons_0 [simp]: "at (x # s) 0 = x"
  by (simp add: at_def)

lemma at_Cons_Suc [simp]: "at (x # s) (Suc i) = at s i"
  by (simp add: at_def)

lemma at_append: "at (s @ t) i = (if i < length s then s ! i else at t (i - length s))"
  by (auto simp: at_def nth_append)

lemma at_neq_0_less: "at s i \<noteq> 0 \<Longrightarrow> i < length s"
  by (auto simp: at_def split: if_splits)

section \<open>The scanning loop\<close>

text \<open>
  \<open>while (P(s[i])) i++;\<close> over a NUL-terminated buffer, for a predicate that the
  terminator does not satisfy.
\<close>

function scan_while :: "('a \<Rightarrow> bool) \<Rightarrow> 'a list \<Rightarrow> nat \<Rightarrow> nat" where
  "scan_while P s i = (if i < length s \<and> P (s ! i) then scan_while P s (Suc i) else i)"
  by pat_completeness auto
termination
  by (relation "measure (\<lambda>(P, s, i). length s - i)") auto

declare scan_while.simps [simp del]

lemma scan_while_ge [simp, bounds_intros]: "i \<le> scan_while P s i"
proof (induction P s i rule: scan_while.induct)
  case (1 P s i)
  then show ?case
    by (cases "i < length s \<and> P (s ! i)") (auto simp: scan_while.simps [of P s i])
qed

lemma scan_while_le [simp, bounds_intros]: "i \<le> length s \<Longrightarrow> scan_while P s i \<le> length s"
proof (induction P s i rule: scan_while.induct)
  case (1 P s i)
  then show ?case
    by (cases "i < length s \<and> P (s ! i)") (auto simp: scan_while.simps [of P s i])
qed

lemma scan_while_all: "i \<le> k \<Longrightarrow> k < scan_while P s i \<Longrightarrow> P (s ! k)"
proof (induction P s i rule: scan_while.induct)
  case (1 P s i)
  show ?case
  proof (cases "i < length s \<and> P (s ! i)")
    case True
    then have "scan_while P s i = scan_while P s (Suc i)"
      by (simp add: scan_while.simps [of P s i])
    with 1 True show ?thesis
      by (cases "k = i") auto
  next
    case False
    then have "scan_while P s i = i"
      by (subst scan_while.simps) auto
    with 1 show ?thesis by simp
  qed
qed

lemma scan_while_stop: "scan_while P s i < length s \<Longrightarrow> \<not> P (s ! scan_while P s i)"
proof (induction P s i rule: scan_while.induct)
  case (1 P s i)
  then show ?case
    by (cases "i < length s \<and> P (s ! i)") (auto simp: scan_while.simps [of P s i])
qed

text \<open>The loop's result is determined by where the run of \<open>P\<close> characters ends.\<close>

lemma scan_while_eqI:
  "i \<le> j \<Longrightarrow> j \<le> length s \<Longrightarrow> (\<And>k. i \<le> k \<Longrightarrow> k < j \<Longrightarrow> P (s ! k)) \<Longrightarrow>
   j = length s \<or> \<not> P (s ! j) \<Longrightarrow> scan_while P s i = j"
proof (induction P s i rule: scan_while.induct)
  case (1 P s i)
  show ?case
  proof (cases "i < length s \<and> P (s ! i)")
    case True
    then have eq: "scan_while P s i = scan_while P s (Suc i)"
      by (simp add: scan_while.simps [of P s i])
    from True "1.prems" have "i \<noteq> j" by auto
    with "1.prems" have "Suc i \<le> j" by simp
    have "scan_while P s (Suc i) = j"
    proof (rule "1.IH" [OF True \<open>Suc i \<le> j\<close> "1.prems"(2)])
      fix k
      assume "Suc i \<le> k" "k < j"
      then show "P (s ! k)" by (intro "1.prems"(3)) simp_all
    qed (rule "1.prems"(4))
    with eq show ?thesis by simp
  next
    case False
    then have "scan_while P s i = i"
      by (subst scan_while.simps) auto
    moreover have "j = i"
    proof (rule ccontr)
      assume "j \<noteq> i"
      with "1.prems" have "i < j" by simp
      with "1.prems" have "P (s ! i)" "i < length s" by auto
      with False show False by simp
    qed
    ultimately show ?thesis by simp
  qed
qed

lemma scan_while_takeWhile:
  "i \<le> length s \<Longrightarrow> scan_while P s i = i + length (takeWhile P (drop i s))"
proof (induction P s i rule: scan_while.induct)
  case (1 P s i)
  show ?case
  proof (cases "i < length s")
    case True
    then have d: "drop i s = s ! i # drop (Suc i) s"
      by (simp add: Cons_nth_drop_Suc)
    with 1 True show ?thesis
      by (subst scan_while.simps) auto
  next
    case False
    with "1.prems" show ?thesis
      by (subst scan_while.simps) auto
  qed
qed

section \<open>Lists\<close>

text \<open>The characters at positions \<open>a\<close> up to, not including, \<open>b\<close>.\<close>

definition segment :: "'a list \<Rightarrow> nat \<Rightarrow> nat \<Rightarrow> 'a list" where
  "segment s a b = take (b - a) (drop a s)"

lemma length_segment [simp]: "length (segment s a b) = min (b - a) (length s - a)"
  by (simp add: segment_def)

lemma segment_self [simp]: "segment s a a = []"
  by (simp add: segment_def)

lemma segment_0_length [simp]: "segment s 0 (length s) = s"
  by (simp add: segment_def)

lemma nth_segment: "a + i < b \<Longrightarrow> b \<le> length s \<Longrightarrow> segment s a b ! i = s ! (a + i)"
  by (simp add: segment_def)

lemma set_segment_subset: "set (segment s a b) \<subseteq> set s"
  unfolding segment_def by (meson in_set_dropD in_set_takeD subsetI)

lemma slice_append_segment: "a \<le> b \<Longrightarrow> b \<le> c \<Longrightarrow> segment s a b @ segment s b c = segment s a c"
proof -
  assume "a \<le> b" "b \<le> c"
  then have "c - a = (b - a) + (c - b)" and "drop b s = drop (b - a) (drop a s)" by simp_all
  then show ?thesis by (simp add: segment_def take_add)
qed

lemma segment_all_iff:
  "b \<le> length s \<Longrightarrow> (\<forall>c\<in>set (segment s a b). P c) \<longleftrightarrow> (\<forall>k. a \<le> k \<and> k < b \<longrightarrow> P (s ! k))"
proof -
  assume b: "b \<le> length s"
  have "P (s ! k)" if "\<forall>c\<in>set (segment s a b). P c" "a \<le> k" "k < b" for k
  proof -
    from that b have "segment s a b ! (k - a) = s ! k" by (simp add: nth_segment)
    moreover from that b have "k - a < length (segment s a b)" by simp
    ultimately show ?thesis using that nth_mem by metis
  qed
  moreover have "P c" if "\<forall>k. a \<le> k \<and> k < b \<longrightarrow> P (s ! k)" "c \<in> set (segment s a b)" for c
  proof -
    from that obtain i where "i < length (segment s a b)" "c = segment s a b ! i"
      by (metis in_set_conv_nth)
    with that b show ?thesis by (simp add: nth_segment)
  qed
  ultimately show ?thesis by blast
qed

text \<open>A property of all 8-bit values is decided by the 256 of them.\<close>

lemma all_byte_iff: "(\<forall>c::byte. P c) \<longleftrightarrow> (\<forall>n<256. P (word_of_nat n))"
proof
  assume *: "\<forall>n<256. P (word_of_nat n)"
  show "\<forall>c. P c"
  proof
    fix c :: byte
    have "unat c < 256" using unsigned_less [of c] by simp
    with * have "P (word_of_nat (unat c))" by blast
    then show "P c" by simp
  qed
qed simp

section \<open>Signed readings\<close>

lemma u32_sint: "unat (w :: u32) < 2 ^ 31 \<Longrightarrow> sint w = int (unat w)"
proof -
  assume "unat w < 2 ^ 31"
  then have "int (unat w) < int (2 ^ 31)" by (simp only: of_nat_less_iff)
  moreover have "- (2 ^ 31) \<le> uint w" by (rule order_trans [of _ 0]) simp_all
  ultimately show ?thesis by (simp add: sint_uint signed_take_bit_int_eq_self)
qed

lemma u32_sint_of_nat: "n < 2 ^ 31 \<Longrightarrow> sint (of_nat n :: u32) = int n"
proof -
  assume n: "n < 2 ^ 31"
  have "unat (of_nat n :: u32) = n" using n by (simp add: unat_of_nat)
  with n show ?thesis using u32_sint [of "of_nat n"] by simp
qed

end
