(* ===== verification/BackForwardList.thy ===== *)
theory BackForwardList
  imports Prelude
begin

text \<open>
  The session history of a page: src/webkit/WebCore/history/BackForwardList.cpp. A history
  item is its address (\<open>item\<close>); the two fields the list reads and writes through it are kept in
  a store, because the same item may be reached from elsewhere. Calls to the page cache and to
  the loader client are the events the operations emit.
\<close>

type_synonym item = nat

datatype state_object = NullStateObject | StateObject nat

record history_item =
  hi_document :: "nat option"
  hi_stateObject :: state_object

datatype bf_event =
    PageCacheRemove item
  | DidRemoveBackForwardItem item
  | DidAddBackForwardItem "item option"
  | DidChangeBackForwardIndex

record back_forward =
  m_page :: bool
  m_entries :: "item list"
  m_entryHash :: "item set"
  m_current :: u32
  m_capacity :: nat
  m_closed :: bool
  m_enabled :: bool
  bf_items :: "item \<Rightarrow> history_item"
  bf_events :: "bf_event list"

definition DefaultCapacity :: nat where
  "DefaultCapacity = 100"

definition NoCurrentItemIndex :: u32 where
  "NoCurrentItemIndex = 0xFFFFFFFF"

definition BackForwardList_init :: "(item \<Rightarrow> history_item) \<Rightarrow> back_forward" where
  "BackForwardList_init items = \<lparr>m_page = True, m_entries = [], m_entryHash = {}, m_current = NoCurrentItemIndex,
     m_capacity = DefaultCapacity, m_closed = True, m_enabled = True, bf_items = items, bf_events = []\<rparr>"

definition emit :: "bf_event \<Rightarrow> back_forward \<Rightarrow> back_forward" where
  "emit e s = s\<lparr>bf_events := bf_events s @ [e]\<rparr>"

text \<open>\<open>m_entries.size()\<close> as the 32-bit number the code compares indices with.\<close>

definition entries_size :: "back_forward \<Rightarrow> u32" where
  "entries_size s = of_nat (length (m_entries s))"

section \<open>Reading\<close>

definition backItem :: "back_forward \<Rightarrow> item option" where
  "backItem s = (if m_current s \<noteq> 0 \<and> m_current s \<noteq> NoCurrentItemIndex
                 then Some (m_entries s ! unat (m_current s - 1)) else None)"

definition currentItem :: "back_forward \<Rightarrow> item option" where
  "currentItem s = (if m_current s \<noteq> NoCurrentItemIndex
                    then Some (m_entries s ! unat (m_current s)) else None)"

definition forwardItem :: "back_forward \<Rightarrow> item option" where
  "forwardItem s = (if m_entries s \<noteq> [] \<and> m_current s < entries_size s - 1
                    then Some (m_entries s ! unat (m_current s + 1)) else None)"

definition backListWithLimit :: "int \<Rightarrow> back_forward \<Rightarrow> item list" where
  "backListWithLimit limit s =
     (if m_current s \<noteq> NoCurrentItemIndex
      then let first = nat (max (sint (m_current s) - limit) 0)
           in map (\<lambda>i. m_entries s ! i) [first..<unat (m_current s)]
      else [])"

text \<open>\<open>min(m_current + limit, lastEntry)\<close> is unsigned; the loop counts \<open>limit\<close> up to it.\<close>

definition forwardListWithLimit :: "nat \<Rightarrow> back_forward \<Rightarrow> item list" where
  "forwardListWithLimit limit s =
     (if m_entries s = [] then []
      else let lastEntry = entries_size s - 1
           in if m_current s < lastEntry
              then let last = min (m_current s + of_nat limit) lastEntry
                   in map (\<lambda>i. m_entries s ! i) [unat (m_current s + 1)..<Suc (unat last)]
              else [])"

definition backListCount :: "back_forward \<Rightarrow> int" where
  "backListCount s = (if m_current s = NoCurrentItemIndex then 0 else sint (m_current s))"

definition forwardListCount :: "back_forward \<Rightarrow> int" where
  "forwardListCount s = (if m_current s = NoCurrentItemIndex then 0
                         else sint (entries_size s - (m_current s + 1)))"

text \<open>
  The two range checks are signed; \<open>index + m_current\<close> is unsigned. A subscript behind the end
  stops the program (\<open>Vector::operator[]\<close> has no value there): \<open>Inl ()\<close>.
\<close>

definition itemAtIndex :: "int \<Rightarrow> back_forward \<Rightarrow> unit + item option" where
  "itemAtIndex index s =
     (if index < - sint (m_current s) then Inr None
      else if index > forwardListCount s then Inr None
      else let i = unat (word_of_int index + m_current s)
           in if i < length (m_entries s) then Inr (Some (m_entries s ! i)) else Inl ())"

definition containsItem :: "item \<Rightarrow> back_forward \<Rightarrow> bool" where
  "containsItem i s \<longleftrightarrow> i \<in> m_entryHash s"

section \<open>Moving\<close>

definition goBack :: "back_forward \<Rightarrow> back_forward" where
  "goBack s = (if m_current s > 0
               then emit DidChangeBackForwardIndex (s\<lparr>m_current := m_current s - 1\<rparr>) else s)"

definition goForward :: "back_forward \<Rightarrow> back_forward" where
  "goForward s = (if m_current s < entries_size s - 1
                  then emit DidChangeBackForwardIndex (s\<lparr>m_current := m_current s + 1\<rparr>) else s)"

fun index_of :: "'a \<Rightarrow> 'a list \<Rightarrow> nat option" where
  "index_of x [] = None"
| "index_of x (y # ys) = (if y = x then Some 0 else map_option Suc (index_of x ys))"

definition goToItem :: "item option \<Rightarrow> back_forward \<Rightarrow> back_forward" where
  "goToItem item s =
     (case item of
        None \<Rightarrow> s
      | Some x \<Rightarrow>
          (case index_of x (m_entries s) of
             None \<Rightarrow> s
           | Some i \<Rightarrow> emit DidChangeBackForwardIndex (s\<lparr>m_current := of_nat i\<rparr>)))"

section \<open>Changing\<close>

text \<open>The body the three loops over \<open>m_entries.last()\<close> share.\<close>

definition drop_last :: "back_forward \<Rightarrow> back_forward" where
  "drop_last s =
     (let item = last (m_entries s)
      in emit (PageCacheRemove item)
           (s\<lparr>m_entries := butlast (m_entries s), m_entryHash := m_entryHash s - {item}\<rparr>))"

function trim_to :: "nat \<Rightarrow> back_forward \<Rightarrow> back_forward" where
  "trim_to n s = (if n < length (m_entries s) then trim_to n (drop_last s) else s)"
  by pat_completeness auto
termination
  by (relation "measure (\<lambda>(n, s). length (m_entries s))") (auto simp: drop_last_def emit_def Let_def)

declare trim_to.simps [simp del]

definition drop_first :: "back_forward \<Rightarrow> back_forward" where
  "drop_first s =
     (let item = hd (m_entries s);
          s1 = emit (PageCacheRemove item)
                 (s\<lparr>m_entries := tl (m_entries s), m_entryHash := m_entryHash s - {item}\<rparr>)
      in emit (DidRemoveBackForwardItem item) (s1\<lparr>m_current := m_current s - 1\<rparr>))"

definition insert_at :: "nat \<Rightarrow> 'a \<Rightarrow> 'a list \<Rightarrow> 'a list" where
  "insert_at i x xs = take i xs @ x # drop i xs"

definition insertItemAfterCurrent :: "item \<Rightarrow> bool \<Rightarrow> back_forward \<Rightarrow> back_forward" where
  "insertItemAfterCurrent x removeForwardList s =
     (if m_capacity s = 0 \<or> \<not> m_enabled s then s
      else let s1 = (if removeForwardList \<and> m_current s \<noteq> NoCurrentItemIndex
                     then trim_to (unat (m_current s + 1)) s else s);
               s2 = (if length (m_entries s1) = m_capacity s1 \<and> (m_current s1 \<noteq> 0 \<or> m_capacity s1 = 1)
                     then drop_first s1 else s1);
               s3 = s2\<lparr>m_entryHash := insert x (m_entryHash s2),
                       m_entries := insert_at (unat (m_current s2 + 1)) x (m_entries s2),
                       m_current := m_current s2 + 1\<rparr>
           in emit (DidAddBackForwardItem (currentItem s3)) s3)"

definition addItem :: "item \<Rightarrow> back_forward \<Rightarrow> back_forward" where
  "addItem x s = insertItemAfterCurrent x True s"

text \<open>A negative size empties the vector and then reads its last element; sizes are numbers here.\<close>

definition setCapacity :: "nat \<Rightarrow> back_forward \<Rightarrow> back_forward" where
  "setCapacity newSize s =
     (let s1 = trim_to newSize s;
          s2 = (if newSize = 0 then s1\<lparr>m_current := NoCurrentItemIndex\<rparr>
                else if m_current s1 > entries_size s1 - 1
                then emit DidChangeBackForwardIndex (s1\<lparr>m_current := entries_size s1 - 1\<rparr>)
                else s1)
      in s2\<lparr>m_capacity := newSize\<rparr>)"

definition setEnabled :: "bool \<Rightarrow> back_forward \<Rightarrow> back_forward" where
  "setEnabled enabled s =
     (let s1 = s\<lparr>m_enabled := enabled\<rparr>
      in if \<not> enabled then setCapacity (m_capacity s1) (setCapacity 0 s1) else s1)"

definition removeItem :: "item option \<Rightarrow> back_forward \<Rightarrow> back_forward" where
  "removeItem item s =
     (case item of
        None \<Rightarrow> s
      | Some x \<Rightarrow>
          (case index_of x (m_entries s) of
             None \<Rightarrow> s
           | Some i \<Rightarrow>
               (let entries = take i (m_entries s) @ drop (Suc i) (m_entries s);
                    count = length entries;
                    c = m_current s
                in s\<lparr>m_entries := entries, m_entryHash := m_entryHash s - {x},
                     m_current :=
                       (if c = NoCurrentItemIndex \<or> unat c < i then c
                        else if unat c > i then c - 1
                        else if count \<le> unat c
                        then if count \<noteq> 0 then of_nat (count - 1) else NoCurrentItemIndex
                        else c)\<rparr>)))"

definition item_document :: "back_forward \<Rightarrow> item \<Rightarrow> nat option" where
  "item_document s x = hi_document (bf_items s x)"

lemma index_of_None: "index_of x xs = None \<longleftrightarrow> x \<notin> set xs"
  by (induction xs) auto

lemma index_of_Some: "index_of x xs = Some i \<Longrightarrow> i < length xs \<and> xs ! i = x \<and> x \<notin> set (take i xs)"
  by (induction xs arbitrary: i) (auto split: if_splits simp: gr0_conv_Suc)

text \<open>\<open>forwardItem\<close> is always an entry, so every round of the loop of \<open>pushStateItem\<close> removes one.\<close>

lemma unat_u32 [simp]: "n < 2 ^ 32 \<Longrightarrow> unat (of_nat n :: u32) = n"
  by (simp add: unsigned_of_nat take_bit_nat_eq_self)

lemma of_nat_minus_1: "0 < n \<Longrightarrow> (of_nat n - 1 :: u32) = of_nat (n - 1)"
  by (simp add: of_nat_diff)

lemma forwardItem_index:
  assumes "m_entries s \<noteq> []" "m_current s < entries_size s - 1"
  shows "unat (m_current s + 1) < length (m_entries s)" "unat (m_current s + 1) = Suc (unat (m_current s))"
proof -
  let ?n = "length (m_entries s)"
  have step: "unat (m_current s + 1) = Suc (unat (m_current s))"
  proof -
    have "unat (entries_size s - 1) < 2 ^ 32" using unsigned_less [of "entries_size s - 1"] by simp
    then have "unat (m_current s) + 1 < 2 ^ 32" using assms(2) by (simp add: word_less_nat_alt)
    then show ?thesis by (simp add: unat_word_ariths)
  qed
  then show "unat (m_current s + 1) = Suc (unat (m_current s))" .
  show "unat (m_current s + 1) < ?n"
  proof (cases "?n < 2 ^ 32")
    case True
    then have "unat (entries_size s - 1) = ?n - 1"
      using assms(1) by (simp add: entries_size_def of_nat_minus_1 del: of_nat_diff)
    moreover have "unat (m_current s) < unat (entries_size s - 1)" using assms(2) by (simp add: word_less_nat_alt)
    ultimately show ?thesis using step by simp
  next
    case False
    moreover have "unat (m_current s + 1) < 2 ^ 32" using unsigned_less [of "m_current s + 1"] by simp
    ultimately show ?thesis by linarith
  qed
qed

lemma forwardItem_in: "forwardItem s = Some x \<Longrightarrow> x \<in> set (m_entries s)"
  using forwardItem_index by (auto simp: forwardItem_def split: if_splits)

function drop_forward :: "nat option \<Rightarrow> back_forward \<Rightarrow> back_forward" where
  "drop_forward doc s =
     (case forwardItem s of
        None \<Rightarrow> s
      | Some x \<Rightarrow> if item_document s x \<noteq> doc then s else drop_forward doc (removeItem (Some x) s))"
  by pat_completeness auto
termination
proof (relation "measure (\<lambda>(doc, s). length (m_entries s))", goal_cases)
  case (2 doc s x)
  then obtain i where "index_of x (m_entries s) = Some i"
    using forwardItem_in by (cases "index_of x (m_entries s)") (auto simp: index_of_None)
  with index_of_Some [OF this] show ?case by (cases "m_entries s") (simp_all add: removeItem_def Let_def)
qed simp

declare drop_forward.simps [simp del]

text \<open>\<open>None\<close> is the access through \<open>current\<close> when there is no current item, which the code does not look for.\<close>

definition pushStateItem :: "item \<Rightarrow> back_forward \<Rightarrow> back_forward option" where
  "pushStateItem newItem s =
     (let current = currentItem s;
          newItemDocument = item_document s newItem;
          s1 = insertItemAfterCurrent newItem False (drop_forward newItemDocument s)
      in case current of
           Some x \<Rightarrow> Some
             (if item_document s1 x = None
              then s1\<lparr>bf_items := (bf_items s1)(x := \<lparr>hi_document = newItemDocument,
                                                     hi_stateObject = NullStateObject\<rparr>)\<rparr>
              else s1)
         | None \<Rightarrow> None)"

definition close :: "back_forward \<Rightarrow> back_forward" where
  "close s = s\<lparr>bf_events := bf_events s @ map PageCacheRemove (m_entries s),
               m_entries := [], m_entryHash := {}, m_page := False, m_closed := True\<rparr>"

end
