(* ===== verification/BackForwardListFacts.thy ===== *)
theory BackForwardListFacts
  imports BackForwardList
begin

text \<open>
  The invariant of the session history, its view as a zipper (items behind, current item, items
  ahead), and the contract of a session history as a locale the model interprets.
\<close>

section \<open>The invariant\<close>

definition bf_ok :: "back_forward \<Rightarrow> bool" where
  "bf_ok s \<longleftrightarrow> length (m_entries s) < 2 ^ 31 \<and> m_capacity s < 2 ^ 31
     \<and> (m_entries s = [] \<longrightarrow> m_current s = NoCurrentItemIndex)
     \<and> (m_entries s \<noteq> [] \<longrightarrow> unat (m_current s) < length (m_entries s))
     \<and> distinct (m_entries s) \<and> m_entryHash s = set (m_entries s)"

abbreviation cursor :: "back_forward \<Rightarrow> nat" where
  "cursor s \<equiv> unat (m_current s)"

lemma bf_okI [intro?]:
  assumes "length (m_entries s) < 2 ^ 31" "m_capacity s < 2 ^ 31"
    and "m_entries s = [] \<Longrightarrow> m_current s = NoCurrentItemIndex"
    and "m_entries s \<noteq> [] \<Longrightarrow> cursor s < length (m_entries s)"
    and "distinct (m_entries s)" "m_entryHash s = set (m_entries s)"
  shows "bf_ok s"
  using assms by (auto simp: bf_ok_def)

lemma bf_okD:
  assumes "bf_ok s"
  shows "length (m_entries s) < 2 ^ 31" "m_capacity s < 2 ^ 31" "distinct (m_entries s)"
    "m_entryHash s = set (m_entries s)"
    "m_entries s = [] \<Longrightarrow> m_current s = NoCurrentItemIndex"
    "m_entries s \<noteq> [] \<Longrightarrow> cursor s < length (m_entries s)"
  using assms by (auto simp: bf_ok_def)

lemma unat_NoCurrentItemIndex: "unat NoCurrentItemIndex = 0xFFFFFFFF"
  by (simp add: NoCurrentItemIndex_def)

lemma u32_succ: "unat (c :: u32) + 1 < 2 ^ 32 \<Longrightarrow> unat (c + 1) = unat c + 1"
  by (simp add: unat_word_ariths)

lemma u32_pred: "0 < unat (c :: u32) \<Longrightarrow> unat (c - 1) = unat c - 1"
  by (cases "c = 0") (auto simp: unat_minus_one)

lemma nonempty_current:
  assumes "bf_ok s" "m_entries s \<noteq> []"
  shows "m_current s \<noteq> NoCurrentItemIndex" "unat (m_current s + 1) = cursor s + 1"
    "m_current s < entries_size s - 1 \<longleftrightarrow> cursor s + 1 < length (m_entries s)"
proof -
  have c: "cursor s < length (m_entries s)" "length (m_entries s) < 2 ^ 31" using bf_okD [OF assms(1)] assms(2) by auto
  then show "m_current s \<noteq> NoCurrentItemIndex" using unat_NoCurrentItemIndex by auto
  show "unat (m_current s + 1) = cursor s + 1" using c by (intro u32_succ) simp
  have "unat (entries_size s - 1) = length (m_entries s) - 1"
    using c assms(2) by (simp add: entries_size_def of_nat_minus_1 del: of_nat_diff)
  then show "m_current s < entries_size s - 1 \<longleftrightarrow> cursor s + 1 < length (m_entries s)"
    by (auto simp: word_less_nat_alt)
qed

lemma empty_current:
  assumes "bf_ok s" "m_entries s = []"
  shows "m_current s = NoCurrentItemIndex" "m_current s + 1 = 0" "\<not> m_current s < entries_size s - 1"
  using bf_okD [OF assms(1)] assms(2) by (auto simp: NoCurrentItemIndex_def entries_size_def)

section \<open>The zipper\<close>

definition bf_back :: "back_forward \<Rightarrow> item list" where
  "bf_back s = (if m_entries s = [] then [] else rev (take (cursor s) (m_entries s)))"

definition bf_forward :: "back_forward \<Rightarrow> item list" where
  "bf_forward s = (if m_entries s = [] then [] else drop (cursor s + 1) (m_entries s))"

definition bf_now :: "back_forward \<Rightarrow> item list" where
  "bf_now s = (if m_entries s = [] then [] else [m_entries s ! cursor s])"

lemma entries_zipper: "bf_ok s \<Longrightarrow> m_entries s = rev (bf_back s) @ bf_now s @ bf_forward s"
  using bf_okD(6) [of s] by (cases "m_entries s = []") (simp_all add: bf_back_def bf_forward_def bf_now_def id_take_nth_drop [symmetric])

lemma currentItem_now: "bf_ok s \<Longrightarrow> currentItem s = (case bf_now s of [] \<Rightarrow> None | x # _ \<Rightarrow> Some x)"
  by (cases "m_entries s = []") (simp_all add: currentItem_def bf_now_def nonempty_current empty_current)

lemma forwardItem_view: "bf_ok s \<Longrightarrow> forwardItem s = (case bf_forward s of [] \<Rightarrow> None | x # _ \<Rightarrow> Some x)"
  by (cases "m_entries s = []"; cases "cursor s + 1 < length (m_entries s)")
    (simp_all add: forwardItem_def bf_forward_def nonempty_current Cons_nth_drop_Suc [symmetric])

lemma backItem_view: "bf_ok s \<Longrightarrow> backItem s = (case bf_back s of [] \<Rightarrow> None | x # _ \<Rightarrow> Some x)"
proof (cases "m_entries s = []")
  case False
  assume ok: "bf_ok s"
  note c = nonempty_current [OF ok False] bf_okD(6) [OF ok False]
  show ?thesis
  proof (cases "cursor s")
    case 0
    then have "m_current s = 0" by (simp add: unat_eq_0)
    then show ?thesis using False by (simp add: backItem_def bf_back_def)
  next
    case (Suc k)
    then have "m_current s \<noteq> 0" "unat (m_current s - 1) = k" by (auto simp: u32_pred)
    then show ?thesis using False Suc c by (simp add: backItem_def bf_back_def take_Suc_conv_app_nth)
  qed
qed (simp add: backItem_def bf_back_def empty_current)

section \<open>Every operation keeps the invariant\<close>

lemma emit_fields [simp]:
  "m_entries (emit e s) = m_entries s" "m_entryHash (emit e s) = m_entryHash s"
  "m_current (emit e s) = m_current s" "m_capacity (emit e s) = m_capacity s"
  "m_enabled (emit e s) = m_enabled s" "bf_items (emit e s) = bf_items s"
  by (simp_all add: emit_def)

lemma bf_ok_emit [simp]: "bf_ok (emit e s) = bf_ok s"
  by (simp add: bf_ok_def)

lemma trim_to_fields:
  assumes "distinct (m_entries s)" "m_entryHash s = set (m_entries s)"
  shows "m_entries (trim_to n s) = take n (m_entries s)" "m_entryHash (trim_to n s) = set (take n (m_entries s))"
    "m_current (trim_to n s) = m_current s" "m_capacity (trim_to n s) = m_capacity s"
    "m_enabled (trim_to n s) = m_enabled s" "bf_items (trim_to n s) = bf_items s"
proof -
  have "m_entries (trim_to n s) = take n (m_entries s) \<and> m_entryHash (trim_to n s) = set (take n (m_entries s))
    \<and> m_current (trim_to n s) = m_current s \<and> m_capacity (trim_to n s) = m_capacity s
    \<and> m_enabled (trim_to n s) = m_enabled s \<and> bf_items (trim_to n s) = bf_items s"
    using assms
  proof (induction n s rule: trim_to.induct)
    case (1 n s)
    show ?case
    proof (cases "n < length (m_entries s)")
      case True
      then obtain xs x where e: "m_entries s = xs @ [x]" by (cases "m_entries s" rule: rev_cases) auto
      then have d: "m_entries (drop_last s) = xs" "m_entryHash (drop_last s) = set xs"
          "m_current (drop_last s) = m_current s" "m_capacity (drop_last s) = m_capacity s"
          "m_enabled (drop_last s) = m_enabled s" "bf_items (drop_last s) = bf_items s"
        using "1.prems" by (auto simp: drop_last_def)
      have "trim_to n s = trim_to n (drop_last s)" using True by (subst trim_to.simps) simp
      then show ?thesis using "1.IH" [OF True] d "1.prems" e True by simp
    next
      case False
      then have "trim_to n s = s" by (subst trim_to.simps) simp
      with False "1.prems" show ?thesis by simp
    qed
  qed
  then show "m_entries (trim_to n s) = take n (m_entries s)" "m_entryHash (trim_to n s) = set (take n (m_entries s))"
    "m_current (trim_to n s) = m_current s" "m_capacity (trim_to n s) = m_capacity s"
    "m_enabled (trim_to n s) = m_enabled s" "bf_items (trim_to n s) = bf_items s" by blast+
qed

lemma bf_ok_move:
  assumes "bf_ok s" "m_entries s \<noteq> []" "unat c < length (m_entries s)"
  shows "bf_ok (s\<lparr>m_current := c\<rparr>)"
  using assms by (simp add: bf_ok_def)

lemma goBack_ok: "bf_ok s \<Longrightarrow> m_entries s \<noteq> [] \<Longrightarrow> bf_ok (goBack s)"
proof -
  assume ok: "bf_ok s" and ne: "m_entries s \<noteq> []"
  show ?thesis
  proof (cases "m_current s > 0")
    case True
    then have "0 < cursor s" by (simp add: word_less_nat_alt)
    then have "bf_ok (s\<lparr>m_current := m_current s - 1\<rparr>)"
      using bf_okD(6) [OF ok ne] by (intro bf_ok_move [OF ok ne]) (simp add: u32_pred)
    with True show ?thesis by (simp add: goBack_def)
  qed (use ok in \<open>simp add: goBack_def\<close>)
qed

lemma goForward_ok: "bf_ok s \<Longrightarrow> bf_ok (goForward s)"
proof (cases "m_entries s \<noteq> [] \<and> m_current s < entries_size s - 1")
  case True
  assume ok: "bf_ok s"
  with True have "bf_ok (s\<lparr>m_current := m_current s + 1\<rparr>)"
    using nonempty_current(2,3) [OF ok] by (intro bf_ok_move [OF ok]) auto
  with True show ?thesis by (simp add: goForward_def)
next
  case False
  assume ok: "bf_ok s"
  with False show ?thesis using empty_current(3) [OF ok] by (simp only: goForward_def) auto
qed

lemma goToItem_ok: "bf_ok s \<Longrightarrow> bf_ok (goToItem item s)"
proof (cases "item")
  case (Some x)
  assume ok: "bf_ok s"
  show ?thesis
  proof (cases "index_of x (m_entries s)")
    case (Some i)
    then have i: "i < length (m_entries s)" using index_of_Some by fast
    then have "goToItem item s = emit DidChangeBackForwardIndex (s\<lparr>m_current := of_nat i\<rparr>)"
      using Some \<open>item = Some x\<close> by (simp add: goToItem_def)
    moreover have "bf_ok (s\<lparr>m_current := of_nat i\<rparr>)"
      using ok i by (auto simp: bf_ok_def)
    ultimately show ?thesis by simp
  qed (use ok Some in \<open>simp add: goToItem_def\<close>)
qed (simp add: goToItem_def)

lemma setCapacity_fields:
  assumes "bf_ok s"
  shows "m_entries (setCapacity n s) = take n (m_entries s)" "m_capacity (setCapacity n s) = n"
    "m_entryHash (setCapacity n s) = set (take n (m_entries s))" "m_enabled (setCapacity n s) = m_enabled s"
    "m_entries (setCapacity n s) \<noteq> [] \<Longrightarrow> cursor (setCapacity n s) = min (cursor s) (length (take n (m_entries s)) - 1)"
    "m_entries (setCapacity n s) = [] \<Longrightarrow> m_current (setCapacity n s) = NoCurrentItemIndex"
proof -
  note t = trim_to_fields [OF bf_okD(3,4) [OF assms]]
  show entries: "m_entries (setCapacity n s) = take n (m_entries s)" and "m_capacity (setCapacity n s) = n"
    "m_entryHash (setCapacity n s) = set (take n (m_entries s))" "m_enabled (setCapacity n s) = m_enabled s"
    by (simp_all add: setCapacity_def Let_def t)
  have size: "entries_size (trim_to n s) = of_nat (length (take n (m_entries s)))" by (simp add: entries_size_def t)
  show "m_current (setCapacity n s) = NoCurrentItemIndex" if e: "m_entries (setCapacity n s) = []"
  proof -
    have "n = 0 \<or> m_entries s = []" using e unfolding entries by simp
    moreover have "m_entries s = [] \<Longrightarrow> m_current s = 0xFFFFFFFF"
      using empty_current [OF assms] by (simp add: NoCurrentItemIndex_def)
    ultimately show ?thesis by (auto simp: setCapacity_def Let_def t size NoCurrentItemIndex_def)
  qed
  show "cursor (setCapacity n s) = min (cursor s) (length (take n (m_entries s)) - 1)"
    if e: "m_entries (setCapacity n s) \<noteq> []"
  proof -
    let ?m = "length (take n (m_entries s))"
    have m: "0 < ?m" "n \<noteq> 0" "?m < 2 ^ 31" using e bf_okD(1) [OF assms] unfolding entries by auto
    have u: "unat (entries_size (trim_to n s) - 1) = ?m - 1"
      unfolding size using m(1,3) by (subst of_nat_minus_1) (simp_all del: length_take of_nat_diff)
    show ?thesis
    proof (cases "m_current s > entries_size (trim_to n s) - 1")
      case True
      then show ?thesis using m(2) u by (auto simp: setCapacity_def Let_def t word_less_nat_alt min_def)
    next
      case False
      then have "cursor s \<le> ?m - 1" using u by (simp add: word_less_nat_alt)
      then show ?thesis using False m(2) by (simp add: setCapacity_def Let_def t)
    qed
  qed
qed

lemma setCapacity_ok:
  assumes "bf_ok s" "n < 2 ^ 31"
  shows "bf_ok (setCapacity n s)"
proof
  note f = setCapacity_fields [OF assms(1), of n]
  show "cursor (setCapacity n s) < length (m_entries (setCapacity n s))" if "m_entries (setCapacity n s) \<noteq> []"
  proof -
    have "0 < length (take n (m_entries s))" using that unfolding f(1) by (rule iffD2 [OF length_greater_0_conv])
    then show ?thesis unfolding f(5) [OF that] unfolding f(1) by (intro min.strict_coboundedI2 diff_less zero_less_one)
  qed
qed (use setCapacity_fields [OF assms(1), of n] bf_okD [OF assms(1)] assms(2) in auto)

lemma setEnabled_ok: "bf_ok s \<Longrightarrow> bf_ok (setEnabled b s)"
proof -
  assume ok: "bf_ok s"
  then have "bf_ok (s\<lparr>m_enabled := b\<rparr>)" by (simp add: bf_ok_def)
  moreover from this have "bf_ok (setCapacity 0 (s\<lparr>m_enabled := b\<rparr>))" by (intro setCapacity_ok) simp_all
  ultimately show ?thesis using bf_okD(2) [OF ok]
    by (auto simp: setEnabled_def Let_def intro: setCapacity_ok)
qed

section \<open>Inserting\<close>

text \<open>The entries before the insertion: the forward list tossed, then the first entry if the list is full.\<close>

definition kept_entries :: "bool \<Rightarrow> back_forward \<Rightarrow> item list" where
  "kept_entries removeForwardList s =
     (if removeForwardList \<and> m_entries s \<noteq> [] then take (cursor s + 1) (m_entries s) else m_entries s)"

definition full_list :: "bool \<Rightarrow> back_forward \<Rightarrow> bool" where
  "full_list removeForwardList s \<longleftrightarrow>
     length (kept_entries removeForwardList s) = m_capacity s \<and> (m_current s \<noteq> 0 \<or> m_capacity s = 1)"

lemma insert_at_fields:
  assumes "bf_ok s" "m_capacity s \<noteq> 0" "m_enabled s"
  shows "m_entries (insertItemAfterCurrent x rm s) =
           (let es = kept_entries rm s; c = (if m_entries s = [] then 0 else cursor s + 1)
            in if full_list rm s then insert_at (c - 1) x (tl es) else insert_at c x es)"
    and "unat (m_current (insertItemAfterCurrent x rm s)) =
           (if m_entries s = [] then 0 else if full_list rm s then cursor s else cursor s + 1)"
    and "m_entryHash (insertItemAfterCurrent x rm s) =
           insert x (if full_list rm s then set (kept_entries rm s) - {hd (kept_entries rm s)} else set (kept_entries rm s))"
    and "m_capacity (insertItemAfterCurrent x rm s) = m_capacity s"
    and "m_enabled (insertItemAfterCurrent x rm s) = m_enabled s"
    and "bf_items (insertItemAfterCurrent x rm s) = bf_items s"
proof -
  define s1 where "s1 = (if rm \<and> m_current s \<noteq> NoCurrentItemIndex then trim_to (unat (m_current s + 1)) s else s)"
  note d = bf_okD [OF assms(1)]
  have s1: "m_entries s1 = kept_entries rm s" "m_entryHash s1 = set (kept_entries rm s)" "m_current s1 = m_current s"
    "m_capacity s1 = m_capacity s" "m_enabled s1 = m_enabled s" "bf_items s1 = bf_items s"
    using nonempty_current(1,2) [OF assms(1)] empty_current(1) [OF assms(1)] d(3,4) trim_to_fields [OF d(3,4)]
    unfolding s1_def kept_entries_def by (cases "m_entries s = []"; cases rm; simp)+
  define s2 where "s2 = (if full_list rm s then drop_first s1 else s1)"
  have s2: "m_entries s2 = (if full_list rm s then tl (kept_entries rm s) else kept_entries rm s)"
      "m_entryHash s2 = (if full_list rm s then set (kept_entries rm s) - {hd (kept_entries rm s)} else set (kept_entries rm s))"
      "m_current s2 = (if full_list rm s then m_current s - 1 else m_current s)"
      "m_capacity s2 = m_capacity s" "m_enabled s2 = m_enabled s" "bf_items s2 = bf_items s"
    by (simp_all add: s2_def drop_first_def s1 Let_def)
  define s3 where "s3 = s2\<lparr>m_entryHash := insert x (m_entryHash s2),
      m_entries := insert_at (unat (m_current s2 + 1)) x (m_entries s2), m_current := m_current s2 + 1\<rparr>"
  have eq: "insertItemAfterCurrent x rm s = emit (DidAddBackForwardItem (currentItem s3)) s3"
    using assms(2,3) s1 by (simp add: insertItemAfterCurrent_def s1_def [symmetric] s2_def s3_def full_list_def Let_def)
  have full: "full_list rm s \<Longrightarrow> m_entries s \<noteq> []"
    using assms(2) by (auto simp: full_list_def kept_entries_def)
  have c: "unat (m_current s2 + 1) = (if m_entries s = [] then 0 else if full_list rm s then cursor s else cursor s + 1)"
    using nonempty_current(2) [OF assms(1)] empty_current(2) [OF assms(1)] full by (auto simp: s2(3))
  show "m_entries (insertItemAfterCurrent x rm s) =
           (let es = kept_entries rm s; c = (if m_entries s = [] then 0 else cursor s + 1)
            in if full_list rm s then insert_at (c - 1) x (tl es) else insert_at c x es)"
    using full c by (cases "full_list rm s"; cases "m_entries s = []") (simp_all add: eq s3_def s2(1) Let_def)
  show "unat (m_current (insertItemAfterCurrent x rm s)) =
           (if m_entries s = [] then 0 else if full_list rm s then cursor s else cursor s + 1)"
    "m_entryHash (insertItemAfterCurrent x rm s) =
           insert x (if full_list rm s then set (kept_entries rm s) - {hd (kept_entries rm s)} else set (kept_entries rm s))"
    "m_capacity (insertItemAfterCurrent x rm s) = m_capacity s"
    "m_enabled (insertItemAfterCurrent x rm s) = m_enabled s"
    "bf_items (insertItemAfterCurrent x rm s) = bf_items s"
    using c by (simp_all add: eq s3_def s2)
qed

lemma kept_entries_bounds:
  assumes "bf_ok s"
  shows "distinct (kept_entries rm s)" "set (kept_entries rm s) \<subseteq> set (m_entries s)"
    "kept_entries rm s = [] \<longleftrightarrow> m_entries s = []" "m_entries s \<noteq> [] \<Longrightarrow> cursor s < length (kept_entries rm s)"
    "length (kept_entries rm s) \<le> length (m_entries s)"
  using bf_okD [OF assms] by (auto simp: kept_entries_def dest: in_set_takeD)

lemma set_insert_at: "set (insert_at i x xs) = insert x (set xs)"
  unfolding insert_at_def by (metis Un_insert_right append_take_drop_id list.simps(15) set_append)

lemma length_insert_at [simp]: "length (insert_at i x xs) = Suc (length xs)"
  by (simp add: insert_at_def)

lemma distinct_insert_at: "x \<notin> set xs \<Longrightarrow> distinct xs \<Longrightarrow> distinct (insert_at i x xs)"
proof -
  assume "x \<notin> set xs" "distinct xs"
  then have "distinct (take i xs @ drop i xs)" "x \<notin> set (take i xs @ drop i xs)" by simp_all
  then show ?thesis by (simp only: insert_at_def distinct_append distinct.simps set_append list.set) auto
qed

lemma insertItemAfterCurrent_ok:
  assumes ok: "bf_ok s" and x: "x \<notin> set (m_entries s)" and len: "length (m_entries s) + 1 < 2 ^ 31"
  shows "bf_ok (insertItemAfterCurrent x rm s)"
proof (cases "m_capacity s \<noteq> 0 \<and> m_enabled s")
  case True
  note f = insert_at_fields [OF ok, of x rm] and k = kept_entries_bounds [OF ok, of rm] and d = bf_okD [OF ok]
  let ?s = "insertItemAfterCurrent x rm s" and ?k = "kept_entries rm s"
  define l where "l = (if full_list rm s then tl ?k else ?k)"
  define i where "i = (if m_entries s = [] then 0 else if full_list rm s then cursor s else cursor s + 1)"
  have full: "full_list rm s \<Longrightarrow> m_entries s \<noteq> []" using True k(3) by (auto simp: full_list_def)
  then have e: "m_entries ?s = insert_at i x l" using f(1) True by (simp add: Let_def l_def i_def)
  have l: "set l \<subseteq> set ?k" "distinct l" "length l \<le> length (m_entries s)" "i \<le> length l"
    using k full by (auto simp: l_def i_def distinct_tl dest: list.set_sel(2) [OF _ ] intro: Suc_leI split: if_splits
        simp: le_diff_conv)
  have h: "set l = (if full_list rm s then set ?k - {hd ?k} else set ?k)"
    using k(1,3) full by (cases ?k) (auto simp: l_def)
  show ?thesis
  proof
    show "m_entryHash ?s = set (m_entries ?s)" using f(3) True by (simp add: e set_insert_at h)
    show "distinct (m_entries ?s)" unfolding e using l k(2) x by (intro distinct_insert_at) auto
    show "cursor ?s < length (m_entries ?s)" using f(2) True l(4) by (simp add: e i_def)
    show "length (m_entries ?s) < 2 ^ 31" using l(3) len by (simp add: e)
    show "m_capacity ?s < 2 ^ 31" using f(4) True d(2) by simp
    show "m_entries ?s = [] \<Longrightarrow> m_current ?s = NoCurrentItemIndex" by (simp add: e insert_at_def)
  qed
qed (use ok in \<open>auto simp: insertItemAfterCurrent_def\<close>)

section \<open>Removing and pushing\<close>

lemma index_of_distinct:
  assumes "index_of x xs = Some i" "distinct xs"
  shows "set (take i xs @ drop (Suc i) xs) = set xs - {x}" "distinct (take i xs @ drop (Suc i) xs)"
proof -
  have i: "i < length xs" "xs ! i = x" using index_of_Some [OF assms(1)] by auto
  have split: "xs = take i xs @ x # drop (Suc i) xs" using id_take_nth_drop [OF i(1)] i(2) by simp
  then have "distinct (take i xs @ x # drop (Suc i) xs)" using assms(2) by simp
  then show "distinct (take i xs @ drop (Suc i) xs)" by simp
  have "set xs = insert x (set (take i xs @ drop (Suc i) xs))" by (subst split) simp
  moreover have "x \<notin> set (take i xs @ drop (Suc i) xs)" using \<open>distinct (take i xs @ x # drop (Suc i) xs)\<close> by simp
  ultimately show "set (take i xs @ drop (Suc i) xs) = set xs - {x}" by blast
qed

lemma index_of_append: "x \<notin> set xs \<Longrightarrow> index_of x (xs @ x # ys) = Some (length xs)"
  by (induction xs) auto

lemma removeItem_ok: "bf_ok s \<Longrightarrow> bf_ok (removeItem item s)"
proof (cases item)
  case (Some x)
  assume ok: "bf_ok s"
  note d = bf_okD [OF ok]
  show ?thesis
  proof (cases "index_of x (m_entries s)")
    case (Some i)
    then have i: "i < length (m_entries s)" using index_of_Some by fast
    then have ne: "m_entries s \<noteq> []" by auto
    let ?s = "removeItem item s" and ?e = "take i (m_entries s) @ drop (Suc i) (m_entries s)"
    define n where "n = length ?e"
    have n: "n = length (m_entries s) - 1" "?e = [] \<longleftrightarrow> n = 0"
      using i by (simp add: n_def) (simp only: n_def length_0_conv)
    have f: "m_entries ?s = ?e" "m_entryHash ?s = m_entryHash s - {x}" "m_capacity ?s = m_capacity s"
      "m_current ?s = (if cursor s < i then m_current s else if cursor s > i then m_current s - 1
         else if n \<le> cursor s then if n \<noteq> 0 then of_nat (n - 1) else NoCurrentItemIndex
         else m_current s)"
      using Some \<open>item = Some x\<close> nonempty_current(1) [OF ok ne] by (simp_all add: removeItem_def Let_def n_def)
    have "cursor ?s < n" if "n \<noteq> 0"
    proof -
      have u: "unat (of_nat (n - 1) :: u32) = n - 1" using d(1) n(1) by (intro unat_u32) simp
      consider "cursor s < i" | "cursor s > i" | "cursor s = i" "n \<le> cursor s" | "cursor s = i" "cursor s < n"
        by linarith
      then show ?thesis
      proof cases
        case 2
        then show ?thesis using d(6) [OF ne] n(1) by (simp add: f(4) u32_pred)
      next
        case 3
        then show ?thesis using that u by (simp add: f(4) del: of_nat_diff)
      qed (use i n(1) in \<open>simp_all add: f(4)\<close>)
    qed
    moreover have "m_current ?s = NoCurrentItemIndex" if "?e = []"
    proof -
      have "n = 0" "length (m_entries s) = 1" using that n i by auto
      then have "cursor s = 0" "i = 0" using d(6) [OF ne] i by auto
      then show ?thesis using \<open>n = 0\<close> by (simp add: f(4))
    qed
    ultimately show ?thesis
      using d index_of_distinct [OF Some d(3)] n by (intro bf_okI) (simp_all only: f n_def [symmetric], auto)
  qed (use ok Some in \<open>simp add: removeItem_def\<close>)
qed (simp add: removeItem_def)

text \<open>The loop of \<open>pushStateItem\<close> drops the forward items up to the first of another document.\<close>

lemma removeItem_next:
  assumes ok: "bf_ok s" and f: "bf_forward s = x # ys"
  shows "m_entries (removeItem (Some x) s) = rev (bf_back s) @ bf_now s @ ys"
    "m_current (removeItem (Some x) s) = m_current s" "m_capacity (removeItem (Some x) s) = m_capacity s"
    "bf_items (removeItem (Some x) s) = bf_items s" "m_enabled (removeItem (Some x) s) = m_enabled s"
    "bf_forward (removeItem (Some x) s) = ys" "bf_back (removeItem (Some x) s) = bf_back s"
    "bf_now (removeItem (Some x) s) = bf_now s"
proof -
  have ne: "m_entries s \<noteq> []" using f by (auto simp: bf_forward_def)
  note d = bf_okD [OF ok] and z = entries_zipper [OF ok]
  have len: "length (rev (bf_back s) @ bf_now s) = cursor s + 1" using ne d(6) by (simp add: bf_back_def bf_now_def)
  have split: "m_entries s = (rev (bf_back s) @ bf_now s) @ x # ys" using z f by simp
  then have x: "x \<notin> set (rev (bf_back s) @ bf_now s)" using d(3) by (metis disjoint_iff distinct_append list.set_intros(1))
  from index_of_append [OF x, of ys]
  have i: "index_of x (m_entries s) = Some (cursor s + 1)" using split len by simp
  show e: "m_entries (removeItem (Some x) s) = rev (bf_back s) @ bf_now s @ ys"
    using split len i by (simp add: removeItem_def Let_def)
  show c: "m_current (removeItem (Some x) s) = m_current s" "m_capacity (removeItem (Some x) s) = m_capacity s"
    "bf_items (removeItem (Some x) s) = bf_items s" "m_enabled (removeItem (Some x) s) = m_enabled s"
    using i by (simp_all add: removeItem_def Let_def)
  have b: "length (rev (bf_back s)) = cursor s" "bf_now s = [m_entries s ! cursor s]"
    using ne d(6) by (simp_all add: bf_back_def bf_now_def)
  show "bf_forward (removeItem (Some x) s) = ys"
    using len by (simp add: bf_forward_def e c)
  show "bf_back (removeItem (Some x) s) = bf_back s" "bf_now (removeItem (Some x) s) = bf_now s"
    using b ne by (simp_all add: bf_back_def [of "removeItem (Some x) s"] bf_now_def [of "removeItem (Some x) s"] e c nth_append)
qed

lemma drop_forward_spec:
  assumes "bf_ok s"
  shows "bf_ok (drop_forward doc s) \<and> m_current (drop_forward doc s) = m_current s
     \<and> m_entries (drop_forward doc s) =
         rev (bf_back s) @ bf_now s @ dropWhile (\<lambda>x. item_document s x = doc) (bf_forward s)
     \<and> m_capacity (drop_forward doc s) = m_capacity s \<and> m_enabled (drop_forward doc s) = m_enabled s
     \<and> bf_items (drop_forward doc s) = bf_items s"
  using assms
proof (induction doc s rule: drop_forward.induct)
  case (1 doc s)
  show ?case
  proof (cases "bf_forward s")
    case Nil
    then have "drop_forward doc s = s" by (subst drop_forward.simps) (simp add: forwardItem_view [OF "1.prems"])
    then show ?thesis using entries_zipper [OF "1.prems"] Nil "1.prems" by simp
  next
    case (Cons x ys)
    then have fwd: "forwardItem s = Some x" by (simp add: forwardItem_view [OF "1.prems"])
    show ?thesis
    proof (cases "item_document s x = doc")
      case True
      then have step: "drop_forward doc s = drop_forward doc (removeItem (Some x) s)"
        by (subst drop_forward.simps) (simp add: fwd)
      note r = removeItem_next [OF "1.prems" Cons]
      have docs: "item_document (removeItem (Some x) s) = item_document s"
        by (rule ext) (simp add: item_document_def r)
      have "\<not> item_document s x \<noteq> doc" using True by simp
      from "1.IH" [OF fwd this removeItem_ok [OF "1.prems"]] show ?thesis
        unfolding step using Cons True by (simp add: r docs)
    next
      case False
      then have "drop_forward doc s = s" by (subst drop_forward.simps) (simp add: fwd)
      then show ?thesis using entries_zipper [OF "1.prems"] Cons False "1.prems" by simp
    qed
  qed
qed

lemma bf_ok_items [simp]: "bf_ok (s\<lparr>bf_items := f\<rparr>) = bf_ok s"
  by (simp add: bf_ok_def)

lemma drop_forward_entries:
  assumes "bf_ok s"
  shows "set (m_entries (drop_forward doc s)) \<subseteq> set (m_entries s)"
    "length (m_entries (drop_forward doc s)) \<le> length (m_entries s)"
  using drop_forward_spec [OF assms, of doc] entries_zipper [OF assms]
  by (auto dest: set_dropWhileD simp: length_dropWhile_le)

lemma pushStateItem_ok:
  assumes "bf_ok s" "x \<notin> set (m_entries s)" "length (m_entries s) + 1 < 2 ^ 31" "pushStateItem x s = Some t"
  shows "bf_ok t"
proof -
  let ?d = "drop_forward (item_document s x) s"
  have "bf_ok ?d" "x \<notin> set (m_entries ?d)" "length (m_entries ?d) + 1 < 2 ^ 31"
    using drop_forward_spec [OF assms(1)] drop_forward_entries [OF assms(1), of "item_document s x"] assms(2,3) by auto
  then have "bf_ok (insertItemAfterCurrent x False ?d)" by (rule insertItemAfterCurrent_ok)
  then show ?thesis using assms(4) by (auto simp: pushStateItem_def Let_def split: option.splits if_splits)
qed

section \<open>Histories as sequences of operations\<close>

datatype bf_op =
    AddItem item | GoBack | GoForward | GoToItem "item option" | SetCapacity nat | SetEnabled bool
  | RemoveItem "item option" | PushStateItem item

fun bf_apply :: "bf_op \<Rightarrow> back_forward \<Rightarrow> back_forward" where
  "bf_apply (AddItem x) s = addItem x s"
| "bf_apply GoBack s = goBack s"
| "bf_apply GoForward s = goForward s"
| "bf_apply (GoToItem x) s = goToItem x s"
| "bf_apply (SetCapacity n) s = setCapacity n s"
| "bf_apply (SetEnabled b) s = setEnabled b s"
| "bf_apply (RemoveItem x) s = removeItem x s"
| "bf_apply (PushStateItem x) s = (case pushStateItem x s of Some s' \<Rightarrow> s' | None \<Rightarrow> s)"

text \<open>
  What the callers guarantee: an added item is a new one, going back is offered only when there
  is a current item (the assertion of \<open>goBack\<close>), and sizes fit an \<open>int\<close>.
\<close>

fun bf_allowed :: "bf_op \<Rightarrow> back_forward \<Rightarrow> bool" where
  "bf_allowed (AddItem x) s = (x \<notin> set (m_entries s) \<and> length (m_entries s) + 1 < 2 ^ 31)"
| "bf_allowed (PushStateItem x) s =
     (m_entries s \<noteq> [] \<and> x \<notin> set (m_entries s) \<and> length (m_entries s) + 1 < 2 ^ 31)"
| "bf_allowed GoBack s = (m_entries s \<noteq> [])"
| "bf_allowed (SetCapacity n) s = (n < 2 ^ 31)"
| "bf_allowed _ s = True"

inductive bf_reachable :: "(item \<Rightarrow> history_item) \<Rightarrow> back_forward \<Rightarrow> bool" for items where
  bf_init: "bf_reachable items (BackForwardList_init items)"
| bf_step: "bf_reachable items s \<Longrightarrow> bf_allowed operation s \<Longrightarrow> bf_reachable items (bf_apply operation s)"

inductive_cases bf_reachableE: "bf_reachable items s"

lemmas bf_ok_intros = goBack_ok goForward_ok goToItem_ok setCapacity_ok setEnabled_ok removeItem_ok
  insertItemAfterCurrent_ok pushStateItem_ok

lemma bf_ok_init: "bf_ok (BackForwardList_init items)"
  by (simp add: bf_ok_def BackForwardList_init_def DefaultCapacity_def)

lemma bf_apply_ok: "bf_ok s \<Longrightarrow> bf_allowed operation s \<Longrightarrow> bf_ok (bf_apply operation s)"
  by (cases operation) (auto simp add: bf_ok_intros addItem_def split: option.split)

lemma bf_reachable_ok: "bf_reachable items s \<Longrightarrow> bf_ok s"
  by (induction rule: bf_reachable.induct) (simp_all add: bf_ok_init bf_apply_ok)

section \<open>The contract of a session history\<close>

text \<open>
  What the user of the browser sees: the items behind the current one (nearest first), the
  current one, the items ahead.
\<close>

locale session_history =
  fixes behind :: "'s \<Rightarrow> 'i list" and now :: "'s \<Rightarrow> 'i list" and ahead :: "'s \<Rightarrow> 'i list"
    and capacity :: "'s \<Rightarrow> nat" and good :: "'s \<Rightarrow> bool"
    and visit :: "'i \<Rightarrow> 's \<Rightarrow> 's" and go_back :: "'s \<Rightarrow> 's" and go_forward :: "'s \<Rightarrow> 's"
  assumes visit_view: "good s \<Longrightarrow> x \<notin> set (behind s @ now s @ ahead s) \<Longrightarrow>
      now (visit x s) = [x] \<and> ahead (visit x s) = []
      \<and> behind (visit x s) = take (capacity s - 1) (now s @ behind s)"
    and visit_good: "good s \<Longrightarrow> x \<notin> set (behind s @ now s @ ahead s) \<Longrightarrow> good (visit x s)"
    and visit_capacity: "capacity (visit x s) = capacity s"
    and capacity_pos: "good s \<Longrightarrow> 0 < capacity s"
    and back_view: "good s \<Longrightarrow> behind s = b # bs \<Longrightarrow>
      now (go_back s) = [b] \<and> behind (go_back s) = bs \<and> ahead (go_back s) = now s @ ahead s"
    and back_good: "good s \<Longrightarrow> behind s = b # bs \<Longrightarrow> good (go_back s)"
    and forward_view: "good s \<Longrightarrow> ahead s = f # fs \<Longrightarrow>
      now (go_forward s) = [f] \<and> ahead (go_forward s) = fs \<and> behind (go_forward s) = now s @ behind s"
begin

text \<open>Going back and forward again restores what is seen.\<close>

lemma back_forward_view:
  assumes "good s" "behind s = b # bs" "now s = [c]"
  shows "now (go_forward (go_back s)) = now s" "behind (go_forward (go_back s)) = behind s"
    "ahead (go_forward (go_back s)) = ahead s"
proof -
  have b: "now (go_back s) = [b]" "behind (go_back s) = bs" "ahead (go_back s) = c # ahead s"
    using back_view [OF assms(1,2)] assms(3) by auto
  have "good (go_back s)" using back_good [OF assms(1,2)] .
  from forward_view [OF this b(3)] b assms
  show "now (go_forward (go_back s)) = now s" "behind (go_forward (go_back s)) = behind s"
    "ahead (go_forward (go_back s)) = ahead s" by auto
qed

text \<open>After a sequence of visits the history holds the last items visited, nearest first.\<close>

lemma visits_view:
  assumes "good s" "ahead s = []" "distinct xs" "set xs \<inter> set (behind s @ now s) = {}"
    "length (now s @ behind s) \<le> capacity s"
  shows "good (fold visit xs s) \<and> ahead (fold visit xs s) = [] \<and> capacity (fold visit xs s) = capacity s
    \<and> now (fold visit xs s) @ behind (fold visit xs s) = take (capacity s) (rev xs @ now s @ behind s)"
  using assms
proof (induction xs arbitrary: s)
  case (Cons x xs)
  let ?t = "visit x s"
  have fresh: "x \<notin> set (behind s @ now s @ ahead s)" using Cons.prems(2,4) by auto
  note v = visit_view [OF Cons.prems(1) fresh] and c = visit_capacity [of x s]
  have "set xs \<inter> set (behind ?t @ now ?t) = {}"
    using Cons.prems(3,4) v by (auto dest: in_set_takeD)
  moreover have pos: "0 < capacity s" by (rule capacity_pos [OF Cons.prems(1)])
  then have seen: "now ?t @ behind ?t = take (capacity s) (x # now s @ behind s)"
    using v by (cases "capacity s") auto
  ultimately have ih: "good (fold visit xs ?t) \<and> ahead (fold visit xs ?t) = [] \<and> capacity (fold visit xs ?t) = capacity ?t
    \<and> now (fold visit xs ?t) @ behind (fold visit xs ?t) = take (capacity ?t) (rev xs @ now ?t @ behind ?t)"
    using Cons.prems(3) v visit_good [OF Cons.prems(1) fresh] c by (intro Cons.IH) auto
  have "take (capacity s) (rev xs @ take (capacity s) (x # now s @ behind s))
      = take (capacity s) (rev xs @ x # now s @ behind s)"
    by (simp only: take_append take_take) (simp add: min_def)
  then show ?case using ih c by (simp add: seen)
qed simp

end

section \<open>The model meets the contract\<close>

definition bf_good :: "back_forward \<Rightarrow> bool" where
  "bf_good s \<longleftrightarrow> bf_ok s \<and> m_enabled s \<and> 0 < m_capacity s \<and> m_capacity s + 1 < 2 ^ 31
     \<and> length (m_entries s) \<le> m_capacity s"

lemma zipper_set: "bf_ok s \<Longrightarrow> set (bf_back s @ bf_now s @ bf_forward s) = set (m_entries s)"
  by (subst entries_zipper) auto

lemma addItem_view:
  assumes "bf_good s"
  shows "bf_now (addItem x s) = [x]" "bf_forward (addItem x s) = []"
    "bf_back (addItem x s) = take (m_capacity s - 1) (bf_now s @ bf_back s)"
    "m_capacity (addItem x s) = m_capacity s" "m_enabled (addItem x s)"
    "length (m_entries (addItem x s)) \<le> m_capacity s"
proof -
  have ok: "bf_ok s" "m_capacity s \<noteq> 0" "m_enabled s" and len: "length (m_entries s) \<le> m_capacity s"
    using assms by (auto simp: bf_good_def)
  note f = insert_at_fields [OF ok, of x True]
  show "m_capacity (addItem x s) = m_capacity s" "m_enabled (addItem x s)" using f(4,5) ok(3) by (simp_all add: addItem_def)
  consider (empty) "m_entries s = []" | (room) "m_entries s \<noteq> []" "\<not> full_list True s" | (full) "m_entries s \<noteq> []" "full_list True s"
    by blast
  then have "bf_now (addItem x s) = [x] \<and> bf_forward (addItem x s) = []
    \<and> bf_back (addItem x s) = take (m_capacity s - 1) (bf_now s @ bf_back s)
    \<and> length (m_entries (addItem x s)) \<le> m_capacity s"
  proof cases
    case empty
    then have "\<not> full_list True s" using ok by (auto simp: full_list_def kept_entries_def)
    then have "m_entries (addItem x s) = [x]" "cursor (addItem x s) = 0"
      using f(1,2) empty by (simp_all add: addItem_def kept_entries_def insert_at_def)
    then show ?thesis using empty ok by (simp add: bf_now_def bf_forward_def bf_back_def)
  next
    case room
    let ?k = "take (cursor s + 1) (m_entries s)"
    have c: "cursor s < length (m_entries s)" using bf_okD(6) [OF ok(1) room(1)] .
    have e: "m_entries (addItem x s) = ?k @ [x]" "cursor (addItem x s) = cursor s + 1"
      using f(1,2) room c by (simp_all add: addItem_def kept_entries_def insert_at_def Let_def)
    have "cursor s + 1 < m_capacity s"
    proof (rule ccontr)
      assume "\<not> cursor s + 1 < m_capacity s"
      then have "cursor s + 1 = m_capacity s" using c len by simp
      then have "full_list True s" using room(1) c by (auto simp: full_list_def kept_entries_def unat_eq_0 [symmetric])
      with room(2) show False ..
    qed
    then show ?thesis using c room(1) e by (simp add: bf_now_def bf_forward_def bf_back_def take_Suc_conv_app_nth nth_append)
  next
    case full
    let ?k = "take (cursor s + 1) (m_entries s)"
    have c: "cursor s < length (m_entries s)" using bf_okD(6) [OF ok(1) full(1)] .
    have cap: "cursor s + 1 = m_capacity s" using full c by (simp add: full_list_def kept_entries_def)
    have e: "m_entries (addItem x s) = tl ?k @ [x]" "cursor (addItem x s) = cursor s"
      using f(1,2) full c by (simp_all add: addItem_def kept_entries_def insert_at_def Let_def)
    have "rev (tl ?k) = take (cursor s) (rev ?k)" using c by (simp add: rev_take butlast_conv_take flip: butlast_rev)
    then show ?thesis using c full(1) e cap [symmetric]
      by (simp add: bf_now_def bf_forward_def bf_back_def take_Suc_conv_app_nth nth_append)
  qed
  then show "bf_now (addItem x s) = [x]" "bf_forward (addItem x s) = []"
    "bf_back (addItem x s) = take (m_capacity s - 1) (bf_now s @ bf_back s)"
    "length (m_entries (addItem x s)) \<le> m_capacity s" by auto
qed

lemma addItem_good:
  assumes "bf_good s" "x \<notin> set (m_entries s)"
  shows "bf_good (addItem x s)"
proof -
  have "bf_ok (addItem x s)"
    using assms by (auto simp: addItem_def bf_good_def intro: insertItemAfterCurrent_ok)
  then show ?thesis using addItem_view [OF assms(1), of x] assms(1) by (simp add: bf_good_def)
qed

lemma goBack_view:
  assumes "bf_ok s" "bf_back s = b # bs"
  shows "bf_now (goBack s) = [b]" "bf_back (goBack s) = bs" "bf_forward (goBack s) = bf_now s @ bf_forward s"
    "m_entries (goBack s) = m_entries s" "m_capacity (goBack s) = m_capacity s" "m_enabled (goBack s) = m_enabled s"
proof -
  have ne: "m_entries s \<noteq> []" using assms(2) by (auto simp: bf_back_def)
  note c = bf_okD(6) [OF assms(1) ne]
  from assms(2) ne obtain k where k: "cursor s = Suc k" by (cases "cursor s") (auto simp: bf_back_def)
  then have "m_current s > 0" by (simp add: word_less_nat_alt)
  then have g: "goBack s = emit DidChangeBackForwardIndex (s\<lparr>m_current := m_current s - 1\<rparr>)" by (simp add: goBack_def)
  show f: "m_entries (goBack s) = m_entries s" "m_capacity (goBack s) = m_capacity s" "m_enabled (goBack s) = m_enabled s"
    by (simp_all add: g)
  have cur: "cursor (goBack s) = k" using k by (simp add: g u32_pred)
  have "b = m_entries s ! k \<and> bs = rev (take k (m_entries s))"
    using assms(2) ne c k by (simp add: bf_back_def take_Suc_conv_app_nth)
  then show "bf_now (goBack s) = [b]" "bf_back (goBack s) = bs" "bf_forward (goBack s) = bf_now s @ bf_forward s"
    using ne c k by (simp_all add: bf_now_def bf_back_def bf_forward_def f cur Cons_nth_drop_Suc)
qed

lemma goForward_view:
  assumes "bf_ok s" "bf_forward s = x # xs"
  shows "bf_now (goForward s) = [x]" "bf_forward (goForward s) = xs" "bf_back (goForward s) = bf_now s @ bf_back s"
proof -
  have ne: "m_entries s \<noteq> []" using assms(2) by (auto simp: bf_forward_def)
  note c = nonempty_current [OF assms(1) ne] bf_okD(6) [OF assms(1) ne]
  have lt: "cursor s + 1 < length (m_entries s)"
  proof (rule ccontr)
    assume "\<not> cursor s + 1 < length (m_entries s)"
    then show False using assms(2) ne by (simp add: bf_forward_def)
  qed
  then have g: "goForward s = emit DidChangeBackForwardIndex (s\<lparr>m_current := m_current s + 1\<rparr>)"
    using c by (simp add: goForward_def)
  have f: "m_entries (goForward s) = m_entries s" "cursor (goForward s) = cursor s + 1" using c by (simp_all add: g)
  have "x # xs = m_entries s ! (cursor s + 1) # drop (cursor s + 2) (m_entries s)"
    using assms(2) ne lt by (simp add: bf_forward_def Cons_nth_drop_Suc)
  then show "bf_now (goForward s) = [x]" "bf_forward (goForward s) = xs" "bf_back (goForward s) = bf_now s @ bf_back s"
    using ne c(4) by (simp_all add: bf_now_def bf_back_def bf_forward_def f take_Suc_conv_app_nth)
qed

interpretation sh: session_history bf_back bf_now bf_forward m_capacity bf_good addItem goBack goForward
proof (unfold_locales, goal_cases)
  case (1 s x)
  then show ?case using addItem_view [of s x] by simp
next
  case (2 s x)
  then have "bf_ok s" by (simp add: bf_good_def)
  from zipper_set [OF this] 2 show ?case by (intro addItem_good) auto
next
  case (3 x s)
  show ?case
  proof (cases "m_capacity s = 0 \<or> \<not> m_enabled s")
    case False
    have "m_capacity (trim_to n t) = m_capacity t" for n t
      by (induction n t rule: trim_to.induct) (subst trim_to.simps, simp add: drop_last_def Let_def)
    then show ?thesis by (simp add: addItem_def insertItemAfterCurrent_def Let_def drop_first_def)
  qed (simp add: addItem_def insertItemAfterCurrent_def)
next
  case (4 s)
  then show ?case by (simp add: bf_good_def)
next
  case (5 s b bs)
  then show ?case using goBack_view [of s b bs] by (simp add: bf_good_def)
next
  case (6 s b bs)
  then have "m_entries s \<noteq> []" by (auto simp: bf_back_def)
  with 6 show ?case using goBack_view [of s b bs] goBack_ok [of s] by (simp add: bf_good_def)
next
  case (7 s f fs)
  then show ?case using goForward_view [of s f fs] by (simp add: bf_good_def)
qed

section \<open>Properties\<close>

definition no_items :: "item \<Rightarrow> history_item" where
  "no_items x = \<lparr>hi_document = None, hi_stateObject = NullStateObject\<rparr>"

text \<open>C8: As long as the callers add and push only new items, go back and push only from a current item, keep the
  sizes within an \<open>int\<close> and do not use the list after it was closed, the current index names an entry exactly when
  there is one, the entries are distinct and the hash set holds just them.\<close>

theorem history_invariant:
  assumes "bf_reachable items s"
  shows "(m_entries s = []) = (currentItem s = None) \<and> distinct (m_entries s) \<and> m_entryHash s = set (m_entries s)
    \<and> (m_current s = NoCurrentItemIndex \<or> unat (m_current s) < length (m_entries s))"
proof -
  note ok = bf_reachable_ok [OF assms]
  show ?thesis using bf_okD [OF ok] currentItem_now [OF ok] by (auto simp: bf_now_def)
qed

theorem history_invariant_witness:
  "distinct (m_entries (goBack (addItem 5 (BackForwardList_init no_items))))"
proof -
  let ?s0 = "BackForwardList_init no_items"
  have "bf_reachable no_items (addItem 5 ?s0)"
    using bf_step [OF bf_init, of "AddItem 5"] by (simp add: BackForwardList_init_def)
  moreover have "m_entries (addItem 5 ?s0) = [5]"
    by (simp add: addItem_def insertItemAfterCurrent_def BackForwardList_init_def DefaultCapacity_def
        NoCurrentItemIndex_def insert_at_def Let_def)
  ultimately have "bf_reachable no_items (goBack (addItem 5 ?s0))"
    using bf_step [of no_items _ GoBack] by simp
  then show ?thesis using history_invariant by blast
qed

text \<open>C12: After any sequence of visits to new pages the history holds the last hundred of them, nearest
  first, whatever was dropped, and nothing is ahead.\<close>

theorem history_holds_last_visits:
  assumes "distinct xs"
  shows "bf_now (fold addItem xs (BackForwardList_init items)) @ bf_back (fold addItem xs (BackForwardList_init items))
      = take 100 (rev xs)
    \<and> bf_forward (fold addItem xs (BackForwardList_init items)) = []"
proof -
  let ?s = "BackForwardList_init items"
  have i: "m_entries ?s = []" "m_capacity ?s = 100" "m_enabled ?s" "bf_back ?s = []" "bf_now ?s = []" "bf_forward ?s = []"
    by (simp_all add: BackForwardList_init_def bf_back_def bf_now_def bf_forward_def DefaultCapacity_def)
  then have "bf_good ?s" using bf_ok_init by (simp add: bf_good_def)
  from sh.visits_view [OF this i(6) assms] show ?thesis using i by simp
qed

theorem history_holds_last_visits_witness:
  "bf_now (fold addItem [3, 1, 2] (BackForwardList_init no_items)) @ bf_back (fold addItem [3, 1, 2] (BackForwardList_init no_items)) = [2, 1, 3]"
  using history_holds_last_visits [of "[3, 1, 2]" no_items] by simp

section \<open>Indexing\<close>

text \<open>\<open>itemAtIndex\<close> never reads outside the entries and returns the item that many steps from the
  current one, none outside the history, also when the history is empty and the current index is
  the sentinel.\<close>

theorem itemAtIndex_safe:
  assumes "bf_ok s" and "- (2 ^ 31) \<le> index" "index < 2 ^ 31"
  shows "itemAtIndex index s =
    Inr (if m_entries s \<noteq> [] \<and> 0 \<le> int (cursor s) + index \<and> int (cursor s) + index < int (length (m_entries s))
         then Some (m_entries s ! nat (int (cursor s) + index)) else None)"
proof (cases "m_entries s = []")
  case True
  then have m: "m_current s = 0xFFFFFFFF" using empty_current(1) [OF assms(1)] by (simp add: NoCurrentItemIndex_def)
  then have "sint (m_current s) = -1" "forwardListCount s = 0" by (simp_all add: forwardListCount_def NoCurrentItemIndex_def)
  then show ?thesis using True by (simp add: itemAtIndex_def)
next
  case False
  note c = nonempty_current(1,2) [OF assms(1) False] bf_okD(6) [OF assms(1) False] bf_okD(1) [OF assms(1)]
  have s: "sint (m_current s) = int (cursor s)" using c(3,4) by (intro u32_sint) simp
  have "entries_size s - (m_current s + 1) = of_nat (length (m_entries s) - (cursor s + 1))"
    using c(3) by (simp add: entries_size_def of_nat_diff)
  then have f: "forwardListCount s = int (length (m_entries s)) - int (cursor s) - 1"
    using c by (simp add: forwardListCount_def u32_sint_of_nat del: of_nat_diff) (simp add: of_nat_diff)
  show ?thesis
  proof (cases "0 \<le> int (cursor s) + index \<and> int (cursor s) + index < int (length (m_entries s))")
    case True
    define n where "n = nat (int (cursor s) + index)"
    have "word_of_int index + m_current s = of_nat n"
    proof -
      have "m_current s = word_of_int (int (cursor s))" by simp
      then have "word_of_int index + m_current s = word_of_int (int n)"
        using True by (metis add.commute int_nat_eq n_def wi_hom_add)
      then show ?thesis by simp
    qed
    moreover have "n < length (m_entries s)" using True unfolding n_def by linarith
    ultimately have u: "unat (word_of_int index + m_current s) = n" using c(4) by simp
    from True False \<open>n < length (m_entries s)\<close> show ?thesis
      by (simp add: itemAtIndex_def s f u Let_def) (simp add: n_def)
  next
    case out: False
    then have "index < - int (cursor s) \<or> index > int (length (m_entries s)) - int (cursor s) - 1" by linarith
    with out show ?thesis by (simp only: itemAtIndex_def s f) auto
  qed
qed

theorem itemAtIndex_safe_witness:
  "itemAtIndex 0 (BackForwardList_init no_items) = Inr None"
  by (subst itemAtIndex_safe) (simp_all add: bf_ok_init, simp add: BackForwardList_init_def)

section \<open>The capacity\<close>

lemma insert_room:
  assumes "bf_ok s" "m_enabled s" "m_capacity s \<noteq> 0" "\<not> full_list rm s" "kept_entries rm s = m_entries s"
  shows "m_entries (insertItemAfterCurrent x rm s) = insert_at (if m_entries s = [] then 0 else cursor s + 1) x (m_entries s)"
    "length (m_entries (insertItemAfterCurrent x rm s)) = Suc (length (m_entries s))"
  using insert_at_fields(1) [OF assms(1,3,2), of x rm] assms(4,5) by (simp_all add: Let_def)

text \<open>A list above its capacity grows with every visit.\<close>

lemma overfull_grows:
  assumes "bf_ok s" "m_enabled s" "m_capacity s \<noteq> 0" "m_capacity s < length (m_entries s)"
    "cursor s + 1 = length (m_entries s)" "distinct xs" "set xs \<inter> set (m_entries s) = {}"
    "length (m_entries s) + length xs < 2 ^ 31"
  shows "length (m_entries (fold addItem xs s)) = length (m_entries s) + length xs"
  using assms
proof (induction xs arbitrary: s)
  case (Cons x xs)
  have k: "kept_entries True s = m_entries s" using Cons.prems(5) by (simp add: kept_entries_def)
  have nf: "\<not> full_list True s" using Cons.prems(4) by (simp add: full_list_def k)
  have ne: "m_entries s \<noteq> []" using Cons.prems(4) by auto
  note e = insert_room [OF Cons.prems(1,2,3) nf k, of x]
  note f = insert_at_fields [OF Cons.prems(1,3,2), of x True]
  have t: "set (m_entries (addItem x s)) = insert x (set (m_entries s))" "m_capacity (addItem x s) = m_capacity s"
    "m_enabled (addItem x s)" "length (m_entries (addItem x s)) = Suc (length (m_entries s))"
    "cursor (addItem x s) = cursor s + 1"
    using e f(2,4,5) ne nf Cons.prems(2) by (simp_all add: addItem_def set_insert_at)
  have "bf_ok (addItem x s)" using Cons.prems by (auto simp: addItem_def intro!: insertItemAfterCurrent_ok)
  then have "length (m_entries (fold addItem xs (addItem x s))) = length (m_entries (addItem x s)) + length xs"
    using Cons.prems t by (intro Cons.IH) auto
  then show ?case by (simp add: t)
qed simp

lemma pushStateItem_over_capacity:
  assumes "bf_ok s" "m_enabled s" "1 < m_capacity s" "length (m_entries s) = m_capacity s" "m_current s = 0"
    "x \<notin> set (m_entries s)" "item_document s (m_entries s ! 1) \<noteq> item_document s x"
    "m_capacity s + 1 + length xs < 2 ^ 31" "distinct xs" "set xs \<inter> insert x (set (m_entries s)) = {}"
  obtains t where "pushStateItem x s = Some t" "length (m_entries t) = m_capacity s + 1" "m_capacity t = m_capacity s"
    "length (m_entries (fold addItem xs (goToItem (Some (last (m_entries s))) t))) = m_capacity s + 1 + length xs"
proof -
  let ?z = "last (m_entries s)"
  have ne: "m_entries s \<noteq> []" using assms(3,4) by auto
  then have "currentItem s \<noteq> None" using assms(5) by (simp add: currentItem_def NoCurrentItemIndex_def)
  then obtain t where t: "pushStateItem x s = Some t" by (auto simp: pushStateItem_def Let_def)
  obtain y ys where f: "bf_forward s = y # ys" "y = m_entries s ! 1"
  proof
    show "bf_forward s = m_entries s ! 1 # drop 2 (m_entries s)"
      using ne assms(3,4,5) by (simp add: bf_forward_def Cons_nth_drop_Suc numeral_2_eq_2)
  qed simp
  have "drop_forward (item_document s x) s = s"
    by (subst drop_forward.simps) (use f assms(7) in \<open>simp add: forwardItem_view [OF assms(1)]\<close>)
  then have p: "m_entries t = m_entries (insertItemAfterCurrent x False s)" "m_capacity t = m_capacity (insertItemAfterCurrent x False s)"
      "m_enabled t = m_enabled (insertItemAfterCurrent x False s)"
    using t by (auto simp: pushStateItem_def Let_def split: option.splits if_splits)
  have k: "kept_entries False s = m_entries s" "\<not> full_list False s"
    using assms(3,5) by (simp_all add: kept_entries_def full_list_def)
  have c0: "m_capacity s \<noteq> 0" using assms(3) by simp
  note e = insert_room [OF assms(1,2) c0 k(2,1), of x] and g = insert_at_fields(4,5) [OF assms(1) c0 assms(2), of x False]
  have l: "length (m_entries t) = m_capacity s + 1" and c: "m_capacity t = m_capacity s"
    using e g assms(4) by (simp_all add: p)
  have ok: "bf_ok t" using pushStateItem_ok [OF assms(1,6) _ t] assms(4,8) by simp
  have ent: "m_entries t = m_entries s ! 0 # x # tl (m_entries s)"
    using ne assms(5) unfolding p e(1) by (cases "m_entries s") (simp_all add: insert_at_def)
  have "tl (m_entries s) \<noteq> []" using assms(3,4) by (cases "m_entries s") auto
  then have lz: "last (m_entries t) = ?z" using ne by (cases "m_entries s") (auto simp: ent)
  obtain zs where zs: "m_entries t = zs @ [?z]" using lz ent by (metis append_butlast_last_id list.distinct(1))
  then have "index_of ?z (m_entries t) = Some (length zs)"
    using bf_okD(3) [OF ok] by (simp add: index_of_append)
  then have go: "goToItem (Some ?z) t = emit DidChangeBackForwardIndex (t\<lparr>m_current := of_nat (length zs)\<rparr>)"
    by (simp add: goToItem_def)
  have len: "length zs = m_capacity s" using l zs by simp
  let ?u = "goToItem (Some ?z) t"
  have u: "m_entries ?u = m_entries t" "m_capacity ?u = m_capacity s" "m_enabled ?u" "cursor ?u = m_capacity s"
    using g(2) assms(2,8) c p(3) by (simp_all add: go len)
  have "length (m_entries (fold addItem xs ?u)) = length (m_entries ?u) + length xs"
  proof (rule overfull_grows)
    show "bf_ok ?u" by (rule goToItem_ok [OF ok])
    have "set (m_entries t) = insert x (set (m_entries s))" unfolding p e(1) by (rule set_insert_at)
    then show "set xs \<inter> set (m_entries ?u) = {}" using assms(10) by (simp add: u)
  qed (use u l c0 assms(8,9) in auto)
  then have "length (m_entries (fold addItem xs ?u)) = m_capacity s + 1 + length xs" using l by (simp add: u)
  with t l c show thesis by (rule that)
qed

definition full_history :: back_forward where
  "full_history = \<lparr>m_page = True, m_entries = [1, 2], m_entryHash = {1, 2}, m_current = 0, m_capacity = 2,
     m_closed = False, m_enabled = True, bf_items = (\<lambda>x. \<lparr>hi_document = Some x, hi_stateObject = NullStateObject\<rparr>),
     bf_events = []\<rparr>"

text \<open>C32: Pushing a state at the first of as many entries as the list may hold, before an entry of another document,
  adds one more than the capacity. When the user then goes to the last entry, every page that is visited is added
  and none is dropped: the capacity, which is only compared for equality, does not limit these visits.\<close>

theorem pushStateItem_exceeds_capacity:
  assumes "bf_ok s" "m_enabled s" "1 < m_capacity s" "length (m_entries s) = m_capacity s" "m_current s = 0"
    "x \<notin> set (m_entries s)" "item_document s (m_entries s ! 1) \<noteq> item_document s x"
    "m_capacity s + 1 + length xs < 2 ^ 31" "distinct xs" "set xs \<inter> insert x (set (m_entries s)) = {}"
  shows "\<exists>t. pushStateItem x s = Some t \<and> length (m_entries t) = m_capacity s + 1 \<and> m_capacity t = m_capacity s
    \<and> length (m_entries (fold addItem xs (goToItem (Some (last (m_entries s))) t))) = m_capacity s + 1 + length xs"
  by (rule pushStateItem_over_capacity [OF assms]) blast

theorem pushStateItem_exceeds_capacity_witness:
  "\<exists>t. pushStateItem 3 full_history = Some t \<and> m_capacity t = 2
     \<and> length (m_entries (fold addItem [4, 5] (goToItem (Some 2) t))) = 5"
proof -
  have "bf_ok full_history" by (simp add: bf_ok_def full_history_def)
  then show ?thesis using pushStateItem_exceeds_capacity [of full_history 3 "[4, 5]"]
    by (simp add: full_history_def item_document_def) blast
qed

end
