(* ===== verification/Storage.thy ===== *)
theory Storage
  imports Prelude "HOL-Library.AList"
begin

text \<open>
  DOM storage: src/webkit/WebCore/storage/StorageMap.cpp (the map with its quota and its cached
  iterator) and src/webkit/WebCore/storage/StorageAreaImpl.cpp (the areas that share maps until
  one of them writes). A \<open>HashMap\<close> is an association list with distinct keys; the order its
  iterators visit is the parameter \<open>order\<close>. A null \<open>String\<close> is None.
\<close>

section \<open>The map\<close>

record storage_map =
  sm_map :: "(ustring \<times> ustring) list"
  sm_iterator :: nat
  sm_iteratorIndex :: u32
  sm_quotaSize :: u32
  sm_currentLength :: u32

definition noQuota :: u32 where
  "noQuota = 0xFFFFFFFF"

definition StorageMap_create :: "u32 \<Rightarrow> storage_map" where
  "StorageMap_create quota = \<lparr>sm_map = [], sm_iterator = 0, sm_iteratorIndex = 0xFFFFFFFF,
     sm_quotaSize = quota, sm_currentLength = 0\<rparr>"

definition StorageMap_copy :: "storage_map \<Rightarrow> storage_map" where
  "StorageMap_copy s = (StorageMap_create (sm_quotaSize s))\<lparr>sm_map := sm_map s\<rparr>"

definition invalidateIterator :: "storage_map \<Rightarrow> storage_map" where
  "invalidateIterator s = s\<lparr>sm_iterator := length (sm_map s), sm_iteratorIndex := 0xFFFFFFFF\<rparr>"

text \<open>\<open>while (m_iteratorIndex < index) { ++m_iteratorIndex; ++m_iterator; }\<close>\<close>

function advance_iterator :: "u32 \<Rightarrow> u32 \<Rightarrow> nat \<Rightarrow> u32 \<times> nat" where
  "advance_iterator index i it =
     (if i < index then advance_iterator index (i + 1) (Suc it) else (i, it))"
  by pat_completeness auto
termination
proof (relation "measure (\<lambda>(index, i, _). unat index - unat i)", goal_cases)
  case (2 index i it)
  then have "unat i < unat index" by (simp add: word_less_nat_alt)
  moreover have "unat index < 2 ^ 32" using unsigned_less [of index] by simp
  ultimately have "unat (i + 1) = unat i + 1" by (simp add: unat_word_ariths)
  with \<open>unat i < unat index\<close> show ?case by simp
qed simp

declare advance_iterator.simps [simp del]

definition setIteratorToIndex :: "u32 \<Rightarrow> storage_map \<Rightarrow> storage_map" where
  "setIteratorToIndex index s =
     (if sm_iteratorIndex s = index then s
      else let (i, it) = (if index < sm_iteratorIndex s then (0, 0) else (sm_iteratorIndex s, sm_iterator s));
               (i', it') = advance_iterator index i it
           in s\<lparr>sm_iteratorIndex := i', sm_iterator := it'\<rparr>)"

definition StorageMap_length :: "storage_map \<Rightarrow> u32" where
  "StorageMap_length s = of_nat (length (sm_map s))"

text \<open>The key under the iterator; None for the null string and for an iterator at the end.\<close>

definition StorageMap_key ::
  "((ustring \<times> ustring) list \<Rightarrow> (ustring \<times> ustring) list) \<Rightarrow> u32 \<Rightarrow> storage_map \<Rightarrow> ustring option \<times> storage_map" where
  "StorageMap_key order index s =
     (if StorageMap_length s \<le> index then (None, s)
      else let s' = setIteratorToIndex index s
           in (if sm_iterator s' < length (order (sm_map s'))
               then Some (fst (order (sm_map s') ! sm_iterator s')) else None, s'))"

definition StorageMap_getItem :: "ustring \<Rightarrow> storage_map \<Rightarrow> ustring option" where
  "StorageMap_getItem key s = map_of (sm_map s) key"

definition StorageMap_contains :: "ustring \<Rightarrow> storage_map \<Rightarrow> bool" where
  "StorageMap_contains key s \<longleftrightarrow> map_of (sm_map s) key \<noteq> None"

definition null_length :: "ustring option \<Rightarrow> u32" where
  "null_length v = (case v of None \<Rightarrow> 0 | Some s \<Rightarrow> of_nat (length s))"

text \<open>The map the only reference is held to: the new map, the old value and \<open>quotaException\<close>.\<close>

definition setItem_unshared :: "ustring \<Rightarrow> ustring \<Rightarrow> storage_map \<Rightarrow> storage_map \<times> ustring option \<times> bool" where
  "setItem_unshared key value s =
     (let vlen = of_nat (length value);
          n0 = sm_currentLength s;
          over0 = (n0 + vlen < n0);
          n1 = n0 + vlen;
          oldValue = map_of (sm_map s) key;
          over1 = (n1 - null_length oldValue > n1);
          n2 = n1 - null_length oldValue;
          adjustedKeyLength = (if oldValue = None then of_nat (length key) else 0);
          over2 = (n2 + adjustedKeyLength < n2);
          n3 = n2 + adjustedKeyLength;
          overflow = (over0 \<or> over1 \<or> over2);
          overQuota = (n3 > sm_quotaSize s div 2)
      in if sm_quotaSize s \<noteq> noQuota \<and> (overflow \<or> overQuota) then (s, oldValue, True)
         else (invalidateIterator (s\<lparr>sm_currentLength := n3, sm_map := AList.update key value (sm_map s)\<rparr>),
               oldValue, False))"

definition removeItem_unshared :: "ustring \<Rightarrow> storage_map \<Rightarrow> storage_map \<times> ustring option" where
  "removeItem_unshared key s =
     (let oldValue = map_of (sm_map s) key;
          s1 = s\<lparr>sm_map := AList.delete key (sm_map s)\<rparr>;
          s2 = (if oldValue \<noteq> None
                then (invalidateIterator s1)\<lparr>sm_currentLength := sm_currentLength s - of_nat (length key)\<rparr>
                else s1)
      in (s2\<lparr>sm_currentLength := sm_currentLength s2 - null_length oldValue\<rparr>, oldValue))"

text \<open>
  With the reference count: a shared map is copied and the copy, which is returned, is changed.
  The results are the receiver, the returned map if any, the old value and \<open>quotaException\<close>.
\<close>

definition StorageMap_setItem ::
  "nat \<Rightarrow> ustring \<Rightarrow> ustring \<Rightarrow> storage_map \<Rightarrow> storage_map \<times> storage_map option \<times> ustring option \<times> bool" where
  "StorageMap_setItem refCount key value s =
     (if refCount > 1
      then let (newMap, oldValue, quotaException) = setItem_unshared key value (StorageMap_copy s)
           in (s, Some newMap, oldValue, quotaException)
      else let (s', oldValue, quotaException) = setItem_unshared key value s
           in (s', None, oldValue, quotaException))"

definition StorageMap_removeItem ::
  "nat \<Rightarrow> ustring \<Rightarrow> storage_map \<Rightarrow> storage_map \<times> storage_map option \<times> ustring option" where
  "StorageMap_removeItem refCount key s =
     (if refCount > 1
      then let (newMap, oldValue) = removeItem_unshared key (StorageMap_copy s) in (s, Some newMap, oldValue)
      else let (s', oldValue) = removeItem_unshared key s in (s', None, oldValue))"

text \<open>\<open>HashMap::add\<close> keeps an existing entry.\<close>

definition StorageMap_importItem :: "ustring \<Rightarrow> ustring \<Rightarrow> storage_map \<Rightarrow> storage_map" where
  "StorageMap_importItem key value s =
     s\<lparr>sm_map := (if map_of (sm_map s) key = None then sm_map s @ [(key, value)] else sm_map s),
       sm_currentLength := sm_currentLength s + of_nat (length key) + of_nat (length value)\<rparr>"

section \<open>The areas\<close>

datatype storage_event =
    BlockUntilImportComplete nat
  | ScheduleItemForSync nat ustring "ustring option"
  | ScheduleClear nat
  | ScheduleFinalSync nat
  | DispatchStorageEvent nat "ustring option" "ustring option" "ustring option"

text \<open>The maps are objects behind references: a store from addresses, with the next free one.\<close>

record storage_area =
  sa_map :: nat
  sa_sync :: bool

record storage_world =
  st_maps :: "nat \<Rightarrow> storage_map"
  st_next :: nat
  st_areas :: "storage_area list"
  st_events :: "storage_event list"

definition area_map :: "storage_world \<Rightarrow> nat \<Rightarrow> storage_map" where
  "area_map w i = st_maps w (sa_map (st_areas w ! i))"

text \<open>The references the areas hold to a map.\<close>

definition map_refs :: "storage_world \<Rightarrow> nat \<Rightarrow> nat" where
  "map_refs w a = length (filter (\<lambda>r. sa_map r = a) (st_areas w))"

definition st_emit :: "storage_event \<Rightarrow> storage_world \<Rightarrow> storage_world" where
  "st_emit e w = w\<lparr>st_events := st_events w @ [e]\<rparr>"

definition with_sync :: "nat \<Rightarrow> storage_event \<Rightarrow> storage_world \<Rightarrow> storage_world" where
  "with_sync i e w = (if sa_sync (st_areas w ! i) then st_emit e w else w)"

definition blockUntilImportComplete :: "nat \<Rightarrow> storage_world \<Rightarrow> storage_world" where
  "blockUntilImportComplete i w = with_sync i (BlockUntilImportComplete i) w"

text \<open>A new object, referenced by area \<open>i\<close>.\<close>

definition adopt_map :: "nat \<Rightarrow> storage_map \<Rightarrow> storage_world \<Rightarrow> storage_world" where
  "adopt_map i m w = w\<lparr>st_maps := (st_maps w)(st_next w := m), st_next := st_next w + 1,
     st_areas := (st_areas w)[i := (st_areas w ! i)\<lparr>sa_map := st_next w\<rparr>]\<rparr>"

definition StorageArea_create :: "bool \<Rightarrow> u32 \<Rightarrow> storage_world \<Rightarrow> storage_world" where
  "StorageArea_create hasSyncManager quota w =
     w\<lparr>st_maps := (st_maps w)(st_next w := StorageMap_create quota), st_next := st_next w + 1,
       st_areas := st_areas w @ [\<lparr>sa_map = st_next w, sa_sync = hasSyncManager\<rparr>]\<rparr>"

text \<open>The copy shares the map and has no sync object of its own.\<close>

definition StorageArea_copy :: "nat \<Rightarrow> storage_world \<Rightarrow> storage_world" where
  "StorageArea_copy i w = w\<lparr>st_areas := st_areas w @ [\<lparr>sa_map = sa_map (st_areas w ! i), sa_sync = False\<rparr>]\<rparr>"

definition area_length :: "nat \<Rightarrow> storage_world \<Rightarrow> u32" where
  "area_length i w = StorageMap_length (area_map w i)"

definition area_getItem :: "nat \<Rightarrow> ustring \<Rightarrow> storage_world \<Rightarrow> ustring option" where
  "area_getItem i key w = StorageMap_getItem key (area_map w i)"

definition area_contains :: "nat \<Rightarrow> ustring \<Rightarrow> storage_world \<Rightarrow> bool" where
  "area_contains i key w = StorageMap_contains key (area_map w i)"

definition store_result :: "nat \<Rightarrow> storage_map \<Rightarrow> storage_map option \<Rightarrow> storage_world \<Rightarrow> storage_world" where
  "store_result i s' newMap w =
     (let w1 = w\<lparr>st_maps := (st_maps w)(sa_map (st_areas w ! i) := s')\<rparr>
      in case newMap of Some m \<Rightarrow> adopt_map i m w1 | None \<Rightarrow> w1)"

text \<open>Returns whether \<open>ec\<close> was set to \<open>QUOTA_EXCEEDED_ERR\<close>.\<close>

definition area_setItem :: "bool \<Rightarrow> nat \<Rightarrow> ustring \<Rightarrow> ustring \<Rightarrow> storage_world \<Rightarrow> bool \<times> storage_world" where
  "area_setItem privateBrowsing i key value w0 =
     (let w = blockUntilImportComplete i w0
      in if privateBrowsing then (True, w)
         else let (s', newMap, oldValue, quotaException) =
                    StorageMap_setItem (map_refs w (sa_map (st_areas w ! i))) key value (area_map w i);
                  w1 = store_result i s' newMap w
              in if quotaException then (True, w1)
                 else if oldValue = Some value then (False, w1)
                 else (False, st_emit (DispatchStorageEvent i (Some key) oldValue (Some value))
                                (with_sync i (ScheduleItemForSync i key (Some value)) w1)))"

definition area_removeItem :: "bool \<Rightarrow> nat \<Rightarrow> ustring \<Rightarrow> storage_world \<Rightarrow> storage_world" where
  "area_removeItem privateBrowsing i key w0 =
     (let w = blockUntilImportComplete i w0
      in if privateBrowsing then w
         else let (s', newMap, oldValue) =
                    StorageMap_removeItem (map_refs w (sa_map (st_areas w ! i))) key (area_map w i);
                  w1 = store_result i s' newMap w
              in if oldValue = None then w1
                 else st_emit (DispatchStorageEvent i (Some key) oldValue None)
                        (with_sync i (ScheduleItemForSync i key None) w1))"

definition area_clear :: "bool \<Rightarrow> nat \<Rightarrow> storage_world \<Rightarrow> storage_world" where
  "area_clear privateBrowsing i w0 =
     (let w = blockUntilImportComplete i w0
      in if privateBrowsing then w
         else if StorageMap_length (area_map w i) = 0 then w
         else let w1 = adopt_map i (StorageMap_create (sm_quotaSize (area_map w i))) w
              in st_emit (DispatchStorageEvent i None None None) (with_sync i (ScheduleClear i) w1))"

definition area_importItem :: "nat \<Rightarrow> ustring \<Rightarrow> ustring \<Rightarrow> storage_world \<Rightarrow> storage_world" where
  "area_importItem i key value w =
     w\<lparr>st_maps := (st_maps w)(sa_map (st_areas w ! i) := StorageMap_importItem key value (area_map w i))\<rparr>"

definition area_close :: "nat \<Rightarrow> storage_world \<Rightarrow> storage_world" where
  "area_close i w = with_sync i (ScheduleFinalSync i) w"

end
