(* ===== verification/StorageFacts.thy ===== *)
theory StorageFacts
  imports Storage
begin

text \<open>
  What DOM storage promises: a map tracks the characters it holds and refuses what exceeds its
  quota; areas that share a map behave as if each had its own; and the copy that makes this so
  forgets what it holds.
\<close>

section \<open>Counting characters\<close>

definition content_length :: "(ustring \<times> ustring) list \<Rightarrow> nat" where
  "content_length m = (\<Sum>(k, v)\<leftarrow>m. length k + length v)"

lemma content_length_simps [simp]:
  "content_length [] = 0" "content_length ((k, v) # m) = length k + length v + content_length m"
  "content_length (m @ m') = content_length m + content_length m'"
  by (simp_all add: content_length_def)

definition entry_length :: "ustring \<Rightarrow> ustring option \<Rightarrow> nat" where
  "entry_length k v = (case v of None \<Rightarrow> 0 | Some s \<Rightarrow> length k + length s)"

lemma content_update:
  "content_length (AList.update k v m) + entry_length k (map_of m k) = content_length m + length k + length v"
  by (induction m) (auto simp: entry_length_def)

lemma content_delete:
  "distinct (map fst m) \<Longrightarrow>
   content_length (AList.delete k m) + entry_length k (map_of m k) = content_length m"
proof (induction m)
  case (Cons p m)
  obtain k' v where p: "p = (k', v)" by (cases p)
  show ?case
  proof (cases "k' = k")
    case True
    then have "k \<notin> fst ` set m" using Cons.prems p by simp
    then have "AList.delete k m = m" "map_of m k = None" by (simp_all add: AList.delete_idem map_of_eq_None_iff)
    then show ?thesis using True p by (simp add: entry_length_def)
  next
    case False
    then show ?thesis using Cons p by (auto simp: entry_length_def split: option.splits)
  qed
qed (simp add: entry_length_def)

lemma entry_le_content: "entry_length k (map_of m k) \<le> content_length m"
  by (induction m) (auto simp: entry_length_def split: option.splits)

definition storage_ok :: "storage_map \<Rightarrow> bool" where
  "storage_ok s \<longleftrightarrow> distinct (map fst (sm_map s)) \<and> unat (sm_currentLength s) = content_length (sm_map s)
     \<and> (sm_iteratorIndex s = 0xFFFFFFFF
        \<or> (sm_iterator s = unat (sm_iteratorIndex s) \<and> sm_iterator s < length (sm_map s)))"

lemma invalidateIterator_fields [simp]:
  "sm_map (invalidateIterator s) = sm_map s" "sm_quotaSize (invalidateIterator s) = sm_quotaSize s"
  "sm_currentLength (invalidateIterator s) = sm_currentLength s"
  "sm_iteratorIndex (invalidateIterator s) = 0xFFFFFFFF"
  by (simp_all add: invalidateIterator_def)

lemma u32_of_nat: "n < 2 ^ 32 \<Longrightarrow> unat (of_nat n :: u32) = n"
  by (simp add: unsigned_of_nat take_bit_nat_eq_self)

lemma u32_add: "unat (a :: u32) + unat b < 2 ^ 32 \<Longrightarrow> unat (a + b) = unat a + unat b"
  by (simp add: unat_word_ariths)

lemma u32_diff: "unat (b :: u32) \<le> unat a \<Longrightarrow> unat (a - b) = unat a - unat b"
  by (simp add: unat_sub word_le_nat_alt)

lemma null_length_entry:
  "length k < 2 ^ 32 \<Longrightarrow> entry_length k v < 2 ^ 32 \<Longrightarrow>
   unat (null_length v) = entry_length k v - (if v = None then 0 else length k)"
  by (auto simp: null_length_def entry_length_def u32_of_nat split: option.split)

section \<open>Setting and removing\<close>

text \<open>What \<open>setItem\<close> does, without its 32-bit arithmetic.\<close>

lemma setItem_unshared_exact:
  assumes ok: "storage_ok s" and fits: "content_length (sm_map s) + length key + length v < 2 ^ 32"
  defines "m \<equiv> AList.update key v (sm_map s)"
  shows "setItem_unshared key v s =
    (if sm_quotaSize s \<noteq> noQuota \<and> unat (sm_quotaSize s) div 2 < content_length m
     then (s, map_of (sm_map s) key, True)
     else (invalidateIterator (s\<lparr>sm_currentLength := of_nat (content_length m), sm_map := m\<rparr>),
           map_of (sm_map s) key, False))"
proof -
  let ?c = "content_length (sm_map s)" and ?old = "map_of (sm_map s) key"
  let ?e = "entry_length key ?old" and ?n0 = "sm_currentLength s" and ?vl = "of_nat (length v) :: u32"
  have c: "unat ?n0 = ?c" using ok by (simp add: storage_ok_def)
  have e: "?e \<le> ?c" by (rule entry_le_content)
  have vl: "unat ?vl = length v" using fits by (intro u32_of_nat) simp
  define o1 where "o1 = unat (null_length ?old)"
  have o1: "o1 = ?e - (if ?old = None then 0 else length key)"
    unfolding o1_def using e fits by (intro null_length_entry) auto
  define n1 where "n1 = ?n0 + ?vl"
  have n1: "unat n1 = ?c + length v" unfolding n1_def using c vl fits by (subst u32_add) simp_all
  define n2 where "n2 = n1 - null_length ?old"
  have n2: "unat n2 = ?c + length v - o1" unfolding n2_def o1_def [symmetric]
    using n1 o1 e by (subst u32_diff) (simp_all add: o1_def [symmetric])
  define ak where "ak = (if ?old = None then of_nat (length key) else 0 :: u32)"
  have ak: "unat ak = (if ?old = None then length key else 0)"
    unfolding ak_def using fits by (auto simp: u32_of_nat)
  define n3 where "n3 = n2 + ak"
  have n3: "unat n3 = ?c + length v - o1 + unat ak"
    unfolding n3_def using n2 ak fits by (subst u32_add) auto
  have total: "unat n3 = content_length m"
  proof -
    have "content_length m + ?e = ?c + length key + length v" unfolding m_def by (rule content_update)
    moreover have "?e + unat ak = o1 + length key"
    proof (cases ?old)
      case None
      then show ?thesis using o1 ak by (simp add: entry_length_def)
    next
      case (Some old)
      then show ?thesis using o1 ak by (simp add: entry_length_def)
    qed
    moreover have "o1 \<le> ?c" using o1 e by simp
    ultimately show ?thesis using n3 e by linarith
  qed
  have no_overflow: "\<not> n1 < ?n0" "\<not> n2 > n1" "\<not> n3 < n2"
    using n1 n2 n3 c by (simp_all add: word_less_nat_alt)
  have over: "n3 > sm_quotaSize s div 2 \<longleftrightarrow> unat (sm_quotaSize s) div 2 < content_length m"
    by (simp add: word_less_nat_alt unat_div total)
  have "of_nat (content_length m) = n3" by (simp add: total [symmetric])
  then show ?thesis
    unfolding setItem_unshared_def Let_def n1_def [symmetric] n2_def [symmetric] ak_def [symmetric] n3_def [symmetric]
    using no_overflow over by (simp add: m_def)
qed

lemma setItem_unshared_ok:
  assumes "storage_ok s" "content_length (sm_map s) + length key + length v < 2 ^ 32"
  shows "storage_ok (fst (setItem_unshared key v s))"
proof -
  let ?m = "AList.update key v (sm_map s)"
  have "content_length ?m < 2 ^ 32" using content_update [of key v "sm_map s"] assms(2) by linarith
  moreover have "distinct (map fst ?m)" using assms(1) by (simp add: storage_ok_def distinct_update)
  ultimately show ?thesis
    using assms(1) unfolding setItem_unshared_exact [OF assms] by (simp add: storage_ok_def u32_of_nat)
qed

lemma removeItem_unshared_exact:
  assumes ok: "storage_ok s"
  shows "map_of (sm_map (fst (removeItem_unshared key s))) = (map_of (sm_map s))(key := None)"
    "snd (removeItem_unshared key s) = map_of (sm_map s) key"
    "storage_ok (fst (removeItem_unshared key s))"
    "content_length (sm_map (fst (removeItem_unshared key s))) \<le> content_length (sm_map s)"
    "sm_quotaSize (fst (removeItem_unshared key s)) = sm_quotaSize s"
proof -
  let ?m = "AList.delete key (sm_map s)" and ?old = "map_of (sm_map s) key"
  let ?e = "entry_length key ?old"
  have m: "sm_map (fst (removeItem_unshared key s)) = ?m" by (simp add: removeItem_unshared_def Let_def)
  have d: "distinct (map fst (sm_map s))" and c: "unat (sm_currentLength s) = content_length (sm_map s)"
    using ok by (simp_all add: storage_ok_def)
  note del = content_delete [OF d, of key]
  show "map_of (sm_map (fst (removeItem_unshared key s))) = (map_of (sm_map s))(key := None)"
    unfolding m by (rule delete_conv')
  show "snd (removeItem_unshared key s) = ?old" "sm_quotaSize (fst (removeItem_unshared key s)) = sm_quotaSize s"
    by (simp_all add: removeItem_unshared_def Let_def)
  show "content_length (sm_map (fst (removeItem_unshared key s))) \<le> content_length (sm_map s)" unfolding m using del by linarith
  show "storage_ok (fst (removeItem_unshared key s))"
  proof (cases ?old)
    case None
    then have "?m = sm_map s" by (simp add: AList.delete_idem map_of_eq_None_iff)
    then show ?thesis using ok None by (simp add: removeItem_unshared_def null_length_def)
  next
    case (Some old)
    have lt: "content_length (sm_map s) < 2 ^ 32" using c unsigned_less [of "sm_currentLength s", where 'a = nat] by simp
    have e: "?e = length key + length old" "?e \<le> content_length (sm_map s)"
      using Some entry_le_content [of key "sm_map s"] by (simp_all add: entry_length_def)
    have k: "unat (of_nat (length key) :: u32) = length key" "unat (of_nat (length old) :: u32) = length old"
      using e lt by (auto intro!: u32_of_nat)
    have "unat (sm_currentLength s - of_nat (length key) - of_nat (length old)) = content_length ?m"
      using del e c k by (subst u32_diff; subst u32_diff; simp)
    moreover have "distinct (map fst ?m)" using d by (rule distinct_delete)
    ultimately show ?thesis using Some
      by (simp add: removeItem_unshared_def storage_ok_def Let_def null_length_def)
  qed
qed

section \<open>A map used by one area\<close>

text \<open>The operations on an unshared map, and what it holds: within its quota, but for what was imported.\<close>

datatype map_op = SetItem ustring ustring | RemoveKey ustring | ImportItem ustring ustring

fun map_apply :: "map_op \<Rightarrow> storage_map \<Rightarrow> storage_map" where
  "map_apply (SetItem k v) s = fst (StorageMap_setItem 1 k v s)"
| "map_apply (RemoveKey k) s = fst (StorageMap_removeItem 1 k s)"
| "map_apply (ImportItem k v) s = StorageMap_importItem k v s"

fun imported :: "map_op list \<Rightarrow> nat" where
  "imported [] = 0"
| "imported (ImportItem k v # ops) = length k + length v + imported ops"
| "imported (_ # ops) = imported ops"

text \<open>What is set is shorter than \<open>2\<^sup>2\<^sup>9\<close> characters; an imported key is a new one, as the assertion of the code says.\<close>

fun map_allowed :: "map_op list \<Rightarrow> storage_map \<Rightarrow> bool" where
  "map_allowed [] s = True"
| "map_allowed (SetItem k v # ops) s = (length k < 2 ^ 29 \<and> length v < 2 ^ 29 \<and> map_allowed ops (map_apply (SetItem k v) s))"
| "map_allowed (RemoveKey k # ops) s = map_allowed ops (map_apply (RemoveKey k) s)"
| "map_allowed (ImportItem k v # ops) s = (map_of (sm_map s) k = None \<and> map_allowed ops (map_apply (ImportItem k v) s))"

definition within_quota :: "nat \<Rightarrow> storage_map \<Rightarrow> bool" where
  "within_quota n s \<longleftrightarrow> storage_ok s \<and> sm_quotaSize s \<noteq> noQuota
     \<and> content_length (sm_map s) \<le> unat (sm_quotaSize s) div 2 + n"

lemma unshared_fst:
  "fst (StorageMap_setItem 1 k v s) = fst (setItem_unshared k v s)"
  "fst (StorageMap_removeItem 1 k s) = fst (removeItem_unshared k s)"
  by (simp_all add: StorageMap_setItem_def StorageMap_removeItem_def split: prod.split)

lemma half_quota: "unat (quota :: u32) div 2 < 2147483648"
  using unsigned_less [of quota, where 'a = nat] by simp

lemma set_quota:
  assumes "within_quota n s" "n < 2 ^ 30" "length k < 2 ^ 29" "length v < 2 ^ 29"
  shows "within_quota n (map_apply (SetItem k v) s)"
proof -
  have "content_length (sm_map s) \<le> unat (sm_quotaSize s) div 2 + n" "n < 1073741824" "length k < 536870912" "length v < 536870912"
    using assms by (simp_all add: within_quota_def)
  then have "content_length (sm_map s) + length k + length v < 4294967296" using half_quota [of "sm_quotaSize s"] by linarith
  then have fits: "content_length (sm_map s) + length k + length v < 2 ^ 32" by simp
  have ok: "storage_ok s" using assms(1) by (simp add: within_quota_def)
  show ?thesis
    using assms(1) setItem_unshared_ok [OF ok fits]
    unfolding map_apply.simps unshared_fst within_quota_def setItem_unshared_exact [OF ok fits] by auto
qed

lemma remove_quota:
  assumes "within_quota n s"
  shows "within_quota n (map_apply (RemoveKey k) s)"
proof -
  have ok: "storage_ok s" using assms by (simp add: within_quota_def)
  show ?thesis using removeItem_unshared_exact [OF ok, of k] assms
    unfolding map_apply.simps unshared_fst within_quota_def by auto
qed

lemma import_quota:
  assumes "within_quota n s" "n + length k + length v < 2 ^ 30" "map_of (sm_map s) k = None"
  shows "within_quota (n + length k + length v) (map_apply (ImportItem k v) s)"
proof -
  have ok: "distinct (map fst (sm_map s))" "unat (sm_currentLength s) = content_length (sm_map s)"
    "content_length (sm_map s) \<le> unat (sm_quotaSize s) div 2 + n"
    using assms(1) by (simp_all add: within_quota_def storage_ok_def)
  have "n + length k + length v < 1073741824" using assms(2) by simp
  then have fits: "content_length (sm_map s) + length k + length v < 4294967296" "length k < 4294967296" "length v < 4294967296"
    using half_quota [of "sm_quotaSize s"] ok(3) by linarith+
  have "unat (sm_currentLength s + of_nat (length k)) = content_length (sm_map s) + length k"
    using fits ok(2) by (subst u32_add) (simp_all add: u32_of_nat)
  then have "unat (sm_currentLength s + of_nat (length k) + of_nat (length v)) = content_length (sm_map s) + length k + length v"
    using fits by (subst u32_add) (simp_all add: u32_of_nat)
  moreover have "distinct (map fst (sm_map s @ [(k, v)]))" using ok(1) assms(3) by (simp add: map_of_eq_None_iff)
  ultimately show ?thesis
    using assms(1,3) ok(3) by (auto simp: within_quota_def storage_ok_def StorageMap_importItem_def)
qed

lemma within_quota_create: "quota \<noteq> noQuota \<Longrightarrow> within_quota 0 (StorageMap_create quota)"
  by (simp add: within_quota_def storage_ok_def StorageMap_create_def)

lemma map_run_quota:
  "within_quota n s \<Longrightarrow> map_allowed ops s \<Longrightarrow> n + imported ops < 2 ^ 30 \<Longrightarrow> within_quota (n + imported ops) (fold map_apply ops s)"
proof (induction ops arbitrary: n s)
  case (Cons op ops)
  show ?case
  proof (cases op)
    case (SetItem k v)
    then show ?thesis using Cons.IH [OF set_quota [OF Cons.prems(1), of k v]] Cons.prems by simp
  next
    case (RemoveKey k)
    then show ?thesis using Cons.IH [OF remove_quota [OF Cons.prems(1), of k]] Cons.prems by simp
  next
    case (ImportItem k v)
    then show ?thesis using Cons.IH [OF import_quota [OF Cons.prems(1), of k v]] Cons.prems by (simp add: add.assoc)
  qed
qed simp

lemma map_run_quotaSize: "sm_quotaSize (fold map_apply ops s) = sm_quotaSize s"
proof -
  have "sm_quotaSize (map_apply operation s) = sm_quotaSize s" for operation s
    by (cases operation; simp only: map_apply.simps unshared_fst)
      (simp_all add: setItem_unshared_def removeItem_unshared_def StorageMap_importItem_def Let_def)
  then show ?thesis by (induction ops arbitrary: s) simp_all
qed

text \<open>C21: A map with a quota that was never shared holds, after any items were set (keys and values below \<open>2\<^sup>2\<^sup>9\<close> characters), removed and
  imported (under new keys, in all below \<open>2\<^sup>3\<^sup>0\<close> characters), at most the characters its quota in bytes has room for and those that
  were imported, which the quota does not limit; its counter is the number of characters it holds.\<close>

theorem storage_quota:
  assumes "quota \<noteq> noQuota" "map_allowed ops (StorageMap_create quota)" "imported ops < 2 ^ 30"
  shows "content_length (sm_map (fold map_apply ops (StorageMap_create quota))) \<le> unat quota div 2 + imported ops
    \<and> unat (sm_currentLength (fold map_apply ops (StorageMap_create quota)))
      = content_length (sm_map (fold map_apply ops (StorageMap_create quota)))"
  using map_run_quota [OF within_quota_create [OF assms(1)] assms(2)] assms(3) map_run_quotaSize [of ops "StorageMap_create quota"]
  by (simp add: within_quota_def storage_ok_def) (simp add: StorageMap_create_def)

theorem storage_quota_witness:
  "content_length (sm_map (fold map_apply [SetItem (lit ''ab'') (lit ''cde''), ImportItem (lit ''f'') (lit ''g'')]
     (StorageMap_create 12))) \<le> 8"
proof -
  let ?ops = "[SetItem (lit ''ab'') (lit ''cde''), ImportItem (lit ''f'') (lit ''g'')]"
  have "map_allowed ?ops (StorageMap_create 12)"
    by (simp add: unshared_fst [simplified] setItem_unshared_def StorageMap_create_def invalidateIterator_def noQuota_def null_length_def)
  then show ?thesis using storage_quota [of 12 ?ops] by (simp add: noQuota_def)
qed

text \<open>The copy made for writing to a shared map starts with the length 0: it takes more than the
  quota, and it refuses to replace a value by a shorter one, which the map itself would do.
\<close>

theorem storage_copy_forgets_length:
  "let s = fst (setItem_unshared (lit ''k'') (lit ''abcd'') (StorageMap_create 12))
   in sm_currentLength s = 5
      \<and> snd (snd (snd (StorageMap_setItem 1 (lit ''l'') (lit ''mnopq'') s)))
      \<and> \<not> snd (snd (snd (StorageMap_setItem 2 (lit ''l'') (lit ''mnopq'') s)))
      \<and> \<not> snd (snd (snd (StorageMap_setItem 1 (lit ''k'') (lit ''xyz'') s)))
      \<and> snd (snd (snd (StorageMap_setItem 2 (lit ''k'') (lit ''xyz'') s)))"
  by (simp add: Let_def setItem_unshared_def StorageMap_setItem_def StorageMap_create_def StorageMap_copy_def
      invalidateIterator_def noQuota_def null_length_def)

section \<open>The cached iterator\<close>

lemma advance_iterator_exact: "i \<le> index \<Longrightarrow> advance_iterator index i it = (index, it + (unat index - unat i))"
proof (induction index i it rule: advance_iterator.induct)
  case (1 index i it)
  show ?case
  proof (cases "i < index")
    case True
    have "unat i + 1 < 2 ^ 32" using True unsigned_less [of index, where 'a = nat] by (simp add: word_less_nat_alt)
    then have s: "unat (i + 1) = unat i + 1" by (simp add: unat_word_ariths)
    then have "i + 1 \<le> index" using True by (simp add: word_le_nat_alt word_less_nat_alt)
    from "1.IH" [OF True this] show ?thesis
      using True s by (subst advance_iterator.simps) (simp add: word_less_nat_alt)
  next
    case False
    then have "i = index" using "1.prems" by simp
    then show ?thesis by (subst advance_iterator.simps) simp
  qed
qed

lemma StorageMap_key_parts:
  assumes "storage_ok s" "length (sm_map s) < 2 ^ 32" "\<And>m. length (order m) = length m"
  shows "fst (StorageMap_key order index s) =
      (if unat index < length (sm_map s) then Some (fst (order (sm_map s) ! unat index)) else None)"
    "storage_ok (snd (StorageMap_key order index s))"
    "sm_map (snd (StorageMap_key order index s)) = sm_map s"
proof -
  have len: "StorageMap_length s \<le> index \<longleftrightarrow> \<not> unat index < length (sm_map s)"
    using assms(2) by (auto simp: StorageMap_length_def word_le_nat_alt u32_of_nat)
  have it: "sm_iterator (setIteratorToIndex index s) = unat index \<and> sm_iteratorIndex (setIteratorToIndex index s) = index
      \<and> sm_map (setIteratorToIndex index s) = sm_map s \<and> sm_currentLength (setIteratorToIndex index s) = sm_currentLength s"
    if "unat index < length (sm_map s)"
  proof (cases "sm_iteratorIndex s = index")
    case True
    moreover have "unat (0xFFFFFFFF :: u32) = 2 ^ 32 - 1" by simp
    ultimately show ?thesis using that assms(1,2) by (auto simp: setIteratorToIndex_def storage_ok_def)
  next
    case False
    define p where "p = (if index < sm_iteratorIndex s then (0, 0) else (sm_iteratorIndex s, sm_iterator s))"
    have top: "index = 0xFFFFFFFF" if "\<not> index < (0xFFFFFFFF :: u32)"
    proof -
      have "unat index = 0xFFFFFFFF"
        using that unsigned_less [of index, where 'a = nat] by (simp add: word_less_nat_alt)
      then show ?thesis by (simp add: word_unat_eq_iff)
    qed
    then have ne: "sm_iteratorIndex s \<noteq> 0xFFFFFFFF \<or> index < sm_iteratorIndex s" using False by fastforce
    have p: "fst p \<le> index" "snd p = unat (fst p)"
      using ne assms(1) by (auto simp: p_def storage_ok_def)
    then have "advance_iterator index (fst p) (snd p) = (index, unat index)"
      by (simp add: advance_iterator_exact word_le_nat_alt)
    then show ?thesis using False unfolding setIteratorToIndex_def p_def [symmetric] by (cases p) simp
  qed
  show "fst (StorageMap_key order index s) =
      (if unat index < length (sm_map s) then Some (fst (order (sm_map s) ! unat index)) else None)"
    using it assms(3) by (auto simp: StorageMap_key_def len Let_def)
  show "storage_ok (snd (StorageMap_key order index s))" "sm_map (snd (StorageMap_key order index s)) = sm_map s"
    using it assms(1) by (auto simp: StorageMap_key_def len Let_def storage_ok_def)
qed

text \<open>\<open>key\<close> enumerates the map in the order of its iterators, from whatever index was asked before.\<close>

lemma StorageMap_key_enumerates:
  assumes "storage_ok s" "length (sm_map s) < 2 ^ 32" "\<And>m. length (order m) = length m"
  shows "fst (StorageMap_key order index s) =
      (if unat index < length (sm_map s) then Some (fst (order (sm_map s) ! unat index)) else None)
    \<and> storage_ok (snd (StorageMap_key order index s))
    \<and> sm_map (snd (StorageMap_key order index s)) = sm_map s"
  using StorageMap_key_parts [OF assms] by simp

lemma StorageMap_key_enumerates_witness:
  "fst (StorageMap_key rev 1 (fst (setItem_unshared (lit ''b'') [] (fst (setItem_unshared (lit ''a'') [] (StorageMap_create 12))))))
     = Some (lit ''a'')"
proof -
  let ?s = "fst (setItem_unshared (lit ''b'') [] (fst (setItem_unshared (lit ''a'') [] (StorageMap_create 12))))"
  have m: "sm_map ?s = [(lit ''a'', []), (lit ''b'', [])]"
    by (simp add: setItem_unshared_def StorageMap_create_def noQuota_def null_length_def invalidateIterator_def)
  have "storage_ok ?s"
    by (simp add: storage_ok_def setItem_unshared_def StorageMap_create_def noQuota_def null_length_def invalidateIterator_def)
  moreover have "length (sm_map ?s) < 2 ^ 32" unfolding m by simp
  ultimately have "fst (StorageMap_key rev 1 ?s) = (if unat (1 :: u32) < length (sm_map ?s)
      then Some (fst (rev (sm_map ?s) ! unat (1 :: u32))) else None)"
    using StorageMap_key_enumerates [of ?s rev 1] by simp
  then show ?thesis unfolding m by simp
qed

section \<open>Areas that share a map\<close>

definition world_ok :: "storage_world \<Rightarrow> bool" where
  "world_ok w \<longleftrightarrow> list_all (\<lambda>r. sa_map r < st_next w) (st_areas w)"

definition area_items :: "storage_world \<Rightarrow> nat \<Rightarrow> ustring \<Rightarrow> ustring option" where
  "area_items w i = map_of (sm_map (area_map w i))"

lemma world_okD: "world_ok w \<Longrightarrow> i < length (st_areas w) \<Longrightarrow> sa_map (st_areas w ! i) < st_next w"
  by (simp add: world_ok_def list_all_length)

lemma st_emit_fields [simp]:
  "st_maps (st_emit e w) = st_maps w" "st_areas (st_emit e w) = st_areas w" "st_next (st_emit e w) = st_next w"
  by (simp_all add: st_emit_def)

lemma with_sync_fields [simp]:
  "st_maps (with_sync i e w) = st_maps w" "st_areas (with_sync i e w) = st_areas w" "st_next (with_sync i e w) = st_next w"
  by (simp_all add: with_sync_def)

lemma same_store:
  assumes "st_maps w' = st_maps w" "st_areas w' = st_areas w" "st_next w' = st_next w"
  shows "area_items w' = area_items w" "area_map w' = area_map w" "map_refs w' = map_refs w" "world_ok w' = world_ok w"
  using assms by (auto simp: area_items_def area_map_def map_refs_def world_ok_def fun_eq_iff)

text \<open>A map with one reference belongs to one area.\<close>

lemma shared_refs:
  assumes "i < length (st_areas w)" "j < length (st_areas w)" "i \<noteq> j" "sa_map (st_areas w ! i) = sa_map (st_areas w ! j)"
  shows "1 < map_refs w (sa_map (st_areas w ! i))"
proof -
  let ?I = "{k. k < length (st_areas w) \<and> sa_map (st_areas w ! k) = sa_map (st_areas w ! i)}"
  have "card {i, j} \<le> card ?I" using assms by (intro card_mono) auto
  then show ?thesis using assms(3) by (simp add: map_refs_def length_filter_conv_card)
qed

text \<open>Storing the result of a write: the writer sees the new map, nobody else sees a change.\<close>

lemma adopt_map_view:
  assumes "world_ok w" "i < length (st_areas w)"
  shows "area_map (adopt_map i m w) i = m"
    "j < length (st_areas w) \<Longrightarrow> j \<noteq> i \<Longrightarrow> area_map (adopt_map i m w) j = area_map w j"
    "world_ok (adopt_map i m w)" "length (st_areas (adopt_map i m w)) = length (st_areas w)"
proof -
  show "area_map (adopt_map i m w) i = m" "length (st_areas (adopt_map i m w)) = length (st_areas w)"
    using assms(2) by (simp_all add: adopt_map_def area_map_def)
  show "area_map (adopt_map i m w) j = area_map w j" if "j < length (st_areas w)" "j \<noteq> i"
    using world_okD [OF assms(1) that(1)] that by (simp add: adopt_map_def area_map_def)
  show "world_ok (adopt_map i m w)"
    using assms by (auto simp: adopt_map_def world_ok_def list_all_length nth_list_update less_SucI)
qed

lemma store_result_view:
  assumes "world_ok w" "i < length (st_areas w)"
    and "newMap = None \<Longrightarrow> map_refs w (sa_map (st_areas w ! i)) \<le> 1"
    and "newMap \<noteq> None \<Longrightarrow> s' = area_map w i"
  shows "area_map (store_result i s' newMap w) i = (case newMap of Some m \<Rightarrow> m | None \<Rightarrow> s')"
    "j < length (st_areas w) \<Longrightarrow> j \<noteq> i \<Longrightarrow> area_map (store_result i s' newMap w) j = area_map w j"
    "world_ok (store_result i s' newMap w)" "length (st_areas (store_result i s' newMap w)) = length (st_areas w)"
proof -
  define w1 where "w1 = w\<lparr>st_maps := (st_maps w)(sa_map (st_areas w ! i) := s')\<rparr>"
  have w1: "world_ok w1" "st_areas w1 = st_areas w" using assms(1) by (simp_all add: w1_def world_ok_def)
  have eq: "store_result i s' newMap w = (case newMap of Some m \<Rightarrow> adopt_map i m w1 | None \<Rightarrow> w1)"
    unfolding store_result_def w1_def Let_def ..
  have other: "area_map w1 j = area_map w j" if "j < length (st_areas w)" "j \<noteq> i" for j
  proof (cases newMap)
    case None
    then have "sa_map (st_areas w ! j) \<noteq> sa_map (st_areas w ! i)"
      using shared_refs [OF assms(2) that(1) that(2) [symmetric]] assms(3) by fastforce
    then show ?thesis by (simp add: w1_def area_map_def)
  next
    case (Some m)
    then show ?thesis using assms(4) by (simp add: w1_def area_map_def)
  qed
  have i: "i < length (st_areas w1)" using assms(2) w1 by simp
  note a = adopt_map_view [OF w1(1) i]
  show "area_map (store_result i s' newMap w) i = (case newMap of Some m \<Rightarrow> m | None \<Rightarrow> s')"
    unfolding eq using a(1) by (cases newMap) (simp_all, simp add: w1_def area_map_def)
  show "area_map (store_result i s' newMap w) j = area_map w j" if "j < length (st_areas w)" "j \<noteq> i"
    unfolding eq using a(2) other that w1(2) by (cases newMap) simp_all
  show "world_ok (store_result i s' newMap w)" "length (st_areas (store_result i s' newMap w)) = length (st_areas w)"
    unfolding eq using a(3,4) w1 by (cases newMap; simp)+
qed

lemma block_fields [simp]:
  "st_maps (blockUntilImportComplete i w) = st_maps w" "st_areas (blockUntilImportComplete i w) = st_areas w"
  "st_next (blockUntilImportComplete i w) = st_next w"
  by (simp_all add: blockUntilImportComplete_def)

text \<open>The map an area writes to: its own, or a fresh copy of the shared one.\<close>

definition write_base :: "storage_world \<Rightarrow> nat \<Rightarrow> storage_map" where
  "write_base w i = (if map_refs w (sa_map (st_areas w ! i)) > 1 then StorageMap_copy (area_map w i) else area_map w i)"

lemma write_base_map [simp]: "sm_map (write_base w i) = sm_map (area_map w i)"
  by (simp add: write_base_def StorageMap_copy_def)

lemma area_setItem_exact:
  assumes "world_ok w" "i < length (st_areas w)"
  shows "area_map (snd (area_setItem False i k v w)) i = fst (setItem_unshared k v (write_base w i))"
    "fst (area_setItem False i k v w) = snd (snd (setItem_unshared k v (write_base w i)))"
    "j < length (st_areas w) \<Longrightarrow> j \<noteq> i \<Longrightarrow> area_map (snd (area_setItem False i k v w)) j = area_map w j"
    "world_ok (snd (area_setItem False i k v w))"
    "length (st_areas (snd (area_setItem False i k v w))) = length (st_areas w)"
proof -
  define b where "b = blockUntilImportComplete i w"
  have b: "world_ok b" "i < length (st_areas b)" "area_map b = area_map w" "map_refs b = map_refs w" "st_areas b = st_areas w"
    using assms same_store [of b w] by (simp_all add: b_def)
  obtain s1 o1 q1 where r: "setItem_unshared k v (write_base w i) = (s1, o1, q1)" by (metis prod.exhaust)
  obtain s' newMap where m: "StorageMap_setItem (map_refs b (sa_map (st_areas b ! i))) k v (area_map b i) = (s', newMap, o1, q1)"
      "case newMap of Some m \<Rightarrow> m = s1 | None \<Rightarrow> s' = s1"
      "newMap = None \<Longrightarrow> map_refs b (sa_map (st_areas b ! i)) \<le> 1" "newMap \<noteq> None \<Longrightarrow> s' = area_map b i"
    using r by (cases "map_refs w (sa_map (st_areas w ! i)) > 1") (simp_all add: StorageMap_setItem_def write_base_def b)
  define w' where "w' = snd (area_setItem False i k v w)"
  have w': "st_maps w' = st_maps (store_result i s' newMap b)" "st_areas w' = st_areas (store_result i s' newMap b)"
    "st_next w' = st_next (store_result i s' newMap b)" and f: "fst (area_setItem False i k v w) = q1"
    by (simp_all add: w'_def area_setItem_def b_def [symmetric] m(1) Let_def)
  note sr = store_result_view [OF b(1,2), where newMap = newMap and s' = s', OF m(3,4)] and same = same_store [OF w']
  show "area_map (snd (area_setItem False i k v w)) i = fst (setItem_unshared k v (write_base w i))"
    using sr(1) m(2) by (cases newMap) (simp_all add: w'_def [symmetric] same r)
  show "fst (area_setItem False i k v w) = snd (snd (setItem_unshared k v (write_base w i)))" by (simp add: f r)
  show "area_map (snd (area_setItem False i k v w)) j = area_map w j" if "j < length (st_areas w)" "j \<noteq> i"
    using sr(2) that b(3,5) by (simp add: w'_def [symmetric] same)
  show "world_ok (snd (area_setItem False i k v w))" "length (st_areas (snd (area_setItem False i k v w))) = length (st_areas w)"
    using sr(3,4) b(5) w'(2) by (simp_all add: w'_def [symmetric] same)
qed

lemma area_removeItem_exact:
  assumes "world_ok w" "i < length (st_areas w)"
  shows "area_map (area_removeItem False i k w) i = fst (removeItem_unshared k (write_base w i))"
    "j < length (st_areas w) \<Longrightarrow> j \<noteq> i \<Longrightarrow> area_map (area_removeItem False i k w) j = area_map w j"
    "world_ok (area_removeItem False i k w)"
    "length (st_areas (area_removeItem False i k w)) = length (st_areas w)"
proof -
  define b where "b = blockUntilImportComplete i w"
  have b: "world_ok b" "i < length (st_areas b)" "area_map b = area_map w" "map_refs b = map_refs w" "st_areas b = st_areas w"
    using assms same_store [of b w] by (simp_all add: b_def)
  obtain s1 o1 where r: "removeItem_unshared k (write_base w i) = (s1, o1)" by (metis prod.exhaust)
  obtain s' newMap where m: "StorageMap_removeItem (map_refs b (sa_map (st_areas b ! i))) k (area_map b i) = (s', newMap, o1)"
      "case newMap of Some m \<Rightarrow> m = s1 | None \<Rightarrow> s' = s1"
      "newMap = None \<Longrightarrow> map_refs b (sa_map (st_areas b ! i)) \<le> 1" "newMap \<noteq> None \<Longrightarrow> s' = area_map b i"
    using r by (cases "map_refs w (sa_map (st_areas w ! i)) > 1") (simp_all add: StorageMap_removeItem_def write_base_def b)
  define w' where "w' = area_removeItem False i k w"
  have w': "st_maps w' = st_maps (store_result i s' newMap b)" "st_areas w' = st_areas (store_result i s' newMap b)"
    "st_next w' = st_next (store_result i s' newMap b)"
    by (simp_all add: w'_def area_removeItem_def b_def [symmetric] m(1) Let_def)
  note sr = store_result_view [OF b(1,2), where newMap = newMap and s' = s', OF m(3,4)] and same = same_store [OF w']
  show "area_map (area_removeItem False i k w) i = fst (removeItem_unshared k (write_base w i))"
    using sr(1) m(2) by (cases newMap) (simp_all add: w'_def [symmetric] same r)
  show "area_map (area_removeItem False i k w) j = area_map w j" if "j < length (st_areas w)" "j \<noteq> i"
    using sr(2) that b(3,5) by (simp add: w'_def [symmetric] same)
  show "world_ok (area_removeItem False i k w)" "length (st_areas (area_removeItem False i k w)) = length (st_areas w)"
    using sr(3,4) b(5) w'(2) by (simp_all add: w'_def [symmetric] same)
qed

lemma area_clear_exact:
  assumes "world_ok w" "i < length (st_areas w)" "length (sm_map (area_map w i)) < 2 ^ 32"
  shows "sm_map (area_map (area_clear False i w) i) = []"
    "j < length (st_areas w) \<Longrightarrow> j \<noteq> i \<Longrightarrow> area_map (area_clear False i w) j = area_map w j"
proof -
  define b where "b = blockUntilImportComplete i w"
  have b: "world_ok b" "i < length (st_areas b)" "area_map b = area_map w" "st_areas b = st_areas w"
    using assms same_store [of b w] by (simp_all add: b_def)
  let ?m = "StorageMap_create (sm_quotaSize (area_map b i))"
  note a = adopt_map_view [OF b(1,2), where m = ?m]
  have z: "StorageMap_length (area_map b i) = 0 \<longleftrightarrow> sm_map (area_map w i) = []"
    using assms(3) u32_of_nat [of "length (sm_map (area_map w i))"] by (auto simp: StorageMap_length_def b(3) unat_eq_0 [symmetric])
  have e: "area_map (area_clear False i w) = (if StorageMap_length (area_map b i) = 0 then area_map b else area_map (adopt_map i ?m b))"
    by (auto simp: area_clear_def b_def [symmetric] Let_def intro!: same_store(2))
  show "sm_map (area_map (area_clear False i w) i) = []"
    using z a(1) by (auto simp: e b(3) StorageMap_create_def)
  show "area_map (area_clear False i w) j = area_map w j" if "j < length (st_areas w)" "j \<noteq> i"
    using a(2) that by (auto simp: e b)
qed

text \<open>C17: Writing, removing and clearing in one area leaves what every other area holds as it was,
  also when they share their map.\<close>

theorem storage_areas_isolated:
  assumes "world_ok w" "i < length (st_areas w)" "j < length (st_areas w)" "j \<noteq> i"
    and "length (sm_map (area_map w i)) < 2 ^ 32"
  shows "area_items (snd (area_setItem p i k v w)) j = area_items w j
    \<and> area_items (area_removeItem p i k w) j = area_items w j
    \<and> area_items (area_clear p i w) j = area_items w j"
proof (intro conjI)
  note block = same_store(1) [of "blockUntilImportComplete i w" w, simplified]
  show "area_items (snd (area_setItem p i k v w)) j = area_items w j"
    using area_setItem_exact(3) [OF assms(1,2,3,4), of k v] block
    by (cases p) (simp add: area_setItem_def, simp add: area_items_def)
  show "area_items (area_removeItem p i k w) j = area_items w j"
    using area_removeItem_exact(2) [OF assms(1,2,3,4), of k] block
    by (cases p) (simp add: area_removeItem_def, simp add: area_items_def)
  show "area_items (area_clear p i w) j = area_items w j"
    using area_clear_exact(2) [OF assms(1,2,5,3,4)] block
    by (cases p) (simp add: area_clear_def, simp add: area_items_def)
qed

definition empty_world :: storage_world where
  "empty_world = \<lparr>st_maps = (\<lambda>_. StorageMap_create 0), st_next = 0, st_areas = [], st_events = []\<rparr>"

definition shared_world :: storage_world where
  "shared_world = StorageArea_copy 0 (StorageArea_create True 100 empty_world)"

lemma shared_world_ok: "world_ok shared_world" "length (st_areas shared_world) = 2" "sm_map (area_map shared_world 1) = []"
  by (simp_all add: world_ok_def shared_world_def StorageArea_copy_def StorageArea_create_def empty_world_def
      area_map_def StorageMap_create_def)

theorem storage_areas_isolated_witness:
  "area_items (snd (area_setItem False 1 (lit ''k'') (lit ''v'') shared_world)) 0 = area_items shared_world 0"
  using storage_areas_isolated [of shared_world 1 0] shared_world_ok by simp

text \<open>In its own area a write is seen at once and whole, or, when the quota is exceeded, not at all;
  a removed key is gone.\<close>

theorem storage_area_writes:
  assumes "world_ok w" "i < length (st_areas w)"
  shows "area_items (snd (area_setItem False i k v w)) i =
      (if fst (area_setItem False i k v w) then area_items w i else (area_items w i)(k \<mapsto> v))
    \<and> area_items (area_removeItem False i k w) i = (area_items w i)(k := None)"
proof (intro conjI)
  let ?b = "write_base w i"
  note s = area_setItem_exact(1,2) [OF assms, of k v]
  have "snd (snd (setItem_unshared k v ?b)) \<Longrightarrow> sm_map (fst (setItem_unshared k v ?b)) = sm_map ?b"
    "\<not> snd (snd (setItem_unshared k v ?b)) \<Longrightarrow> sm_map (fst (setItem_unshared k v ?b)) = AList.update k v (sm_map ?b)"
    by (auto simp: setItem_unshared_def Let_def split: if_splits)
  then show "area_items (snd (area_setItem False i k v w)) i =
      (if fst (area_setItem False i k v w) then area_items w i else (area_items w i)(k \<mapsto> v))"
    by (auto simp: area_items_def s update_conv')
  have "sm_map (fst (removeItem_unshared k ?b)) = AList.delete k (sm_map ?b)"
    by (simp add: removeItem_unshared_def Let_def)
  then show "area_items (area_removeItem False i k w) i = (area_items w i)(k := None)"
    using area_removeItem_exact(1) [OF assms, of k] by (simp add: area_items_def delete_conv')
qed

theorem storage_area_writes_witness:
  "area_items (area_removeItem False 1 (lit ''k'') shared_world) 1 = (area_items shared_world 1)(lit ''k'' := None)"
  using storage_area_writes [of shared_world 1 "lit ''k''"] shared_world_ok by simp

end
