(* ===== verification/PlatformString.thy ===== *)
theory PlatformString
  imports Prelude
begin

text \<open>
  The string class every other component is written with: \<open>WebCore::String\<close> and
  \<open>StringImpl\<close> (src/webkit/WebCore/platform/text/String.cpp, StringImpl.cpp and the
  inline functions of PlatformString.h). A string is the list of its UTF-16 code units;
  the null string is told apart from the empty one only where the code branches on it
  (an \<open>option\<close> there). The Unicode tables are the port's peer library, which is not
  part of the sources: they are the fields of \<open>unicode_peer\<close>.
\<close>

unbundle bit_operations_syntax

section \<open>Characters\<close>

record unicode_peer =
  peer_toLower :: "uchar \<Rightarrow> uchar"
  peer_foldCase :: "uchar \<Rightarrow> uchar"
  peer_isWhiteSpaceNeutral :: "uchar \<Rightarrow> bool"

text \<open>An instance for the witnesses: a peer that knows ASCII only.\<close>

definition ascii_peer :: unicode_peer where
  "ascii_peer = \<lparr>peer_toLower = (\<lambda>c. if ch CHR ''A'' \<le> c \<and> c \<le> ch CHR ''Z'' then c + 32 else c),
     peer_foldCase = (\<lambda>c. if ch CHR ''A'' \<le> c \<and> c \<le> ch CHR ''Z'' then c + 32 else c),
     peer_isWhiteSpaceNeutral = (\<lambda>_. False)\<rparr>"

definition isASCIIDigit :: "'a::len word \<Rightarrow> bool" where
  "isASCIIDigit c \<longleftrightarrow> ch CHR ''0'' \<le> c \<and> c \<le> ch CHR ''9''"

definition isASCIIUpper :: "uchar \<Rightarrow> bool" where
  "isASCIIUpper c \<longleftrightarrow> ch CHR ''A'' \<le> c \<and> c \<le> ch CHR ''Z''"

definition isASCIIAlpha :: "uchar \<Rightarrow> bool" where
  "isASCIIAlpha c \<longleftrightarrow> ch CHR ''a'' \<le> (c OR 0x20) \<and> (c OR 0x20) \<le> ch CHR ''z''"

definition isASCIIHexDigit :: "uchar \<Rightarrow> bool" where
  "isASCIIHexDigit c \<longleftrightarrow> (ch CHR ''0'' \<le> c \<and> c \<le> ch CHR ''9'')
     \<or> (ch CHR ''a'' \<le> (c OR 0x20) \<and> (c OR 0x20) \<le> ch CHR ''f'')"

definition isASCIISpace :: "uchar \<Rightarrow> bool" where
  "isASCIISpace c \<longleftrightarrow> c \<le> 0x20 \<and> (c = 0x20 \<or> (c \<le> 0xD \<and> 0x9 \<le> c))"

definition toASCIILower :: "uchar \<Rightarrow> uchar" where
  "toASCIILower c = c OR (if ch CHR ''A'' \<le> c \<and> c \<le> ch CHR ''Z'' then 0x20 else 0)"

definition isSpaceOrNewline :: "unicode_peer \<Rightarrow> uchar \<Rightarrow> bool" where
  "isSpaceOrNewline U c \<longleftrightarrow>
     (if c \<le> 0x7F then isASCIISpace c else peer_isWhiteSpaceNeutral U c)"

definition charactersAreAllASCII :: "ustring \<Rightarrow> bool" where
  "charactersAreAllASCII s \<longleftrightarrow> fold (\<lambda>c ored. ored OR c) s 0 AND 0xFF80 = 0"

section \<open>Element access, substrings, editing\<close>

text \<open>\<open>String::operator[]\<close>: out of range reads give 0.\<close>

definition String_at :: "ustring \<Rightarrow> nat \<Rightarrow> uchar" where
  "String_at s i = (if i \<ge> length s then 0 else s ! i)"

text \<open>\<open>start\<close> and \<open>len\<close> are \<open>unsigned\<close>: a caller converts a negative \<open>int\<close> with \<open>to_unsigned\<close>.\<close>

definition to_unsigned :: "int \<Rightarrow> nat" where
  "to_unsigned n = nat (n mod 2 ^ 32)"

definition UINT_MAX :: nat where
  "UINT_MAX = 2 ^ 32 - 1"

definition substring :: "ustring \<Rightarrow> nat \<Rightarrow> nat \<Rightarrow> ustring" where
  "substring s start len =
     (if start \<ge> length s then []
      else let maxLength = length s - start;
               len' = (if len \<ge> maxLength then maxLength else len)
           in take len' (drop start s))"

definition left :: "ustring \<Rightarrow> nat \<Rightarrow> ustring" where
  "left s len = substring s 0 len"

definition right :: "ustring \<Rightarrow> nat \<Rightarrow> ustring" where
  "right s len = substring s (to_unsigned (int (length s) - int len)) len"

definition String_plus :: "ustring \<Rightarrow> ustring \<Rightarrow> ustring" where
  "String_plus a b = (if a = [] then b else if b = [] then a else a @ b)"

definition String_insert :: "ustring \<Rightarrow> ustring \<Rightarrow> nat \<Rightarrow> ustring" where
  "String_insert s chars position =
     (if position \<ge> length s then s @ chars
      else if chars = [] then s
      else take position s @ chars @ drop position s)"

definition String_truncate :: "ustring \<Rightarrow> nat \<Rightarrow> ustring" where
  "String_truncate s position = (if position \<ge> length s then s else take position s)"

definition String_remove :: "ustring \<Rightarrow> nat \<Rightarrow> int \<Rightarrow> ustring" where
  "String_remove s position lengthToRemove =
     (if lengthToRemove \<le> 0 then s
      else if position \<ge> length s then s
      else let n = (if nat lengthToRemove > length s - position
                    then length s - position else nat lengthToRemove)
           in take position s @ drop (position + n) s)"

text \<open>\<open>StringImpl::replace(position, lengthToReplace, str)\<close>.\<close>

definition replace_range :: "ustring \<Rightarrow> nat \<Rightarrow> nat \<Rightarrow> ustring \<Rightarrow> ustring" where
  "replace_range s position lengthToReplace str =
     (let p = min position (length s);
          n = min lengthToReplace (length s - p)
      in if n = 0 \<and> str = [] then s
         else take p s @ str @ drop (p + n) s)"

text \<open>\<open>String::number(unsigned short)\<close> and its kin: \<open>printf\<close> in decimal.\<close>

fun decimal :: "nat \<Rightarrow> ustring" where
  "decimal n = (if n < 10 then [] else decimal (n div 10)) @ [of_nat (48 + n mod 10)]"

declare decimal.simps [simp del]

section \<open>Case and white space\<close>

text \<open>
  \<open>StringImpl::lower\<close>: the first loop scans for upper case and non-ASCII characters, the
  second lowers an ASCII string, the third goes through the Unicode tables.
\<close>

definition lower :: "unicode_peer \<Rightarrow> ustring \<Rightarrow> ustring" where
  "lower U s =
     (let ored = fold (\<lambda>c ored. ored OR c) s 0;
          noUpper = (\<forall>c\<in>set s. \<not> isASCIIUpper c)
      in if noUpper \<and> ored AND NOT 0x7F = 0 then s
         else if ored AND NOT 0x7F = 0 then map toASCIILower s
         else map (peer_toLower U) s)"

text \<open>The loop that skips white space from the end: \<open>while (end && isSpace(data[end])) end--;\<close>\<close>

fun skip_back :: "('a \<Rightarrow> bool) \<Rightarrow> 'a list \<Rightarrow> nat \<Rightarrow> nat" where
  "skip_back p s 0 = 0"
| "skip_back p s (Suc e) = (if p (s ! Suc e) then skip_back p s e else Suc e)"

definition stripWhiteSpace :: "unicode_peer \<Rightarrow> ustring \<Rightarrow> ustring" where
  "stripWhiteSpace U s =
     (if s = [] then []
      else let start = scan_while (isSpaceOrNewline U) s 0
           in if start > length s - 1 then []
              else let end = skip_back (isSpaceOrNewline U) s (length s - 1)
                   in if start = 0 \<and> end = length s - 1 then s
                      else take (end + 1 - start) (drop start s))"

text \<open>
  \<open>StringImpl::simplifyWhiteSpace\<close>: the outer loop alternates between skipping a run of
  white space and copying a word followed by one space; a trailing space is dropped.
\<close>

lemma simplify_loop_shrinks:
  "dropWhile (\<lambda>c. \<not> p c) (dropWhile p s) \<noteq> [] \<Longrightarrow>
   length (dropWhile (\<lambda>c. \<not> p c) (dropWhile p s)) < length s"
proof (induction s)
  case (Cons x s)
  show ?case
  proof (cases "p x")
    case True
    with Cons show ?thesis by (cases "dropWhile (\<lambda>c. \<not> p c) (dropWhile p s) = []") auto
  next
    case False
    have "length (dropWhile (\<lambda>c. \<not> p c) s) \<le> length s" by (rule length_dropWhile_le)
    with False show ?thesis by simp
  qed
qed simp

function simplify_loop :: "unicode_peer \<Rightarrow> ustring \<Rightarrow> ustring" where
  "simplify_loop U from =
     (let from1 = dropWhile (isSpaceOrNewline U) from;
          word = takeWhile (\<lambda>c. \<not> isSpaceOrNewline U c) from1;
          from2 = dropWhile (\<lambda>c. \<not> isSpaceOrNewline U c) from1
      in if from2 \<noteq> [] then word @ 0x20 # simplify_loop U from2 else word)"
  by pat_completeness auto
termination
  by (relation "measure (\<lambda>(U, s). length s)") (auto intro: simplify_loop_shrinks)

declare simplify_loop.simps [simp del]

definition simplifyWhiteSpace :: "unicode_peer \<Rightarrow> ustring \<Rightarrow> ustring" where
  "simplifyWhiteSpace U s =
     (let to = simplify_loop U s
      in if to \<noteq> [] \<and> last to = 0x20 then butlast to else to)"

definition containsOnlyWhitespace :: "ustring \<Rightarrow> bool" where
  "containsOnlyWhitespace s \<longleftrightarrow> (\<forall>c\<in>set s. isASCIISpace c)"

text \<open>
  \<open>StringImpl::removeCharacters\<close>: find the first match, copy what precedes it, then
  alternate between skipping matches and copying the rest.
\<close>

function remove_loop :: "(uchar \<Rightarrow> bool) \<Rightarrow> ustring \<Rightarrow> ustring" where
  "remove_loop findMatch from =
     (let from1 = dropWhile findMatch from;
          kept = takeWhile (\<lambda>c. \<not> findMatch c) from1;
          from2 = dropWhile (\<lambda>c. \<not> findMatch c) from1
      in if from2 = [] then kept else kept @ remove_loop findMatch from2)"
  by pat_completeness auto

termination
  by (relation "measure (\<lambda>(p, s). length s)") (auto intro: simplify_loop_shrinks)

declare remove_loop.simps [simp del]

definition removeCharacters :: "(uchar \<Rightarrow> bool) \<Rightarrow> ustring \<Rightarrow> ustring" where
  "removeCharacters findMatch s =
     (let outc = scan_while (\<lambda>c. \<not> findMatch c) s 0
      in if outc = length s then s
         else take outc s @ remove_loop findMatch (drop outc s))"

section \<open>Comparison with C literals\<close>

text \<open>\<open>equal(StringImpl*, const char*)\<close>, with the literal's terminator read by \<open>at\<close>.\<close>

fun equalCStr_loop :: "ustring \<Rightarrow> byte list \<Rightarrow> nat \<Rightarrow> bool" where
  "equalCStr_loop [] b i = (at b i = 0)"
| "equalCStr_loop (a # as) b i =
     (if at b i = 0 then False
      else if a \<noteq> ucast (at b i) then False
      else equalCStr_loop as b (Suc i))"

definition equalCStr :: "ustring \<Rightarrow> byte list \<Rightarrow> bool" where
  "equalCStr a b = equalCStr_loop a b 0"

text \<open>
  \<open>equalIgnoringCase(StringImpl*, const char*)\<close>: one loop for the ASCII case, which also
  rejects a shorter literal, and a second one through the fold table when a non-ASCII
  character was seen.
\<close>

fun eqic_ascii_loop :: "ustring \<Rightarrow> byte list \<Rightarrow> nat \<Rightarrow> uchar \<Rightarrow> bool \<Rightarrow> (uchar \<times> bool) option" where
  "eqic_ascii_loop [] b i ored eq = Some (ored, eq)"
| "eqic_ascii_loop (a # as) b i ored eq =
     (if at b i = 0 then None
      else eqic_ascii_loop as b (Suc i) (ored OR a)
             (eq \<and> toASCIILower a = toASCIILower (ucast (at b i))))"

definition equalIgnoringCaseCStr :: "unicode_peer \<Rightarrow> ustring \<Rightarrow> byte list \<Rightarrow> bool" where
  "equalIgnoringCaseCStr U a b =
     (case eqic_ascii_loop a b 0 0 True of
        None \<Rightarrow> False
      | Some (ored, eq) \<Rightarrow>
          (let eq' = (if ored AND NOT 0x7F \<noteq> 0
                      then \<forall>i<length a. peer_foldCase U (a ! i) = peer_foldCase U (ucast (at b i))
                      else eq)
           in eq' \<and> at b (length a) = 0))"

section \<open>Searching\<close>

fun find_from :: "(uchar \<Rightarrow> bool) \<Rightarrow> ustring \<Rightarrow> nat \<Rightarrow> int" where
  "find_from p [] i = -1"
| "find_from p (c # cs) i = (if p c then int i else find_from p cs (Suc i))"

text \<open>
  \<open>find(characters, length, character, startPosition)\<close>. A negative start converts to a
  huge \<open>size_t\<close>, for which the loop does not run.
\<close>

definition find_char :: "ustring \<Rightarrow> uchar \<Rightarrow> int \<Rightarrow> int" where
  "find_char s c start =
     (if start \<ge> int (length s) then -1
      else if start < 0 then -1
      else find_from (\<lambda>x. x = c) (drop (nat start) s) (nat start))"

fun reverseFind_loop :: "ustring \<Rightarrow> uchar \<Rightarrow> nat \<Rightarrow> int" where
  "reverseFind_loop s c 0 = (if s ! 0 = c then 0 else -1)"
| "reverseFind_loop s c (Suc i) = (if s ! Suc i = c then int (Suc i) else reverseFind_loop s c i)"

definition reverseFind_char :: "ustring \<Rightarrow> uchar \<Rightarrow> int \<Rightarrow> int" where
  "reverseFind_char s c start =
     (if start \<ge> int (length s) \<or> s = [] then -1
      else reverseFind_loop s c (nat (if start < 0 then start + int (length s) else start)))"

text \<open>
  \<open>StringImpl::find(StringImpl*, index, caseSensitive)\<close>: a rolling sum of the characters
  under the window is compared before the characters are. \<open>key\<close> is the identity or
  \<open>toASCIILower\<close>, \<open>eq\<close> is \<open>memcmp\<close> or the case-folding comparison. The loop stops at
  \<open>i == delta\<close>; \<open>i\<close> starts at 0 and never passes \<open>delta\<close>.
\<close>

function find_loop ::
  "(uchar \<Rightarrow> uchar) \<Rightarrow> (ustring \<Rightarrow> ustring \<Rightarrow> bool) \<Rightarrow> ustring \<Rightarrow> ustring \<Rightarrow> u32 \<Rightarrow> u32 \<Rightarrow> nat \<Rightarrow> nat \<Rightarrow> nat option" where
  "find_loop key eq uthis ustr hthis hstr delta i =
     (if hthis = hstr \<and> eq (take (length ustr) (drop i uthis)) ustr then Some i
      else if delta \<le> i then None
      else find_loop key eq uthis ustr
             (hthis + ucast (key (uthis ! (i + length ustr))) - ucast (key (uthis ! i)))
             hstr delta (Suc i))"
  by pat_completeness auto
termination
  by (relation "measure (\<lambda>(_, _, _, _, _, _, delta, i). delta - i)") auto

declare find_loop.simps [simp del]

definition window_sum :: "(uchar \<Rightarrow> uchar) \<Rightarrow> ustring \<Rightarrow> u32" where
  "window_sum key s = fold (\<lambda>c h. h + ucast (key c)) s 0"

definition find_string ::
  "unicode_peer \<Rightarrow> ustring \<Rightarrow> ustring \<Rightarrow> int \<Rightarrow> bool \<Rightarrow> int" where
  "find_string U this str index caseSensitive =
     (let index' = (if index < 0 then index + int (length this) else index);
          lstr = length str;
          lthis = int (length this) - index'
      in if lthis mod 2 ^ 32 > int (length this) then -1
         else let delta = lthis - int lstr
         in if delta < 0 then -1
            else let uthis = drop (nat index') this;
                     key = (if caseSensitive then (\<lambda>c. c) else toASCIILower);
                     eq = (if caseSensitive then (\<lambda>a b. a = b)
                           else (\<lambda>a b. map (peer_foldCase U) a = map (peer_foldCase U) b))
                 in case find_loop key eq uthis str (window_sum key (take lstr uthis))
                           (window_sum key str) (nat delta) 0 of
                      Some i \<Rightarrow> index' + int i
                    | None \<Rightarrow> -1)"

text \<open>
  \<open>StringImpl::find(const char*, index, caseSensitive)\<close>: \<open>n\<close> counts the positions left,
  and the match position is computed from it.
\<close>

fun find_cstr_loop :: "(ustring \<Rightarrow> bool) \<Rightarrow> ustring \<Rightarrow> nat \<Rightarrow> nat \<Rightarrow> int" where
  "find_cstr_loop matches s chsLength 0 = -1"
| "find_cstr_loop matches s chsLength (Suc n) =
     (let pos = length s + 1 - chsLength - Suc n
      in if matches (take chsLength (drop pos s)) then int pos
         else find_cstr_loop matches s chsLength n)"

definition find_cstr :: "unicode_peer \<Rightarrow> ustring \<Rightarrow> byte list \<Rightarrow> int \<Rightarrow> bool \<Rightarrow> int" where
  "find_cstr U s chs index caseSensitive =
     (if index < 0 then -1
      else let n = int (length s) - index
      in if n < 0 then -1
         else let n' = n - (int (length chs) - 1)
         in if n' \<le> 0 then -1
            else find_cstr_loop
                   (\<lambda>w. if caseSensitive then w = map ucast chs
                        else map (peer_foldCase U) w = map (\<lambda>b. peer_foldCase U (ucast b)) chs)
                   s (length chs) (nat n'))"

definition endsWith :: "unicode_peer \<Rightarrow> ustring \<Rightarrow> ustring \<Rightarrow> bool" where
  "endsWith U s suffix =
     (let start = int (length s) - int (length suffix)
      in if start \<ge> 0 then find_string U s suffix start True = start else False)"

section \<open>Replacing and splitting\<close>

definition replace_char :: "ustring \<Rightarrow> uchar \<Rightarrow> uchar \<Rightarrow> ustring" where
  "replace_char s oldC newC =
     (if oldC = newC then s
      else if scan_while (\<lambda>c. c \<noteq> oldC) s 0 = length s then s
      else map (\<lambda>c. if c = oldC then newC else c) s)"

end
