(* ===== verification/StringSearch.thy ===== *)
theory StringSearch
  imports PlatformString
begin

text \<open>
  What the search, replace, split and trimming routines of StringImpl.cpp and String.cpp
  compute: the rolling-sum search finds the first occurrence, \<open>replace\<close> fills exactly
  the buffer it allocates, \<open>split\<close> loses nothing, the white space loops are the two
  \<open>dropWhile\<close>s.
\<close>

unbundle bit_operations_syntax

section \<open>Substrings\<close>

lemma substring_eq_take_drop: "substring s start len = take len (drop start s)"
  by (auto simp: substring_def Let_def)

lemma left_eq_take [simp]: "left s n = take n s"
  by (simp add: left_def substring_eq_take_drop)

lemma to_unsigned_nonneg [simp]: "0 \<le> n \<Longrightarrow> n < 2 ^ 32 \<Longrightarrow> to_unsigned n = nat n"
  by (simp add: to_unsigned_def)

lemma right_eq_drop:
  "n \<le> length s \<Longrightarrow> length s < 2 ^ 32 \<Longrightarrow> right s n = drop (length s - n) s"
proof -
  assume "n \<le> length s" "length s < 2 ^ 32"
  then have "to_unsigned (int (length s) - int n) = length s - n"
    by (simp add: to_unsigned_nonneg)
  then show ?thesis using \<open>n \<le> length s\<close>
    by (simp add: right_def substring_eq_take_drop)
qed

lemma String_plus_eq_append [simp]: "String_plus a b = a @ b"
  by (simp add: String_plus_def)

lemma String_at_less [simp]: "i < length s \<Longrightarrow> String_at s i = s ! i"
  by (simp add: String_at_def)

lemma String_at_ge [simp]: "length s \<le> i \<Longrightarrow> String_at s i = 0"
  by (simp add: String_at_def)

lemma charactersAreAllASCII_aux:
  "fold (\<lambda>c ored. ored OR c) s (a::uchar) AND m = 0 \<longleftrightarrow> a AND m = 0 \<and> (\<forall>c\<in>set s. c AND m = 0)"
proof (induction s arbitrary: a)
  case (Cons x s)
  have "(a OR x) AND m = 0 \<longleftrightarrow> a AND m = 0 \<and> x AND m = 0"
    by (simp add: bit.conj_disj_distrib2 or_eq_0_iff)
  with Cons show ?case by simp
qed simp

lemma conj_compl: "(c::'a::len word) AND NOT m = 0 \<longleftrightarrow> c AND m = c"
  by (metis (no_types) bit.conj_cancel_right bit.conj_disj_distrib bit.conj_one_right bit.disj_cancel_right bit.disj_zero_right bit.conj_zero_right and.assoc and.commute bit.conj_cancel_left )
lemma take_bit_7: "take_bit 7 c = c \<longleftrightarrow> (c::uchar) \<le> 127"
proof -
  have "take_bit 7 c = c \<longleftrightarrow> take_bit 7 (unat c) = unat c"
    by (subst word_unat_eq_iff) (simp only: unsigned_take_bit_eq)
  also have "\<dots> \<longleftrightarrow> unat c \<le> 127"
  proof -
    have "n mod 128 = n \<longleftrightarrow> n \<le> 127" for n :: nat
      using mod_less_divisor [of 128 n] by (cases "n < 128") auto
    then show ?thesis by (simp add: take_bit_nat_def)
  qed
  finally show ?thesis by (simp add: word_le_nat_alt)
qed

lemma uchar_mask_iff: "(c::uchar) AND 0xFF80 = 0 \<longleftrightarrow> c \<le> 0x7F"
proof -
  have e: "0xFF80 = (NOT (mask 7) :: uchar)" by (simp add: mask_eq_exp_minus_1)
  show ?thesis unfolding e conj_compl by (simp only: take_bit_eq_mask [symmetric] take_bit_7)
qed
lemma charactersAreAllASCII_iff: "charactersAreAllASCII s \<longleftrightarrow> (\<forall>c\<in>set s. c \<le> 0x7F)"
  unfolding charactersAreAllASCII_def charactersAreAllASCII_aux by (simp add: uchar_mask_iff del: word_bw_same)

section \<open>Comparison with literals\<close>

lemma equalCStr_loop_iff:
  "0 \<notin> set b \<Longrightarrow> i \<le> length b \<Longrightarrow> equalCStr_loop a b i \<longleftrightarrow> a = map ucast (drop i b)"
proof (induction a b i rule: equalCStr_loop.induct)
  case (1 b i)
  then show ?case
    by (cases "i < length b") (auto dest: nth_mem)
next
  case (2 a as b i)
  show ?case
  proof (cases "i < length b")
    case True
    then have "b ! i \<noteq> 0" using 2 nth_mem by metis
    moreover have "drop i b = b ! i # drop (Suc i) b"
      using True by (simp add: Cons_nth_drop_Suc)
    ultimately show ?thesis using 2 True by auto
  next
    case False
    with 2 show ?thesis by simp
  qed
qed

lemma equalCStr_iff: "0 \<notin> set b \<Longrightarrow> equalCStr a b \<longleftrightarrow> a = map ucast b"
  by (simp add: equalCStr_def equalCStr_loop_iff)

section \<open>Finding a character\<close>

lemma find_from_range:
  "find_from p cs i = -1 \<or> (int i \<le> find_from p cs i \<and> find_from p cs i < int (i + length cs))"
  by (induction p cs i rule: find_from.induct) auto

lemma find_from_None: "find_from p cs i = -1 \<longleftrightarrow> (\<forall>c\<in>set cs. \<not> p c)"
  by (induction p cs i rule: find_from.induct) auto

lemma find_from_Some:
  "find_from p cs i = int k \<longleftrightarrow>
     i \<le> k \<and> k < i + length cs \<and> p (cs ! (k - i)) \<and> (\<forall>j. i \<le> j \<and> j < k \<longrightarrow> \<not> p (cs ! (j - i)))"
proof (induction p cs i rule: find_from.induct)
  case (2 p c cs i)
  show ?case
  proof (cases "p c")
    case True
    then show ?thesis by (cases "k = i") (auto dest: spec [of _ i])
  next
    case False
    show ?thesis
    proof (cases "Suc i \<le> k")
      case True
      have shift: "(c # cs) ! (j - i) = cs ! (j - Suc i)" if "Suc i \<le> j" for j
      proof -
        from that have "j - i = Suc (j - Suc i)" by simp
        then show ?thesis by simp
      qed
      have "(\<forall>j. i \<le> j \<and> j < k \<longrightarrow> \<not> p ((c # cs) ! (j - i))) \<longleftrightarrow>
            (\<forall>j. Suc i \<le> j \<and> j < k \<longrightarrow> \<not> p (cs ! (j - Suc i)))"
      proof -
        have "\<not> p ((c # cs) ! (i - i))" using False by simp
        then show ?thesis using shift
          by (metis Suc_leD not_less_eq_eq le_antisym)
      qed
      with True False 2 shift [OF True] show ?thesis by auto
    next
      case nle: False
      have "find_from p cs (Suc i) \<noteq> int k"
        using find_from_range [of p cs "Suc i"] nle by auto
      with nle False show ?thesis
        by (cases "k = i") (auto simp: le_Suc_eq)
    qed
  qed
qed simp

lemma find_char_None: "0 \<le> start \<Longrightarrow> find_char s c start = -1 \<longleftrightarrow> c \<notin> set (drop (nat start) s)"
  by (auto simp: find_char_def find_from_None)

lemma find_char_Some:
  "0 \<le> start \<Longrightarrow> find_char s c start = int k \<longleftrightarrow>
     nat start \<le> k \<and> k < length s \<and> s ! k = c \<and> (\<forall>j. nat start \<le> j \<and> j < k \<longrightarrow> s ! j \<noteq> c)"
proof -
  assume s: "0 \<le> start"
  show ?thesis
  proof (cases "start \<ge> int (length s)")
    case True
    with s show ?thesis by (auto simp: find_char_def)
  next
    case False
    then have "nat start < length s" using s by linarith
    with False s show ?thesis
      by (auto simp: find_char_def find_from_Some)
  qed
qed

lemma find_char_range: "0 \<le> start \<Longrightarrow>
  find_char s c start = -1 \<or> (start \<le> find_char s c start \<and> find_char s c start < int (length s))"
  using find_from_range [of "\<lambda>x. x = c" "drop (nat start) s" "nat start"]
  by (auto simp: find_char_def)

section \<open>The rolling-sum search\<close>

definition occurs_at :: "ustring \<Rightarrow> ustring \<Rightarrow> nat \<Rightarrow> bool" where
  "occurs_at s pat i \<longleftrightarrow> i + length pat \<le> length s \<and> take (length pat) (drop i s) = pat"

lemma window_sum_fold: "fold (\<lambda>c h. h + ucast (key c)) s (a::u32) = a + window_sum key s"
proof (induction s arbitrary: a)
  case (Cons x s)
  show ?case
    using Cons.IH [of "a + ucast (key x)"] Cons.IH [of "ucast (key x)"]
    by (simp add: window_sum_def add.assoc)
qed (simp add: window_sum_def)

lemma window_sum_Cons: "window_sum key (x # s) = ucast (key x) + window_sum key s"
  using window_sum_fold [of key s "ucast (key x)"] by (simp add: window_sum_def)

lemma window_sum_snoc: "window_sum key (s @ [x]) = window_sum key s + ucast (key x)"
  by (simp add: window_sum_def)

lemma window_sum_shift:
  assumes "i + l < length u"
  shows "window_sum key (take l (drop (Suc i) u)) =
         window_sum key (take l (drop i u)) + ucast (key (u ! (i + l))) - ucast (key (u ! i))"
proof -
  have a: "take (Suc l) (drop i u) = take l (drop i u) @ [u ! (i + l)]"
    using assms by (simp add: take_Suc_conv_app_nth)
  have b: "take (Suc l) (drop i u) = u ! i # take l (drop (Suc i) u)"
    using assms by (metis Cons_nth_drop_Suc add_lessD1 take_Suc_Cons)
  from a have "window_sum key (take (Suc l) (drop i u)) =
      window_sum key (take l (drop i u)) + ucast (key (u ! (i + l)))"
    by (simp add: window_sum_snoc)
  moreover from b have "window_sum key (take (Suc l) (drop i u)) =
      ucast (key (u ! i)) + window_sum key (take l (drop (Suc i) u))"
    by (simp add: window_sum_Cons)
  ultimately show ?thesis by (simp add: algebra_simps)
qed

lemma find_loop_spec:
  assumes "delta + length str = length u" and "i \<le> delta"
    and "h = window_sum key (take (length str) (drop i u))"
    and "hs = window_sum key str"
    and "\<And>w. eq w str \<Longrightarrow> window_sum key w = window_sum key str"
  shows "case find_loop key eq u str h hs delta i of
           None \<Rightarrow> \<forall>j. i \<le> j \<and> j \<le> delta \<longrightarrow> \<not> eq (take (length str) (drop j u)) str
         | Some k \<Rightarrow> i \<le> k \<and> k \<le> delta \<and> eq (take (length str) (drop k u)) str
             \<and> (\<forall>j. i \<le> j \<and> j < k \<longrightarrow> \<not> eq (take (length str) (drop j u)) str)"
  using assms
proof (induction key eq u str h hs delta i rule: find_loop.induct)
  case (1 key eq u str h hs delta i)
  let ?w = "\<lambda>j. take (length str) (drop j u)"
  have hit: "(h = hs \<and> eq (?w i) str) = eq (?w i) str"
    using "1.prems"(3,4) "1.prems"(5) [of "?w i"] by auto
  show ?case
  proof (cases "eq (?w i) str")
    case True
    then show ?thesis
      using "1.prems"(2) hit by (subst find_loop.simps) auto
  next
    case miss: False
    show ?thesis
    proof (cases "delta \<le> i")
      case True
      with miss hit "1.prems"(2) show ?thesis
        by (subst find_loop.simps) (auto simp: le_antisym)
    next
      case False
      let ?h = "h + ucast (key (u ! (i + length str))) - ucast (key (u ! i))"
      have "?h = window_sum key (?w (Suc i))"
        using window_sum_shift [of i "length str" u key] False "1.prems"(1,3) by simp
      with False miss hit "1.prems"
      have IH: "case find_loop key eq u str ?h hs delta (Suc i) of
           None \<Rightarrow> \<forall>j. Suc i \<le> j \<and> j \<le> delta \<longrightarrow> \<not> eq (?w j) str
         | Some k \<Rightarrow> Suc i \<le> k \<and> k \<le> delta \<and> eq (?w k) str
             \<and> (\<forall>j. Suc i \<le> j \<and> j < k \<longrightarrow> \<not> eq (?w j) str)"
        by (intro "1.IH") auto
      have step: "find_loop key eq u str h hs delta i = find_loop key eq u str ?h hs delta (Suc i)"
        using False miss hit by (subst find_loop.simps) simp
      have split: "i \<le> j \<longleftrightarrow> j = i \<or> Suc i \<le> j" for j by auto
      show ?thesis
        using IH miss unfolding step by (auto simp: split split: option.splits)
    qed
  qed
qed

lemma find_string_spec:
  assumes "0 \<le> index" "index < 2 ^ 31" "length s < 2 ^ 31"
  shows "(find_string U s pat index True = -1 \<and> (\<forall>j\<ge>nat index. \<not> occurs_at s pat j))
       \<or> (\<exists>k. find_string U s pat index True = int k \<and> nat index \<le> k \<and> occurs_at s pat k
             \<and> (\<forall>j. nat index \<le> j \<and> j < k \<longrightarrow> \<not> occurs_at s pat j))"
proof (cases "nat index + length pat \<le> length s")
  case False
  have none: "\<forall>j\<ge>nat index. \<not> occurs_at s pat j"
    using False by (auto simp: occurs_at_def)
  have "find_string U s pat index True = -1"
  proof (cases "index \<le> int (length s)")
    case True
    then show ?thesis using False assms
      by (auto simp: find_string_def Let_def)
  next
    case gt: False
    have "(int (length s) - index) mod 2 ^ 32 = (int (length s) - index + 2 ^ 32) mod 2 ^ 32"
      by simp
    also have "\<dots> = int (length s) - index + 2 ^ 32"
      using gt assms by (intro mod_pos_pos_trivial) auto
    finally have "(int (length s) - index) mod 2 ^ 32 = int (length s) - index + 2 ^ 32" .
    then show ?thesis using gt assms by (simp add: find_string_def Let_def)
  qed
  with none show ?thesis by blast
next
  case True
  let ?u = "drop (nat index) s"
  let ?d = "length ?u - length pat"
  let ?r = "find_loop (\<lambda>c. c) (\<lambda>a b. a = b) ?u pat (window_sum (\<lambda>c. c) (take (length pat) ?u))
              (window_sum (\<lambda>c. c) pat) ?d 0"
  have spec: "case ?r of None \<Rightarrow> \<forall>j. 0 \<le> j \<and> j \<le> ?d \<longrightarrow> take (length pat) (drop j ?u) \<noteq> pat
     | Some k \<Rightarrow> 0 \<le> k \<and> k \<le> ?d \<and> take (length pat) (drop k ?u) = pat
         \<and> (\<forall>j. 0 \<le> j \<and> j < k \<longrightarrow> take (length pat) (drop j ?u) \<noteq> pat)"
    by (rule find_loop_spec) (use True in auto)
  have occ: "occurs_at s pat j \<longleftrightarrow> j - nat index \<le> ?d \<and> take (length pat) (drop (j - nat index) ?u) = pat"
    if "nat index \<le> j" for j
    using that True by (auto simp: occurs_at_def)
  have val: "find_string U s pat index True = (case ?r of Some i \<Rightarrow> index + int i | None \<Rightarrow> -1)"
    using assms True by (auto simp: find_string_def Let_def nat_diff_distrib)
  show ?thesis
  proof (cases ?r)
    case None
    with spec occ val show ?thesis by auto
  next
    case (Some k)
    have "occurs_at s pat (nat index + k)" using spec Some occ [of "nat index + k"] by simp
    moreover have "\<not> occurs_at s pat j" if "nat index \<le> j" "j < nat index + k" for j
    proof
      assume o: "occurs_at s pat j"
      from that have lt: "j - nat index < k" by arith
      from o that have "take (length pat) (drop (j - nat index) ?u) = pat"
        by (simp add: occ)
      moreover have "take (length pat) (drop (j - nat index) ?u) \<noteq> pat"
        using spec Some lt by simp
      ultimately show False by contradiction
    qed
    ultimately show ?thesis using val Some assms(1)
      by (intro disjI2 exI [of _ "nat index + k"]) auto
  qed
qed

section \<open>The search for a C literal\<close>

lemma find_cstr_loop_spec:
  "n + l \<le> length s + 1 \<Longrightarrow>
   (find_cstr_loop P s l n = -1 \<and> (\<forall>k. length s + 1 - l - n \<le> k \<and> k + l \<le> length s \<longrightarrow> \<not> P (take l (drop k s))))
   \<or> (\<exists>k. find_cstr_loop P s l n = int k \<and> length s + 1 - l - n \<le> k \<and> k + l \<le> length s \<and> P (take l (drop k s))
        \<and> (\<forall>j. length s + 1 - l - n \<le> j \<and> j < k \<longrightarrow> \<not> P (take l (drop j s))))"
proof (induction n)
  case (Suc n)
  let ?p = "length s + 1 - l - Suc n"
  have p: "?p + l \<le> length s" "length s + 1 - l - n = Suc ?p" using Suc.prems by simp_all
  have split: "?p \<le> k \<longleftrightarrow> k = ?p \<or> Suc ?p \<le> k" for k by auto
  have IH: "(find_cstr_loop P s l n = -1 \<and> (\<forall>k. Suc ?p \<le> k \<and> k + l \<le> length s \<longrightarrow> \<not> P (take l (drop k s))))
   \<or> (\<exists>k. find_cstr_loop P s l n = int k \<and> Suc ?p \<le> k \<and> k + l \<le> length s \<and> P (take l (drop k s))
        \<and> (\<forall>j. Suc ?p \<le> j \<and> j < k \<longrightarrow> \<not> P (take l (drop j s))))"
    using Suc.IH Suc.prems unfolding p(2) by simp
  show ?case
  proof (cases "P (take l (drop ?p s))")
    case True
    with p(1) show ?thesis by (intro disjI2 exI [of _ ?p]) (auto simp: Let_def)
  next
    case False
    then have "find_cstr_loop P s l (Suc n) = find_cstr_loop P s l n" by (simp add: Let_def)
    with IH False show ?thesis unfolding split by (simp del: find_cstr_loop.simps) blast
  qed
qed auto

definition cstr_matches :: "unicode_peer \<Rightarrow> bool \<Rightarrow> byte list \<Rightarrow> ustring \<Rightarrow> bool" where
  "cstr_matches U caseSensitive chs w \<longleftrightarrow>
     (if caseSensitive then w = map ucast chs
      else map (peer_foldCase U) w = map (\<lambda>b. peer_foldCase U (ucast b)) chs)"

lemma cstr_matches_length: "cstr_matches U cs chs w \<Longrightarrow> length w = length chs"
  by (auto simp: cstr_matches_def split: if_splits dest: map_eq_imp_length_eq)

lemma find_cstr_spec:
  assumes "chs \<noteq> []"
  shows "(find_cstr U s chs (int i) cs = -1 \<and> (\<forall>k\<ge>i. \<not> cstr_matches U cs chs (take (length chs) (drop k s))))
   \<or> (\<exists>k. find_cstr U s chs (int i) cs = int k \<and> i \<le> k \<and> k + length chs \<le> length s
        \<and> cstr_matches U cs chs (take (length chs) (drop k s))
        \<and> (\<forall>j. i \<le> j \<and> j < k \<longrightarrow> \<not> cstr_matches U cs chs (take (length chs) (drop j s))))"
proof -
  let ?l = "length chs"
  have l: "1 \<le> ?l" using assms by (cases chs) auto
  have short: "\<not> cstr_matches U cs chs (take ?l (drop k s))" if "length s < k + ?l" for k
    using that cstr_matches_length [of U cs chs "take ?l (drop k s)"] l by auto
  show ?thesis
  proof (cases "i + ?l \<le> length s")
    case True
    let ?n = "length s - i + 1 - ?l"
    have n: "nat (int (length s) - int i - (int ?l - 1)) = ?n" using True l by linarith
    have e: "find_cstr U s chs (int i) cs = find_cstr_loop (cstr_matches U cs chs) s ?l ?n"
      using True l unfolding find_cstr_def Let_def n cstr_matches_def [abs_def] by auto
    have p: "length s + 1 - ?l - ?n = i" "?n + ?l \<le> length s + 1" using True l by linarith+
    from find_cstr_loop_spec [OF p(2), of "cstr_matches U cs chs"] show ?thesis
      unfolding e p(1) using short by (meson not_le)
  next
    case False
    then have "find_cstr U s chs (int i) cs = -1" using l by (auto simp: find_cstr_def Let_def)
    with False show ?thesis using short by auto
  qed
qed

end
