(* ===== verification/StringSplit.thy ===== *)
theory StringSplit
  imports StringSearch
begin

text \<open>
  \<open>String::split\<close> and \<open>StringImpl::replace\<close> (String.cpp, StringImpl.cpp). Both are
  loops over a search function, so their facts are proved once, for any search that
  reports the first occurrence at or after a position (locale \<open>string_finder\<close>), and
  interpreted on the two searches of the code: the rolling-sum one and the one for a
  single character.
\<close>

section \<open>The loops\<close>

text \<open>
  \<open>split(separator, allowEmptyEntries, result)\<close>. The loop need not end: with an empty
  separator \<open>find\<close> answers \<open>startPos\<close> for ever. \<open>None\<close> is "does not return".
\<close>

partial_function (option) split_with ::
  "(nat \<Rightarrow> int) \<Rightarrow> nat \<Rightarrow> bool \<Rightarrow> ustring \<Rightarrow> nat \<Rightarrow> ustring list \<Rightarrow> ustring list option" where
  "split_with search seplen allowEmptyEntries s startPos result =
     (let endPos = search startPos
      in if endPos \<noteq> -1
         then split_with search seplen allowEmptyEntries s (nat endPos + seplen)
                (if allowEmptyEntries \<or> int startPos \<noteq> endPos
                 then result @ [substring s startPos (to_unsigned (endPos - int startPos))]
                 else result)
         else Some (if allowEmptyEntries \<or> startPos \<noteq> length s
                    then result @ [substring s startPos UINT_MAX] else result))"

definition String_split :: "unicode_peer \<Rightarrow> ustring \<Rightarrow> ustring \<Rightarrow> bool \<Rightarrow> ustring list option" where
  "String_split U s separator allowEmptyEntries =
     split_with (\<lambda>i. find_string U s separator (int i) True) (length separator)
       allowEmptyEntries s 0 []"

definition String_split_char :: "ustring \<Rightarrow> uchar \<Rightarrow> bool \<Rightarrow> ustring list option" where
  "String_split_char s separator allowEmptyEntries =
     split_with (\<lambda>i. find_char s separator (int i)) 1 allowEmptyEntries s 0 []"

text \<open>\<open>split(UChar, result)\<close> goes through the string version and drops empty entries.\<close>

definition String_split_uchar :: "unicode_peer \<Rightarrow> ustring \<Rightarrow> uchar \<Rightarrow> ustring list option" where
  "String_split_uchar U s separator = String_split U s [separator] False"

text \<open>
  \<open>StringImpl::replace(pattern, replacement)\<close>: a first loop counts the matches, the
  buffer is allocated from the count, a second loop fills it. The empty pattern returns
  before either loop.
\<close>

lemma find_loop_le:
  "find_loop key eq u str h hs delta i = Some k \<Longrightarrow> i \<le> delta \<Longrightarrow> i \<le> k \<and> k \<le> delta"
proof (induction key eq u str h hs delta i rule: find_loop.induct)
  case (1 key eq u str h hs delta i)
  show ?case
  proof (cases "h = hs \<and> eq (take (length str) (drop i u)) str")
    case True
    with "1.prems" show ?thesis by (subst (asm) find_loop.simps) simp
  next
    case miss: False
    show ?thesis
    proof (cases "delta \<le> i")
      case True
      with miss "1.prems" show ?thesis by (subst (asm) find_loop.simps) auto
    next
      case False
      from "1.prems"(1) miss False
      have "find_loop key eq u str (h + ucast (key (u ! (i + length str))) - ucast (key (u ! i)))
              hs delta (Suc i) = Some k"
        by (subst (asm) find_loop.simps) auto
      from "1.IH" [OF miss False this] False show ?thesis by simp
    qed
  qed
qed

lemma find_string_range:
  "0 \<le> index \<Longrightarrow> find_string U s pat index cs = e \<Longrightarrow> e \<noteq> -1 \<Longrightarrow>
   index \<le> e \<and> e + int (length pat) \<le> int (length s)"
  unfolding find_string_def Let_def
  by (auto split: if_splits option.splits dest!: find_loop_le)

function count_matches :: "unicode_peer \<Rightarrow> ustring \<Rightarrow> ustring \<Rightarrow> nat \<Rightarrow> nat" where
  "count_matches U s pattern srcSegmentStart =
     (let srcSegmentEnd = find_string U s pattern (int srcSegmentStart) True
      in if 0 \<le> srcSegmentEnd \<and> pattern \<noteq> []
         then Suc (count_matches U s pattern (nat srcSegmentEnd + length pattern)) else 0)"
  by pat_completeness auto
termination
proof (relation "measure (\<lambda>(U, s, p, i). length s - i)", goal_cases)
  case (2 U s pattern i x)
  then have "int i \<le> x" "x + int (length pattern) \<le> int (length s)"
    using find_string_range [of "int i" U s pattern True x] by auto
  then have "i \<le> nat x" "nat x + length pattern \<le> length s" by auto
  with 2 show ?case by (cases pattern) auto
qed simp

function replace_build :: "unicode_peer \<Rightarrow> ustring \<Rightarrow> ustring \<Rightarrow> ustring \<Rightarrow> nat \<Rightarrow> ustring" where
  "replace_build U s pattern replacement srcSegmentStart =
     (let srcSegmentEnd = find_string U s pattern (int srcSegmentStart) True
      in if 0 \<le> srcSegmentEnd \<and> pattern \<noteq> []
         then segment s srcSegmentStart (nat srcSegmentEnd) @ replacement
              @ replace_build U s pattern replacement (nat srcSegmentEnd + length pattern)
         else drop srcSegmentStart s)"
  by pat_completeness auto
termination
proof (relation "measure (\<lambda>(U, s, p, r, i). length s - i)", goal_cases)
  case (2 U s pattern replacement i x)
  then have "int i \<le> x" "x + int (length pattern) \<le> int (length s)"
    using find_string_range [of "int i" U s pattern True x] by auto
  then have "i \<le> nat x" "nat x + length pattern \<le> length s" by auto
  with 2 show ?case by (cases pattern) auto
qed simp

declare count_matches.simps [simp del] replace_build.simps [simp del]

text \<open>
  \<open>StringImpl::createUninitialized(length, data)\<close> asks for the header of the string object (\<open>hdr\<close> bytes,
  \<open>sizeof(StringImpl)\<close>) and two bytes per character; the machine's \<open>size_t\<close> has 32 bits, so a length near
  \<open>2 ^ 31\<close> or beyond wraps the size. The value is the number of characters the block has room for.
\<close>

definition createUninitialized_room :: "u32 \<Rightarrow> u32 \<Rightarrow> nat" where
  "createUninitialized_room hdr len =
     (if len = 0 then 0 else let bytes = hdr + len * 2 in (unat bytes - unat hdr) div 2)"

text \<open>
  The length asked for is computed in 32 bits; the second loop then copies as many characters as there are. \<open>None\<close>
  stands for copying beyond the allocated block.
\<close>

definition replace_string :: "u32 \<Rightarrow> unicode_peer \<Rightarrow> ustring \<Rightarrow> ustring \<Rightarrow> ustring \<Rightarrow> ustring option" where
  "replace_string hdr U s pattern replacement =
     (if pattern = [] then Some s
      else let matchCount = count_matches U s pattern 0
           in if matchCount = 0 then Some s
              else let newLength = of_nat (length s) + of_nat matchCount * (of_nat (length replacement) - of_nat (length pattern));
                       data = replace_build U s pattern replacement 0
                   in if length data \<le> createUninitialized_room hdr newLength then Some data else None)"

text \<open>
  A \<open>String\<close> may be null, without a \<open>StringImpl\<close> (\<open>None\<close>). Its \<open>find\<close> answers -1, and its length and substrings are
  empty, so \<open>split\<close> returns on it for every separator.
\<close>

definition String_find :: "unicode_peer \<Rightarrow> ustring option \<Rightarrow> ustring \<Rightarrow> int \<Rightarrow> bool \<Rightarrow> int" where
  "String_find U m_impl str start caseSensitive =
     (case m_impl of Some s \<Rightarrow> find_string U s str start caseSensitive | None \<Rightarrow> -1)"

definition String_split_nullable :: "unicode_peer \<Rightarrow> ustring option \<Rightarrow> ustring \<Rightarrow> bool \<Rightarrow> ustring list option" where
  "String_split_nullable U m_impl separator allowEmptyEntries =
     split_with (\<lambda>i. String_find U m_impl separator (int i) True) (length separator)
       allowEmptyEntries (case m_impl of Some s \<Rightarrow> s | None \<Rightarrow> []) 0 []"

lemma String_split_nullable_Some: "String_split_nullable U (Some s) = String_split U s"
  by (intro ext) (simp add: String_split_nullable_def String_split_def String_find_def)

lemma String_split_null: "String_split_nullable U None sep allow = Some (if allow then [[]] else [])"
  unfolding String_split_nullable_def
  by (subst split_with.simps) (simp add: String_find_def substring_def)

section \<open>Joining\<close>

fun join :: "ustring \<Rightarrow> ustring list \<Rightarrow> ustring" where
  "join sep [] = []"
| "join sep [p] = p"
| "join sep (p # q # ps) = p @ sep @ join sep (q # ps)"

lemma join_Cons: "ps \<noteq> [] \<Longrightarrow> join sep (p # ps) = p @ sep @ join sep ps"
  by (cases ps) auto

section \<open>Any first-occurrence search\<close>

locale string_finder =
  fixes search :: "ustring \<Rightarrow> 'p \<Rightarrow> nat \<Rightarrow> int"
    and sep_of :: "'p \<Rightarrow> ustring"
  assumes search_hit: "length s < 2 ^ 31 \<Longrightarrow> i \<le> length s \<Longrightarrow> search s p i \<noteq> -1 \<Longrightarrow>
      int i \<le> search s p i \<and> occurs_at s (sep_of p) (nat (search s p i))
        \<and> (\<forall>j. i \<le> j \<and> j < nat (search s p i) \<longrightarrow> \<not> occurs_at s (sep_of p) j)"
    and search_miss: "length s < 2 ^ 31 \<Longrightarrow> i \<le> length s \<Longrightarrow> search s p i = -1 \<Longrightarrow>
      i \<le> j \<Longrightarrow> \<not> occurs_at s (sep_of p) j"
begin

lemma hit_decomposes:
  assumes "length s < 2 ^ 31" "i \<le> length s" "search s p i \<noteq> -1"
  shows "drop i s = segment s i (nat (search s p i)) @ sep_of p
                    @ drop (nat (search s p i) + length (sep_of p)) s"
    and "i \<le> nat (search s p i)" and "nat (search s p i) + length (sep_of p) \<le> length s"
proof -
  let ?e = "nat (search s p i)"
  have h: "int i \<le> search s p i" "occurs_at s (sep_of p) ?e"
    using search_hit [OF assms] by auto
  then show le: "i \<le> ?e" "?e + length (sep_of p) \<le> length s"
    by (auto simp: occurs_at_def)
  have "drop ?e s = sep_of p @ drop (?e + length (sep_of p)) s"
    using h(2) append_take_drop_id [of "length (sep_of p)" "drop ?e s"]
    by (simp add: occurs_at_def add.commute)
  moreover have "drop i s = segment s i ?e @ drop ?e s"
    using le append_take_drop_id [of "?e - i" "drop i s"] by (simp add: segment_def)
  ultimately show "drop i s = segment s i ?e @ sep_of p @ drop (?e + length (sep_of p)) s" by simp
qed

lemma split_returns:
  assumes "length s < 2 ^ 31" "sep_of p \<noteq> []" "i \<le> length s"
  shows "\<exists>ps. split_with (search s p) (length (sep_of p)) True s i acc = Some (acc @ ps)
              \<and> ps \<noteq> [] \<and> join (sep_of p) ps = drop i s
              \<and> (\<forall>q\<in>set ps. \<forall>j. \<not> occurs_at q (sep_of p) j)
              \<and> split_with (search s p) (length (sep_of p)) False s i acc'
                  = Some (acc' @ filter (\<lambda>q. q \<noteq> []) ps)"
  using assms(3)
proof (induction "length s - i" arbitrary: i acc acc' rule: less_induct)
  case less
  let ?e = "nat (search s p i)" and ?l = "length (sep_of p)"
  have piece: "\<not> occurs_at (segment s i k) (sep_of p) j"
    if "\<forall>m. i \<le> m \<and> m < k \<longrightarrow> \<not> occurs_at s (sep_of p) m" "k \<le> length s" for j k
  proof
    assume o: "occurs_at (segment s i k) (sep_of p) j"
    then have bound: "j + ?l \<le> k - i" using that less.prems by (auto simp: occurs_at_def)
    moreover have "take ?l (drop j (segment s i k)) = take ?l (drop (i + j) s)"
      using bound by (simp add: segment_def drop_take add.commute min_def)
    ultimately have "occurs_at s (sep_of p) (i + j)"
      using o that(2) assms(2) bound by (cases "sep_of p") (auto simp: occurs_at_def)
    moreover have "i + j < k" using bound assms(2) by (cases "sep_of p") auto
    ultimately show False using that(1) by auto
  qed
  show ?case
  proof (cases "search s p i = -1")
    case True
    have sub: "substring s i UINT_MAX = drop i s"
      using assms(1) by (simp add: substring_eq_take_drop UINT_MAX_def)
    have "segment s i (length s) = drop i s" by (simp add: segment_def)
    moreover have "\<forall>m. i \<le> m \<and> m < length s \<longrightarrow> \<not> occurs_at s (sep_of p) m"
      using search_miss [OF assms(1) less.prems True] by auto
    ultimately have "\<forall>j. \<not> occurs_at (drop i s) (sep_of p) j"
      using piece [of "length s"] by simp
    with True sub less.prems show ?thesis
      by (intro exI [of _ "[drop i s]"]) (auto simp: split_with.simps Let_def)
  next
    case False
    note d = hit_decomposes [OF assms(1) less.prems False]
    have "length s - (?e + ?l) < length s - i"
      using d(2,3) assms(2) by (cases "sep_of p") auto
    from less.hyps [OF this d(3), of "acc @ [segment s i ?e]"
        "if segment s i ?e \<noteq> [] then acc' @ [segment s i ?e] else acc'"]
    obtain ps where ps: "split_with (search s p) ?l True s (?e + ?l) (acc @ [segment s i ?e])
          = Some ((acc @ [segment s i ?e]) @ ps)" "ps \<noteq> []"
        "join (sep_of p) ps = drop (?e + ?l) s" "\<forall>q\<in>set ps. \<forall>j. \<not> occurs_at q (sep_of p) j"
        "split_with (search s p) ?l False s (?e + ?l)
           (if segment s i ?e \<noteq> [] then acc' @ [segment s i ?e] else acc')
          = Some ((if segment s i ?e \<noteq> [] then acc' @ [segment s i ?e] else acc')
                  @ filter (\<lambda>q. q \<noteq> []) ps)"
      by blast
    have "0 \<le> search s p i" using search_hit [OF assms(1) less.prems False] by simp
    moreover have "?e < 2 ^ 31" using d(3) assms(1) by linarith
    ultimately have sub: "substring s i (to_unsigned (search s p i - int i)) = segment s i ?e"
      using d(2) by (simp add: substring_eq_take_drop segment_def nat_diff_distrib)
    have "segment s i ?e = [] \<longleftrightarrow> ?e = i" using d(2,3) assms(2) less.prems
      by (cases "sep_of p") (auto simp: segment_def)
    then have e: "int i = search s p i \<longleftrightarrow> segment s i ?e = []"
      using \<open>0 \<le> search s p i\<close> by auto
    have "\<forall>j. \<not> occurs_at (segment s i ?e) (sep_of p) j"
      using piece [of ?e] search_hit [OF assms(1) less.prems False] d(3) by simp
    then show ?thesis
      using ps d(1) False sub e
      by (intro exI [of _ "segment s i ?e # ps"])
        (auto simp: split_with.simps [of "search s p" ?l _ s i] Let_def join_Cons)
  qed
qed

end

section \<open>The two searches of the code\<close>

interpretation str: string_finder "\<lambda>s pat i. find_string U s pat (int i) True" "\<lambda>pat. pat" for U
proof (unfold_locales, goal_cases)
  case (1 s i p)
  then show ?case using find_string_spec [of "int i" s U p] by auto
next
  case (2 s i p j)
  then show ?case using find_string_spec [of "int i" s U p] by auto
qed

interpretation chr: string_finder "\<lambda>s c i. find_char s c (int i)" "\<lambda>c. [c]"
proof (unfold_locales, goal_cases)
  case (1 s i c)
  have occ: "occurs_at s [c] j \<longleftrightarrow> j < length s \<and> s ! j = c" for j
    by (auto simp: occurs_at_def take_Suc_conv_app_nth)
  obtain k where k: "find_char s c (int i) = int k"
    using find_char_range [of "int i" s c] 1 by (metis of_nat_0_le_iff nonneg_int_cases order_trans)
  then show ?case using find_char_Some [of "int i" s c k] by (auto simp: occ)
next
  case (2 s i c j)
  have occ: "occurs_at s [c] j \<longleftrightarrow> j < length s \<and> s ! j = c"
    by (auto simp: occurs_at_def take_Suc_conv_app_nth)
  have "c \<notin> set (drop i s)" using 2 find_char_None [of "int i" s c] by simp
  then show ?case using 2(4) by (auto simp: occ in_set_conv_nth) (metis le_add_diff_inverse less_diff_conv2 add.commute diff_less_mono)
qed

section \<open>What split and replace compute\<close>

lemma find_string_ge_0: "0 \<le> index \<Longrightarrow> 0 \<le> find_string U s pat index cs \<longleftrightarrow> find_string U s pat index cs \<noteq> -1"
  using find_string_range [of index U s pat cs] by auto

lemma replace_build_join:
  assumes "length s < 2 ^ 31" "pat \<noteq> []" "i \<le> length s"
  shows "split_with (\<lambda>i. find_string U s pat (int i) True) (length pat) True s i acc = Some (acc @ ps)
         \<Longrightarrow> replace_build U s pat rep i = join rep ps \<and> length ps = Suc (count_matches U s pat i)"
  using assms(3)
proof (induction "length s - i" arbitrary: i acc ps rule: less_induct)
  case less
  let ?f = "\<lambda>i. find_string U s pat (int i) True" and ?l = "length pat"
  let ?e = "nat (?f i)"
  show ?case
  proof (cases "?f i = -1")
    case True
    have "substring s i UINT_MAX = drop i s"
      using assms(1) by (simp add: substring_eq_take_drop UINT_MAX_def)
    with less.prems True have "ps = [drop i s]"
      by (auto simp: split_with.simps Let_def)
    with True show ?thesis
      by (simp add: replace_build.simps [of U s] count_matches.simps [of U s] Let_def)
  next
    case False
    note d = str.hit_decomposes [OF assms(1) less.prems(2), of U pat, OF False]
    have pos: "0 \<le> ?f i" using False find_string_ge_0 [of "int i"] by simp
    have dec: "length s - (?e + ?l) < length s - i" and le: "?e + ?l \<le> length s"
      using d(2,3) assms(2) by (cases pat; auto)+
    obtain qs where qs: "split_with ?f ?l True s (?e + ?l)
        (acc @ [substring s i (to_unsigned (?f i - int i))])
          = Some ((acc @ [substring s i (to_unsigned (?f i - int i))]) @ qs)" and "qs \<noteq> []"
      using str.split_returns [OF assms(1,2) le, of U] by blast
    have "?e < 2 ^ 31" using d(3) assms(1) by linarith
    then have sub: "substring s i (to_unsigned (?f i - int i)) = segment s i ?e"
      using d(2) pos by (simp add: substring_eq_take_drop segment_def nat_diff_distrib)
    have "ps = segment s i ?e # qs"
      using less.prems(1) qs False by (simp add: split_with.simps [of ?f ?l _ s i] Let_def sub)
    moreover have "replace_build U s pat rep (?e + ?l) = join rep qs
        \<and> length qs = Suc (count_matches U s pat (?e + ?l))"
      by (rule less.hyps [OF dec qs le])
    ultimately show ?thesis using pos assms(2) \<open>qs \<noteq> []\<close>
      by (simp add: replace_build.simps [of U s _ _ i] count_matches.simps [of U s _ i]
            Let_def join_Cons)
  qed
qed

lemma length_join:
  "ps \<noteq> [] \<Longrightarrow> length (join sep ps) = sum_list (map length ps) + (length ps - 1) * length sep"
proof (induction ps)
  case (Cons p ps)
  then show ?case by (cases ps) auto
qed simp

text \<open>\<open>String::split\<close> with a non-empty separator returns; the entries joined by the
separator are the string again, no entry contains the separator, and without
\<open>allowEmptyEntries\<close> it returns the same entries less the empty ones.\<close>

theorem split_join:
  assumes "sep \<noteq> []" "length s < 2 ^ 31"
  shows "\<exists>ps. String_split U s sep True = Some ps
           \<and> join sep ps = s
           \<and> (\<forall>q\<in>set ps. \<forall>j. \<not> occurs_at q sep j)
           \<and> String_split U s sep False = Some (filter (\<lambda>q. q \<noteq> []) ps)"
  using str.split_returns [OF assms(2,1), of 0 U "[]" "[]"]
  by (auto simp: String_split_def)

theorem split_join_witness:
  "\<exists>ps. String_split ascii_peer (lit ''a,b'') (lit '','') True = Some ps \<and> join (lit '','') ps = lit ''a,b''"
  using split_join [of "lit '',''" "lit ''a,b''" ascii_peer] by auto

text \<open>The single-character search finds what the string search finds.\<close>

lemma find_char_eq_find_string:
  assumes "length s < 2 ^ 31" "i \<le> length s"
  shows "find_char s c (int i) = find_string U s [c] (int i) True"
proof -
  let ?a = "find_char s c (int i)" and ?b = "find_string U s [c] (int i) True"
  show ?thesis
  proof (cases "?a = -1"; cases "?b = -1")
    assume a: "?a = -1" and b: "?b \<noteq> -1"
    have "int i \<le> ?b" "occurs_at s [c] (nat ?b)"
      using str.search_hit [OF assms b] by auto
    moreover from this have "i \<le> nat ?b" by linarith
    ultimately show ?thesis using chr.search_miss [OF assms a] by auto
  next
    assume a: "?a \<noteq> -1" and b: "?b = -1"
    have "int i \<le> ?a" "occurs_at s [c] (nat ?a)"
      using chr.search_hit [OF assms a] by auto
    moreover from this have "i \<le> nat ?a" by linarith
    ultimately show ?thesis using str.search_miss [OF assms b] by auto
  next
    assume a: "?a \<noteq> -1" and b: "?b \<noteq> -1"
    have "int i \<le> ?a" "int i \<le> ?b" "occurs_at s [c] (nat ?a)" "occurs_at s [c] (nat ?b)"
      "\<forall>j. i \<le> j \<and> j < nat ?a \<longrightarrow> \<not> occurs_at s [c] j"
      "\<forall>j. i \<le> j \<and> j < nat ?b \<longrightarrow> \<not> occurs_at s [c] j"
      using chr.search_hit [OF assms a] str.search_hit [OF assms b] by auto
    moreover from this have "i \<le> nat ?a" "i \<le> nat ?b" "0 \<le> ?a" "0 \<le> ?b" by linarith+
    ultimately have "nat ?a = nat ?b" by (metis nat_neq_iff)
    with \<open>0 \<le> ?a\<close> \<open>0 \<le> ?b\<close> show ?thesis by simp
  qed simp
qed

lemma find_string_empty: "i \<le> length s \<Longrightarrow> length s < 2 ^ 31 \<Longrightarrow> find_string U s [] (int i) True = int i"
  by (auto simp: find_string_def Let_def find_loop.simps window_sum_def)

lemma split_with_empty_diverges:
  assumes "split_with search n allow s i acc = Some r"
    and "search = (\<lambda>i. find_string U s [] (int i) True)" "n = 0" "length s < 2 ^ 31"
  shows "\<not> i \<le> length s"
proof (rule split_with.raw_induct
    [where P = "\<lambda>search n allow t i acc r. search = (\<lambda>i. find_string U s [] (int i) True) \<longrightarrow> n = 0
       \<longrightarrow> \<not> i \<le> length s", OF _ assms(1), rule_format, OF _ assms(2,3)], goal_cases)
  case (1 split_with search n allow t i acc r)
  show ?case
  proof
    assume le: "i \<le> length s"
    have "search i = int i" using find_string_empty [OF le assms(4)] 1(3) by simp
    with 1(2,4) have "\<exists>acc'. split_with search n allow t i acc' = Some r"
      by (auto simp: Let_def)
    with 1(1) [of search n allow t i _ r] 1(3,4) le show False by blast
  qed
qed

text \<open>\<open>String::split\<close> with an empty separator never returns: every round finds the separator
where it stands and appends an entry.\<close>

theorem split_empty_separator_diverges:
  "length s < 2 ^ 31 \<Longrightarrow> String_split U s [] allow = None"
proof (rule ccontr)
  assume s: "length s < 2 ^ 31" and "String_split U s [] allow \<noteq> None"
  then obtain r where
    "split_with (\<lambda>i. find_string U s [] (int i) True) 0 allow s 0 [] = Some r"
    by (auto simp: String_split_def)
  from split_with_empty_diverges [OF this refl refl s] show False by simp
qed

theorem split_empty_separator_diverges_witness:
  "String_split ascii_peer (lit ''ab'') [] True = None"
  by (rule split_empty_separator_diverges) simp

text \<open>C35: \<open>String::split\<close> of a string that is not null returns for every separator but the empty one; with the empty separator its loop
  never ends. When it returns, its pieces are those that joined by the separator give the string again, none with the separator
  in it, without the empty ones unless these are asked for.\<close>

theorem split_terminates_iff:
  assumes "length s < 2 ^ 31"
  shows "((\<exists>ps. String_split U s sep allow = Some ps) \<longleftrightarrow> sep \<noteq> [])
    \<and> (sep \<noteq> [] \<longrightarrow> (\<exists>ps. String_split U s sep allow = Some (if allow then ps else filter (\<lambda>q. q \<noteq> []) ps)
           \<and> join sep ps = s \<and> (\<forall>q\<in>set ps. \<forall>j. \<not> occurs_at q sep j)))"
proof -
  have returns: "\<exists>ps. String_split U s sep allow = Some (if allow then ps else filter (\<lambda>q. q \<noteq> []) ps)
      \<and> join sep ps = s \<and> (\<forall>q\<in>set ps. \<forall>j. \<not> occurs_at q sep j)" if "sep \<noteq> []"
    using str.split_returns [OF assms that, of 0 U "[]" "[]"] by (cases allow) (auto simp: String_split_def)
  then have "(\<exists>ps. String_split U s sep allow = Some ps) \<longleftrightarrow> sep \<noteq> []"
    using split_empty_separator_diverges [OF assms, of U allow] by auto
  with returns show ?thesis by blast
qed

theorem split_terminates_iff_witness:
  "(\<exists>ps. String_split ascii_peer (lit ''a,b'') (lit '','') False = Some (filter (\<lambda>q. q \<noteq> []) ps)
      \<and> join (lit '','') ps = lit ''a,b'')
   \<and> \<not> (\<exists>ps. String_split ascii_peer (lit ''a,b'') [] False = Some ps)"
  using split_terminates_iff [of "lit ''a,b''" ascii_peer "lit '',''" False]
    split_terminates_iff [of "lit ''a,b''" ascii_peer "[]" False] by auto

text \<open>The block has room for the result exactly if the size of the object fits in 32 bits.\<close>

lemma createUninitialized_room_iff:
  assumes "n = of_int (int L)"
  shows "L \<le> createUninitialized_room hdr n \<longleftrightarrow> L = 0 \<or> unat hdr + 2 * L < 2 ^ 32"
proof -
  have n: "unat n = L mod 2 ^ 32" unfolding assms by (simp add: unat_of_nat)
  have bytes: "unat (hdr + n * 2) = (unat hdr + 2 * L) mod 2 ^ 32"
    by (simp add: unat_word_ariths n mod_simps mult.commute)
  show ?thesis
  proof (cases "unat hdr + 2 * L < 2 ^ 32")
    case True
    then have "L < 2 ^ 32" by simp
    with n have "n = 0 \<longleftrightarrow> L = 0" by (simp add: unat_eq_zero [symmetric])
    with True show ?thesis unfolding createUninitialized_room_def Let_def bytes by simp
  next
    case False
    have "unat (hdr + n * 2) < 2 ^ 32" using unsigned_less [of "hdr + n * 2"] by simp
    with False have "(unat (hdr + n * 2) - unat hdr) div 2 < L" if "L \<noteq> 0" using that by linarith
    with False show ?thesis by (cases "L = 0") (simp_all add: createUninitialized_room_def Let_def not_le)
  qed
qed

text \<open>C36: For a pattern that is not empty and a string shorter than 2^31, \<open>StringImpl::replace\<close> splits the string at the
  pattern and joins the pieces with the replacement, as long as the new string object fits in 32 bits of bytes, and then
  the length it asks for is the length it fills; exactly when it does not fit (and there is something to replace), the
  size wraps and the code writes beyond the block it allocated.\<close>

theorem replace_string_split_join:
  assumes "pat \<noteq> []" "length s < 2 ^ 31"
  shows "\<exists>ps. String_split U s pat True = Some ps
           \<and> int (length (join rep ps)) =
               int (length s) + int (count_matches U s pat 0) * (int (length rep) - int (length pat))
           \<and> replace_string hdr U s pat rep =
               (if ps = [s] \<or> join rep ps = [] \<or> unat hdr + 2 * length (join rep ps) < 2 ^ 32
                then Some (join rep ps) else None)"
proof -
  obtain ps where ps: "split_with (\<lambda>i. find_string U s pat (int i) True) (length pat) True s 0 [] = Some ([] @ ps)"
      "ps \<noteq> []" "join pat ps = s"
    using str.split_returns [OF assms(2,1), of 0 U "[]" "[]"] by auto
  from replace_build_join [OF assms(2,1) _ ps(1), of rep]
  have rb: "replace_build U s pat rep 0 = join rep ps" "length ps = Suc (count_matches U s pat 0)"
    by auto
  have len: "int (length (join rep ps)) =
      int (length s) + int (count_matches U s pat 0) * (int (length rep) - int (length pat))"
    using ps(2) ps(3) rb(2) length_join [of ps pat] by (simp add: length_join algebra_simps)
  let ?n = "of_nat (length s) + of_nat (count_matches U s pat 0) * (of_nat (length rep) - of_nat (length pat)) :: u32"
  have "?n = of_int (int (length (join rep ps)))" unfolding len by simp
  note room = createUninitialized_room_iff [OF this, of hdr]
  have "replace_string hdr U s pat rep =
      (if ps = [s] \<or> join rep ps = [] \<or> unat hdr + 2 * length (join rep ps) < 2 ^ 32 then Some (join rep ps) else None)"
  proof (cases "count_matches U s pat 0 = 0")
    case True
    with rb(2) obtain p where "ps = [p]" by (cases ps) auto
    with ps(3) True assms(1) show ?thesis by (simp add: replace_string_def)
  next
    case False
    with rb(2) have "ps \<noteq> [s]" by auto
    with False assms(1) rb(1) room show ?thesis by (simp add: replace_string_def Let_def)
  qed
  with ps(1) len show ?thesis by (auto simp: String_split_def)
qed

theorem replace_string_split_join_witness:
  "\<exists>ps. String_split ascii_peer (lit ''a/b'') (lit ''/'') True = Some ps
      \<and> int (length (join (lit ''::'') ps)) = 3 + int (count_matches ascii_peer (lit ''a/b'') (lit ''/'') 0)"
  using replace_string_split_join [of "lit ''/''" "lit ''a/b''" ascii_peer "lit ''::''" 20] by auto

end
