(* ===== verification/StringNumber.thy ===== *)
theory StringNumber
  imports StringSearch
begin

text \<open>
  Numbers and white space: \<open>toIntegralType<IntegralType>\<close> of String.cpp at its two
  32-bit instances, the entry points over it, \<open>String::number\<close>, and what the white
  space routines compute.
\<close>

unbundle bit_operations_syntax

section \<open>Parsing integers\<close>

text \<open>
  The template is instantiated at \<open>int\<close> (\<open>is_signed\<close> true) and \<open>unsigned\<close>. Both live in
  a 32-bit word; comparisons are signed or unsigned as the instance's are, and arithmetic
  wraps (for \<open>int\<close> this is the two's complement result of the target's compiler).
\<close>

definition integralMax :: "bool \<Rightarrow> u32" where
  "integralMax isSigned = (if isSigned then 0x7FFFFFFF else 0xFFFFFFFF)"

definition integral_gt :: "bool \<Rightarrow> u32 \<Rightarrow> u32 \<Rightarrow> bool" where
  "integral_gt isSigned a b = (if isSigned then sint b < sint a else b < a)"

definition isCharacterAllowedInBase :: "uchar \<Rightarrow> nat \<Rightarrow> bool" where
  "isCharacterAllowedInBase c base =
     (if c > 0x7F then False
      else if isASCIIDigit c then unat c - 48 < base
      else if isASCIIAlpha c
           then let base' = (if base > 36 then 36 else base)
                in (97 \<le> unat c \<and> unat c + 10 < 97 + base')
                   \<or> (65 \<le> unat c \<and> unat c + 10 < 65 + base')
      else False)"

definition digitValue :: "uchar \<Rightarrow> u32" where
  "digitValue c =
     (if isASCIIDigit c then ucast c - 48
      else if c \<ge> ch CHR ''a'' then ucast c - 97 + 10
      else ucast c - 65 + 10)"

text \<open>The digit loop; \<open>None\<close> is its \<open>goto bye\<close>.\<close>

fun digit_loop :: "bool \<Rightarrow> nat \<Rightarrow> bool \<Rightarrow> ustring \<Rightarrow> u32 \<Rightarrow> (u32 \<times> ustring) option" where
  "digit_loop isSigned base isNegative [] v = Some (v, [])"
| "digit_loop isSigned base isNegative (c # cs) v =
     (if isCharacterAllowedInBase c base
      then let d = digitValue c;
               maxMultiplier = integralMax isSigned div of_nat base
           in if integral_gt isSigned v maxMultiplier
                 \<or> (v = maxMultiplier
                    \<and> integral_gt isSigned d (integralMax isSigned mod of_nat base
                                               + (if isNegative then 1 else 0)))
              then None
              else digit_loop isSigned base isNegative cs (of_nat base * v + d)
      else Some (v, c # cs))"

text \<open>Returns the value and \<open>*ok\<close>.\<close>

definition toIntegralType :: "unicode_peer \<Rightarrow> bool \<Rightarrow> nat \<Rightarrow> ustring \<Rightarrow> u32 \<times> bool" where
  "toIntegralType U isSigned base data =
     (let data1 = dropWhile (isSpaceOrNewline U) data;
          isNegative = (isSigned \<and> data1 \<noteq> [] \<and> hd data1 = ch CHR ''-'');
          data2 = (if isNegative then tl data1
                   else if data1 \<noteq> [] \<and> hd data1 = ch CHR ''+'' then tl data1 else data1)
      in if data2 = [] \<or> \<not> isCharacterAllowedInBase (hd data2) base then (0, False)
         else case digit_loop isSigned base isNegative data2 0 of
                None \<Rightarrow> (0, False)
              | Some (v, rest) \<Rightarrow>
                  (let v' = (if isNegative then - v else v)
                   in if dropWhile (isSpaceOrNewline U) rest = [] then (v', True) else (0, False)))"

definition lengthOfCharactersAsInteger :: "unicode_peer \<Rightarrow> ustring \<Rightarrow> nat" where
  "lengthOfCharactersAsInteger U data =
     (let i = scan_while (isSpaceOrNewline U) data 0;
          i' = (if i \<noteq> length data \<and> (data ! i = ch CHR ''+'' \<or> data ! i = ch CHR ''-'')
                then i + 1 else i)
      in scan_while isASCIIDigit data i')"

definition charactersToIntStrict :: "unicode_peer \<Rightarrow> ustring \<Rightarrow> u32 \<times> bool" where
  "charactersToIntStrict U data = toIntegralType U True 10 data"

definition charactersToUIntStrict :: "unicode_peer \<Rightarrow> ustring \<Rightarrow> u32 \<times> bool" where
  "charactersToUIntStrict U data = toIntegralType U False 10 data"

definition charactersToInt :: "unicode_peer \<Rightarrow> ustring \<Rightarrow> u32 \<times> bool" where
  "charactersToInt U data =
     toIntegralType U True 10 (take (lengthOfCharactersAsInteger U data) data)"

definition charactersToUInt :: "unicode_peer \<Rightarrow> ustring \<Rightarrow> u32 \<times> bool" where
  "charactersToUInt U data =
     toIntegralType U False 10 (take (lengthOfCharactersAsInteger U data) data)"

section \<open>The unsigned instance is exact\<close>

text \<open>The mathematical reading of a digit string, and of a whole argument.\<close>

definition number_value :: "nat \<Rightarrow> ustring \<Rightarrow> nat" where
  "number_value base ds = foldl (\<lambda>v c. base * v + unat (digitValue c)) 0 ds"

definition unsigned_reading :: "unicode_peer \<Rightarrow> nat \<Rightarrow> ustring \<Rightarrow> nat option" where
  "unsigned_reading U base s =
     (let s1 = dropWhile (isSpaceOrNewline U) s;
          s2 = (if s1 \<noteq> [] \<and> hd s1 = ch CHR ''+'' then tl s1 else s1);
          ds = takeWhile (\<lambda>c. isCharacterAllowedInBase c base) s2;
          rest = dropWhile (\<lambda>c. isCharacterAllowedInBase c base) s2
      in if ds \<noteq> [] \<and> (\<forall>c\<in>set rest. isSpaceOrNewline U c)
         then Some (number_value base ds) else None)"

lemma unat_ucast_32 [simp]: "unat (ucast (c::uchar) :: u32) = unat c"
proof -
  have "unat c < 2 ^ 16" using unsigned_less [of c] by simp
  then show ?thesis by (simp add: unsigned_ucast_eq take_bit_nat_def)
qed

lemma unat_ucast_minus:
  "k \<le> ucast (c::uchar) \<Longrightarrow> unat (ucast c - k :: u32) = unat c - unat k"
  by (simp add: unat_sub)

lemma digitValue_less:
  assumes "isCharacterAllowedInBase c base" "base \<le> 36"
  shows "unat (digitValue c) < base"
proof (cases "isASCIIDigit c")
  case True
  then have "48 \<le> unat c" by (simp add: isASCIIDigit_def word_le_nat_alt)
  then have "unat (ucast c - 48 :: u32) = unat c - 48"
    by (subst unat_ucast_minus) (simp_all add: word_le_nat_alt)
  with True assms show ?thesis
    by (auto simp: isCharacterAllowedInBase_def digitValue_def split: if_splits)
next
  case False
  with assms have "(97 \<le> unat c \<and> unat c < 87 + base) \<or> (65 \<le> unat c \<and> unat c < 55 + base)"
    by (auto simp: isCharacterAllowedInBase_def Let_def split: if_splits)
  then consider "97 \<le> unat c" "unat c < 87 + base" | "65 \<le> unat c" "unat c < 97" "unat c < 55 + base"
    using assms(2) by linarith
  then show ?thesis
  proof cases
    case 1
    then have u: "unat (ucast c - 97 :: u32) = unat c - 97"
      by (subst unat_ucast_minus) (simp_all add: word_le_nat_alt)
    have "unat (ucast c - 97 + 10 :: u32) = unat c - 87"
      using 1 assms(2) by (subst unat_plus_if') (simp add: u)
    moreover have "(97 :: uchar) \<le> c" using 1 by (simp add: word_le_nat_alt)
    ultimately show ?thesis using False 1 by (simp add: digitValue_def)
  next
    case 2
    then have u: "unat (ucast c - 65 :: u32) = unat c - 65"
      by (subst unat_ucast_minus) (simp_all add: word_le_nat_alt)
    have "unat (ucast c - 65 + 10 :: u32) = unat c - 55"
      using 2 assms(2) by (subst unat_plus_if') (simp add: u)
    moreover have "\<not> (97 :: uchar) \<le> c" using 2 by (simp add: word_le_nat_alt)
    ultimately show ?thesis using False 2 by (simp add: digitValue_def)
  qed
qed

lemma overflow_check:
  fixes v d b M :: nat
  assumes "d < b"
  shows "(M div b < v \<or> v = M div b \<and> M mod b < d) \<longleftrightarrow> M < b * v + d"
proof -
  have M: "M = b * (M div b) + M mod b" by simp
  consider "M div b < v" | "v = M div b" | "v < M div b" by linarith
  then show ?thesis
  proof cases
    case 1
    then have "b * (M div b) + b \<le> b * v" by (metis Suc_leI mult_Suc_right mult_le_mono2 add.commute)
    moreover have "M mod b < b" using assms by simp
    ultimately have "M < b * v + d" using M by linarith
    with 1 show ?thesis by simp
  next
    case 2
    then show ?thesis using M by (metis add_less_cancel_left less_not_refl)
  next
    case 3
    then have "b * v + b \<le> b * (M div b)" by (metis Suc_leI mult_Suc_right mult_le_mono2 add.commute)
    then have "\<not> M < b * v + d" using assms M by linarith
    with 3 show ?thesis by simp
  qed
qed

lemma foldl_value_ge: "1 \<le> b \<Longrightarrow> v \<le> foldl (\<lambda>v c. b * v + f c) v (ds :: ustring)" for b v :: nat
proof (induction ds arbitrary: v)
  case (Cons c ds)
  have "v \<le> b * v" using Cons.prems by simp
  also have "\<dots> \<le> b * v + f c" by simp
  also have "\<dots> \<le> foldl (\<lambda>v c. b * v + f c) (b * v + f c) ds" by (rule Cons.IH [OF Cons.prems])
  finally show ?case by simp
qed simp

lemma digit_loop_unsigned:
  assumes "2 \<le> base" "base \<le> 36"
  shows "digit_loop False base False cs v =
     (let total = foldl (\<lambda>v c. base * v + unat (digitValue c)) (unat v)
                    (takeWhile (\<lambda>c. isCharacterAllowedInBase c base) cs)
      in if total < 2 ^ 32
         then Some (of_nat total, dropWhile (\<lambda>c. isCharacterAllowedInBase c base) cs) else None)"
proof (induction cs arbitrary: v)
  case Nil
  have "unat v < 2 ^ 32" using unsigned_less [of v] by simp
  then show ?case by simp
next
  case (Cons c cs)
  show ?case
  proof (cases "isCharacterAllowedInBase c base")
    case False
    have "unat v < 2 ^ 32" using unsigned_less [of v] by simp
    with False show ?thesis by simp
  next
    case True
    let ?d = "digitValue c"
    have d: "unat ?d < base" using digitValue_less [OF True assms(2)] .
    have b: "unat (of_nat base :: u32) = base" using assms by (simp add: unat_of_nat)
    have maxu: "unat (integralMax False) = 2 ^ 32 - 1" by (simp add: integralMax_def)
    have check: "(integral_gt False v (integralMax False div of_nat base)
        \<or> (v = integralMax False div of_nat base
           \<and> integral_gt False ?d (integralMax False mod of_nat base + (if False then 1 else 0))))
        \<longleftrightarrow> 2 ^ 32 - 1 < base * unat v + unat ?d"
      using overflow_check [OF d, of "2 ^ 32 - 1" "unat v"]
      by (simp only: integral_gt_def word_less_nat_alt word_unat_eq_iff unat_div_distrib unat_mod_distrib b maxu
            if_False add_0_right)
    show ?thesis
    proof (cases "2 ^ 32 - 1 < base * unat v + unat ?d")
      case over: True
      have "base * unat v + unat ?d
          \<le> foldl (\<lambda>v c. base * v + unat (digitValue c)) (base * unat v + unat ?d)
               (takeWhile (\<lambda>c. isCharacterAllowedInBase c base) cs)"
        using foldl_value_ge [of base] assms by simp
      with over True check show ?thesis by (simp add: Let_def)
    next
      case fits: False
      have "unat (of_nat base * v + ?d) = (base * unat v + unat ?d) mod 2 ^ 32"
        by (simp add: unat_word_ariths b mod_add_left_eq)
      with fits have "unat (of_nat base * v + ?d) = base * unat v + unat ?d" by simp
      with Cons.IH [of "of_nat base * v + ?d"] fits True check show ?thesis
        by (auto simp: Let_def)
    qed
  qed
qed

lemma dropWhile_Nil_iff: "dropWhile p xs = [] \<longleftrightarrow> (\<forall>x\<in>set xs. p x)"
  by (induction xs) auto

lemma toIntegralType_unsigned:
  assumes "2 \<le> base" "base \<le> 36"
  shows "toIntegralType U False base s =
           (case unsigned_reading U base s of
              Some n \<Rightarrow> if n < 2 ^ 32 then (of_nat n, True) else (0, False)
            | None \<Rightarrow> (0, False))"
proof -
  define s1 where "s1 = dropWhile (isSpaceOrNewline U) s"
  define s2 where "s2 = (if s1 \<noteq> [] \<and> hd s1 = ch CHR ''+'' then tl s1 else s1)"
  let ?ok = "\<lambda>c. isCharacterAllowedInBase c base"
  have ds: "takeWhile ?ok s2 = [] \<longleftrightarrow> s2 = [] \<or> \<not> ?ok (hd s2)"
    by (cases s2) auto
  have r: "unsigned_reading U base s =
      (if takeWhile ?ok s2 \<noteq> [] \<and> dropWhile (isSpaceOrNewline U) (dropWhile ?ok s2) = []
       then Some (number_value base (takeWhile ?ok s2)) else None)"
    unfolding unsigned_reading_def Let_def s1_def [symmetric] s2_def [symmetric] dropWhile_Nil_iff ..
  have l: "digit_loop False base False s2 0 =
      (if number_value base (takeWhile ?ok s2) < 2 ^ 32
       then Some (of_nat (number_value base (takeWhile ?ok s2)), dropWhile ?ok s2) else None)"
    by (simp add: digit_loop_unsigned [OF assms] number_value_def Let_def)
  have t: "toIntegralType U False base s =
      (if s2 = [] \<or> \<not> ?ok (hd s2) then (0, False)
       else case digit_loop False base False s2 0 of None \<Rightarrow> (0, False)
            | Some (v, rest) \<Rightarrow>
                (if dropWhile (isSpaceOrNewline U) rest = [] then (v, True) else (0, False)))"
    unfolding toIntegralType_def Let_def simp_thms if_False s1_def [symmetric] s2_def [symmetric] ..
  let ?n = "number_value base (takeWhile ?ok s2)"
  show ?thesis
  proof (cases "takeWhile ?ok s2 = []")
    case True
    with ds show ?thesis unfolding t r by (simp only: if_True if_False option.case simp_thms)
  next
    case False
    with ds have ne: "\<not> (s2 = [] \<or> \<not> ?ok (hd s2))" by blast
    show ?thesis unfolding t r l if_not_P [OF ne] using False
      by (simp only: if_True if_False simp_thms option.case prod.case split: if_split) blast
  qed
qed

text \<open>\<open>toUIntStrict\<close>, in any base from 2 to 36: it succeeds exactly on optional white
space, an optional plus, at least one digit and optional white space, when the number fits
32 bits, and then returns that number; everything else gives 0 and \<open>ok = false\<close>.\<close>

theorem toUIntStrict_exact:
  assumes "2 \<le> base" "base \<le> 36"
  shows "toIntegralType U False base s =
           (case unsigned_reading U base s of
              Some n \<Rightarrow> if n < 2 ^ 32 then (of_nat n, True) else (0, False)
            | None \<Rightarrow> (0, False))"
  using assms by (rule toIntegralType_unsigned)

theorem toUIntStrict_exact_witness:
  "toIntegralType ascii_peer False 10 (lit '' 8080'') = (8080, True)"
proof -
  have "unsigned_reading ascii_peer 10 (lit '' 8080'') = Some 8080"
    by (simp add: unsigned_reading_def number_value_def digitValue_def isASCIIDigit_def
        isCharacterAllowedInBase_def isSpaceOrNewline_def isASCIISpace_def Let_def)
  with toUIntStrict_exact [of 10 ascii_peer "lit '' 8080''"] show ?thesis by simp
qed

section \<open>The signed instance\<close>

text \<open>The overflow test of the signed instance lets the magnitude 2147483648 through after
  a minus sign, so that the most negative value can be read; but the value held by the
  loop is then already negative, and the test compares it as a signed number, so further
  digits pass. The text of minus ten times 2147483648 is accepted as the number 0.
\<close>

theorem toInt_accepts_overflow:
  "charactersToInt U (lit ''-21474836480'') = (0, True)"
  by (simp add: charactersToInt_def lengthOfCharactersAsInteger_def toIntegralType_def
      scan_while.simps isSpaceOrNewline_def isASCIISpace_def isASCIIDigit_def
      isCharacterAllowedInBase_def digitValue_def integralMax_def integral_gt_def Let_def)

section \<open>White space\<close>

lemma skip_back_spec:
  "skip_back p s e \<le> e \<and> (skip_back p s e = 0 \<or> \<not> p (s ! skip_back p s e))
   \<and> (\<forall>k. skip_back p s e < k \<and> k \<le> e \<longrightarrow> p (s ! k))"
  by (induction p s e rule: skip_back.induct) (auto simp: le_Suc_eq)

lemma rev_dropWhile_rev:
  assumes "m < length d" "\<not> p (d ! m)" "\<And>k. m < k \<Longrightarrow> k < length d \<Longrightarrow> p (d ! k)"
  shows "rev (dropWhile p (rev d)) = take (Suc m) d"
proof -
  have split: "rev d = rev (drop (Suc m) d) @ d ! m # rev (take m d)"
    using assms(1) by (metis append.assoc append_take_drop_id id_take_nth_drop rev.simps(2) rev_append append_Cons append_Nil)
  have "\<forall>x\<in>set (drop (Suc m) d). p x"
    using assms(3) by (auto simp: in_set_conv_nth)
  then have "dropWhile p (rev d) = d ! m # rev (take m d)"
    using assms(2) by (simp add: split dropWhile_append)
  then show ?thesis using assms(1) by (simp add: take_Suc_conv_app_nth)
qed

text \<open>\<open>stripWhiteSpace\<close> removes the white space at both ends and nothing else.\<close>

lemma stripWhiteSpace_trims:
  "stripWhiteSpace U s =
     rev (dropWhile (isSpaceOrNewline U) (rev (dropWhile (isSpaceOrNewline U) s)))"
proof (cases "s = []")
  case False
  let ?p = "isSpaceOrNewline U"
  define start where "start = scan_while ?p s 0"
  define e where "e = skip_back ?p s (length s - 1)"
  have start: "start = length (takeWhile ?p s)"
    using scan_while_takeWhile [of 0 s ?p] by (simp add: start_def)
  then have d: "dropWhile ?p s = drop start s" by (simp add: dropWhile_eq_drop)
  have strip: "stripWhiteSpace U s = (if start > length s - 1 then []
      else if start = 0 \<and> e = length s - 1 then s else take (e + 1 - start) (drop start s))"
    using False by (simp add: stripWhiteSpace_def start_def e_def Let_def)
  show ?thesis
  proof (cases "start > length s - 1")
    case True
    then show ?thesis using False by (simp add: strip d)
  next
    case inside: False
    then have lt: "start < length s" using False by (cases s) auto
    have np: "\<not> ?p (s ! start)"
      using scan_while_stop [of ?p s 0] lt by (simp add: start_def)
    note sb = skip_back_spec [of ?p s "length s - 1", folded e_def]
    have "\<not> e < start"
    proof
      assume "e < start"
      with sb lt have "?p (s ! start)" by auto
      with np show False by simp
    qed
    then have se: "start \<le> e" by simp
    have nse: "\<not> ?p (s ! e)" using sb np se by (cases "e = 0") auto
    have "e < length s" using sb False by (cases s) auto
    then have "rev (dropWhile ?p (rev (drop start s))) = take (Suc (e - start)) (drop start s)"
    proof (intro rev_dropWhile_rev)
      fix k
      assume "e - start < k" "k < length (drop start s)"
      then have "e < start + k \<and> start + k \<le> length s - 1" by auto
      with sb have "?p (s ! (start + k))" by blast
      with \<open>k < length (drop start s)\<close> show "?p (drop start s ! k)" by simp
    qed (use se nse \<open>e < length s\<close> in auto)
    then show ?thesis
      using inside se by (auto simp: strip d Suc_diff_le)
  qed
qed (simp add: stripWhiteSpace_def)

lemma filter_via_runs:
  "filter (\<lambda>c. \<not> p c) s = takeWhile (\<lambda>c. \<not> p c) (dropWhile p s)
     @ filter (\<lambda>c. \<not> p c) (dropWhile (\<lambda>c. \<not> p c) (dropWhile p s))"
proof -
  have "filter (\<lambda>c. \<not> p c) s = filter (\<lambda>c. \<not> p c) (dropWhile p s)"
    by (induction s) auto
  moreover have "filter (\<lambda>c. \<not> p c) t = takeWhile (\<lambda>c. \<not> p c) t @ filter (\<lambda>c. \<not> p c) (dropWhile (\<lambda>c. \<not> p c) t)" for t
    by (induction t) auto
  ultimately show ?thesis by metis
qed

lemma remove_loop_filter: "remove_loop p s = filter (\<lambda>c. \<not> p c) s"
proof (induction p s rule: remove_loop.induct)
  case (1 p s)
  let ?k = "takeWhile (\<lambda>c. \<not> p c) (dropWhile p s)"
  let ?r = "dropWhile (\<lambda>c. \<not> p c) (dropWhile p s)"
  have "remove_loop p s = ?k @ (if ?r = [] then [] else remove_loop p ?r)"
    by (subst remove_loop.simps) (simp add: Let_def)
  moreover have "(if ?r = [] then [] else remove_loop p ?r) = filter (\<lambda>c. \<not> p c) ?r"
    using 1 [OF refl refl refl] by (cases "?r = []") (simp_all only: if_True if_False filter.simps simp_thms)
  ultimately show ?case by (simp only: filter_via_runs [symmetric])
qed

text \<open>\<open>removeCharacters\<close>, with its fast path and its alternating copy loop, is a filter.\<close>

lemma removeCharacters_filter: "removeCharacters findMatch s = filter (\<lambda>c. \<not> findMatch c) s"
proof -
  define n where "n = scan_while (\<lambda>c. \<not> findMatch c) s 0"
  have n: "n \<le> length s" by (simp add: n_def)
  have "\<forall>c\<in>set (take n s). \<not> findMatch c"
    using scan_while_all [of 0 _ "\<lambda>c. \<not> findMatch c" s] n by (auto simp: n_def in_set_conv_nth)
  then have t: "filter (\<lambda>c. \<not> findMatch c) (take n s) = take n s" by simp
  have "filter (\<lambda>c. \<not> findMatch c) s
      = filter (\<lambda>c. \<not> findMatch c) (take n s) @ filter (\<lambda>c. \<not> findMatch c) (drop n s)"
    by (metis append_take_drop_id filter_append)
  then show ?thesis
    by (auto simp: removeCharacters_def n_def [symmetric] Let_def remove_loop_filter t)
qed

end
