(* ===== verification/URLCharacters.thy ===== *)
theory URLCharacters
  imports StringNumber
begin

text \<open>
  The character classes of the URL parser: the table \<open>characterClassTable\<close> of
  src/webkit/WebCore/platform/KURL.cpp, entry by entry, and the predicates that read it.
  The comments over the enumeration document the classes as grammars;
  the \<open>documented_\<close> predicates are that documentation, and the table is compared with it.
\<close>

unbundle bit_operations_syntax

section \<open>The table\<close>

abbreviation "SchemeFirstChar \<equiv> (1 :: byte)"
abbreviation "SchemeChar \<equiv> (2 :: byte)"
abbreviation "UserInfoChar \<equiv> (4 :: byte)"
abbreviation "HostnameChar \<equiv> (8 :: byte)"
abbreviation "IPv6Char \<equiv> (16 :: byte)"
abbreviation "PathSegmentEndChar \<equiv> (32 :: byte)"
abbreviation "BadChar \<equiv> (64 :: byte)"

definition characterClassTable_ascii :: "byte list" where
  "characterClassTable_ascii = [
    PathSegmentEndChar, BadChar, BadChar, BadChar, BadChar, BadChar, BadChar, BadChar, BadChar,
    BadChar, BadChar, BadChar, BadChar, BadChar, BadChar, BadChar, BadChar, BadChar, BadChar,
    BadChar, BadChar, BadChar, BadChar, BadChar, BadChar, BadChar, BadChar, BadChar, BadChar,
    BadChar, BadChar, BadChar, BadChar, UserInfoChar, BadChar, PathSegmentEndChar OR BadChar,
    UserInfoChar, UserInfoChar OR HostnameChar OR IPv6Char OR BadChar, UserInfoChar, UserInfoChar,
    UserInfoChar, UserInfoChar, UserInfoChar, SchemeChar OR UserInfoChar, UserInfoChar,
    SchemeChar OR UserInfoChar OR HostnameChar,
    SchemeChar OR UserInfoChar OR HostnameChar OR IPv6Char, PathSegmentEndChar,
    SchemeChar OR UserInfoChar OR HostnameChar OR IPv6Char,
    SchemeChar OR UserInfoChar OR HostnameChar OR IPv6Char,
    SchemeChar OR UserInfoChar OR HostnameChar OR IPv6Char,
    SchemeChar OR UserInfoChar OR HostnameChar OR IPv6Char,
    SchemeChar OR UserInfoChar OR HostnameChar OR IPv6Char,
    SchemeChar OR UserInfoChar OR HostnameChar OR IPv6Char,
    SchemeChar OR UserInfoChar OR HostnameChar OR IPv6Char,
    SchemeChar OR UserInfoChar OR HostnameChar OR IPv6Char,
    SchemeChar OR UserInfoChar OR HostnameChar OR IPv6Char,
    SchemeChar OR UserInfoChar OR HostnameChar OR IPv6Char, UserInfoChar OR IPv6Char,
    UserInfoChar, BadChar, UserInfoChar, BadChar, PathSegmentEndChar OR BadChar, 0,
    SchemeFirstChar OR SchemeChar OR UserInfoChar OR HostnameChar OR IPv6Char,
    SchemeFirstChar OR SchemeChar OR UserInfoChar OR HostnameChar OR IPv6Char,
    SchemeFirstChar OR SchemeChar OR UserInfoChar OR HostnameChar OR IPv6Char,
    SchemeFirstChar OR SchemeChar OR UserInfoChar OR HostnameChar OR IPv6Char,
    SchemeFirstChar OR SchemeChar OR UserInfoChar OR HostnameChar OR IPv6Char,
    SchemeFirstChar OR SchemeChar OR UserInfoChar OR HostnameChar OR IPv6Char,
    SchemeFirstChar OR SchemeChar OR UserInfoChar OR HostnameChar,
    SchemeFirstChar OR SchemeChar OR UserInfoChar OR HostnameChar,
    SchemeFirstChar OR SchemeChar OR UserInfoChar OR HostnameChar,
    SchemeFirstChar OR SchemeChar OR UserInfoChar OR HostnameChar,
    SchemeFirstChar OR SchemeChar OR UserInfoChar OR HostnameChar,
    SchemeFirstChar OR SchemeChar OR UserInfoChar OR HostnameChar,
    SchemeFirstChar OR SchemeChar OR UserInfoChar OR HostnameChar,
    SchemeFirstChar OR SchemeChar OR UserInfoChar OR HostnameChar,
    SchemeFirstChar OR SchemeChar OR UserInfoChar OR HostnameChar,
    SchemeFirstChar OR SchemeChar OR UserInfoChar OR HostnameChar,
    SchemeFirstChar OR SchemeChar OR UserInfoChar OR HostnameChar,
    SchemeFirstChar OR SchemeChar OR UserInfoChar OR HostnameChar,
    SchemeFirstChar OR SchemeChar OR UserInfoChar OR HostnameChar,
    SchemeFirstChar OR SchemeChar OR UserInfoChar OR HostnameChar,
    SchemeFirstChar OR SchemeChar OR UserInfoChar OR HostnameChar,
    SchemeFirstChar OR SchemeChar OR UserInfoChar OR HostnameChar,
    SchemeFirstChar OR SchemeChar OR UserInfoChar OR HostnameChar,
    SchemeFirstChar OR SchemeChar OR UserInfoChar OR HostnameChar,
    SchemeFirstChar OR SchemeChar OR UserInfoChar OR HostnameChar,
    SchemeFirstChar OR SchemeChar OR UserInfoChar OR HostnameChar, 0, 0, 0, 0,
    UserInfoChar OR HostnameChar, 0,
    SchemeFirstChar OR SchemeChar OR UserInfoChar OR HostnameChar OR IPv6Char,
    SchemeFirstChar OR SchemeChar OR UserInfoChar OR HostnameChar OR IPv6Char,
    SchemeFirstChar OR SchemeChar OR UserInfoChar OR HostnameChar OR IPv6Char,
    SchemeFirstChar OR SchemeChar OR UserInfoChar OR HostnameChar OR IPv6Char,
    SchemeFirstChar OR SchemeChar OR UserInfoChar OR HostnameChar OR IPv6Char,
    SchemeFirstChar OR SchemeChar OR UserInfoChar OR HostnameChar OR IPv6Char,
    SchemeFirstChar OR SchemeChar OR UserInfoChar OR HostnameChar,
    SchemeFirstChar OR SchemeChar OR UserInfoChar OR HostnameChar,
    SchemeFirstChar OR SchemeChar OR UserInfoChar OR HostnameChar,
    SchemeFirstChar OR SchemeChar OR UserInfoChar OR HostnameChar,
    SchemeFirstChar OR SchemeChar OR UserInfoChar OR HostnameChar,
    SchemeFirstChar OR SchemeChar OR UserInfoChar OR HostnameChar,
    SchemeFirstChar OR SchemeChar OR UserInfoChar OR HostnameChar,
    SchemeFirstChar OR SchemeChar OR UserInfoChar OR HostnameChar,
    SchemeFirstChar OR SchemeChar OR UserInfoChar OR HostnameChar,
    SchemeFirstChar OR SchemeChar OR UserInfoChar OR HostnameChar,
    SchemeFirstChar OR SchemeChar OR UserInfoChar OR HostnameChar,
    SchemeFirstChar OR SchemeChar OR UserInfoChar OR HostnameChar,
    SchemeFirstChar OR SchemeChar OR UserInfoChar OR HostnameChar,
    SchemeFirstChar OR SchemeChar OR UserInfoChar OR HostnameChar,
    SchemeFirstChar OR SchemeChar OR UserInfoChar OR HostnameChar,
    SchemeFirstChar OR SchemeChar OR UserInfoChar OR HostnameChar,
    SchemeFirstChar OR SchemeChar OR UserInfoChar OR HostnameChar,
    SchemeFirstChar OR SchemeChar OR UserInfoChar OR HostnameChar,
    SchemeFirstChar OR SchemeChar OR UserInfoChar OR HostnameChar,
    SchemeFirstChar OR SchemeChar OR UserInfoChar OR HostnameChar, 0, 0, 0, UserInfoChar, BadChar]"

definition characterClassTable_high :: "byte list" where
  "characterClassTable_high = [
    BadChar, BadChar, BadChar, BadChar, BadChar, BadChar, BadChar, BadChar, BadChar, BadChar,
    BadChar, BadChar, BadChar, BadChar, BadChar, BadChar, BadChar, BadChar, BadChar, BadChar,
    BadChar, BadChar, BadChar, BadChar, BadChar, BadChar, BadChar, BadChar, BadChar, BadChar,
    BadChar, BadChar, BadChar, BadChar, BadChar, BadChar, BadChar, BadChar, BadChar, BadChar,
    BadChar, BadChar, BadChar, BadChar, BadChar, BadChar, BadChar, BadChar, BadChar, BadChar,
    BadChar, BadChar, BadChar, BadChar, BadChar, BadChar, BadChar, BadChar, BadChar, BadChar,
    BadChar, BadChar, BadChar, BadChar, BadChar, BadChar, BadChar, BadChar, BadChar, BadChar,
    BadChar, BadChar, BadChar, BadChar, BadChar, BadChar, BadChar, BadChar, BadChar, BadChar,
    BadChar, BadChar, BadChar, BadChar, BadChar, BadChar, BadChar, BadChar, BadChar, BadChar,
    BadChar, BadChar, BadChar, BadChar, BadChar, BadChar, BadChar, BadChar, BadChar, BadChar,
    BadChar, BadChar, BadChar, BadChar, BadChar, BadChar, BadChar, BadChar, BadChar, BadChar,
    BadChar, BadChar, BadChar, BadChar, BadChar, BadChar, BadChar, BadChar, BadChar, BadChar,
    BadChar, BadChar, BadChar, BadChar, BadChar, BadChar, BadChar, BadChar]"

definition characterClassTable :: "byte list" where
  "characterClassTable = characterClassTable_ascii @ characterClassTable_high"

definition char_class :: "byte \<Rightarrow> byte" where
  "char_class c = characterClassTable ! unat c"

definition isSchemeFirstChar :: "byte \<Rightarrow> bool" where
  "isSchemeFirstChar c \<longleftrightarrow> char_class c AND SchemeFirstChar \<noteq> 0"

definition isSchemeChar :: "byte \<Rightarrow> bool" where
  "isSchemeChar c \<longleftrightarrow> char_class c AND SchemeChar \<noteq> 0"

definition isUserInfoChar :: "byte \<Rightarrow> bool" where
  "isUserInfoChar c \<longleftrightarrow> char_class c AND UserInfoChar \<noteq> 0"

definition isHostnameChar :: "byte \<Rightarrow> bool" where
  "isHostnameChar c \<longleftrightarrow> char_class c AND HostnameChar \<noteq> 0"

definition isIPv6Char :: "byte \<Rightarrow> bool" where
  "isIPv6Char c \<longleftrightarrow> char_class c AND IPv6Char \<noteq> 0"

definition isPathSegmentEndChar :: "byte \<Rightarrow> bool" where
  "isPathSegmentEndChar c \<longleftrightarrow> char_class c AND PathSegmentEndChar \<noteq> 0"

definition isBadChar :: "byte \<Rightarrow> bool" where
  "isBadChar c \<longleftrightarrow> char_class c AND BadChar \<noteq> 0"

text \<open>The \<open>UChar\<close> overloads look only the first 256 code units up.\<close>

definition isSchemeFirstChar_u :: "uchar \<Rightarrow> bool" where
  "isSchemeFirstChar_u c \<longleftrightarrow> c \<le> 0xff \<and> characterClassTable ! unat c AND SchemeFirstChar \<noteq> 0"

definition isSchemeChar_u :: "uchar \<Rightarrow> bool" where
  "isSchemeChar_u c \<longleftrightarrow> c \<le> 0xff \<and> characterClassTable ! unat c AND SchemeChar \<noteq> 0"

definition isPathSegmentEndChar_u :: "uchar \<Rightarrow> bool" where
  "isPathSegmentEndChar_u c \<longleftrightarrow> c \<le> 0xff \<and> characterClassTable ! unat c AND PathSegmentEndChar \<noteq> 0"

section \<open>What the classes contain\<close>

definition alpha :: "nat \<Rightarrow> bool" where
  "alpha n \<longleftrightarrow> (65 \<le> n \<and> n \<le> 90) \<or> (97 \<le> n \<and> n \<le> 122)"

definition digit :: "nat \<Rightarrow> bool" where
  "digit n \<longleftrightarrow> 48 \<le> n \<and> n \<le> 57"

definition hexdigit :: "nat \<Rightarrow> bool" where
  "hexdigit n \<longleftrightarrow> digit n \<or> (65 \<le> n \<and> n \<le> 70) \<or> (97 \<le> n \<and> n \<le> 102)"

definition among :: "nat \<Rightarrow> string \<Rightarrow> bool" where
  "among n cs \<longleftrightarrow> n \<in> of_char ` set cs"

definition alnum :: "nat \<Rightarrow> bool" where
  "alnum n \<longleftrightarrow> alpha n \<or> digit n"

text \<open>The grammars in the comments of the enumeration, character by character.\<close>

definition documented_SchemeChar :: "nat \<Rightarrow> bool" where
  "documented_SchemeChar n \<longleftrightarrow> alpha n \<or> digit n \<or> among n ''+-.''"

definition documented_UserInfoChar :: "nat \<Rightarrow> bool" where
  "documented_UserInfoChar n \<longleftrightarrow> alnum n \<or> among n ''-_.!~*'()'' \<or> n = 37 \<or> among n '';:&=+$,''"

definition documented_HostnameChar :: "nat \<Rightarrow> bool" where
  "documented_HostnameChar n \<longleftrightarrow> alnum n \<or> among n ''.-%'' \<or> among n ''_''"

definition documented_IPv6Char :: "nat \<Rightarrow> bool" where
  "documented_IPv6Char n \<longleftrightarrow> hexdigit n \<or> among n '':%''"

definition documented_PathSegmentEndChar :: "nat \<Rightarrow> bool" where
  "documented_PathSegmentEndChar n \<longleftrightarrow> among n ''#?/'' \<or> n = 0"

definition documented_BadChar :: "nat \<Rightarrow> bool" where
  "documented_BadChar n \<longleftrightarrow> n \<noteq> 0 \<and> (n \<le> 32 \<or> among n ''#%<>?'' \<or> n = 34 \<or> 127 \<le> n)"

section \<open>The predicates\<close>

lemma length_table: "length characterClassTable = 256"
  by code_simp

lemma class_predicate:
  "map (\<lambda>b. b AND f \<noteq> 0) characterClassTable = map P [0..<256] \<Longrightarrow> (char_class c AND f \<noteq> 0) = P (unat c)"
proof -
  assume eq: "map (\<lambda>b. b AND f \<noteq> 0) characterClassTable = map P [0..<256]"
  have c: "unat c < 256" using unsigned_less [of c] by simp
  with eq have "map (\<lambda>b. b AND f \<noteq> 0) characterClassTable ! unat c = P (unat c)" by simp
  with c show ?thesis by (simp add: char_class_def length_table)
qed

lemma isSchemeFirstChar_iff: "isSchemeFirstChar c \<longleftrightarrow> alpha (unat c)"
  unfolding isSchemeFirstChar_def by (rule class_predicate) code_simp

lemma isSchemeChar_iff: "isSchemeChar c \<longleftrightarrow> documented_SchemeChar (unat c)"
  unfolding isSchemeChar_def by (rule class_predicate) code_simp

lemma isUserInfoChar_iff: "isUserInfoChar c \<longleftrightarrow> documented_UserInfoChar (unat c)"
  unfolding isUserInfoChar_def by (rule class_predicate) code_simp

lemma isHostnameChar_iff: "isHostnameChar c \<longleftrightarrow> documented_HostnameChar (unat c)"
  unfolding isHostnameChar_def by (rule class_predicate) code_simp

lemma isIPv6Char_iff: "isIPv6Char c \<longleftrightarrow> hexdigit (unat c) \<or> among (unat c) '':%.''"
  unfolding isIPv6Char_def by (rule class_predicate) code_simp

lemma isPathSegmentEndChar_iff: "isPathSegmentEndChar c \<longleftrightarrow> documented_PathSegmentEndChar (unat c)"
  unfolding isPathSegmentEndChar_def by (rule class_predicate) code_simp

lemma isBadChar_iff: "isBadChar c \<longleftrightarrow> documented_BadChar (unat c)"
  unfolding isBadChar_def by (rule class_predicate) code_simp

text \<open>The classes on the characters that delimit the parts of a URL.\<close>

lemma byte_eq_iff: "(c = (d::byte)) \<longleftrightarrow> unat c = unat d"
  by (simp add: word_unat_eq_iff)

lemmas class_iffs =
  isSchemeFirstChar_iff isSchemeChar_iff isUserInfoChar_iff isHostnameChar_iff isIPv6Char_iff
  isPathSegmentEndChar_iff isBadChar_iff

lemmas class_docs =
  documented_SchemeChar_def documented_UserInfoChar_def documented_HostnameChar_def
  documented_IPv6Char_def documented_PathSegmentEndChar_def documented_BadChar_def
  among_def alpha_def alnum_def digit_def hexdigit_def

text \<open>The character table of the URL parser is its documentation: every one of the 256
  bytes has exactly the classes the comments of the enumeration give, except that "." also
  counts as an IPv6 character; the bad characters are the controls, the space, the quote,
  "#", "%", "<", ">", "?", DEL and everything above ASCII.\<close>

theorem characterClassTable_documented:
  "isSchemeFirstChar c = alpha (unat c) \<and> isSchemeChar c = documented_SchemeChar (unat c)
   \<and> isUserInfoChar c = documented_UserInfoChar (unat c)
   \<and> isHostnameChar c = documented_HostnameChar (unat c)
   \<and> isIPv6Char c = (documented_IPv6Char (unat c) \<or> c = ch CHR ''.'')
   \<and> isPathSegmentEndChar c = documented_PathSegmentEndChar (unat c)
   \<and> isBadChar c = documented_BadChar (unat c)"
  by (auto simp: class_iffs documented_IPv6Char_def among_def byte_eq_iff)

lemma PathSegmentEnd_cases:
  "isPathSegmentEndChar c \<longleftrightarrow> c = 0 \<or> c = ch CHR ''#'' \<or> c = ch CHR ''?'' \<or> c = ch CHR ''/''"
  by (auto simp: class_iffs class_docs byte_eq_iff)

lemma class_terminator [simp]:
  "\<not> isSchemeFirstChar 0" "\<not> isSchemeChar 0" "\<not> isUserInfoChar 0" "\<not> isHostnameChar 0" "\<not> isIPv6Char 0"
  "isPathSegmentEndChar 0" "\<not> isBadChar 0"
  by (simp_all add: class_iffs class_docs)

end
