(* ===== verification/KURLParse.thy ===== *)
theory KURLParse
  imports URLCharacters
begin

text \<open>
  \<open>KURL::parse\<close> of src/webkit/WebCore/platform/KURL.cpp: a \<open>const char*\<close> is the list of
  its bytes before the NUL. The scanner computes the ranges of the parts in the input
  (\<open>url_authority\<close>, \<open>url_tail\<close>); the assembler copies them into an output buffer and
  remembers where each part of the output ends, the state of a \<open>KURL\<close>. Every write
  \<open>*p++ = c\<close> of the source appends to the output list here, so \<open>p - buffer.data()\<close> is the
  length of what has been written.
\<close>

unbundle bit_operations_syntax

section \<open>The URL object\<close>

record KURL =
  m_string :: ustring
  m_isValid :: bool
  m_protocolInHTTPFamily :: bool
  m_schemeEnd :: nat
  m_userStart :: nat
  m_userEnd :: nat
  m_passwordEnd :: nat
  m_hostEnd :: nat
  m_portEnd :: nat
  m_pathAfterLastSlash :: nat
  m_pathEnd :: nat
  m_queryEnd :: nat
  m_fragmentEnd :: nat

text \<open>\<open>m_string = s; invalidate();\<close>\<close>

definition invalidate :: "ustring \<Rightarrow> KURL" where
  "invalidate s = \<lparr>m_string = s, m_isValid = False, m_protocolInHTTPFamily = False,
     m_schemeEnd = 0, m_userStart = 0, m_userEnd = 0, m_passwordEnd = 0, m_hostEnd = 0,
     m_portEnd = 0, m_pathAfterLastSlash = 0, m_pathEnd = 0, m_queryEnd = 0, m_fragmentEnd = 0\<rparr>"

section \<open>Character strings\<close>

text \<open>\<open>String(const char*)\<close> widens every byte; \<open>copyASCII\<close> narrows every code unit.\<close>

definition latin1 :: "byte list \<Rightarrow> ustring" where
  "latin1 s = map ucast s"

definition copyASCII :: "ustring \<Rightarrow> byte list" where
  "copyASCII s = map ucast s"

text \<open>What a reader of the buffer sees of it: the bytes before the first NUL.\<close>

definition cstr :: "byte list \<Rightarrow> byte list" where
  "cstr s = takeWhile (\<lambda>b. b \<noteq> 0) s"

definition matchLetter :: "byte \<Rightarrow> byte \<Rightarrow> bool" where
  "matchLetter c lowercaseLetter \<longleftrightarrow> c OR 0x20 = lowercaseLetter"

section \<open>Scanning\<close>

record url_authority =
  au_userStart :: nat
  au_userEnd :: nat
  au_passwordStart :: nat
  au_passwordEnd :: nat
  au_hostStart :: nat
  au_hostEnd :: nat
  au_portStart :: nat
  au_portEnd :: nat

text \<open>
  \<open>while (isUserInfoChar(url[userEnd])) { if (url[userEnd] == ':' && colonPos == 0)
  colonPos = userEnd; userEnd++; }\<close>; the terminator is not a user info character.
\<close>

function userinfo_loop :: "byte list \<Rightarrow> nat \<Rightarrow> nat \<Rightarrow> nat \<times> nat" where
  "userinfo_loop url userEnd colonPos =
     (if userEnd < length url \<and> isUserInfoChar (url ! userEnd)
      then userinfo_loop url (Suc userEnd)
             (if url ! userEnd = ch CHR '':'' \<and> colonPos = 0 then userEnd else colonPos)
      else (userEnd, colonPos))"
  by pat_completeness auto
termination
  by (relation "measure (\<lambda>(url, userEnd, _). length url - userEnd)") auto

declare userinfo_loop.simps [simp del]

text \<open>The result is \<open>(userEnd, passwordStart, passwordEnd, hostStart)\<close>, or None for an invalid character.\<close>

definition scan_userinfo :: "byte list \<Rightarrow> nat \<Rightarrow> (nat \<times> nat \<times> nat \<times> nat) option" where
  "scan_userinfo url userStart =
     (let (userEnd, colonPos) = userinfo_loop url userStart 0
      in if at url userEnd = ch CHR ''@''
         then (if colonPos \<noteq> 0
               then Some (colonPos, colonPos + 1, userEnd, userEnd + 1)
               else Some (userEnd, userEnd, userEnd, userEnd + 1))
         else if at url userEnd = ch CHR ''['' \<or> isPathSegmentEndChar (at url userEnd)
         then Some (userStart, userStart, userStart, userStart)
         else None)"

definition scan_host :: "byte list \<Rightarrow> nat \<Rightarrow> nat option" where
  "scan_host url hostStart =
     (if at url hostStart = ch CHR ''[''
      then let hostEnd = scan_while isIPv6Char url (hostStart + 1)
           in if at url hostEnd = ch CHR '']'' then Some (hostEnd + 1) else None
      else Some (scan_while isHostnameChar url hostStart))"

definition scan_port :: "byte list \<Rightarrow> nat \<Rightarrow> nat \<times> nat" where
  "scan_port url hostEnd =
     (if at url hostEnd = ch CHR '':''
      then (hostEnd + 1, scan_while isASCIIDigit url (hostEnd + 1))
      else (hostEnd, hostEnd))"

definition no_authority :: "nat \<Rightarrow> url_authority" where
  "no_authority n = \<lparr>au_userStart = n, au_userEnd = n, au_passwordStart = n, au_passwordEnd = n,
     au_hostStart = n, au_hostEnd = n, au_portStart = n, au_portEnd = n\<rparr>"

definition scan_authority :: "byte list \<Rightarrow> nat \<Rightarrow> bool \<Rightarrow> bool \<Rightarrow> url_authority option" where
  "scan_authority url schemeEnd protocolInHTTPFamily isFile =
     (if at url (schemeEnd + 1) = ch CHR ''/'' \<and> at url (schemeEnd + 2) = ch CHR ''/''
      then let userStart = schemeEnd + 3
           in case scan_userinfo url userStart of
                None \<Rightarrow> None
              | Some (userEnd, passwordStart, passwordEnd, hostStart) \<Rightarrow>
                 (case scan_host url hostStart of
                    None \<Rightarrow> None
                  | Some hostEnd \<Rightarrow>
                     (let (portStart, portEnd) = scan_port url hostEnd
                      in if \<not> isPathSegmentEndChar (at url portEnd) then None
                         else if userStart = portEnd \<and> \<not> protocolInHTTPFamily \<and> \<not> isFile
                         then Some (no_authority (userStart - 2))
                         else Some \<lparr>au_userStart = userStart, au_userEnd = userEnd,
                                au_passwordStart = passwordStart, au_passwordEnd = passwordEnd,
                                au_hostStart = hostStart, au_hostEnd = hostEnd,
                                au_portStart = portStart, au_portEnd = portEnd\<rparr>))
      else Some (no_authority (schemeEnd + 1)))"

record url_tail =
  ta_pathEnd :: nat
  ta_queryEnd :: nat
  ta_fragmentStart :: nat
  ta_fragmentEnd :: nat

definition scan_tail :: "byte list \<Rightarrow> nat \<Rightarrow> url_tail" where
  "scan_tail url pathStart =
     (let pathEnd = scan_while (\<lambda>c. c \<noteq> ch CHR ''?'' \<and> c \<noteq> ch CHR ''#'') url pathStart;
          queryEnd = (if at url pathEnd = ch CHR ''?''
                      then scan_while (\<lambda>c. c \<noteq> ch CHR ''#'') url pathEnd else pathEnd);
          (fragmentStart, fragmentEnd) =
             (if at url queryEnd = ch CHR ''#''
              then (queryEnd + 1, scan_while (\<lambda>_. True) url (queryEnd + 1))
              else (queryEnd, queryEnd))
      in \<lparr>ta_pathEnd = pathEnd, ta_queryEnd = queryEnd,
          ta_fragmentStart = fragmentStart, ta_fragmentEnd = fragmentEnd\<rparr>)"

section \<open>Escaping and dot segments\<close>

definition hexDigits :: "byte list" where
  "hexDigits = lit ''0123456789ABCDEF''"

definition hex_escape :: "byte \<Rightarrow> byte list" where
  "hex_escape c = [ch CHR ''%'', hexDigits ! unat (drop_bit 4 c), hexDigits ! unat (c AND 0xF)]"

definition escape_bad :: "byte \<Rightarrow> byte list" where
  "escape_bad c =
     (if isBadChar c
      then if c = ch CHR ''%'' \<or> c = ch CHR ''?'' then [c]
           else if c \<noteq> 0x09 \<and> c \<noteq> 0x0a \<and> c \<noteq> 0x0d then hex_escape c
           else []
      else [c])"

text \<open>\<open>appendEscapingBadChars(p, str, length)\<close> appends this to what \<open>p\<close> has written.\<close>

definition appendEscapingBadChars :: "byte list \<Rightarrow> byte list" where
  "appendEscapingBadChars str = concat (map escape_bad str)"

text \<open>
  \<open>copyPathRemovingDots\<close>: \<open>dst\<close> is what has been written from \<open>bufferPathStart\<close> on. The two
  loops of the rewind step drop the slashes, then the segment, at its end.
\<close>

function rewind_while :: "(byte \<Rightarrow> bool) \<Rightarrow> nat \<Rightarrow> byte list \<Rightarrow> byte list" where
  "rewind_while p keep dst =
     (if length dst > keep \<and> dst \<noteq> [] \<and> p (last dst) then rewind_while p keep (butlast dst) else dst)"
  by pat_completeness auto
termination
  by (relation "measure (\<lambda>(_, _, dst). length dst)") auto

declare rewind_while.simps [simp del]

definition rewind_segment :: "byte list \<Rightarrow> byte list" where
  "rewind_segment dst =
     (let dst1 = (if length dst > 1 then butlast dst else dst);
          dst2 = rewind_while (\<lambda>c. c = ch CHR ''/'') 1 dst1
      in rewind_while (\<lambda>c. c \<noteq> ch CHR ''/'') 0 dst2)"

function dots_loop :: "byte list \<Rightarrow> nat \<Rightarrow> nat \<Rightarrow> byte list \<Rightarrow> byte list" where
  "dots_loop src srcEnd pos dst =
     (if pos < srcEnd
      then if at src pos = ch CHR ''.'' \<and> dst \<noteq> [] \<and> last dst = ch CHR ''/''
                \<and> (at src (pos + 1) = ch CHR ''/'' \<or> pos + 1 = srcEnd)
           then dots_loop src srcEnd (pos + 2) dst
           else if at src pos = ch CHR ''.'' \<and> dst \<noteq> [] \<and> last dst = ch CHR ''/''
                \<and> at src (pos + 1) = ch CHR ''.''
                \<and> (at src (pos + 2) = ch CHR ''/'' \<or> pos + 2 = srcEnd)
           then dots_loop src srcEnd (pos + 3) (rewind_segment dst)
           else dots_loop src srcEnd (pos + 1) (dst @ [at src pos])
      else dst)"
  by pat_completeness auto
termination
  by (relation "measure (\<lambda>(_, srcEnd, pos, _). srcEnd - pos)") auto

declare dots_loop.simps [simp del]

definition copyPathRemovingDots :: "byte list \<Rightarrow> nat \<Rightarrow> nat \<Rightarrow> byte list" where
  "copyPathRemovingDots src srcStart srcEnd =
     (if srcStart \<noteq> srcEnd then dots_loop src srcEnd (srcStart + 1) [at src srcStart] else [])"

fun slash_dot_loop :: "byte \<Rightarrow> byte list \<Rightarrow> bool" where
  "slash_dot_loop pc [] = False"
| "slash_dot_loop pc (c # cs) =
     (if c = ch CHR ''.'' \<and> (pc = ch CHR ''/'' \<or> pc = ch CHR ''.'') then True
      else slash_dot_loop c cs)"

definition hasSlashDotOrDotDot :: "byte list \<Rightarrow> bool" where
  "hasSlashDotOrDotDot str = (case str of [] \<Rightarrow> False | c # cs \<Rightarrow> slash_dot_loop c cs)"

section \<open>Assembling\<close>

text \<open>The letters of "localhost" over the range of the authority.\<close>

definition is_localhost :: "byte list \<Rightarrow> nat \<Rightarrow> nat \<Rightarrow> bool" where
  "is_localhost url userStart portEnd \<longleftrightarrow>
     int portEnd - int userStart = 9 \<and>
     list_all (\<lambda>(i, c). matchLetter (at url (userStart + i)) c) (enumerate 0 (lit ''localhost''))"

text \<open>
  The authority as it is written after "//": user, password, "@" if either was written,
  host unless it is the local host of a file URL, port. The offsets are relative to the
  start of the authority: \<open>(text, userEnd, passwordEnd, hostEnd)\<close>.
\<close>

definition assemble_authority ::
  "byte list \<Rightarrow> url_authority \<Rightarrow> bool \<Rightarrow> byte list \<times> nat \<times> nat \<times> nat" where
  "assemble_authority url a dropHost =
     (let user = segment url (au_userStart a) (au_userEnd a);
          pass = (if au_passwordEnd a \<noteq> au_passwordStart a
                  then ch CHR '':'' # segment url (au_passwordStart a) (au_passwordEnd a) else []);
          upass = user @ pass;
          before = upass @ (if upass \<noteq> [] then [ch CHR ''@''] else []);
          host = before @ (if dropHost then [] else segment url (au_hostStart a) (au_hostEnd a));
          port = (if au_hostEnd a \<noteq> au_portStart a
                  then ch CHR '':'' # segment url (au_portStart a) (au_portEnd a) else [])
      in (host @ port, length user, length upass, length host))"

text \<open>\<open>for (i = m_pathEnd; i > m_portEnd; --i) if (buffer[i - 1] == '/') break;\<close>\<close>

fun last_slash :: "byte list \<Rightarrow> nat \<Rightarrow> nat \<Rightarrow> nat" where
  "last_slash buffer portEnd 0 = 0"
| "last_slash buffer portEnd (Suc i) =
     (if Suc i > portEnd
      then if buffer ! i = ch CHR ''/'' then Suc i else last_slash buffer portEnd i
      else Suc i)"

definition assemble ::
  "byte list \<Rightarrow> nat \<Rightarrow> bool \<Rightarrow> bool \<Rightarrow> url_authority \<Rightarrow> url_tail \<Rightarrow> byte list \<times> KURL" where
  "assemble url schemeEnd protocolInHTTPFamily isFile a t =
     (let hierarchical = (at url (schemeEnd + 1) = ch CHR ''/'');
          pathStart = au_portEnd a;
          hostIsLocalHost = is_localhost url (au_userStart a) (au_portEnd a);
          degenFilePath = (pathStart = ta_pathEnd t
                           \<and> (au_hostStart a = au_hostEnd a \<or> hostIsLocalHost));
          haveNonHostAuthorityPart =
             (au_userStart a \<noteq> au_userEnd a \<or> au_passwordStart a \<noteq> au_passwordEnd a
              \<or> au_portStart a \<noteq> au_portEnd a);
          p0 = segment url 0 schemeEnd @ [ch CHR '':''];
          (p1, userStart, userEnd, passwordEnd, hostEnd, portEnd) =
             (if (if isFile then \<not> degenFilePath
                  else haveNonHostAuthorityPart \<or> au_hostStart a \<noteq> au_hostEnd a)
              then let (auth, ue, pe, he) =
                         assemble_authority url a
                           (isFile \<and> hostIsLocalHost \<and> \<not> haveNonHostAuthorityPart);
                       base = p0 @ lit ''//'';
                       n = length base
                   in (base @ auth, n, n + ue, n + pe, n + he, n + length auth)
              else let n = length p0 in (p0, n, n, n, n, n));
          p2 = p1 @ (if protocolInHTTPFamily \<and> hierarchical \<and> ta_pathEnd t = pathStart
                     then [ch CHR ''/''] else []);
          p3 = p2 @ appendEscapingBadChars
                      (if \<not> hierarchical \<or> \<not> hasSlashDotOrDotDot url
                       then segment url pathStart (ta_pathEnd t)
                       else copyPathRemovingDots url pathStart (ta_pathEnd t));
          pathEnd = length p3;
          pathAfterLastSlash = last_slash p3 portEnd pathEnd;
          p4 = p3 @ appendEscapingBadChars (segment url (ta_pathEnd t) (ta_queryEnd t));
          queryEnd = length p4;
          p5 = p4 @ (if ta_fragmentEnd t \<noteq> ta_queryEnd t
                     then ch CHR ''#'' #
                          appendEscapingBadChars (segment url (ta_fragmentStart t) (ta_fragmentEnd t))
                     else [])
      in (p5, \<lparr>m_string = [], m_isValid = True, m_protocolInHTTPFamily = protocolInHTTPFamily,
               m_schemeEnd = schemeEnd, m_userStart = userStart, m_userEnd = userEnd,
               m_passwordEnd = passwordEnd, m_hostEnd = hostEnd, m_portEnd = portEnd,
               m_pathAfterLastSlash = pathAfterLastSlash, m_pathEnd = pathEnd,
               m_queryEnd = queryEnd, m_fragmentEnd = length p5\<rparr>))"

section \<open>\<open>KURL::parse\<close>\<close>

definition in_http_family :: "byte list \<Rightarrow> bool" where
  "in_http_family url \<longleftrightarrow>
     matchLetter (at url 0) (ch CHR ''h'') \<and> matchLetter (at url 1) (ch CHR ''t'')
     \<and> matchLetter (at url 2) (ch CHR ''t'') \<and> matchLetter (at url 3) (ch CHR ''p'')
     \<and> (at url 4 = ch CHR '':'' \<or> (matchLetter (at url 4) (ch CHR ''s'') \<and> at url 5 = ch CHR '':''))"

definition is_file :: "byte list \<Rightarrow> nat \<Rightarrow> bool" where
  "is_file url schemeEnd \<longleftrightarrow> schemeEnd = 4
     \<and> matchLetter (at url 0) (ch CHR ''f'') \<and> matchLetter (at url 1) (ch CHR ''i'')
     \<and> matchLetter (at url 2) (ch CHR ''l'') \<and> matchLetter (at url 3) (ch CHR ''e'')"

text \<open>The output buffer and the offsets, or None where the parser rejects the URL.\<close>

definition parse_ranges :: "byte list \<Rightarrow> (byte list \<times> KURL) option" where
  "parse_ranges url =
     (if url = [] then None
      else if \<not> isSchemeFirstChar (at url 0) then None
      else let schemeEnd = scan_while isSchemeChar url 0
           in if at url schemeEnd \<noteq> ch CHR '':'' then None
              else case scan_authority url schemeEnd (in_http_family url) (is_file url schemeEnd) of
                     None \<Rightarrow> None
                   | Some a \<Rightarrow>
                      Some (assemble url schemeEnd (in_http_family url) (is_file url schemeEnd) a
                              (scan_tail url (au_portEnd a))))"

text \<open>
  \<open>url\<close> has no NUL. \<open>originalString\<close> is kept as the string of the URL when it has the length
  of the output and the output is what was read.
\<close>

definition parse :: "byte list \<Rightarrow> ustring option \<Rightarrow> KURL" where
  "parse url originalString =
     (case parse_ranges url of
        None \<Rightarrow> invalidate (case originalString of Some s \<Rightarrow> s | None \<Rightarrow> latin1 url)
      | Some (buffer, u) \<Rightarrow>
         u\<lparr>m_string :=
             (case originalString of
                Some s \<Rightarrow> if length s = m_fragmentEnd u \<and> buffer = take (m_fragmentEnd u) url
                          then s else latin1 buffer
              | None \<Rightarrow> latin1 buffer)\<rparr>)"

definition parse_String :: "ustring \<Rightarrow> KURL" where
  "parse_String s = parse (cstr (copyASCII s)) (Some s)"

end
