(* ===== verification/KURLDots.thy ===== *)
theory KURLDots
  imports KURLParse
begin

text \<open>
  Dot segments. The reference is a stack machine on the segments of a path: "." is dropped,
  ".." pops the empty segments on top of the stack and then one more, anything else is
  pushed. \<open>copyPathRemovingDots\<close>, which works in place on characters, computes it.
\<close>

section \<open>The reference\<close>

definition slash :: byte where
  "slash = ch CHR ''/''"

definition dot :: byte where
  "dot = ch CHR ''.''"

lemma slash_neq_dot [simp]: "slash \<noteq> dot" "dot \<noteq> slash"
  by (simp_all add: slash_def dot_def)

lemma dropWhile_Cons_shrinks: "dropWhile p r = x # r' \<Longrightarrow> length r' < length r"
  by (metis Suc_le_lessD length_Cons length_dropWhile_le)

function segs :: "byte list \<Rightarrow> byte list list" where
  "segs r = takeWhile (\<lambda>c. c \<noteq> slash) r #
     (case dropWhile (\<lambda>c. c \<noteq> slash) r of [] \<Rightarrow> [] | _ # r' \<Rightarrow> segs r')"
  by pat_completeness auto
termination
  by (relation "measure length") (auto dest: dropWhile_Cons_shrinks)

declare segs.simps [simp del]

lemma segs_last: "dropWhile (\<lambda>c. c \<noteq> slash) r = [] \<Longrightarrow> segs r = [takeWhile (\<lambda>c. c \<noteq> slash) r]"
  by (subst segs.simps) (simp only: list.case)

definition render_stack :: "byte list list \<Rightarrow> byte list" where
  "render_stack st = slash # concat (map (\<lambda>s. s @ [slash]) (rev st))"

definition pop_segment :: "byte list list \<Rightarrow> byte list list" where
  "pop_segment st = tl (dropWhile (\<lambda>s. s = []) st)"

fun remove_dot_segments :: "byte list list \<Rightarrow> byte list list \<Rightarrow> byte list" where
  "remove_dot_segments st [] = render_stack st"
| "remove_dot_segments st [s] =
     (if s = [dot] then render_stack st
      else if s = [dot, dot] then render_stack (pop_segment st)
      else render_stack st @ s)"
| "remove_dot_segments st (s # t # ss) =
     remove_dot_segments
       (if s = [dot] then st else if s = [dot, dot] then pop_segment st else s # st) (t # ss)"

section \<open>The loop on the rest of the path\<close>

function dots_list :: "byte list \<Rightarrow> byte list \<Rightarrow> byte list" where
  "dots_list r dst =
     (case r of
        [] \<Rightarrow> dst
      | c # cs \<Rightarrow>
         if c = dot \<and> dst \<noteq> [] \<and> last dst = slash \<and> (cs = [] \<or> hd cs = slash)
         then dots_list (tl cs) dst
         else if c = dot \<and> dst \<noteq> [] \<and> last dst = slash \<and> cs \<noteq> [] \<and> hd cs = dot
                \<and> (tl cs = [] \<or> hd (tl cs) = slash)
         then dots_list (tl (tl cs)) (rewind_segment dst)
         else dots_list cs (dst @ [c]))"
  by pat_completeness auto
termination
  by (relation "measure (\<lambda>(r, _). length r)") auto

declare dots_list.simps [simp del]

lemma segment_step:
  "pos < e \<Longrightarrow> e \<le> length src \<Longrightarrow> segment src pos e = src ! pos # segment src (pos + 1) e"
  unfolding segment_def
  by (metis Cons_nth_drop_Suc Suc_diff_Suc Suc_eq_plus1 diff_Suc_eq_diff_pred
      diff_Suc_Suc less_le_trans take_Suc_Cons)

lemma segment_empty [simp]: "e \<le> pos \<Longrightarrow> segment src pos e = []"
  by (simp add: segment_def)

lemmas dots_loop_step = dots_loop.simps [folded slash_def dot_def]
lemmas dots_loop_induct = dots_loop.induct [folded slash_def dot_def]

lemma dots_loop_list:
  "e \<le> length src \<Longrightarrow> dots_loop src e pos dst = dots_list (segment src pos e) dst"
proof (induction src e pos dst rule: dots_loop_induct)
  case (1 src e pos dst)
  show ?case
  proof (cases "pos < e")
    case False
    then show ?thesis by (simp add: dots_loop_step [of src e pos] dots_list.simps)
  next
    case pos: True
    define cs where "cs = segment src (pos + 1) e"
    have seg: "segment src pos e = src ! pos # cs" and at0: "at src pos = src ! pos"
      using pos 1 by (simp_all add: segment_step cs_def)
    have cs1: "(at src (pos + 1) = slash \<or> pos + 1 = e) = (cs = [] \<or> hd cs = slash)"
      using pos 1 unfolding cs_def by (cases "pos + 1 < e") (auto simp: segment_step)
    have tl1: "segment src (pos + 2) e = tl cs"
      using pos 1 unfolding cs_def by (cases "pos + 1 < e") (auto simp: segment_step)
    have tl2: "segment src (pos + 3) e = tl (tl cs)"
      unfolding tl1 [symmetric] using pos 1 by (cases "pos + 2 < e") (auto simp: segment_step numeral_3_eq_3)
    have cs2: "\<not> (cs = [] \<or> hd cs = slash) \<Longrightarrow>
       (at src (pos + 1) = dot \<and> (at src (pos + 2) = slash \<or> pos + 2 = e))
       = (cs \<noteq> [] \<and> hd cs = dot \<and> (tl cs = [] \<or> hd (tl cs) = slash))"
      unfolding tl1 [symmetric] using pos 1 unfolding cs_def
      by (cases "pos + 1 < e"; cases "pos + 2 < e") (auto simp: segment_step)
    define B where "B \<longleftrightarrow> src ! pos = dot \<and> dst \<noteq> [] \<and> last dst = slash"
    define X where "X \<longleftrightarrow> cs = [] \<or> hd cs = slash"
    define Y where "Y \<longleftrightarrow> cs \<noteq> [] \<and> hd cs = dot \<and> (tl cs = [] \<or> hd (tl cs) = slash)"
    have b1: "(at src pos = dot \<and> dst \<noteq> [] \<and> last dst = slash \<and> (at src (pos + 1) = slash \<or> pos + 1 = e)) = (B \<and> X)"
      unfolding cs1 at0 B_def X_def by blast
    have b2: "\<not> (B \<and> X) \<Longrightarrow>
        (at src pos = dot \<and> dst \<noteq> [] \<and> last dst = slash \<and> at src (pos + 1) = dot
         \<and> (at src (pos + 2) = slash \<or> pos + 2 = e)) = (B \<and> Y)"
      using cs2 unfolding at0 B_def X_def Y_def by blast
    have loop: "dots_loop src e pos dst =
        (if B \<and> X then dots_loop src e (pos + 2) dst
         else if B \<and> Y then dots_loop src e (pos + 3) (rewind_segment dst)
         else dots_loop src e (pos + 1) (dst @ [src ! pos]))"
      using b2 by (subst dots_loop_step, unfold if_P [OF pos] b1) (cases "B \<and> X", simp_all only: if_True if_False at0 refl simp_thms)
    have list: "dots_list (segment src pos e) dst =
        (if B \<and> X then dots_list (tl cs) dst
         else if B \<and> Y then dots_list (tl (tl cs)) (rewind_segment dst)
         else dots_list cs (dst @ [src ! pos]))"
      by (subst dots_list.simps) (auto simp add: seg B_def X_def Y_def)
    show ?thesis
    proof (cases "B \<and> X")
      case True
      have "dots_loop src e (pos + 2) dst = dots_list (tl cs) dst"
        using "1.IH"(1) [OF pos _ "1.prems"] True unfolding b1 tl1 by blast
      then show ?thesis unfolding loop list using True by simp
    next
      case nX: False
      show ?thesis
      proof (cases "B \<and> Y")
        case True
        have "dots_loop src e (pos + 3) (rewind_segment dst) = dots_list (tl (tl cs)) (rewind_segment dst)"
          using "1.IH"(2) [OF pos _ _ "1.prems"] True nX b2 [OF nX] unfolding b1 tl2 by blast
        then show ?thesis unfolding loop list using nX True by simp
      next
        case False
        have "dots_loop src e (pos + 1) (dst @ [at src pos]) = dots_list cs (dst @ [src ! pos])"
          using "1.IH"(3) [OF pos, unfolded b1 b2 [OF nX], OF nX False "1.prems"]
          unfolding cs_def [symmetric] at0 .
        then show ?thesis unfolding loop list at0 if_not_P [OF nX] if_not_P [OF False] .
      qed
    qed
  qed
qed

section \<open>Rewinding\<close>

lemmas rewind_segment_eq = rewind_segment_def [folded slash_def]

lemma rewind_while_snoc:
  "rewind_while p keep (xs @ [x]) =
     (if length xs \<ge> keep \<and> p x then rewind_while p keep xs else xs @ [x])"
  by (subst rewind_while.simps) auto

lemma rewind_while_keep [simp]: "length xs \<le> keep \<Longrightarrow> rewind_while p keep xs = xs"
  by (subst rewind_while.simps) auto

lemma rewind_while_append:
  "(\<And>x. x \<in> set ys \<Longrightarrow> p x) \<Longrightarrow> keep \<le> length xs \<Longrightarrow>
   rewind_while p keep (xs @ ys) = rewind_while p keep xs"
proof (induction ys rule: rev_induct)
  case (snoc y ys)
  then show ?case by (simp add: rewind_while_snoc flip: append_assoc)
qed simp

lemma render_Cons: "render_stack (s # st) = render_stack st @ s @ [slash]"
  by (simp add: render_stack_def)

lemma render_Nil: "render_stack [] = [slash]"
  by (simp add: render_stack_def)

lemma render_snoc: "\<exists>xs. render_stack st = xs @ [slash]"
  by (cases st) (simp_all add: render_Nil render_Cons)

lemma length_render: "length (render_stack st) \<ge> 1"
  by (simp add: render_stack_def)

text \<open>The first loop removes the empty segments on top.\<close>

lemma rewind_slashes:
  "rewind_while (\<lambda>c. c = slash) 1 (butlast (render_stack st)) =
     (case dropWhile (\<lambda>s. s = []) st of [] \<Rightarrow> if st = [] then [] else [slash]
      | s # st' \<Rightarrow> render_stack st' @ s)"
  if "\<forall>s\<in>set st. slash \<notin> set s"
  using that
proof (induction st)
  case Nil
  then show ?case by (simp add: render_Nil)
next
  case (Cons s st)
  show ?case
  proof (cases "s = []")
    case True
    obtain xs where xs: "render_stack st = xs @ [slash]" using render_snoc by blast
    then have eq: "butlast (render_stack (s # st)) = butlast (render_stack st) @ [slash]"
      using True by (simp add: render_Cons butlast_append)
    show ?thesis
    proof (cases st)
      case Nil
      with True show ?thesis by (simp add: render_Cons render_Nil)
    next
      case (Cons t ts)
      then have "butlast (render_stack st) = render_stack ts @ t"
        by (simp add: render_Cons butlast_append)
      then have "1 \<le> length (butlast (render_stack st))"
        using length_render [of ts] by simp
      then have "rewind_while (\<lambda>c. c = slash) 1 (butlast (render_stack (s # st)))
          = rewind_while (\<lambda>c. c = slash) 1 (butlast (render_stack st))"
        unfolding eq by (simp add: rewind_while_snoc)
      with Cons.IH Cons.prems True Cons show ?thesis by simp
    qed
  next
    case False
    then obtain xs x where s: "s = xs @ [x]" by (metis rev_exhaust)
    with Cons.prems have "x \<noteq> slash" by auto
    with s show ?thesis
      by (simp add: render_Cons rewind_while_snoc flip: append_assoc)
  qed
qed

lemma rewind_render:
  "\<forall>s\<in>set st. slash \<notin> set s \<Longrightarrow> rewind_segment (render_stack st) = render_stack (pop_segment st)"
proof -
  assume st: "\<forall>s\<in>set st. slash \<notin> set s"
  show ?thesis
  proof (cases st)
    case Nil
    then show ?thesis
      by (simp add: rewind_segment_eq render_Nil pop_segment_def rewind_while_snoc [of _ _ "[]", simplified])
  next
    case (Cons a as)
    then have len: "length (render_stack st) > 1"
      using length_render [of as] by (auto simp: render_Cons)
    have r: "rewind_segment (render_stack st) =
        rewind_while (\<lambda>c. c \<noteq> slash) 0
          (case dropWhile (\<lambda>s. s = []) st of [] \<Rightarrow> [slash] | s # st' \<Rightarrow> render_stack st' @ s)"
      using rewind_slashes [OF st] Cons len unfolding rewind_segment_eq by simp
    show ?thesis
    proof (cases "dropWhile (\<lambda>s. s = []) st")
      case Nil
      show ?thesis
        unfolding r pop_segment_def Nil
        by (simp add: render_Nil rewind_while_snoc [of _ _ "[]", simplified])
    next
      case (Cons t ts)
      then have "t \<in> set st" by (metis list.set_intros(1) set_dropWhileD)
      with st have t: "\<And>x. x \<in> set t \<Longrightarrow> x \<noteq> slash" by auto
      obtain xs where xs: "render_stack ts = xs @ [slash]" using render_snoc by blast
      have "rewind_while (\<lambda>c. c \<noteq> slash) 0 (render_stack ts @ t) = render_stack ts"
        using t by (subst rewind_while_append) (auto simp: xs rewind_while_snoc)
      with Cons show ?thesis by (simp add: r pop_segment_def)
    qed
  qed
qed

section \<open>The loop computes the reference\<close>

lemma dots_list_Nil [simp]: "dots_list [] dst = dst"
  by (simp add: dots_list.simps)

lemma dots_list_slash [simp]: "dots_list (slash # r) dst = dots_list r (dst @ [slash])"
  by (subst dots_list.simps) simp

lemma dots_list_copy:
  "slash \<notin> set w \<Longrightarrow> dst \<noteq> [] \<Longrightarrow> last dst \<noteq> slash \<Longrightarrow> dots_list (w @ r) dst = dots_list r (dst @ w)"
proof (induction w arbitrary: dst)
  case (Cons c w)
  have "dots_list ((c # w) @ r) dst = dots_list (w @ r) (dst @ [c])"
    using Cons.prems by (subst dots_list.simps) simp
  also have "\<dots> = dots_list r ((dst @ [c]) @ w)"
    using Cons.prems by (intro Cons.IH) auto
  finally show ?case by simp
qed simp

lemma dots_list_segment:
  assumes w: "slash \<notin> set w" "w \<noteq> [dot]" "w \<noteq> [dot, dot]" and r: "r = [] \<or> hd r = slash"
    and dst: "dst \<noteq> []"
  shows "dots_list (w @ r) dst = dots_list r (dst @ w)"
proof (cases w)
  case (Cons c cs)
  have "dots_list (w @ r) dst = dots_list (cs @ r) (dst @ [c])"
    using w r dst Cons
    by (subst dots_list.simps) (cases cs; cases "tl cs"; auto)
  also have "\<dots> = dots_list r ((dst @ [c]) @ cs)"
    using w Cons by (intro dots_list_copy) auto
  finally show ?thesis using Cons by simp
qed simp

lemma dots_list_dot:
  "r = [] \<or> hd r = slash \<Longrightarrow> dst \<noteq> [] \<Longrightarrow> last dst = slash \<Longrightarrow>
   dots_list (dot # r) dst = dots_list (tl r) dst"
  by (subst dots_list.simps) simp

lemma dots_list_dotdot:
  "r = [] \<or> hd r = slash \<Longrightarrow> dst \<noteq> [] \<Longrightarrow> last dst = slash \<Longrightarrow>
   dots_list (dot # dot # r) dst = dots_list (tl r) (rewind_segment dst)"
  by (subst dots_list.simps) simp

lemma pop_segment_subset: "set (pop_segment st) \<subseteq> set st"
  unfolding pop_segment_def by (metis list.set_sel(2) set_dropWhileD subsetI tl_Nil)

lemma render_last: "render_stack st \<noteq> []" "last (render_stack st) = slash"
  using render_snoc [of st] by auto

lemma dots_list_reference:
  "\<forall>s\<in>set st. slash \<notin> set s \<Longrightarrow> dots_list r (render_stack st) = remove_dot_segments st (segs r)"
proof (induction "length r" arbitrary: r st rule: less_induct)
  case less
  define w where "w = takeWhile (\<lambda>c. c \<noteq> slash) r"
  define d where "d = dropWhile (\<lambda>c. c \<noteq> slash) r"
  have r: "r = w @ d" by (simp add: w_def d_def)
  have w: "slash \<notin> set w" unfolding w_def by (auto dest: set_takeWhileD)
  have d: "d = [] \<or> hd d = slash"
    unfolding d_def using hd_dropWhile by blast
  define st' where "st' = (if w = [dot] then st else if w = [dot, dot] then pop_segment st else w # st)"
  have st': "\<forall>s\<in>set st'. slash \<notin> set s"
    using less.prems w pop_segment_subset [of st] by (auto simp: st'_def)
  note rl = render_last [of st]
  show ?case
  proof (cases d)
    case Nil
    then have segs: "segs r = [w]"
      unfolding d_def w_def by (rule segs_last)
    consider "w = [dot]" | "w = [dot, dot]" | "w \<noteq> [dot]" "w \<noteq> [dot, dot]" by blast
    then have "dots_list w (render_stack st) = remove_dot_segments st [w]"
    proof cases
      case 1
      then show ?thesis using dots_list_dot [of "[]"] rl by simp
    next
      case 2
      then show ?thesis using dots_list_dotdot [of "[]"] rl rewind_render [OF less.prems] by simp
    next
      case 3
      then show ?thesis using dots_list_segment [OF w 3, of "[]"] rl by simp
    qed
    then show ?thesis unfolding segs using r Nil by simp
  next
    case (Cons x r')
    with d have d': "d = slash # r'" by simp
    have segs: "segs r = w # segs r'"
      using d' by (subst segs.simps) (simp add: w_def d_def)
    obtain t ts where t: "segs r' = t # ts" by (metis segs.elims)
    have "dots_list r (render_stack st) = dots_list r' (render_stack st')"
    proof -
      consider "w = [dot]" | "w = [dot, dot]" | "w \<noteq> [dot]" "w \<noteq> [dot, dot]" by blast
      then show ?thesis
      proof cases
        case 1
        then show ?thesis using dots_list_dot [of d] rl d by (simp add: r d' st'_def)
      next
        case 2
        then show ?thesis using dots_list_dotdot [of d] rl d rewind_render [OF less.prems]
          by (simp add: r d' st'_def)
      next
        case 3
        then show ?thesis using dots_list_segment [OF w 3 d] rl
          by (simp add: r d' st'_def render_Cons)
      qed
    qed
    also have "\<dots> = remove_dot_segments st' (segs r')"
      using r d' st' by (intro less.hyps) simp_all
    also have "\<dots> = remove_dot_segments st (segs r)"
      by (simp add: segs t st'_def)
    finally show ?thesis .
  qed
qed

lemma copyPathRemovingDots_segs:
  "a < b \<Longrightarrow> b \<le> length url \<Longrightarrow> at url a = ch CHR ''/'' \<Longrightarrow>
   copyPathRemovingDots url a b = remove_dot_segments [] (segs (segment url (a + 1) b))"
proof -
  assume *: "a < b" "b \<le> length url" "at url a = ch CHR ''/''"
  then have "copyPathRemovingDots url a b = dots_list (segment url (a + 1) b) [slash]"
    by (simp add: copyPathRemovingDots_def dots_loop_list slash_def)
  then show ?thesis using dots_list_reference [of "[]"] by (simp add: render_Nil)
qed

text \<open>C11: Copying a path while removing its dot segments in place computes the stack machine
  on the segments of the path, for every range that begins with a slash: the in-place
  rewinding never eats the leading slash and never leaves a half segment.\<close>

theorem copyPathRemovingDots_reference:
  assumes "a < b" and "b \<le> length url" and "at url a = ch CHR ''/''"
  shows "copyPathRemovingDots url a b = remove_dot_segments [] (segs (segment url (a + 1) b))"
  using assms by (rule copyPathRemovingDots_segs)

theorem copyPathRemovingDots_reference_witness:
  "copyPathRemovingDots (lit ''http://h/a//../b/.'') 8 18 = lit ''/b/''"
proof -
  have "copyPathRemovingDots (lit ''http://h/a//../b/.'') 8 18
      = remove_dot_segments [] (segs (segment (lit ''http://h/a//../b/.'') (8 + 1) 18))"
    by (rule copyPathRemovingDots_reference) (simp_all add: at_def)
  also have "\<dots> = lit ''/b/''" by code_simp
  finally show ?thesis .
qed

section \<open>What is left has no dot segment\<close>

lemma segs_append: "slash \<notin> set w \<Longrightarrow> segs (w @ slash # r) = w # segs r"
proof -
  assume "slash \<notin> set w"
  then have "takeWhile (\<lambda>c. c \<noteq> slash) (w @ slash # r) = w"
      "dropWhile (\<lambda>c. c \<noteq> slash) (w @ slash # r) = slash # r"
    by (induction w) auto
  then show ?thesis by (subst segs.simps) simp
qed

lemma segs_single: "slash \<notin> set w \<Longrightarrow> segs w = [w]"
proof -
  assume "slash \<notin> set w"
  then have "takeWhile (\<lambda>c. c \<noteq> slash) w = w" "dropWhile (\<lambda>c. c \<noteq> slash) w = []"
    by (induction w) auto
  then show ?thesis using segs_last by metis
qed

lemma segs_no_slash: "s \<in> set (segs r) \<Longrightarrow> slash \<notin> set s"
proof (induction "length r" arbitrary: r rule: less_induct)
  case less
  show ?case
  proof (cases "dropWhile (\<lambda>c. c \<noteq> slash) r")
    case Nil
    then have "segs r = [takeWhile (\<lambda>c. c \<noteq> slash) r]" by (rule segs_last)
    with less.prems show ?thesis by (auto dest: set_takeWhileD)
  next
    case (Cons x r')
    then have "segs r = takeWhile (\<lambda>c. c \<noteq> slash) r # segs r'" by (subst segs.simps) simp
    with less.prems less.hyps [OF dropWhile_Cons_shrinks [OF Cons]] show ?thesis
      by (auto dest: set_takeWhileD)
  qed
qed

lemma segs_render:
  "\<forall>s\<in>set st. slash \<notin> set s \<Longrightarrow> slash \<notin> set w \<Longrightarrow> segs (tl (render_stack st @ w)) = rev st @ [w]"
proof (induction st arbitrary: w)
  case Nil
  then show ?case by (simp add: render_Nil segs_single)
next
  case (Cons s st)
  have "segs (concat (map (\<lambda>s. s @ [slash]) (rev st)) @ s @ [slash] @ w) = rev st @ [s, w]"
    if "\<forall>s\<in>set st. slash \<notin> set s" "slash \<notin> set s" "slash \<notin> set w"
    using that
  proof (induction st rule: rev_induct)
    case Nil
    then show ?case by (simp add: segs_append segs_single)
  next
    case (snoc t ts)
    then show ?case by (simp add: segs_append)
  qed
  with Cons.prems show ?case by (simp add: render_stack_def)
qed

definition dot_segment :: "byte list \<Rightarrow> bool" where
  "dot_segment s \<longleftrightarrow> s = [dot] \<or> s = [dot, dot]"

lemma remove_dot_segments_clean:
  "\<forall>s\<in>set st. slash \<notin> set s \<and> \<not> dot_segment s \<Longrightarrow> \<forall>s\<in>set ss. slash \<notin> set s \<Longrightarrow>
   \<forall>s\<in>set (segs (tl (remove_dot_segments st ss))). \<not> dot_segment s"
proof (induction st ss rule: remove_dot_segments.induct)
  case (1 st)
  then have "segs (tl (render_stack st)) = rev st @ [[]]" using segs_render [of st "[]"] by simp
  with 1 show ?case by (simp add: dot_segment_def)
next
  case (2 st s)
  have pop: "\<forall>x\<in>set (pop_segment st). slash \<notin> set x \<and> \<not> dot_segment x"
    using 2 pop_segment_subset [of st] by blast
  have st: "\<forall>x\<in>set st. slash \<notin> set x" "\<forall>x\<in>set st. \<not> dot_segment x" and s: "slash \<notin> set s"
    using 2 by auto
  have nil: "\<not> dot_segment []" by (simp add: dot_segment_def)
  consider "s = [dot]" | "s \<noteq> [dot]" "s = [dot, dot]" | "\<not> dot_segment s"
    by (auto simp: dot_segment_def)
  then show ?case
  proof cases
    case 1
    then have "segs (tl (remove_dot_segments st [s])) = rev st @ [[]]"
      using segs_render [OF st(1), of "[]"] by simp
    with st(2) nil show ?thesis by (auto simp del: remove_dot_segments.simps)
  next
    case 2
    then have "segs (tl (remove_dot_segments st [s])) = rev (pop_segment st) @ [[]]"
      using pop segs_render [of "pop_segment st" "[]"] by simp
    with pop nil show ?thesis by (auto simp del: remove_dot_segments.simps)
  next
    case 3
    then have "remove_dot_segments st [s] = render_stack st @ s" by (simp add: dot_segment_def)
    then have "segs (tl (remove_dot_segments st [s])) = rev st @ [s]"
      using segs_render [OF st(1) s] by simp
    with 3 st(2) show ?thesis by (auto simp del: remove_dot_segments.simps)
  qed
next
  case (3 st s t ss)
  define st' where "st' = (if s = [dot] then st else if s = [dot, dot] then pop_segment st else s # st)"
  have "\<forall>x\<in>set st'. slash \<notin> set x \<and> \<not> dot_segment x"
    using 3(2,3) pop_segment_subset [of st] unfolding st'_def by (auto simp: dot_segment_def)
  moreover have "\<forall>x\<in>set (t # ss). slash \<notin> set x" using 3(3) by simp
  ultimately have "\<forall>x\<in>set (segs (tl (remove_dot_segments st' (t # ss)))). \<not> dot_segment x"
    unfolding st'_def by (rule "3.IH")
  moreover have "remove_dot_segments st (s # t # ss) = remove_dot_segments st' (t # ss)"
    by (simp add: st'_def)
  ultimately show ?case by (simp only:)
qed

text \<open>No segment of a copied path is "." or "..".\<close>

theorem copyPathRemovingDots_clean:
  assumes "b \<le> length url" and "a = b \<or> at url a = ch CHR ''/''" and "a \<le> b"
  shows "\<forall>s\<in>set (segs (tl (copyPathRemovingDots url a b))). \<not> dot_segment s"
proof (cases "a = b")
  case True
  then show ?thesis by (simp add: copyPathRemovingDots_def segs_single dot_segment_def)
next
  case False
  with assms have "copyPathRemovingDots url a b = remove_dot_segments [] (segs (segment url (a + 1) b))"
    by (intro copyPathRemovingDots_segs) auto
  then show ?thesis
    using remove_dot_segments_clean [of "[]" "segs (segment url (a + 1) b)"] segs_no_slash by auto
qed

theorem copyPathRemovingDots_clean_witness:
  "list_all (\<lambda>s. \<not> dot_segment s) (segs (tl (copyPathRemovingDots (lit ''/../a/./..'') 0 10)))"
  unfolding list_all_iff by (rule copyPathRemovingDots_clean) simp_all

end
