(* ===== verification/KURLRender.thy ===== *)
theory KURLRender
  imports KURLDots
begin

text \<open>
  The canonical form of a URL: its parts, the text they are written as and the offsets a
  \<open>KURL\<close> keeps for that text. The main lemma is that the parser returns exactly the text
  and the offsets of well-formed parts.
\<close>

section \<open>Scanning a text in pieces\<close>

definition hd0 :: "byte list \<Rightarrow> byte" where
  "hd0 r = (case r of [] \<Rightarrow> 0 | c # _ \<Rightarrow> c)"

lemma hd0_simps [simp]: "hd0 [] = 0" "hd0 (c # r) = c"
  by (simp_all add: hd0_def)

lemma hd0_append: "hd0 (a @ b) = (if a = [] then hd0 b else hd a)"
  by (cases a) simp_all

lemma at_hd0: "i = length pre \<Longrightarrow> at (pre @ r) i = hd0 r"
  by (cases r) (simp_all add: at_def nth_append)

lemma at_hd0_Suc: "i = Suc (length pre) \<Longrightarrow> at (pre @ r) i = hd0 (tl r)"
  by (cases r; cases "tl r") (auto simp add: at_def nth_append)

lemma scan_pieces:
  "i = length pre \<Longrightarrow> \<forall>c\<in>set w. P c \<Longrightarrow> r = [] \<or> \<not> P (hd r) \<Longrightarrow>
   scan_while P (pre @ w @ r) i = i + length w"
proof (rule scan_while_eqI)
  assume "i = length pre" "\<forall>c\<in>set w. P c"
  then show "P ((pre @ w @ r) ! k)" if "i \<le> k" "k < i + length w" for k
    using that by (simp add: nth_append)
next
  assume "i = length pre" "r = [] \<or> \<not> P (hd r)"
  then show "i + length w = length (pre @ w @ r) \<or> \<not> P ((pre @ w @ r) ! (i + length w))"
    by (cases r) (auto simp: nth_append)
qed simp_all

lemma segment_pieces:
  "i = length pre \<Longrightarrow> j = i + length w \<Longrightarrow> segment (pre @ w @ r) i j = w"
  by (simp add: segment_def)

lemma userinfo_step:
  "i = length pre \<Longrightarrow> isUserInfoChar c \<Longrightarrow>
   userinfo_loop (pre @ c # r) i cp =
   userinfo_loop ((pre @ [c]) @ r) (Suc i) (if c = ch CHR '':'' \<and> cp = 0 then i else cp)"
  by (subst userinfo_loop.simps) simp

lemma userinfo_stop:
  "i = length pre \<Longrightarrow> r = [] \<or> \<not> isUserInfoChar (hd r) \<Longrightarrow> userinfo_loop (pre @ r) i cp = (i, cp)"
  by (subst userinfo_loop.simps) (cases r; simp)

lemma userinfo_pieces:
  "i = length pre \<Longrightarrow> \<forall>c\<in>set w. isUserInfoChar c \<Longrightarrow> cp \<noteq> 0 \<or> ch CHR '':'' \<notin> set w \<Longrightarrow>
   r = [] \<or> \<not> isUserInfoChar (hd r) \<Longrightarrow>
   userinfo_loop (pre @ w @ r) i cp = (i + length w, cp)"
proof (induction w arbitrary: i pre)
  case Nil
  then show ?case by (simp add: userinfo_stop)
next
  case (Cons c w)
  then have "userinfo_loop (pre @ (c # w) @ r) i cp = userinfo_loop ((pre @ [c]) @ w @ r) (Suc i) cp"
    by (subst append_Cons, subst userinfo_step) auto
  also have "\<dots> = (Suc i + length w, cp)"
    using Cons.prems by (intro Cons.IH) auto
  finally show ?case by simp
qed

lemma userinfo_colon:
  "i = length pre \<Longrightarrow> i \<noteq> 0 \<Longrightarrow> \<forall>c\<in>set u. isUserInfoChar c \<Longrightarrow> ch CHR '':'' \<notin> set u \<Longrightarrow>
   \<forall>c\<in>set w. isUserInfoChar c \<Longrightarrow> r = [] \<or> \<not> isUserInfoChar (hd r) \<Longrightarrow>
   userinfo_loop (pre @ u @ ch CHR '':'' # w @ r) i 0 = (i + length u + 1 + length w, i + length u)"
proof (induction u arbitrary: i pre)
  case Nil
  have "isUserInfoChar (ch CHR '':'')" by (simp add: class_iffs class_docs)
  with Nil show ?case
    using userinfo_pieces [of "Suc i" "pre @ [ch CHR '':'']" w i r]
    by (simp only: append_Nil userinfo_step) (simp add: append.assoc)
next
  case (Cons c u)
  then have "userinfo_loop (pre @ (c # u) @ ch CHR '':'' # w @ r) i 0
      = userinfo_loop ((pre @ [c]) @ u @ ch CHR '':'' # w @ r) (Suc i) 0"
    by (subst append_Cons, subst userinfo_step) auto
  also have "\<dots> = (Suc i + length u + 1 + length w, Suc i + length u)"
    using Cons.prems by (intro Cons.IH) auto
  finally show ?case by simp
qed

section \<open>Parts\<close>

record auth_parts =
  pt_user :: "byte list"
  pt_pass :: "byte list"
  pt_host :: "byte list"
  pt_port :: "byte list option"

record url_parts =
  pt_scheme :: "byte list"
  pt_auth :: "auth_parts option"
  pt_path :: "byte list"
  pt_query :: "byte list"
  pt_fragment :: "byte list option"

definition upass_text :: "auth_parts \<Rightarrow> byte list" where
  "upass_text a = pt_user a @ (if pt_pass a \<noteq> [] then ch CHR '':'' # pt_pass a else [])"

definition userinfo_text :: "auth_parts \<Rightarrow> byte list" where
  "userinfo_text a = upass_text a @ (if upass_text a \<noteq> [] then [ch CHR ''@''] else [])"

definition port_text :: "auth_parts \<Rightarrow> byte list" where
  "port_text a = (case pt_port a of None \<Rightarrow> [] | Some d \<Rightarrow> ch CHR '':'' # d)"

definition auth_text :: "auth_parts \<Rightarrow> byte list" where
  "auth_text a = userinfo_text a @ pt_host a @ port_text a"

definition fragment_text :: "url_parts \<Rightarrow> byte list" where
  "fragment_text p = (case pt_fragment p of None \<Rightarrow> [] | Some f \<Rightarrow> ch CHR ''#'' # f)"

definition before_path :: "url_parts \<Rightarrow> byte list" where
  "before_path p = pt_scheme p @ [ch CHR '':''] @
     (case pt_auth p of None \<Rightarrow> [] | Some a \<Rightarrow> lit ''//'' @ auth_text a)"

definition url_text :: "url_parts \<Rightarrow> byte list" where
  "url_text p = before_path p @ pt_path p @ pt_query p @ fragment_text p"

definition http_scheme :: "byte list \<Rightarrow> bool" where
  "http_scheme s \<longleftrightarrow> in_http_family (s @ [ch CHR '':''])"

definition file_scheme :: "byte list \<Rightarrow> bool" where
  "file_scheme s \<longleftrightarrow> is_file s (length s)"

definition url_offsets :: "url_parts \<Rightarrow> KURL" where
  "url_offsets p =
     (let se = length (pt_scheme p);
          (us, ue, pe, he) =
            (case pt_auth p of
               None \<Rightarrow> (se + 1, se + 1, se + 1, se + 1)
             | Some a \<Rightarrow> (se + 3, se + 3 + length (pt_user a), se + 3 + length (upass_text a),
                          se + 3 + length (userinfo_text a @ pt_host a)));
          po = length (before_path p);
          pa = po + length (pt_path p);
          qe = pa + length (pt_query p)
      in \<lparr>m_string = [], m_isValid = True, m_protocolInHTTPFamily = http_scheme (pt_scheme p),
          m_schemeEnd = se, m_userStart = us, m_userEnd = ue, m_passwordEnd = pe, m_hostEnd = he,
          m_portEnd = po, m_pathAfterLastSlash = last_slash (before_path p @ pt_path p) po pa,
          m_pathEnd = pa, m_queryEnd = qe, m_fragmentEnd = length (url_text p)\<rparr>)"

text \<open>The \<open>KURL\<close> the parts stand for.\<close>

definition url_of :: "url_parts \<Rightarrow> KURL" where
  "url_of p = (url_offsets p)\<lparr>m_string := latin1 (url_text p)\<rparr>"

section \<open>Well-formed parts\<close>

definition scheme_ok :: "byte list \<Rightarrow> bool" where
  "scheme_ok s \<longleftrightarrow> s \<noteq> [] \<and> isSchemeFirstChar (hd s) \<and> (\<forall>c\<in>set s. isSchemeChar c)"

definition host_ok :: "byte list \<Rightarrow> bool" where
  "host_ok h \<longleftrightarrow> (\<forall>c\<in>set h. isHostnameChar c)
     \<or> (length h \<ge> 2 \<and> hd h = ch CHR ''['' \<and> last h = ch CHR '']''
        \<and> (\<forall>c\<in>set (butlast (tl h)). isIPv6Char c))"

definition auth_ok :: "auth_parts \<Rightarrow> bool" where
  "auth_ok a \<longleftrightarrow>
     (\<forall>c\<in>set (pt_user a). isUserInfoChar c \<and> c \<noteq> ch CHR '':'')
     \<and> (\<forall>c\<in>set (pt_pass a). isUserInfoChar c)
     \<and> host_ok (pt_host a)
     \<and> (case pt_port a of None \<Rightarrow> True | Some d \<Rightarrow> \<forall>c\<in>set d. isASCIIDigit c)"

text \<open>Characters the escaping leaves alone.\<close>

definition clean_char :: "byte \<Rightarrow> bool" where
  "clean_char c \<longleftrightarrow> c \<noteq> 0 \<and> (\<not> isBadChar c \<or> c = ch CHR ''%'' \<or> c = ch CHR ''?'')"

definition tail_ok :: "url_parts \<Rightarrow> bool" where
  "tail_ok p \<longleftrightarrow>
     (\<forall>c\<in>set (pt_path p). clean_char c \<and> c \<noteq> ch CHR ''?'')
     \<and> (pt_query p = [] \<or> hd (pt_query p) = ch CHR ''?'')
     \<and> (\<forall>c\<in>set (pt_query p). clean_char c)
     \<and> (case pt_fragment p of None \<Rightarrow> True | Some f \<Rightarrow> \<forall>c\<in>set f. clean_char c)"

definition auth_nonempty :: "auth_parts \<Rightarrow> bool" where
  "auth_nonempty a \<longleftrightarrow> upass_text a \<noteq> [] \<or> pt_host a \<noteq> [] \<or> (\<exists>d. pt_port a = Some d \<and> d \<noteq> [])"

definition local_text :: "byte list \<Rightarrow> bool" where
  "local_text t \<longleftrightarrow> is_localhost t 0 (length t)"

text \<open>
  Parts whose text reads back as the same parts: a scheme other than "file" with a
  non-empty authority, or "file" with a path and an authority that is not the local host.
\<close>

definition parts_ok :: "url_parts \<Rightarrow> bool" where
  "parts_ok p \<longleftrightarrow> scheme_ok (pt_scheme p) \<and> tail_ok p
     \<and> (\<exists>a. pt_auth p = Some a \<and> auth_ok a
           \<and> (if file_scheme (pt_scheme p) then pt_path p \<noteq> [] \<and> \<not> local_text (auth_text a)
               else auth_nonempty a))
     \<and> (pt_path p \<noteq> [] \<longrightarrow> hd (pt_path p) = slash)
     \<and> (http_scheme (pt_scheme p) \<longrightarrow> pt_path p \<noteq> [])
     \<and> (\<forall>s\<in>set (segs (tl (pt_path p))). \<not> dot_segment s)"

section \<open>Reading the parts back\<close>

lemma scheme_no_colon: "scheme_ok s \<Longrightarrow> ch CHR '':'' \<notin> set s"
  by (auto simp: scheme_ok_def class_iffs class_docs)

lemma colon_not_scheme: "\<not> isSchemeChar (ch CHR '':'')"
  by (simp add: class_iffs class_docs)

lemma scan_scheme: "scheme_ok s \<Longrightarrow> scan_while isSchemeChar (s @ ch CHR '':'' # r) 0 = length s"
  using scan_pieces [of 0 "[]" s isSchemeChar "ch CHR '':'' # r"] colon_not_scheme
  by (simp add: scheme_ok_def)

text \<open>The letters of a scheme are read up to its colon only.\<close>

lemma not_letter_colon:
  "\<not> matchLetter 58 104" "\<not> matchLetter 58 116" "\<not> matchLetter 58 112" "\<not> matchLetter 58 115"
  by (simp_all add: matchLetter_def)

lemma http_pieces: "ch CHR '':'' \<notin> set s \<Longrightarrow> in_http_family (s @ ch CHR '':'' # r) = http_scheme s"
proof -
  assume s: "ch CHR '':'' \<notin> set s"
  consider "s = []" | a where "s = [a]" | a b where "s = [a, b]" | a b c where "s = [a, b, c]"
    | a b c d where "s = [a, b, c, d]" | a b c d e where "s = [a, b, c, d, e]"
    | a b c d e f t where "s = a # b # c # d # e # f # t"
    by (metis list.exhaust)
  then show ?thesis
    using s by cases (auto simp: http_scheme_def in_http_family_def at_def not_letter_colon nth_Cons' numeral_eq_Suc)
qed

lemma file_pieces: "is_file (s @ r) (length s) = file_scheme s"
  unfolding file_scheme_def is_file_def by (auto simp: at_def nth_append)

lemma hostname_is_userinfo: "isHostnameChar c \<Longrightarrow> isUserInfoChar c"
  by (auto simp: class_iffs class_docs)

lemma digit_is_userinfo: "isASCIIDigit c \<Longrightarrow> isUserInfoChar (c :: byte)"
  by (auto simp: isASCIIDigit_def class_iffs class_docs word_le_nat_alt)

lemma end_char_not_class:
  "isPathSegmentEndChar c \<Longrightarrow> \<not> isUserInfoChar c \<and> \<not> isHostnameChar c \<and> \<not> isASCIIDigit c
     \<and> c \<noteq> ch CHR '':'' \<and> c \<noteq> ch CHR ''@'' \<and> c \<noteq> ch CHR ''[''"
  by (auto simp: PathSegmentEnd_cases isASCIIDigit_def class_iffs class_docs word_le_nat_alt)

lemma delimiter_not_class:
  "\<not> isUserInfoChar (ch CHR ''@'')" "\<not> isUserInfoChar (ch CHR ''['')"
  "\<not> isHostnameChar (ch CHR '':'')" "\<not> isHostnameChar (ch CHR ''['')" "\<not> isIPv6Char (ch CHR '']'')"
  "isUserInfoChar (ch CHR '':'')"
  by (simp_all add: class_iffs class_docs)

lemma end_hd: "isPathSegmentEndChar (hd0 r) \<Longrightarrow> r = [] \<or> isPathSegmentEndChar (hd r)"
  by (cases r) simp_all

lemma userinfo_end:
  "i = length pre \<Longrightarrow> \<forall>c\<in>set w. isUserInfoChar c \<Longrightarrow> r = [] \<or> \<not> isUserInfoChar (hd r) \<Longrightarrow>
   fst (userinfo_loop (pre @ w @ r) i cp) = i + length w"
proof (induction w arbitrary: i pre cp)
  case Nil
  then show ?case by (simp add: userinfo_stop)
next
  case (Cons c w)
  let ?cp = "if c = ch CHR '':'' \<and> cp = 0 then i else cp"
  have "userinfo_loop (pre @ (c # w) @ r) i cp = userinfo_loop ((pre @ [c]) @ w @ r) (Suc i) ?cp"
    unfolding append_Cons using Cons.prems by (intro userinfo_step) simp_all
  moreover have "fst (userinfo_loop ((pre @ [c]) @ w @ r) (Suc i) ?cp) = Suc i + length w"
    using Cons.prems by (intro Cons.IH) auto
  ultimately show ?case by simp
qed

lemma host_cases:
  assumes "host_ok h"
  obtains "\<forall>c\<in>set h. isHostnameChar c" | v where "h = ch CHR ''['' # v @ [ch CHR '']'']" "\<forall>c\<in>set v. isIPv6Char c"
proof (cases "\<forall>c\<in>set h. isHostnameChar c")
  case False
  with assms have h: "length h \<ge> 2" "hd h = ch CHR ''[''" "last h = ch CHR '']''"
      "\<forall>c\<in>set (butlast (tl h)). isIPv6Char c"
    by (auto simp: host_ok_def)
  then obtain x t where "h = x # t" "t \<noteq> []" by (cases h; cases "tl h") auto
  with h have "h = ch CHR ''['' # butlast t @ [ch CHR '']'']"
    using append_butlast_last_id [of t] by simp
  with h that(2) [of "butlast t"] \<open>h = x # t\<close> show ?thesis by simp
qed (rule that(1))

definition scanned_user :: "nat \<Rightarrow> auth_parts \<Rightarrow> nat \<times> nat \<times> nat \<times> nat" where
  "scanned_user i a =
     (if upass_text a = [] then (i, i, i, i)
      else (i + length (pt_user a), i + length (pt_user a) + (if pt_pass a = [] then 0 else 1),
            i + length (upass_text a), i + length (userinfo_text a)))"

lemma port_text_userinfo: "auth_ok a \<Longrightarrow> \<forall>c\<in>set (port_text a). isUserInfoChar c"
  using delimiter_not_class(6)
  by (auto simp del: of_char_of simp: auth_ok_def port_text_def digit_is_userinfo split: option.splits)

lemma scan_userinfo_pieces:
  assumes i: "i = length pre" "i \<noteq> 0" and a: "auth_ok a" and r: "isPathSegmentEndChar (hd0 r)"
  shows "scan_userinfo (pre @ auth_text a @ r) i = Some (scanned_user i a)"
proof -
  have u: "\<forall>c\<in>set (pt_user a). isUserInfoChar c" "ch CHR '':'' \<notin> set (pt_user a)"
    and pw: "\<forall>c\<in>set (pt_pass a). isUserInfoChar c"
    using a by (auto simp: auth_ok_def)
  have at_stop: "(ch CHR ''@'' # t) = [] \<or> \<not> isUserInfoChar (hd (ch CHR ''@'' # t))" for t
    using delimiter_not_class by simp
  let ?rest = "pt_host a @ port_text a @ r"
  consider (pass) "pt_pass a \<noteq> []" | (user) "pt_pass a = []" "pt_user a \<noteq> []" | (none) "upass_text a = []"
    unfolding upass_text_def by (cases "pt_pass a = []") auto
  then show ?thesis
  proof cases
    case pass
    then have eq: "pre @ auth_text a @ r = pre @ pt_user a @ ch CHR '':'' # pt_pass a @ ch CHR ''@'' # ?rest"
        "pre @ auth_text a @ r = (pre @ pt_user a @ ch CHR '':'' # pt_pass a) @ ch CHR ''@'' # ?rest"
      by (simp_all add: auth_text_def userinfo_text_def upass_text_def)
    have "userinfo_loop (pre @ auth_text a @ r) i 0 = (i + length (pt_user a) + 1 + length (pt_pass a), i + length (pt_user a))"
      unfolding eq(1) using userinfo_colon [OF i u pw at_stop] .
    moreover have "at (pre @ auth_text a @ r) (i + length (pt_user a) + 1 + length (pt_pass a)) = ch CHR ''@''"
      unfolding eq(2) using i by (subst at_hd0) simp_all
    ultimately show ?thesis
      using pass i by (simp add: scan_userinfo_def scanned_user_def upass_text_def userinfo_text_def)
  next
    case user
    then have eq: "pre @ auth_text a @ r = pre @ pt_user a @ ch CHR ''@'' # ?rest"
        "pre @ auth_text a @ r = (pre @ pt_user a) @ ch CHR ''@'' # ?rest"
      by (simp_all add: auth_text_def userinfo_text_def upass_text_def)
    have "userinfo_loop (pre @ auth_text a @ r) i 0 = (i + length (pt_user a), 0)"
      unfolding eq(1) using userinfo_pieces [OF i(1) u(1) _ at_stop] u(2) by simp
    moreover have "at (pre @ auth_text a @ r) (i + length (pt_user a)) = ch CHR ''@''"
      unfolding eq(2) using i by (subst at_hd0) simp_all
    ultimately show ?thesis
      using user i by (simp add: scan_userinfo_def scanned_user_def upass_text_def userinfo_text_def)
  next
    case none
    then have e: "auth_text a = pt_host a @ port_text a"
      by (simp add: auth_text_def userinfo_text_def)
    have "host_ok (pt_host a)" using a by (simp add: auth_ok_def)
    then show ?thesis
    proof (cases rule: host_cases)
      case 1
      then have w: "\<forall>c\<in>set (auth_text a). isUserInfoChar c"
        using port_text_userinfo [OF a] hostname_is_userinfo by (auto simp: e)
      have "r = [] \<or> \<not> isUserInfoChar (hd r)" using end_hd [OF r] end_char_not_class by blast
      then have "fst (userinfo_loop (pre @ auth_text a @ r) i 0) = i + length (auth_text a)"
        by (rule userinfo_end [OF i(1) w])
      then obtain cp where "userinfo_loop (pre @ auth_text a @ r) i 0 = (i + length (auth_text a), cp)"
        by (metis prod.collapse)
      moreover have "at (pre @ auth_text a @ r) (i + length (auth_text a)) = hd0 r"
        using i at_hd0 [of "i + length (auth_text a)" "pre @ auth_text a" r] by simp
      ultimately show ?thesis
        using none r end_char_not_class [OF r] by (simp add: scan_userinfo_def scanned_user_def)
    next
      case (2 v)
      then have eq: "pre @ auth_text a @ r = pre @ ch CHR ''['' # v @ ch CHR '']'' # port_text a @ r"
        by (simp add: e)
      have "userinfo_loop (pre @ auth_text a @ r) i 0 = (i, 0)"
        unfolding eq using i delimiter_not_class by (intro userinfo_stop) simp_all
      moreover have "at (pre @ auth_text a @ r) i = ch CHR ''[''"
        unfolding eq using i by (subst at_hd0) simp_all
      ultimately show ?thesis
        using none by (simp add: scan_userinfo_def scanned_user_def)
    qed
  qed
qed

lemma scan_host_pieces:
  assumes i: "i = length pre" and h: "host_ok h"
    and r: "isPathSegmentEndChar (hd0 r) \<or> hd0 r = ch CHR '':''"
  shows "scan_host (pre @ h @ r) i = Some (i + length h)"
  using h
proof (cases rule: host_cases)
  case 1
  have stop: "r = [] \<or> \<not> isHostnameChar (hd r)"
    using r end_char_not_class delimiter_not_class by (cases r) auto
  have "at (pre @ h @ r) i = hd0 (h @ r)" using i by (rule at_hd0)
  moreover have "hd0 (h @ r) \<noteq> ch CHR ''[''"
    using 1 r delimiter_not_class end_char_not_class [of "hd0 r"] by (cases h) (auto simp: hd0_append)
  ultimately show ?thesis
    using scan_pieces [OF i 1 stop] by (simp add: scan_host_def)
next
  case (2 v)
  have "at (pre @ h @ r) i = ch CHR ''[''" using 2 i by (subst at_hd0) simp_all
  moreover have "scan_while isIPv6Char ((pre @ [ch CHR ''['']) @ v @ ch CHR '']'' # r) (i + 1) = i + 1 + length v"
    using 2 i delimiter_not_class by (intro scan_pieces) simp_all
  moreover have "at ((pre @ ch CHR ''['' # v) @ ch CHR '']'' # r) (i + 1 + length v) = ch CHR '']''"
    using i by (subst at_hd0) simp_all
  ultimately show ?thesis
    using 2 by (simp add: scan_host_def)
qed

lemma scan_port_pieces:
  assumes i: "i = length pre" and a: "auth_ok a" and r: "isPathSegmentEndChar (hd0 r)"
  shows "scan_port (pre @ port_text a @ r) i =
    (case pt_port a of None \<Rightarrow> (i, i) | Some d \<Rightarrow> (i + 1, i + 1 + length d))"
proof (cases "pt_port a")
  case None
  with i r end_char_not_class [OF r] at_hd0 [OF i, of r] show ?thesis
    by (simp add: scan_port_def port_text_def)
next
  case (Some d)
  have stop: "r = [] \<or> \<not> isASCIIDigit (hd r)" using end_hd [OF r] end_char_not_class by blast
  have d: "\<forall>c\<in>set d. isASCIIDigit c" using a Some by (simp add: auth_ok_def)
  have "scan_while isASCIIDigit ((pre @ [ch CHR '':'']) @ d @ r) (i + 1) = i + 1 + length d"
    using i d stop by (intro scan_pieces) simp_all
  moreover have "at (pre @ ch CHR '':'' # d @ r) i = ch CHR '':''"
    using i by (subst at_hd0) simp_all
  ultimately show ?thesis
    using Some by (simp add: scan_port_def port_text_def)
qed

definition scanned_auth :: "nat \<Rightarrow> auth_parts \<Rightarrow> url_authority" where
  "scanned_auth i a =
     (let (ue, ps, pe, hs) = scanned_user i a;
          he = hs + length (pt_host a);
          (pst, pend) = (case pt_port a of None \<Rightarrow> (he, he) | Some d \<Rightarrow> (he + 1, he + 1 + length d))
      in \<lparr>au_userStart = i, au_userEnd = ue, au_passwordStart = ps, au_passwordEnd = pe,
          au_hostStart = hs, au_hostEnd = he, au_portStart = pst, au_portEnd = pend\<rparr>)"

lemma scanned_host: "snd (snd (snd (scanned_user i a))) = i + length (userinfo_text a)"
  by (simp add: scanned_user_def userinfo_text_def)

lemma scanned_portEnd: "au_portEnd (scanned_auth i a) = i + length (auth_text a)"
  using scanned_host [of i a]
  by (cases "scanned_user i a") (auto simp: scanned_auth_def auth_text_def port_text_def Let_def split: option.splits)

lemma scan_authority_pieces:
  assumes a: "auth_ok a" and r: "isPathSegmentEndChar (hd0 r)"
    and ne: "auth_text a \<noteq> [] \<or> h \<or> f"
  shows "scan_authority ((s @ lit ''://'') @ auth_text a @ r) (length s) h f
    = Some (scanned_auth (length s + 3) a)"
proof -
  define pre where "pre = s @ lit ''://''"
  define i where "i = length s + 3"
  have i: "i = length pre" "i \<noteq> 0" by (simp_all add: i_def pre_def)
  obtain ue ps pe hs where su: "scanned_user i a = (ue, ps, pe, hs)" by (metis prod_cases4)
  have "hs = i + length (userinfo_text a)" using scanned_host [of i a, unfolded su] by simp
  then have hs: "hs = length (pre @ userinfo_text a)" using i by simp
  define he where "he = hs + length (pt_host a)"
  have h': "host_ok (pt_host a)" using a by (simp add: auth_ok_def)
  have stop: "isPathSegmentEndChar (hd0 (port_text a @ r)) \<or> hd0 (port_text a @ r) = ch CHR '':''"
    using r by (simp add: port_text_def split: option.splits)
  have "scan_host ((pre @ userinfo_text a) @ pt_host a @ port_text a @ r) hs = Some he"
    unfolding he_def using hs h' stop by (rule scan_host_pieces)
  then have host: "scan_host (pre @ auth_text a @ r) hs = Some he"
    by (simp add: auth_text_def)
  obtain pst pend where pp:
    "(case pt_port a of None \<Rightarrow> (he, he) | Some d \<Rightarrow> (he + 1, he + 1 + length d)) = (pst, pend)"
    by (meson surj_pair)
  have "scan_port ((pre @ userinfo_text a @ pt_host a) @ port_text a @ r) he = (pst, pend)"
    unfolding pp [symmetric] using a r by (intro scan_port_pieces) (simp_all add: he_def hs)
  then have port: "scan_port (pre @ auth_text a @ r) he = (pst, pend)"
    by (simp add: auth_text_def)
  have sa: "scanned_auth i a = \<lparr>au_userStart = i, au_userEnd = ue, au_passwordStart = ps,
      au_passwordEnd = pe, au_hostStart = hs, au_hostEnd = he, au_portStart = pst, au_portEnd = pend\<rparr>"
    by (simp add: scanned_auth_def su he_def [symmetric] pp)
  then have pend: "pend = length (pre @ auth_text a)"
    using scanned_portEnd [of i a] i by simp
  have "at ((pre @ auth_text a) @ r) pend = hd0 r"
    using pend by (rule at_hd0)
  then have e: "isPathSegmentEndChar (at (pre @ auth_text a @ r) pend)"
    using r by simp
  have slashes: "at (pre @ auth_text a @ r) (length s + 1) = ch CHR ''/''"
      "at (pre @ auth_text a @ r) (length s + 2) = ch CHR ''/''"
    by (simp_all add: pre_def at_def nth_append)
  have ne': "\<not> (i = pend \<and> \<not> h \<and> \<not> f)"
    using ne pend i by auto
  show ?thesis
    unfolding scan_authority_def pre_def [symmetric] i_def [symmetric]
    using scan_userinfo_pieces [OF i a r] slashes host port e ne'
    by (auto simp add: su sa Let_def)
qed

section \<open>The tail\<close>

lemma clean_chars:
  "clean_char c \<Longrightarrow> c \<noteq> 0 \<and> c \<noteq> ch CHR ''#''"
  by (auto simp: clean_char_def class_iffs class_docs)

lemma escape_clean: "\<forall>c\<in>set w. clean_char c \<Longrightarrow> appendEscapingBadChars w = w"
  by (induction w) (auto simp: appendEscapingBadChars_def escape_bad_def clean_char_def)

definition scanned_tail :: "nat \<Rightarrow> url_parts \<Rightarrow> url_tail" where
  "scanned_tail i p =
     (let pe = i + length (pt_path p); qe = pe + length (pt_query p)
      in \<lparr>ta_pathEnd = pe, ta_queryEnd = qe,
          ta_fragmentStart = (if pt_fragment p = None then qe else qe + 1),
          ta_fragmentEnd = qe + length (fragment_text p)\<rparr>)"

lemma fragment_hd: "hd0 (fragment_text p) = (if pt_fragment p = None then 0 else ch CHR ''#'')"
  by (simp add: fragment_text_def split: option.splits)

lemma query_hd:
  "tail_ok p \<Longrightarrow> hd0 (pt_query p @ fragment_text p) =
     (if pt_query p \<noteq> [] then ch CHR ''?'' else if pt_fragment p = None then 0 else ch CHR ''#'')"
  using fragment_hd [of p] by (auto simp: tail_ok_def hd0_append)

lemma tail_hd: "tail_ok p \<Longrightarrow> pt_path p = [] \<or> hd (pt_path p) = slash \<Longrightarrow>
   isPathSegmentEndChar (hd0 (pt_path p @ pt_query p @ fragment_text p))"
  using query_hd [of p] by (auto simp: hd0_append PathSegmentEnd_cases slash_def)

lemma hd0_stop: "hd0 r = 0 \<Longrightarrow> 0 \<notin> set r \<Longrightarrow> r = []"
  by (cases r) auto

lemma scan_tail_pieces:
  assumes i: "i = length pre" and p: "tail_ok p"
  shows "scan_tail (pre @ pt_path p @ pt_query p @ fragment_text p) i = scanned_tail i p"
proof -
  let ?url = "pre @ pt_path p @ pt_query p @ fragment_text p"
  let ?pe = "i + length (pt_path p)"
  let ?qe = "?pe + length (pt_query p)"
  have rest: "pt_query p @ fragment_text p = [] \<or> hd (pt_query p @ fragment_text p) = ch CHR ''?''
      \<or> hd (pt_query p @ fragment_text p) = ch CHR ''#''"
    using p by (cases "pt_query p = []") (auto simp: tail_ok_def fragment_text_def split: option.splits)
  have path: "\<forall>c\<in>set (pt_path p). c \<noteq> ch CHR ''?'' \<and> c \<noteq> ch CHR ''#''"
    using p clean_chars by (auto simp: tail_ok_def)
  have pe: "scan_while (\<lambda>c. c \<noteq> ch CHR ''?'' \<and> c \<noteq> ch CHR ''#'') ?url i = ?pe"
    using i path rest by (intro scan_pieces) auto
  have at_pe: "at ?url ?pe = hd0 (pt_query p @ fragment_text p)"
    using i at_hd0 [of ?pe "pre @ pt_path p"] by simp
  have query: "\<forall>c\<in>set (pt_query p). c \<noteq> ch CHR ''#''"
    using p clean_chars by (auto simp: tail_ok_def)
  have frag: "fragment_text p = [] \<or> \<not> hd (fragment_text p) \<noteq> ch CHR ''#''"
    by (simp add: fragment_text_def split: option.splits)
  have "scan_while (\<lambda>c. c \<noteq> ch CHR ''#'') ((pre @ pt_path p) @ pt_query p @ fragment_text p) ?pe = ?qe"
    using i query frag by (intro scan_pieces) simp_all
  then have qe: "(if at ?url ?pe = ch CHR ''?'' then scan_while (\<lambda>c. c \<noteq> ch CHR ''#'') ?url ?pe else ?pe) = ?qe"
    using at_pe query_hd [OF p] by (cases "pt_query p = []") (auto split: if_splits)
  have at_qe: "at ?url ?qe = hd0 (fragment_text p)"
    using i at_hd0 [of ?qe "pre @ pt_path p @ pt_query p"] by simp
  show ?thesis
  proof (cases "pt_fragment p")
    case None
    then show ?thesis
      unfolding scan_tail_def Let_def pe qe at_qe using fragment_hd [of p]
      by (simp add: scanned_tail_def Let_def fragment_text_def)
  next
    case (Some f)
    then have u: "?url = (pre @ pt_path p @ pt_query p @ [ch CHR ''#'']) @ f @ []"
      by (simp add: fragment_text_def)
    have fe: "scan_while (\<lambda>_. True) ?url (?qe + 1) = ?qe + 1 + length f"
      unfolding u using i by (intro scan_pieces) simp_all
    show ?thesis
      unfolding scan_tail_def Let_def pe qe at_qe fe using Some fragment_hd [of p]
      by (simp add: scanned_tail_def Let_def fragment_text_def)
  qed
qed

section \<open>Assembling the parts again\<close>

lemma remove_dot_segments_id:
  "\<forall>s\<in>set (segs r). \<not> dot_segment s \<Longrightarrow> remove_dot_segments st (segs r) = render_stack st @ r"
proof (induction "length r" arbitrary: r st rule: less_induct)
  case less
  show ?case
  proof (cases "dropWhile (\<lambda>c. c \<noteq> slash) r")
    case Nil
    then have "takeWhile (\<lambda>c. c \<noteq> slash) r = r"
      using takeWhile_dropWhile_id [of "\<lambda>c. c \<noteq> slash" r] by (simp only: append_Nil2)
    then have "segs r = [r]" using segs_last [OF Nil] by simp
    with less.prems show ?thesis by (simp add: dot_segment_def)
  next
    case (Cons x r')
    then have x: "x = slash" using hd_dropWhile [of "\<lambda>c. c \<noteq> slash" r] by simp
    define w where "w = takeWhile (\<lambda>c. c \<noteq> slash) r"
    have r: "r = w @ slash # r'"
      using takeWhile_dropWhile_id [of "\<lambda>c. c \<noteq> slash" r] Cons x by (simp add: w_def)
    have s: "segs r = w # segs r'"
      unfolding r by (rule segs_append) (auto simp: w_def dest: set_takeWhileD)
    obtain t ts where t: "segs r' = t # ts" by (metis segs.elims)
    have w: "\<not> dot_segment w" "\<forall>s\<in>set (segs r'). \<not> dot_segment s"
      using less.prems by (simp_all add: s)
    have "remove_dot_segments st (segs r) = remove_dot_segments (w # st) (segs r')"
      using w(1) by (simp add: s t dot_segment_def)
    also have "\<dots> = render_stack (w # st) @ r'"
      using w(2) r by (intro less.hyps) simp_all
    finally show ?thesis by (simp add: render_Cons r)
  qed
qed

lemma copy_clean_path:
  assumes "i = length pre" "path \<noteq> [] \<Longrightarrow> hd path = slash" "\<forall>s\<in>set (segs (tl path)). \<not> dot_segment s"
  shows "copyPathRemovingDots (pre @ path @ r) i (i + length path) = path"
proof (cases path)
  case Nil
  then show ?thesis by (simp add: copyPathRemovingDots_def)
next
  case (Cons c q)
  with assms have c: "c = slash" by simp
  have "copyPathRemovingDots (pre @ path @ r) i (i + length path)
      = remove_dot_segments [] (segs (segment (pre @ path @ r) (i + 1) (i + length path)))"
    using assms(1) Cons c by (intro copyPathRemovingDots_segs) (simp_all add: at_hd0 slash_def)
  also have "segment (pre @ path @ r) (i + 1) (i + length path) = q"
    using assms(1) segment_pieces [of "i + 1" "pre @ [c]" "i + length path" q r] Cons by simp
  finally show ?thesis
    using remove_dot_segments_id [of q "[]"] assms(3) Cons c by (simp add: render_Nil)
qed

lemma localhost_pieces:
  assumes "i = length pre"
  shows "is_localhost (pre @ t @ r) i (i + length t) = local_text t"
proof (cases "length t = 9")
  case True
  have "at (pre @ t @ r) (i + k) = at t k" if "k < 9" for k
    using assms that True by (simp add: at_append)
  then have "list_all (\<lambda>(k, c). matchLetter (at (pre @ t @ r) (i + k)) c) (enumerate 0 (lit ''localhost''))
      = list_all (\<lambda>(k, c). matchLetter (at t (0 + k)) c) (enumerate 0 (lit ''localhost''))"
    unfolding list_all_iff by (intro ball_cong refl) (auto simp only: in_set_enumerate_eq split_beta length_lit list.size add_0 fst_conv)
  with True show ?thesis
    unfolding local_text_def is_localhost_def by (simp only:) simp
qed (simp add: local_text_def is_localhost_def)

lemma scanned_auth_fields:
  "au_userStart (scanned_auth i a) = i"
  "au_userEnd (scanned_auth i a) = i + length (pt_user a)"
  "au_passwordStart (scanned_auth i a) = i + length (pt_user a) + (if pt_pass a = [] then 0 else 1)"
  "au_passwordEnd (scanned_auth i a) = i + length (upass_text a)"
  "au_hostStart (scanned_auth i a) = i + length (userinfo_text a)"
  "au_hostEnd (scanned_auth i a) = i + length (userinfo_text a) + length (pt_host a)"
  "au_portStart (scanned_auth i a) = i + length (userinfo_text a) + length (pt_host a) + (if pt_port a = None then 0 else 1)"
  by (auto simp: scanned_auth_def scanned_user_def upass_text_def userinfo_text_def Let_def split: option.splits if_splits)

lemma assemble_authority_pieces:
  assumes i: "i = length pre"
  shows "assemble_authority (pre @ auth_text a @ r) (scanned_auth i a) False
    = (auth_text a, length (pt_user a), length (upass_text a), length (userinfo_text a @ pt_host a))"
proof -
  let ?url = "pre @ auth_text a @ r"
  have user: "segment ?url i (i + length (pt_user a)) = pt_user a"
    using segment_pieces [OF i refl, of "pt_user a"]
    by (simp add: auth_text_def userinfo_text_def upass_text_def)
  have pass: "segment ?url (i + length (pt_user a) + 1) (i + length (upass_text a)) = pt_pass a" if "pt_pass a \<noteq> []"
    using that i segment_pieces [of "i + length (pt_user a) + 1" "pre @ pt_user a @ [ch CHR '':'']"
        "i + length (upass_text a)" "pt_pass a" "ch CHR ''@'' # pt_host a @ port_text a @ r"]
    by (simp add: auth_text_def userinfo_text_def upass_text_def)
  have pw: "(if i + length (upass_text a) \<noteq> i + length (pt_user a) + (if pt_pass a = [] then 0 else 1)
      then ch CHR '':'' # segment ?url (i + length (pt_user a) + (if pt_pass a = [] then 0 else 1))
             (i + length (upass_text a)) else [])
      = (if pt_pass a \<noteq> [] then ch CHR '':'' # pt_pass a else [])"
    using pass by (cases "pt_pass a = []") (simp_all add: upass_text_def)
  have host: "segment ?url (i + length (userinfo_text a)) (i + length (userinfo_text a) + length (pt_host a)) = pt_host a"
    using i segment_pieces [of "i + length (userinfo_text a)" "pre @ userinfo_text a" _ "pt_host a"]
    by (simp add: auth_text_def)
  let ?he = "i + length (userinfo_text a) + length (pt_host a)"
  have port: "(if ?he \<noteq> ?he + (if pt_port a = None then 0 else 1)
      then ch CHR '':'' # segment ?url (?he + (if pt_port a = None then 0 else 1)) (i + length (auth_text a)) else [])
      = port_text a"
  proof (cases "pt_port a")
    case (Some d)
    then show ?thesis
      using i segment_pieces [of "?he + 1" "pre @ userinfo_text a @ pt_host a @ [ch CHR '':'']"
          "i + length (auth_text a)" d r]
      by (simp add: auth_text_def port_text_def)
  qed (simp add: port_text_def)
  have up: "upass_text a = pt_user a @ (if pt_pass a \<noteq> [] then ch CHR '':'' # pt_pass a else [])"
    by (simp add: upass_text_def)
  show ?thesis
    unfolding assemble_authority_def scanned_auth_fields scanned_portEnd Let_def user pw host port
      up [symmetric] userinfo_text_def [symmetric]
    by (simp add: auth_text_def userinfo_text_def)
qed

lemma auth_nonempty_ranges:
  "auth_nonempty a \<Longrightarrow>
   au_userStart (scanned_auth i a) \<noteq> au_userEnd (scanned_auth i a)
   \<or> au_passwordStart (scanned_auth i a) \<noteq> au_passwordEnd (scanned_auth i a)
   \<or> au_portStart (scanned_auth i a) \<noteq> au_portEnd (scanned_auth i a)
   \<or> au_hostStart (scanned_auth i a) \<noteq> au_hostEnd (scanned_auth i a)"
  unfolding auth_nonempty_def scanned_auth_fields scanned_portEnd
  by (auto simp: upass_text_def auth_text_def port_text_def split: if_splits)

lemma assemble_pieces:
  assumes p: "parts_ok p" and a: "pt_auth p = Some a"
  defines "s \<equiv> pt_scheme p"
  shows "assemble (url_text p) (length s) (http_scheme s) (file_scheme s) (scanned_auth (length s + 3) a)
      (scanned_tail (length s + 3 + length (auth_text a)) p) = (url_text p, url_offsets p)"
proof -
  define i where "i = length s + 3"
  define pre where "pre = s @ lit ''://''"
  define po where "po = i + length (auth_text a)"
  define tl_text where "tl_text = pt_path p @ pt_query p @ fragment_text p"
  have i: "i = length pre" by (simp add: i_def pre_def)
  have url: "url_text p = pre @ auth_text a @ tl_text" "url_text p = s @ lit ''://'' @ auth_text a @ tl_text"
    by (simp_all add: url_text_def before_path_def a pre_def s_def tl_text_def)
  have pok: "tail_ok p" "pt_path p \<noteq> [] \<Longrightarrow> hd (pt_path p) = slash"
      "http_scheme s \<Longrightarrow> pt_path p \<noteq> []" "\<forall>s\<in>set (segs (tl (pt_path p))). \<not> dot_segment s"
    using p unfolding parts_ok_def s_def by blast+
  have auth: "if file_scheme s then pt_path p \<noteq> [] \<and> \<not> local_text (auth_text a) else auth_nonempty a"
    using p a unfolding parts_ok_def s_def by auto
  have hier: "at (url_text p) (length s + 1) = ch CHR ''/''"
    unfolding url(2) by (simp add: at_append)
  have local: "is_localhost (url_text p) (au_userStart (scanned_auth i a)) (au_portEnd (scanned_auth i a)) = local_text (auth_text a)"
    unfolding url(1) scanned_auth_fields scanned_portEnd using i by (rule localhost_pieces)
  have scheme: "segment (url_text p) 0 (length s) = s"
    unfolding url(2) by (simp add: segment_def)
  have authority: "assemble_authority (url_text p) (scanned_auth i a) False
      = (auth_text a, length (pt_user a), length (upass_text a), length (userinfo_text a @ pt_host a))"
    unfolding url(1) using i by (rule assemble_authority_pieces)
  have po_len: "po = length (pre @ auth_text a)" by (simp add: po_def i)
  have url3: "url_text p = (pre @ auth_text a) @ pt_path p @ (pt_query p @ fragment_text p)"
    by (simp add: url(1) tl_text_def)
  have seg: "segment (url_text p) po (po + length (pt_path p)) = pt_path p"
    unfolding url3 using po_len by (rule segment_pieces) (rule refl)
  have copy: "copyPathRemovingDots (url_text p) po (po + length (pt_path p)) = pt_path p"
    unfolding url3 using po_len pok(2) pok(4) by (rule copy_clean_path)
  have url4: "url_text p = (pre @ auth_text a @ pt_path p) @ pt_query p @ fragment_text p"
    by (simp add: url(1) tl_text_def)
  have query: "segment (url_text p) (po + length (pt_path p)) (po + length (pt_path p) + length (pt_query p)) = pt_query p"
    unfolding url4 using po_len by (intro segment_pieces) simp_all
  have esc: "appendEscapingBadChars (pt_path p) = pt_path p" "appendEscapingBadChars (pt_query p) = pt_query p"
    using pok(1) by (auto intro!: escape_clean simp: tail_ok_def)
  have frag: "(if po + length (pt_path p) + length (pt_query p) + length (fragment_text p)
        \<noteq> po + length (pt_path p) + length (pt_query p)
      then ch CHR ''#'' # appendEscapingBadChars (segment (url_text p)
             (if pt_fragment p = None then po + length (pt_path p) + length (pt_query p)
              else po + length (pt_path p) + length (pt_query p) + 1)
             (po + length (pt_path p) + length (pt_query p) + length (fragment_text p)))
      else []) = fragment_text p"
  proof (cases "pt_fragment p")
    case (Some f)
    have u: "url_text p = (pre @ auth_text a @ pt_path p @ pt_query p @ [ch CHR ''#'']) @ f @ []"
      by (simp add: url(1) tl_text_def fragment_text_def Some)
    have "segment (url_text p) (po + length (pt_path p) + length (pt_query p) + 1)
        (po + length (pt_path p) + length (pt_query p) + length (fragment_text p)) = f"
      unfolding u using po_len Some by (intro segment_pieces) (simp_all add: fragment_text_def)
    moreover have "appendEscapingBadChars f = f"
      using pok(1) Some by (intro escape_clean) (simp add: tail_ok_def)
    ultimately show ?thesis using Some by (simp add: fragment_text_def)
  qed (simp add: fragment_text_def)
  have written: "(if file_scheme s
      then \<not> (po = po + length (pt_path p) \<and> (au_hostStart (scanned_auth i a) = au_hostEnd (scanned_auth i a) \<or> local_text (auth_text a)))
      else (au_userStart (scanned_auth i a) \<noteq> au_userEnd (scanned_auth i a)
        \<or> au_passwordStart (scanned_auth i a) \<noteq> au_passwordEnd (scanned_auth i a)
        \<or> au_portStart (scanned_auth i a) \<noteq> au_portEnd (scanned_auth i a))
        \<or> au_hostStart (scanned_auth i a) \<noteq> au_hostEnd (scanned_auth i a))"
    using auth auth_nonempty_ranges [of a i] by (auto split: if_splits)
  have drop: "(file_scheme s \<and> local_text (auth_text a) \<and> X) = False" for X
    using auth by (auto split: if_splits)
  have slash_added: "(if http_scheme s \<and> ch CHR ''/'' = ch CHR ''/'' \<and> po + length (pt_path p) = po
      then [ch CHR ''/''] else []) = []"
    using pok(3) by auto
  have pe: "au_portEnd (scanned_auth i a) = po" by (simp add: scanned_portEnd po_def)
  have tail: "ta_pathEnd (scanned_tail po p) = po + length (pt_path p)"
      "ta_queryEnd (scanned_tail po p) = po + length (pt_path p) + length (pt_query p)"
      "ta_fragmentEnd (scanned_tail po p) = po + length (pt_path p) + length (pt_query p) + length (fragment_text p)"
      "ta_fragmentStart (scanned_tail po p) = (if pt_fragment p = None then po + length (pt_path p) + length (pt_query p)
              else po + length (pt_path p) + length (pt_query p) + 1)"
    by (simp_all add: scanned_tail_def Let_def)
  have bp: "before_path p = s @ [ch CHR '':''] @ lit ''//'' @ auth_text a"
    by (simp add: before_path_def a s_def)
  show ?thesis
    unfolding assemble_def i_def [symmetric] po_def [symmetric] Let_def hier local [unfolded pe] pe tail scheme drop
      if_P [OF written [unfolded pe]] authority seg copy query esc frag slash_added if_cancel
    by (simp add: url_offsets_def a s_def [symmetric] Let_def bp url_text_def i_def)
qed

text \<open>The main lemma: the text of well-formed parts parses to itself and to their offsets.\<close>

lemma parse_ranges_parts: "parts_ok p \<Longrightarrow> parse_ranges (url_text p) = Some (url_text p, url_offsets p)"
proof -
  assume p: "parts_ok p"
  define s where "s = pt_scheme p"
  from p obtain a where a: "pt_auth p = Some a" "auth_ok a"
      "if file_scheme s then pt_path p \<noteq> [] \<and> \<not> local_text (auth_text a) else auth_nonempty a"
    unfolding parts_ok_def s_def by auto
  have sok: "scheme_ok s" and tok: "tail_ok p" and path: "pt_path p = [] \<or> hd (pt_path p) = slash"
    using p unfolding parts_ok_def s_def by blast+
  let ?r = "pt_path p @ pt_query p @ fragment_text p"
  have url: "url_text p = s @ ch CHR '':'' # lit ''//'' @ auth_text a @ ?r"
      "url_text p = (s @ lit ''://'') @ auth_text a @ ?r"
      "url_text p = ((s @ lit ''://'') @ auth_text a) @ ?r"
    by (simp_all add: url_text_def before_path_def a s_def)
  have first: "url_text p \<noteq> []" "isSchemeFirstChar (at (url_text p) 0)"
    using sok by (auto simp: url scheme_ok_def at_def nth_append hd_conv_nth)
  have se: "scan_while isSchemeChar (url_text p) 0 = length s"
    unfolding url(1) using sok by (rule scan_scheme)
  have colon: "at (url_text p) (length s) = ch CHR '':''"
    unfolding url(1) by (simp add: at_hd0)
  have http: "in_http_family (url_text p) = http_scheme s"
    unfolding url(1) using scheme_no_colon [OF sok] by (rule http_pieces)
  have isf: "is_file (url_text p) (length s) = file_scheme s"
    unfolding url(1) by (rule file_pieces)
  have "auth_text a \<noteq> [] \<or> http_scheme s \<or> file_scheme s"
    using a(3) by (auto simp: auth_nonempty_def auth_text_def userinfo_text_def port_text_def split: if_splits)
  then have au: "scan_authority (url_text p) (length s) (http_scheme s) (file_scheme s) = Some (scanned_auth (length s + 3) a)"
    unfolding url(2) using a(2) tail_hd [OF tok path] by (intro scan_authority_pieces)
  have tail: "scan_tail (url_text p) (au_portEnd (scanned_auth (length s + 3) a))
      = scanned_tail (length s + 3 + length (auth_text a)) p"
    unfolding url(3) scanned_portEnd using tok by (intro scan_tail_pieces) simp_all
  show ?thesis
    unfolding parse_ranges_def Let_def se http isf au tail
    using first colon assemble_pieces [OF p a(1)] by (simp add: tail [unfolded s_def] s_def)
qed

end
