(* ===== verification/KURLFacts.thy ===== *)
theory KURLFacts
  imports KURLRender
begin

text \<open>
  What the parser guarantees about its result: its output is always the text of parts with
  the characters the grammar allows, at the offsets it reports; it fits the buffer; and a
  URL with a host reads back as itself.
\<close>

section \<open>The ranges the scanner finds\<close>

lemma userinfo_loop_spec:
  assumes "userinfo_loop url i cp = (e, cp')"
  shows "i \<le> e \<and> (i \<le> length url \<longrightarrow> e \<le> length url) \<and> (\<forall>k. i \<le> k \<and> k < e \<longrightarrow> isUserInfoChar (url ! k))
    \<and> (cp \<noteq> 0 \<longrightarrow> cp' = cp)
    \<and> (cp = 0 \<and> i \<noteq> 0 \<longrightarrow> (cp' = 0 \<and> (\<forall>k. i \<le> k \<and> k < e \<longrightarrow> url ! k \<noteq> ch CHR '':''))
        \<or> (i \<le> cp' \<and> cp' < e \<and> url ! cp' = ch CHR '':'' \<and> (\<forall>k. i \<le> k \<and> k < cp' \<longrightarrow> url ! k \<noteq> ch CHR '':'')))"
  using assms
proof (induction url i cp rule: userinfo_loop.induct)
  case (1 url i cp)
  let ?cp = "if url ! i = ch CHR '':'' \<and> cp = 0 then i else cp"
  show ?case
  proof (cases "i < length url \<and> isUserInfoChar (url ! i)")
    case True
    then have "userinfo_loop url (Suc i) ?cp = (e, cp')"
      using "1.prems" by (subst (asm) userinfo_loop.simps) simp
    note IH = "1.IH" [OF True this]
    have chars: "isUserInfoChar (url ! k)" if "i \<le> k" "k < e" for k
      using IH that True by (cases "k = i") auto
    consider "cp \<noteq> 0" | "cp = 0" "url ! i = ch CHR '':''" | "cp = 0" "url ! i \<noteq> ch CHR '':''" by blast
    then show ?thesis
    proof cases
      case 1
      with IH True chars show ?thesis by simp
    next
      case 2
      with IH True chars show ?thesis by (cases "i = 0") auto
    next
      case 3
      have ext: "url ! k \<noteq> ch CHR '':''" if "\<forall>k. Suc i \<le> k \<and> k < n \<longrightarrow> url ! k \<noteq> ch CHR '':''" "i \<le> k" "k < n" for k n
        using that 3 by (cases "k = i") auto
      from 3 have "(cp' = 0 \<and> (\<forall>k. Suc i \<le> k \<and> k < e \<longrightarrow> url ! k \<noteq> ch CHR '':''))
        \<or> (Suc i \<le> cp' \<and> cp' < e \<and> url ! cp' = ch CHR '':'' \<and> (\<forall>k. Suc i \<le> k \<and> k < cp' \<longrightarrow> url ! k \<noteq> ch CHR '':''))"
        using IH by simp
      then have "(cp' = 0 \<and> (\<forall>k. i \<le> k \<and> k < e \<longrightarrow> url ! k \<noteq> ch CHR '':''))
        \<or> (i \<le> cp' \<and> cp' < e \<and> url ! cp' = ch CHR '':'' \<and> (\<forall>k. i \<le> k \<and> k < cp' \<longrightarrow> url ! k \<noteq> ch CHR '':''))"
        using ext by auto
      with 3 IH True chars show ?thesis by auto
    qed
  next
    case False
    then have "e = i" "cp' = cp"
      using "1.prems" by (subst (asm) userinfo_loop.simps, simp)+
    then show ?thesis by auto
  qed
qed

definition authority_ok :: "byte list \<Rightarrow> nat \<Rightarrow> url_authority \<Rightarrow> bool" where
  "authority_ok url se a \<longleftrightarrow>
     se + 3 = au_userStart a \<and> au_userStart a \<le> au_userEnd a \<and> au_userEnd a \<le> au_passwordStart a
     \<and> au_passwordStart a \<le> au_passwordEnd a \<and> au_passwordEnd a \<le> au_hostStart a
     \<and> au_hostStart a \<le> au_hostEnd a \<and> au_hostEnd a \<le> au_portStart a
     \<and> au_portStart a \<le> au_portEnd a \<and> au_portEnd a \<le> length url
     \<and> (\<forall>k. au_userStart a \<le> k \<and> k < au_userEnd a \<longrightarrow> isUserInfoChar (url ! k) \<and> url ! k \<noteq> ch CHR '':'')
     \<and> (\<forall>k. au_passwordStart a \<le> k \<and> k < au_passwordEnd a \<longrightarrow> isUserInfoChar (url ! k))
     \<and> host_ok (segment url (au_hostStart a) (au_hostEnd a))
     \<and> (\<forall>k. au_portStart a \<le> k \<and> k < au_portEnd a \<longrightarrow> isASCIIDigit (url ! k))
     \<and> isPathSegmentEndChar (at url (au_portEnd a))
     \<and> (au_userStart a \<noteq> au_userEnd a \<or> au_passwordStart a \<noteq> au_passwordEnd a \<longrightarrow> au_hostStart a = au_passwordEnd a + 1)
     \<and> (au_passwordStart a \<noteq> au_passwordEnd a \<longrightarrow> au_passwordStart a = au_userEnd a + 1)
     \<and> (au_hostEnd a \<noteq> au_portStart a \<longrightarrow> au_portStart a = au_hostEnd a + 1)"

lemma scan_userinfo_spec:
  assumes "scan_userinfo url i = Some (ue, ps, pe, hs)" and "i \<noteq> 0" "i \<le> length url"
  shows "i \<le> ue \<and> ue \<le> ps \<and> ps \<le> pe \<and> pe \<le> hs \<and> hs \<le> length url
    \<and> (\<forall>k. i \<le> k \<and> k < ue \<longrightarrow> isUserInfoChar (url ! k) \<and> url ! k \<noteq> ch CHR '':'')
    \<and> (\<forall>k. ps \<le> k \<and> k < pe \<longrightarrow> isUserInfoChar (url ! k))
    \<and> (i \<noteq> ue \<or> ps \<noteq> pe \<longrightarrow> hs = pe + 1) \<and> (ps \<noteq> pe \<longrightarrow> ps = ue + 1)"
proof -
  obtain e cp where loop: "userinfo_loop url i 0 = (e, cp)" by (meson surj_pair)
  have spec: "i \<le> e" "e \<le> length url" "\<forall>k. i \<le> k \<and> k < e \<longrightarrow> isUserInfoChar (url ! k)"
      "(cp = 0 \<and> (\<forall>k. i \<le> k \<and> k < e \<longrightarrow> url ! k \<noteq> ch CHR '':''))
        \<or> (i \<le> cp \<and> cp < e \<and> url ! cp = ch CHR '':'' \<and> (\<forall>k. i \<le> k \<and> k < cp \<longrightarrow> url ! k \<noteq> ch CHR '':''))"
    using userinfo_loop_spec [OF loop] assms(2,3) by blast+
  show ?thesis
  proof (cases "at url e = ch CHR ''@''")
    case True
    then have "e < length url" by (intro at_neq_0_less) simp
    show ?thesis
    proof (cases "cp = 0")
      case cp: True
      with True loop assms(1) have "ue = e" "ps = e" "pe = e" "hs = e + 1"
        by (simp_all add: scan_userinfo_def)
      with spec cp assms(2) \<open>e < length url\<close> show ?thesis by auto
    next
      case False
      with True loop assms(1) have "ue = cp" "ps = cp + 1" "pe = e" "hs = e + 1"
        by (simp_all add: scan_userinfo_def)
      with spec False \<open>e < length url\<close> show ?thesis by auto
    qed
  next
    case False
    with loop assms(1) have "ue = i" "ps = i" "pe = i" "hs = i"
      by (simp_all add: scan_userinfo_def split: if_splits)
    with assms(3) show ?thesis by auto
  qed
qed

lemma segment_scan_while:
  "i \<le> length url \<Longrightarrow> \<forall>c\<in>set (segment url i (scan_while P url i)). P c"
  by (subst segment_all_iff) (auto intro: scan_while_all)

lemma scan_host_spec:
  assumes "scan_host url i = Some e" and "i \<le> length url"
  shows "i \<le> e \<and> e \<le> length url \<and> host_ok (segment url i e)"
proof (cases "at url i = ch CHR ''[''")
  case True
  define e' where "e' = scan_while isIPv6Char url (i + 1)"
  have read: "k < length url \<and> url ! k = c" if "at url k = c" "c \<noteq> 0" for k c
    using that by (auto simp: at_def split: if_splits)
  have i: "i < length url \<and> url ! i = ch CHR ''[''"
    using True by (rule read) simp
  from True assms(1) have e: "e = e' + 1" "at url e' = ch CHR '']''"
    unfolding scan_host_def e'_def Let_def by (simp_all split: if_splits)
  have e': "e' < length url \<and> url ! e' = ch CHR '']''"
    using e(2) by (rule read) simp
  have ge: "i + 1 \<le> e'" by (simp add: e'_def)
  have v: "\<forall>c\<in>set (segment url (i + 1) e'). isIPv6Char c"
    unfolding e'_def using i by (intro segment_scan_while) simp
  have one: "segment url k (k + 1) = [url ! k]" if "k < length url" for k
    using that segment_step [of k "k + 1" url] by simp
  have "segment url (i + 1) e' @ segment url e' e = segment url (i + 1) e"
    using ge e by (intro slice_append_segment) simp_all
  moreover have "segment url i (i + 1) @ segment url (i + 1) e = segment url i e"
    using ge e by (intro slice_append_segment) simp_all
  ultimately have s: "segment url i e = ch CHR ''['' # segment url (i + 1) e' @ [ch CHR '']'']"
    using one [of i] one [of e'] i e' e by simp
  have "host_ok (ch CHR ''['' # segment url (i + 1) e' @ [ch CHR '']''])"
    using v by (simp add: host_ok_def)
  with s e e' ge show ?thesis by simp
next
  case False
  with assms(1) have e: "e = scan_while isHostnameChar url i" by (simp add: scan_host_def)
  then show ?thesis
    using segment_scan_while [OF assms(2), of isHostnameChar] assms(2) by (simp add: host_ok_def)
qed

lemma scan_authority_spec:
  assumes "scan_authority url se h f = Some a"
  shows "a = no_authority (se + 1)
    \<or> (at url (se + 1) = ch CHR ''/'' \<and> authority_ok url se a)"
proof (cases "at url (se + 1) = ch CHR ''/'' \<and> at url (se + 2) = ch CHR ''/''")
  case True
  define i where "i = se + 3"
  have "se + 2 < length url" using True by (intro at_neq_0_less) simp
  then have i: "i \<noteq> 0" "i \<le> length url" by (simp_all add: i_def)
  from assms True obtain ue ps pe hs where u: "scan_userinfo url i = Some (ue, ps, pe, hs)"
    by (auto simp: scan_authority_def i_def Let_def split: option.splits prod.splits)
  with assms True obtain he where he: "scan_host url hs = Some he"
    by (auto simp: scan_authority_def i_def Let_def split: option.splits prod.splits)
  obtain pst pend where pp: "scan_port url he = (pst, pend)" by (meson surj_pair)
  note spec = scan_userinfo_spec [OF u i]
  have hspec: "hs \<le> he \<and> he \<le> length url \<and> host_ok (segment url hs he)"
    using scan_host_spec [OF he] spec by simp
  have port: "he \<le> pst \<and> pst \<le> pend \<and> pend \<le> length url \<and> (\<forall>k. pst \<le> k \<and> k < pend \<longrightarrow> isASCIIDigit (url ! k))
      \<and> (he \<noteq> pst \<longrightarrow> pst = he + 1)"
  proof (cases "at url he = ch CHR '':''")
    case True
    then have "he < length url" by (intro at_neq_0_less) simp
    with True pp show ?thesis by (auto simp: scan_port_def intro: scan_while_all)
  next
    case False
    with pp hspec show ?thesis by (auto simp: scan_port_def)
  qed
  from assms True u he pp have "isPathSegmentEndChar (at url pend)"
    and a: "a = (if i = pend \<and> \<not> h \<and> \<not> f then no_authority (i - 2)
       else \<lparr>au_userStart = i, au_userEnd = ue, au_passwordStart = ps, au_passwordEnd = pe,
          au_hostStart = hs, au_hostEnd = he, au_portStart = pst, au_portEnd = pend\<rparr>)"
    by (auto simp: scan_authority_def i_def Let_def split: if_splits)
  show ?thesis
  proof (cases "i = pend \<and> \<not> h \<and> \<not> f")
    case True
    with a have "a = no_authority (i - 2)" by simp
    moreover have "i - 2 = se + 1" by (simp add: i_def)
    ultimately show ?thesis by simp
  next
    case F: False
    have "authority_ok url se a"
      using spec hspec port \<open>isPathSegmentEndChar (at url pend)\<close>
      unfolding a if_not_P [OF F] by (simp add: authority_ok_def i_def)
    with True show ?thesis by simp
  qed
next
  case False
  with assms show ?thesis by (auto simp: scan_authority_def)
qed

section \<open>The output is the text of its parts\<close>

lemma scan_tail_spec:
  assumes "i \<le> length url"
  defines "t \<equiv> scan_tail url i"
  shows "i \<le> ta_pathEnd t \<and> ta_pathEnd t \<le> ta_queryEnd t \<and> ta_queryEnd t \<le> ta_fragmentStart t
    \<and> ta_fragmentStart t \<le> ta_fragmentEnd t \<and> ta_fragmentEnd t \<le> length url
    \<and> ta_fragmentStart t \<le> ta_queryEnd t + 1
    \<and> (ta_fragmentStart t = ta_queryEnd t \<longrightarrow> ta_fragmentEnd t = ta_queryEnd t)"
    and "\<forall>c\<in>set (segment url i (ta_pathEnd t)). c \<noteq> ch CHR ''?'' \<and> c \<noteq> ch CHR ''#''"
    and "ta_pathEnd t \<noteq> ta_queryEnd t \<longrightarrow> ta_pathEnd t < length url \<and> url ! ta_pathEnd t = ch CHR ''?''"
proof -
  define pe where "pe = scan_while (\<lambda>c. c \<noteq> ch CHR ''?'' \<and> c \<noteq> ch CHR ''#'') url i"
  define qe where "qe = (if at url pe = ch CHR ''?'' then scan_while (\<lambda>c. c \<noteq> ch CHR ''#'') url pe else pe)"
  have t: "t = (let (fs, fe) = (if at url qe = ch CHR ''#'' then (qe + 1, scan_while (\<lambda>_. True) url (qe + 1)) else (qe, qe))
      in \<lparr>ta_pathEnd = pe, ta_queryEnd = qe, ta_fragmentStart = fs, ta_fragmentEnd = fe\<rparr>)"
    unfolding t_def scan_tail_def Let_def pe_def qe_def ..
  have tp: "ta_pathEnd t = pe" "ta_queryEnd t = qe"
    by (simp_all add: t)
  have pe: "i \<le> pe" "pe \<le> length url"
    unfolding pe_def using assms(1) by simp_all
  have qe: "pe \<le> qe" "qe \<le> length url"
    unfolding qe_def using pe(2) by simp_all
  show "\<forall>c\<in>set (segment url i (ta_pathEnd t)). c \<noteq> ch CHR ''?'' \<and> c \<noteq> ch CHR ''#''"
    unfolding tp pe_def using assms(1) by (rule segment_scan_while)
  show "ta_pathEnd t \<noteq> ta_queryEnd t \<longrightarrow> ta_pathEnd t < length url \<and> url ! ta_pathEnd t = ch CHR ''?''"
    unfolding tp by (auto simp: qe_def at_def split: if_splits)
  show "i \<le> ta_pathEnd t \<and> ta_pathEnd t \<le> ta_queryEnd t \<and> ta_queryEnd t \<le> ta_fragmentStart t
    \<and> ta_fragmentStart t \<le> ta_fragmentEnd t \<and> ta_fragmentEnd t \<le> length url
    \<and> ta_fragmentStart t \<le> ta_queryEnd t + 1
    \<and> (ta_fragmentStart t = ta_queryEnd t \<longrightarrow> ta_fragmentEnd t = ta_queryEnd t)"
  proof (cases "at url qe = ch CHR ''#''")
    case True
    then have "qe < length url" by (intro at_neq_0_less) simp
    with True pe qe show ?thesis by (simp add: t)
  next
    case False
    with pe qe show ?thesis by (simp add: t)
  qed
qed

definition writes_authority :: "byte list \<Rightarrow> bool \<Rightarrow> url_authority \<Rightarrow> url_tail \<Rightarrow> bool" where
  "writes_authority url f a t \<longleftrightarrow>
     (if f then \<not> (au_portEnd a = ta_pathEnd t
            \<and> (au_hostStart a = au_hostEnd a \<or> is_localhost url (au_userStart a) (au_portEnd a)))
      else (au_userStart a \<noteq> au_userEnd a \<or> au_passwordStart a \<noteq> au_passwordEnd a
            \<or> au_portStart a \<noteq> au_portEnd a) \<or> au_hostStart a \<noteq> au_hostEnd a)"

definition drops_host :: "byte list \<Rightarrow> bool \<Rightarrow> url_authority \<Rightarrow> bool" where
  "drops_host url f a \<longleftrightarrow> f \<and> is_localhost url (au_userStart a) (au_portEnd a)
     \<and> \<not> (au_userStart a \<noteq> au_userEnd a \<or> au_passwordStart a \<noteq> au_passwordEnd a
           \<or> au_portStart a \<noteq> au_portEnd a)"

definition auth_of :: "byte list \<Rightarrow> url_authority \<Rightarrow> bool \<Rightarrow> auth_parts" where
  "auth_of url a dropHost =
     \<lparr>pt_user = segment url (au_userStart a) (au_userEnd a),
      pt_pass = segment url (au_passwordStart a) (au_passwordEnd a),
      pt_host = (if dropHost then [] else segment url (au_hostStart a) (au_hostEnd a)),
      pt_port = (if au_hostEnd a \<noteq> au_portStart a
                 then Some (segment url (au_portStart a) (au_portEnd a)) else None)\<rparr>"

definition raw_path :: "byte list \<Rightarrow> nat \<Rightarrow> nat \<Rightarrow> nat \<Rightarrow> byte list" where
  "raw_path url se pathStart pathEnd =
     (if at url (se + 1) \<noteq> ch CHR ''/'' \<or> \<not> hasSlashDotOrDotDot url
      then segment url pathStart pathEnd else copyPathRemovingDots url pathStart pathEnd)"

definition added_slash :: "byte list \<Rightarrow> nat \<Rightarrow> bool \<Rightarrow> nat \<Rightarrow> nat \<Rightarrow> byte list" where
  "added_slash url se h pathStart pathEnd =
     (if h \<and> at url (se + 1) = ch CHR ''/'' \<and> pathEnd = pathStart then [ch CHR ''/''] else [])"

definition parts_of :: "byte list \<Rightarrow> nat \<Rightarrow> bool \<Rightarrow> bool \<Rightarrow> url_authority \<Rightarrow> url_tail \<Rightarrow> url_parts" where
  "parts_of url se h f a t =
     \<lparr>pt_scheme = segment url 0 se,
      pt_auth = (if writes_authority url f a t then Some (auth_of url a (drops_host url f a)) else None),
      pt_path = added_slash url se h (au_portEnd a) (ta_pathEnd t)
                @ appendEscapingBadChars (raw_path url se (au_portEnd a) (ta_pathEnd t)),
      pt_query = appendEscapingBadChars (segment url (ta_pathEnd t) (ta_queryEnd t)),
      pt_fragment = (if ta_fragmentEnd t \<noteq> ta_queryEnd t
                     then Some (appendEscapingBadChars (segment url (ta_fragmentStart t) (ta_fragmentEnd t)))
                     else None)\<rparr>"

lemma segment_nil_iff: "b \<le> length s \<Longrightarrow> a \<le> b \<Longrightarrow> segment s a b = [] \<longleftrightarrow> a = b"
  by (auto simp: segment_def)

lemma assemble_authority_parts:
  assumes "au_passwordStart a \<le> au_passwordEnd a" "au_passwordEnd a \<le> length url"
  shows "assemble_authority url a d
    = (auth_text (auth_of url a d), length (pt_user (auth_of url a d)),
       length (upass_text (auth_of url a d)),
       length (userinfo_text (auth_of url a d) @ pt_host (auth_of url a d)))"
proof -
  have "(au_passwordEnd a \<noteq> au_passwordStart a) = (pt_pass (auth_of url a d) \<noteq> [])"
    using segment_nil_iff [OF assms(2,1)] by (auto simp: auth_of_def)
  then have up: "segment url (au_userStart a) (au_userEnd a) @
      (if au_passwordEnd a \<noteq> au_passwordStart a
       then ch CHR '':'' # segment url (au_passwordStart a) (au_passwordEnd a) else [])
      = upass_text (auth_of url a d)"
    by (simp add: upass_text_def auth_of_def)
  have port: "(if au_hostEnd a \<noteq> au_portStart a then ch CHR '':'' # segment url (au_portStart a) (au_portEnd a) else [])
      = port_text (auth_of url a d)"
    by (simp add: port_text_def auth_of_def)
  show ?thesis
    unfolding assemble_authority_def Let_def up port
    by (simp add: auth_text_def userinfo_text_def) (simp add: auth_of_def)
qed

lemma assemble_parts:
  assumes se: "se \<le> length url" and h: "h = http_scheme (segment url 0 se)"
    and a: "au_passwordStart a \<le> au_passwordEnd a" "au_passwordEnd a \<le> length url"
  shows "assemble url se h f a t = (url_text (parts_of url se h f a t), url_offsets (parts_of url se h f a t))"
proof -
  define p where "p = parts_of url se h f a t"
  have len: "length (pt_scheme p) = se" "http_scheme (pt_scheme p) = h"
    using se h by (simp_all add: p_def parts_of_def)
  have authority: "(if (if f then \<not> (au_portEnd a = ta_pathEnd t
            \<and> (au_hostStart a = au_hostEnd a \<or> is_localhost url (au_userStart a) (au_portEnd a)))
      else (au_userStart a \<noteq> au_userEnd a \<or> au_passwordStart a \<noteq> au_passwordEnd a
            \<or> au_portStart a \<noteq> au_portEnd a) \<or> au_hostStart a \<noteq> au_hostEnd a) then X else Y)
     = (case pt_auth p of None \<Rightarrow> Y | Some _ \<Rightarrow> X)" for X Y :: "byte list \<times> nat \<times> nat \<times> nat \<times> nat \<times> nat"
    unfolding writes_authority_def [symmetric] by (simp add: p_def parts_of_def)
  have frag: "(if ta_fragmentEnd t \<noteq> ta_queryEnd t
      then ch CHR ''#'' # appendEscapingBadChars (segment url (ta_fragmentStart t) (ta_fragmentEnd t)) else [])
      = fragment_text p"
    by (simp add: fragment_text_def p_def parts_of_def)
  have path: "added_slash url se h (au_portEnd a) (ta_pathEnd t)
      @ appendEscapingBadChars (raw_path url se (au_portEnd a) (ta_pathEnd t)) = pt_path p"
    by (simp add: p_def parts_of_def)
  have plen: "length (added_slash url se h (au_portEnd a) (ta_pathEnd t))
      + length (appendEscapingBadChars (raw_path url se (au_portEnd a) (ta_pathEnd t))) = length (pt_path p)"
    unfolding path [symmetric] by simp
  have query: "appendEscapingBadChars (segment url (ta_pathEnd t) (ta_queryEnd t)) = pt_query p"
    by (simp add: p_def parts_of_def)
  have scheme: "segment url 0 se = pt_scheme p"
    by (simp add: p_def parts_of_def)
  show ?thesis
  proof (cases "pt_auth p")
    case None
    show ?thesis
      unfolding assemble_def Let_def authority frag scheme raw_path_def [symmetric] added_slash_def [symmetric]
        append_assoc path query None p_def [symmetric]
      by (simp add: url_text_def before_path_def None url_offsets_def len path plen)
  next
    case (Some b)
    then have b: "b = auth_of url a (drops_host url f a)"
      by (simp add: p_def parts_of_def split: if_splits)
    show ?thesis
      unfolding assemble_def Let_def authority frag scheme raw_path_def [symmetric] added_slash_def [symmetric]
        append_assoc path query Some p_def [symmetric] drops_host_def [symmetric]
        assemble_authority_parts [OF a] b [symmetric]
      by (simp add: url_text_def before_path_def Some url_offsets_def len path plen)
  qed
qed

section \<open>The characters of the output\<close>

lemma hexDigits_clean: "n < 16 \<Longrightarrow> clean_char (hexDigits ! n) \<and> hexDigits ! n \<noteq> ch CHR ''?''
    \<and> hexDigits ! n \<noteq> slash \<and> hexDigits ! n \<noteq> dot"
proof -
  assume "n < 16"
  moreover have "length hexDigits = 16" by (simp add: hexDigits_def)
  ultimately have "hexDigits ! n \<in> set hexDigits" by simp
  moreover have "\<forall>c\<in>set hexDigits. clean_char c \<and> c \<noteq> ch CHR ''?'' \<and> c \<noteq> slash \<and> c \<noteq> dot"
    by (simp add: hexDigits_def slash_def dot_def clean_char_def class_iffs class_docs)
  ultimately show ?thesis by blast
qed

lemma nibbles: "unat (drop_bit 4 (c::byte)) < 16" "unat (c AND 0xF) < 16"
proof -
  have "unat c < 256" using unsigned_less [of c] by simp
  then show "unat (drop_bit 4 c) < 16"
    by (simp add: unsigned_drop_bit_eq drop_bit_nat_def take_bit_nat_def)
  show "unat (c AND 0xF) < 16"
  proof -
    have "c AND 0xF = take_bit 4 c" by (simp add: take_bit_eq_mask mask_eq_exp_minus_1)
    then have "unat (c AND 0xF) = unat c mod 16"
      by (simp add: unsigned_take_bit_eq take_bit_nat_def)
    then show ?thesis by simp
  qed
qed

lemma percent_clean: "clean_char (ch CHR ''%'')"
  by (simp add: clean_char_def)

lemma escape_bad_clean: "c \<noteq> 0 \<Longrightarrow> x \<in> set (escape_bad c) \<Longrightarrow> clean_char x \<and> (c \<noteq> ch CHR ''?'' \<longrightarrow> x \<noteq> ch CHR ''?'')"
  using hexDigits_clean [OF nibbles(1), of c] hexDigits_clean [OF nibbles(2), of c] percent_clean
  by (auto simp: escape_bad_def hex_escape_def clean_char_def split: if_splits)

lemma appendEscapingBadChars_clean:
  "0 \<notin> set w \<Longrightarrow> x \<in> set (appendEscapingBadChars w) \<Longrightarrow>
   clean_char x \<and> (ch CHR ''?'' \<notin> set w \<longrightarrow> x \<noteq> ch CHR ''?'')"
proof -
  assume "0 \<notin> set w" "x \<in> set (appendEscapingBadChars w)"
  then obtain c where "c \<in> set w" "c \<noteq> 0" "x \<in> set (escape_bad c)"
    by (auto simp: appendEscapingBadChars_def)
  with escape_bad_clean [of c x] show ?thesis by blast
qed

lemma escape_bad_length: "length (escape_bad c) \<le> 3"
  by (simp add: escape_bad_def hex_escape_def)

lemma appendEscapingBadChars_length: "length (appendEscapingBadChars w) \<le> 3 * length w"
proof (induction w)
  case (Cons c w)
  have "appendEscapingBadChars (c # w) = escape_bad c @ appendEscapingBadChars w"
    by (simp add: appendEscapingBadChars_def)
  with Cons escape_bad_length [of c] show ?case by simp
qed (simp add: appendEscapingBadChars_def)

lemma rewind_while_subset: "set (rewind_while p k dst) \<subseteq> set dst \<and> length (rewind_while p k dst) \<le> length dst"
proof (induction p k dst rule: rewind_while.induct)
  case (1 p k dst)
  then show ?case
    by (subst (1 2) rewind_while.simps) (auto dest: in_set_butlastD)
qed

lemma rewind_segment_subset: "set (rewind_segment dst) \<subseteq> set dst \<and> length (rewind_segment dst) \<le> length dst"
proof -
  define d where "d = (if length dst > 1 then butlast dst else dst)"
  define e where "e = rewind_while (\<lambda>c. c = slash) 1 d"
  have "set d \<subseteq> set dst" "length d \<le> length dst"
    by (auto simp: d_def dest: in_set_butlastD)
  moreover have "set e \<subseteq> set d" "length e \<le> length d"
    using rewind_while_subset [of _ 1 d] unfolding e_def by blast+
  moreover have "rewind_segment dst = rewind_while (\<lambda>c. c \<noteq> slash) 0 e"
    by (simp add: rewind_segment_eq Let_def d_def e_def)
  ultimately show ?thesis
    using rewind_while_subset [of "\<lambda>c. c \<noteq> slash" 0 e] by auto
qed

lemma dots_list_subset:
  "set (dots_list r dst) \<subseteq> set r \<union> set dst \<and> length (dots_list r dst) \<le> length r + length dst"
proof (induction "length r" arbitrary: r dst rule: less_induct)
  case less
  show ?case
  proof (cases r)
    case (Cons c cs)
    have tl1: "set (tl xs) \<subseteq> set xs" for xs :: "byte list" by (cases xs) auto
    have tl: "set (tl cs) \<subseteq> set cs" "set (tl (tl cs)) \<subseteq> set cs"
      using tl1 [of cs] tl1 [of "tl cs"] by auto
    have len: "length (tl cs) < length r" "length (tl (tl cs)) < length r" "length cs < length r"
      by (simp_all add: Cons less_Suc_eq_le)
    note A = less.hyps [OF len(1), of dst] and B = less.hyps [OF len(2), of "rewind_segment dst"]
      and C = less.hyps [OF len(3), of "dst @ [c]"]
    have "dots_list r dst \<in> {dots_list (tl cs) dst, dots_list (tl (tl cs)) (rewind_segment dst), dots_list cs (dst @ [c])}"
      unfolding Cons by (subst dots_list.simps) auto
    then consider "dots_list r dst = dots_list (tl cs) dst"
      | "dots_list r dst = dots_list (tl (tl cs)) (rewind_segment dst)"
      | "dots_list r dst = dots_list cs (dst @ [c])"
      by blast
    then show ?thesis
    proof cases
      case 1
      with A tl(1) Cons len(1) show ?thesis by auto
    next
      case 2
      with B tl(2) Cons len(2) rewind_segment_subset [of dst] show ?thesis by auto
    next
      case 3
      with C Cons show ?thesis by auto
    qed
  qed simp
qed

lemma copyPathRemovingDots_subset:
  "a \<le> b \<Longrightarrow> b \<le> length url \<Longrightarrow> set (copyPathRemovingDots url a b) \<subseteq> set (segment url a b)
     \<and> length (copyPathRemovingDots url a b) \<le> b - a"
proof (cases "a = b")
  case False
  assume "a \<le> b" "b \<le> length url"
  with False have s: "segment url a b = url ! a # segment url (a + 1) b" "at url a = url ! a"
    by (simp_all add: segment_step)
  have "copyPathRemovingDots url a b = dots_list (segment url (a + 1) b) [url ! a]"
    using False \<open>b \<le> length url\<close> s by (simp add: copyPathRemovingDots_def dots_loop_list)
  with dots_list_subset [of "segment url (a + 1) b" "[url ! a]"] s show ?thesis
    using \<open>a \<le> b\<close> \<open>b \<le> length url\<close> False by auto
qed (simp add: copyPathRemovingDots_def)

section \<open>The shape of a successful parse\<close>

lemma parse_ranges_shape:
  assumes "parse_ranges url = Some (buf, u)"
  obtains se a t where
    "se < length url" "url ! se = ch CHR '':''" "scheme_ok (segment url 0 se)"
    "in_http_family url = http_scheme (segment url 0 se)"
    "scan_authority url se (in_http_family url) (is_file url se) = Some a"
    "t = scan_tail url (au_portEnd a)"
    "a = no_authority (se + 1) \<or> (at url (se + 1) = ch CHR ''/'' \<and> authority_ok url se a)"
    "buf = url_text (parts_of url se (in_http_family url) (is_file url se) a t)"
    "u = url_offsets (parts_of url se (in_http_family url) (is_file url se) a t)"
proof -
  define se where "se = scan_while isSchemeChar url 0"
  from assms have ne: "url \<noteq> []" "isSchemeFirstChar (at url 0)" "at url se = ch CHR '':''"
    unfolding parse_ranges_def Let_def se_def by (auto split: if_splits)
  from assms ne obtain a where a: "scan_authority url se (in_http_family url) (is_file url se) = Some a"
    unfolding parse_ranges_def Let_def se_def [symmetric] by (auto split: option.splits)
  define t where "t = scan_tail url (au_portEnd a)"
  have res: "(buf, u) = assemble url se (in_http_family url) (is_file url se) a t"
    using assms ne a unfolding parse_ranges_def Let_def se_def [symmetric] t_def by simp
  have "se < length url" using ne(3) by (intro at_neq_0_less) simp
  then have colon: "url ! se = ch CHR '':''" using ne(3) by simp
  have chars: "\<forall>c\<in>set (segment url 0 se). isSchemeChar c"
    unfolding se_def by (rule segment_scan_while) simp
  have "se \<noteq> 0"
  proof
    assume "se = 0"
    with ne(2,3) colon_not_scheme show False by (simp add: class_iffs class_docs)
  qed
  then have "segment url 0 se \<noteq> []" "hd (segment url 0 se) = at url 0"
    using \<open>se < length url\<close> ne(1) by (auto simp: segment_def hd_conv_nth)
  with ne(2) chars have sok: "scheme_ok (segment url 0 se)" by (simp add: scheme_ok_def)
  have split: "url = segment url 0 se @ ch CHR '':'' # drop (Suc se) url"
    using id_take_nth_drop [OF \<open>se < length url\<close>] colon by (simp add: segment_def)
  have http: "in_http_family url = http_scheme (segment url 0 se)"
    by (subst split) (rule http_pieces [OF scheme_no_colon [OF sok]])
  have spec: "a = no_authority (se + 1) \<or> (at url (se + 1) = ch CHR ''/'' \<and> authority_ok url se a)"
    using a by (rule scan_authority_spec)
  have "au_passwordStart a \<le> au_passwordEnd a \<and> au_passwordEnd a \<le> length url"
    using spec \<open>se < length url\<close> by (auto simp: no_authority_def authority_ok_def)
  then have "assemble url se (in_http_family url) (is_file url se) a t
      = (url_text (parts_of url se (in_http_family url) (is_file url se) a t),
         url_offsets (parts_of url se (in_http_family url) (is_file url se) a t))"
    using \<open>se < length url\<close> http by (intro assemble_parts) simp_all
  with res show ?thesis
    using that [OF \<open>se < length url\<close> colon sok http a t_def spec] by simp
qed

lemma portEnd_le:
  "se < length url \<Longrightarrow> a = no_authority (se + 1) \<or> (X \<and> authority_ok url se a) \<Longrightarrow>
   se + 1 \<le> au_portEnd a \<and> au_portEnd a \<le> length url"
  by (auto simp: no_authority_def authority_ok_def)

section \<open>Offsets\<close>

text \<open>
  The state invariant of a \<open>KURL\<close>: the offsets of a valid URL are in the order of its
  parts and end at the end of its string; an invalid one has none.
\<close>

definition KURL_offsets_ok :: "KURL \<Rightarrow> bool" where
  "KURL_offsets_ok u \<longleftrightarrow>
     (if m_isValid u
      then 0 < m_schemeEnd u \<and> m_schemeEnd u < m_userStart u \<and> m_userStart u \<le> m_userEnd u
           \<and> m_userEnd u \<le> m_passwordEnd u
           \<and> (if m_passwordEnd u = m_userStart u then m_passwordEnd u else m_passwordEnd u + 1) \<le> m_hostEnd u
           \<and> m_hostEnd u \<le> m_portEnd u
           \<and> m_portEnd u \<le> m_pathAfterLastSlash u \<and> m_pathAfterLastSlash u \<le> m_pathEnd u
           \<and> m_pathEnd u \<le> m_queryEnd u \<and> m_queryEnd u \<le> m_fragmentEnd u
           \<and> m_fragmentEnd u = length (m_string u)
      else u = invalidate (m_string u))"

lemma last_slash_bounds: "p \<le> i \<Longrightarrow> p \<le> last_slash b p i \<and> last_slash b p i \<le> i"
proof (induction i)
  case (Suc i)
  then show ?case by (cases "p = Suc i") auto
qed simp

lemma url_offsets_valid [simp]: "m_isValid (url_offsets p)"
  by (simp add: url_offsets_def Let_def split: prod.splits)

lemma userinfo_length: "length (userinfo_text a) = length (upass_text a) + (if upass_text a = [] then 0 else 1)"
  by (simp add: userinfo_text_def)

lemma url_offsets_simps:
  "m_schemeEnd (url_offsets p) = length (pt_scheme p)"
  "m_protocolInHTTPFamily (url_offsets p) = http_scheme (pt_scheme p)"
  "m_portEnd (url_offsets p) = length (before_path p)"
  "m_pathEnd (url_offsets p) = length (before_path p) + length (pt_path p)"
  "m_queryEnd (url_offsets p) = length (before_path p) + length (pt_path p) + length (pt_query p)"
  "m_fragmentEnd (url_offsets p) = length (url_text p)"
  "m_pathAfterLastSlash (url_offsets p) =
     last_slash (before_path p @ pt_path p) (length (before_path p)) (length (before_path p) + length (pt_path p))"
  by (simp_all add: url_offsets_def Let_def split: prod.splits)

lemma url_offsets_auth:
  "pt_auth p = Some a \<Longrightarrow>
   m_userStart (url_offsets p) = length (pt_scheme p) + 3 \<and>
   m_userEnd (url_offsets p) = length (pt_scheme p) + 3 + length (pt_user a) \<and>
   m_passwordEnd (url_offsets p) = length (pt_scheme p) + 3 + length (upass_text a) \<and>
   m_hostEnd (url_offsets p) = length (pt_scheme p) + 3 + length (userinfo_text a) + length (pt_host a)"
  "pt_auth p = None \<Longrightarrow>
   m_userStart (url_offsets p) = length (pt_scheme p) + 1 \<and>
   m_userEnd (url_offsets p) = length (pt_scheme p) + 1 \<and>
   m_passwordEnd (url_offsets p) = length (pt_scheme p) + 1 \<and>
   m_hostEnd (url_offsets p) = length (pt_scheme p) + 1"
  by (simp_all add: url_offsets_def Let_def)

lemma before_path_length:
  "pt_auth p = Some a \<Longrightarrow> length (before_path p) =
     length (pt_scheme p) + 3 + length (userinfo_text a) + length (pt_host a) + length (port_text a)"
  "pt_auth p = None \<Longrightarrow> length (before_path p) = length (pt_scheme p) + 1"
  by (simp_all add: before_path_def auth_text_def)

lemma url_offsets_ok:
  assumes "pt_scheme p \<noteq> []" "length s = length (url_text p)"
  shows "KURL_offsets_ok ((url_offsets p)\<lparr>m_string := s\<rparr>)"
proof -
  have ls: "length (before_path p) \<le> m_pathAfterLastSlash (url_offsets p) \<and>
      m_pathAfterLastSlash (url_offsets p) \<le> length (before_path p) + length (pt_path p)"
    unfolding url_offsets_simps by (rule last_slash_bounds) simp
  have "length (url_text p) = length (before_path p) + length (pt_path p) + length (pt_query p) + length (fragment_text p)"
    by (simp add: url_text_def)
  then show ?thesis
    using assms ls
    by (cases "pt_auth p")
      (auto simp: KURL_offsets_ok_def url_offsets_simps url_offsets_auth before_path_length userinfo_length upass_text_def)
qed

lemma parse_offsets: "KURL_offsets_ok (parse url originalString)"
proof (cases "parse_ranges url")
  case None
  then show ?thesis by (simp add: parse_def KURL_offsets_ok_def invalidate_def)
next
  case (Some r)
  obtain buf u where r: "r = (buf, u)" by (meson surj_pair)
  obtain p where p: "pt_scheme p \<noteq> []" "buf = url_text p" "u = url_offsets p"
    using Some [unfolded r]
    by (rule parse_ranges_shape) (metis parts_of_def scheme_ok_def url_parts.simps(1))
  show ?thesis
    using Some p r
    by (simp add: parse_def) (auto intro!: url_offsets_ok simp: url_offsets_simps latin1_def split: option.splits)
qed

text \<open>C2: Whatever the input and the original string, the parser returns a \<open>KURL\<close> whose offsets
  are ordered and end at the end of its string, or an invalid one with all offsets 0.\<close>

theorem parse_offsets_ok: "KURL_offsets_ok (parse url originalString)"
  by (rule parse_offsets)

section \<open>The output buffer\<close>

lemma scan_tail_end: "i \<le> length url \<Longrightarrow> ta_fragmentEnd (scan_tail url i) = length url"
proof -
  assume i: "i \<le> length url"
  define pe where "pe = scan_while (\<lambda>c. c \<noteq> ch CHR ''?'' \<and> c \<noteq> ch CHR ''#'') url i"
  define qe where "qe = (if at url pe = ch CHR ''?'' then scan_while (\<lambda>c. c \<noteq> ch CHR ''#'') url pe else pe)"
  have pe: "pe \<le> length url" "pe = length url \<or> url ! pe = ch CHR ''?'' \<or> url ! pe = ch CHR ''#''"
    using i scan_while_le [OF i] scan_while_stop [of "\<lambda>c. c \<noteq> ch CHR ''?'' \<and> c \<noteq> ch CHR ''#''" url i]
    unfolding pe_def by (auto simp: le_less)
  have qe: "qe \<le> length url" "qe = length url \<or> url ! qe = ch CHR ''#''"
    using pe scan_while_le [OF pe(1)] scan_while_stop [of "\<lambda>c. c \<noteq> ch CHR ''#''" url pe]
    unfolding qe_def by (auto simp: le_less at_def split: if_splits)
  have all: "scan_while (\<lambda>_. True) url (qe + 1) = length url" if "qe < length url"
    using that by (intro scan_while_eqI) simp_all
  show ?thesis
    using qe all unfolding scan_tail_def Let_def pe_def [symmetric] qe_def [symmetric]
    by (auto simp: at_def split: if_splits)
qed

lemma segment_length_le: "length (segment s a b) \<le> b - a"
  by simp

lemma authority_length:
  assumes "authority_ok url se a"
  shows "length (auth_text (auth_of url a d)) \<le> au_portEnd a - au_userStart a"
proof -
  define us where "us = length (segment url (au_userStart a) (au_userEnd a))"
  define pw where "pw = length (segment url (au_passwordStart a) (au_passwordEnd a))"
  have len: "us = au_userEnd a - au_userStart a" "pw = au_passwordEnd a - au_passwordStart a"
    using assms by (auto simp: us_def pw_def authority_ok_def)
  have pass: "pt_pass (auth_of url a d) = [] \<longleftrightarrow> pw = 0" "length (pt_pass (auth_of url a d)) = pw"
      "length (pt_user (auth_of url a d)) = us"
    unfolding auth_of_def auth_parts.simps pw_def us_def by (simp_all only: length_0_conv)
  have up: "length (upass_text (auth_of url a d)) = us + (if pw = 0 then 0 else pw + 1)"
    using pass by (simp add: upass_text_def)
  then have ui: "length (userinfo_text (auth_of url a d)) = us + (if pw = 0 then 0 else pw + 1) + (if us = 0 \<and> pw = 0 then 0 else 1)"
    unfolding userinfo_length by (cases "upass_text (auth_of url a d) = []") (auto split: if_splits)
  have h: "length (pt_host (auth_of url a d)) \<le> au_hostEnd a - au_hostStart a"
    by (simp add: auth_of_def)
  have po: "length (port_text (auth_of url a d)) \<le> au_portEnd a - au_hostEnd a"
    using assms by (auto simp: auth_of_def port_text_def authority_ok_def)
  have "length (userinfo_text (auth_of url a d)) \<le> au_hostStart a - au_userStart a"
    unfolding ui len using assms by (auto simp: authority_ok_def)
  with h po show ?thesis
    using assms unfolding auth_text_def length_append authority_ok_def by linarith
qed

lemma no_authority_text: "auth_text (auth_of url (no_authority n) d) = []"
  by (simp add: auth_text_def userinfo_text_def upass_text_def port_text_def auth_of_def no_authority_def)

text \<open>C3: The parser never writes past its output buffer, which it allocates with three bytes
  for every byte of the URL and one more: escaping, "//" added to a file URL and "/" added to
  an empty path included.\<close>

theorem parse_fits_buffer:
  assumes "parse_ranges url = Some (buf, u)"
  shows "length buf \<le> length url * 3 + 1"
  using assms
proof (rule parse_ranges_shape)
  fix se a t
  let ?h = "in_http_family url" and ?f = "is_file url se"
  assume se: "se < length url"
    and t: "t = scan_tail url (au_portEnd a)"
    and a: "a = no_authority (se + 1) \<or> (at url (se + 1) = ch CHR ''/'' \<and> authority_ok url se a)"
    and buf: "buf = url_text (parts_of url se ?h ?f a t)"
  define p where "p = parts_of url se ?h ?f a t"
  define po where "po = au_portEnd a"
  have po: "se + 1 \<le> po" "po \<le> length url" using portEnd_le [OF se a] by (simp_all add: po_def)
  have scheme: "length (pt_scheme p) = se" using se by (simp add: p_def parts_of_def)
  have before: "length (before_path p) \<le> po + 2"
  proof (cases "pt_auth p")
    case None
    with po scheme show ?thesis by (simp add: before_path_length)
  next
    case (Some b)
    then have b: "b = auth_of url a (drops_host url ?f a)"
      by (simp add: p_def parts_of_def split: if_splits)
    have "length (auth_text b) \<le> po - (se + 1)"
    proof (cases "a = no_authority (se + 1)")
      case True
      then show ?thesis by (simp add: b no_authority_text)
    next
      case False
      with a have ok: "authority_ok url se a" by blast
      then show ?thesis
        using authority_length [OF ok, of "drops_host url ?f a"] unfolding b po_def authority_ok_def
        by linarith
    qed
    then show ?thesis using po scheme Some by (simp add: before_path_def)
  qed
  note tail = scan_tail_spec [OF po(2), unfolded po_def, folded t]
  have "length (raw_path url se po (ta_pathEnd t)) \<le> ta_pathEnd t - po"
    using copyPathRemovingDots_subset [of po "ta_pathEnd t" url] tail(1) by (simp add: raw_path_def po_def)
  moreover have added: "length (added_slash url se ?h (au_portEnd a) (ta_pathEnd t)) \<le> 1"
    by (simp add: added_slash_def)
  ultimately have path: "length (pt_path p) \<le> 1 + 3 * (ta_pathEnd t - po)"
    using appendEscapingBadChars_length [of "raw_path url se po (ta_pathEnd t)"] added
    unfolding p_def parts_of_def url_parts.simps length_append po_def by linarith
  have query: "length (pt_query p) \<le> 3 * (ta_queryEnd t - ta_pathEnd t)"
    using appendEscapingBadChars_length [of "segment url (ta_pathEnd t) (ta_queryEnd t)"]
      segment_length_le [of url "ta_pathEnd t" "ta_queryEnd t"]
    unfolding p_def parts_of_def url_parts.simps by linarith
  have frag: "length (fragment_text p) \<le> 3 * (ta_fragmentEnd t - ta_queryEnd t)"
    using appendEscapingBadChars_length [of "segment url (ta_fragmentStart t) (ta_fragmentEnd t)"]
      segment_length_le [of url "ta_fragmentStart t" "ta_fragmentEnd t"] tail(1)
    by (auto simp: p_def parts_of_def fragment_text_def)
  have fe: "ta_fragmentEnd t = length url"
    unfolding t using po by (intro scan_tail_end) (simp add: po_def)
  have "length buf = length (before_path p) + length (pt_path p) + length (pt_query p) + length (fragment_text p)"
    by (simp add: buf p_def url_text_def)
  then show ?thesis
    using before path query frag po tail(1) fe unfolding po_def by linarith
qed

theorem parse_fits_buffer_witness:
  "length (lit ''ab:%3C%3E'' :: byte list) \<le> length (lit ''ab:<>'' :: byte list) * 3 + 1"
proof (rule parse_fits_buffer)
  show "parse_ranges (lit ''ab:<>'') = Some (lit ''ab:%3C%3E'', snd (the (parse_ranges (lit ''ab:<>''))))"
    by code_simp
qed

section \<open>The characters of a valid URL\<close>

lemma scheme_char_clean: "isSchemeChar c \<Longrightarrow> clean_char c"
  by (auto simp: clean_char_def class_iffs class_docs)

lemma userinfo_char_clean: "isUserInfoChar c \<Longrightarrow> clean_char c"
  by (auto simp: clean_char_def class_iffs class_docs byte_eq_iff)

lemma hostname_char_clean: "isHostnameChar c \<Longrightarrow> clean_char c"
  by (rule userinfo_char_clean) (rule hostname_is_userinfo)

lemma IPv6_char_clean: "isIPv6Char c \<Longrightarrow> clean_char c"
  by (auto simp: clean_char_def class_iffs class_docs byte_eq_iff)

lemma delimiter_clean:
  "clean_char (ch CHR '':'')" "clean_char (ch CHR ''/'')" "clean_char (ch CHR ''@'')"
  "clean_char (ch CHR ''['')" "clean_char (ch CHR '']'')"
  by (simp_all add: clean_char_def class_iffs class_docs)

lemma host_clean: "host_ok h \<Longrightarrow> \<forall>c\<in>set h. clean_char c"
proof (erule host_cases)
  fix v
  assume "h = ch CHR ''['' # v @ [ch CHR '']'']" "\<forall>c\<in>set v. isIPv6Char c"
  then show ?thesis using IPv6_char_clean delimiter_clean(4,5) by (auto simp del: of_char_of)
qed (auto intro: hostname_char_clean)

lemma auth_clean: "auth_ok a \<Longrightarrow> \<forall>c\<in>set (auth_text a). clean_char c"
proof -
  assume a: "auth_ok a"
  have "\<forall>c\<in>set (upass_text a). clean_char c"
    using a delimiter_clean(1) userinfo_char_clean
    by (auto simp: auth_ok_def upass_text_def split: if_splits)
  then have "\<forall>c\<in>set (userinfo_text a). clean_char c"
    using delimiter_clean(3) by (auto simp: userinfo_text_def)
  moreover have "\<forall>c\<in>set (pt_host a). clean_char c"
    using a host_clean [of "pt_host a"] by (simp add: auth_ok_def)
  moreover have "\<forall>c\<in>set (port_text a). clean_char c"
    using port_text_userinfo [OF a] userinfo_char_clean by blast
  ultimately show ?thesis by (auto simp: auth_text_def)
qed

lemma auth_of_ok: "authority_ok url se a \<Longrightarrow> auth_ok (auth_of url a d)"
proof -
  assume ok: "authority_ok url se a"
  then have le: "au_userEnd a \<le> length url" "au_passwordEnd a \<le> length url" "au_portEnd a \<le> length url"
    by (simp_all add: authority_ok_def)
  have "\<forall>c\<in>set (segment url (au_userStart a) (au_userEnd a)). isUserInfoChar c \<and> c \<noteq> ch CHR '':''"
    unfolding segment_all_iff [OF le(1)] using ok by (simp add: authority_ok_def)
  moreover have "\<forall>c\<in>set (segment url (au_passwordStart a) (au_passwordEnd a)). isUserInfoChar c"
    unfolding segment_all_iff [OF le(2)] using ok by (simp add: authority_ok_def)
  moreover have "\<forall>c\<in>set (segment url (au_portStart a) (au_portEnd a)). isASCIIDigit c"
    unfolding segment_all_iff [OF le(3)] using ok by (simp add: authority_ok_def)
  moreover have "host_ok (if d then [] else segment url (au_hostStart a) (au_hostEnd a))"
    using ok by (simp add: authority_ok_def host_ok_def)
  ultimately show ?thesis
    unfolding auth_ok_def auth_of_def auth_parts.simps by (intro conjI) (auto split: option.splits if_splits)
qed

lemma no_authority_ok: "auth_ok (auth_of url (no_authority n) d)"
  by (simp add: auth_ok_def auth_of_def no_authority_def host_ok_def)

lemma raw_path_subset:
  "po \<le> pe \<Longrightarrow> pe \<le> length url \<Longrightarrow> set (raw_path url se po pe) \<subseteq> set (segment url po pe)"
  using copyPathRemovingDots_subset [of po pe url] by (simp add: raw_path_def)

lemma parts_of_ok:
  assumes se: "se < length url" and nul: "0 \<notin> set url"
    and t: "t = scan_tail url (au_portEnd a)"
    and a: "a = no_authority (se + 1) \<or> (at url (se + 1) = ch CHR ''/'' \<and> authority_ok url se a)"
  shows "tail_ok (parts_of url se h f a t) \<and> auth_ok (auth_of url a d)"
proof -
  define po where "po = au_portEnd a"
  have po: "se + 1 \<le> po" "po \<le> length url" using portEnd_le [OF se a] by (simp_all add: po_def)
  note tail = scan_tail_spec [OF po(2), unfolded po_def, folded t]
  define rp where "rp = raw_path url se po (ta_pathEnd t)"
  have sub: "set rp \<subseteq> set (segment url po (ta_pathEnd t))"
    unfolding rp_def using tail(1) by (intro raw_path_subset) (simp_all add: po_def)
  then have "0 \<notin> set rp" "ch CHR ''?'' \<notin> set rp"
    using nul tail(2) set_segment_subset [of url po "ta_pathEnd t"] by (auto simp: po_def)
  then have path: "\<forall>c\<in>set (appendEscapingBadChars rp). clean_char c \<and> c \<noteq> ch CHR ''?''"
    using appendEscapingBadChars_clean by blast
  define q where "q = segment url (ta_pathEnd t) (ta_queryEnd t)"
  have "0 \<notin> set q" using nul set_segment_subset [of url "ta_pathEnd t" "ta_queryEnd t"] by (auto simp: q_def)
  then have query: "\<forall>c\<in>set (appendEscapingBadChars q). clean_char c"
    using appendEscapingBadChars_clean by blast
  have qhd: "appendEscapingBadChars q = [] \<or> hd (appendEscapingBadChars q) = ch CHR ''?''"
  proof (cases "ta_pathEnd t = ta_queryEnd t")
    case True
    then show ?thesis by (simp add: q_def appendEscapingBadChars_def)
  next
    case False
    with tail have "q = ch CHR ''?'' # segment url (ta_pathEnd t + 1) (ta_queryEnd t)"
      unfolding q_def by (subst segment_step) auto
    then show ?thesis by (simp add: appendEscapingBadChars_def escape_bad_def class_iffs class_docs)
  qed
  define fr where "fr = segment url (ta_fragmentStart t) (ta_fragmentEnd t)"
  have "0 \<notin> set fr" using nul set_segment_subset [of url "ta_fragmentStart t" "ta_fragmentEnd t"] by (auto simp: fr_def)
  then have frag: "\<forall>c\<in>set (appendEscapingBadChars fr). clean_char c"
    using appendEscapingBadChars_clean by blast
  have "tail_ok (parts_of url se h f a t)"
    using path query qhd frag delimiter_clean(2)
    unfolding tail_ok_def parts_of_def url_parts.simps q_def [symmetric] fr_def [symmetric]
      po_def [symmetric] rp_def [symmetric]
    by (auto simp: added_slash_def)
  moreover have "auth_ok (auth_of url a d)"
    using a auth_of_ok no_authority_ok by blast
  ultimately show ?thesis by simp
qed

lemma url_text_clean:
  assumes "scheme_ok (pt_scheme p)" "tail_ok p" "\<And>a. pt_auth p = Some a \<Longrightarrow> auth_ok a"
  shows "(\<forall>c\<in>set (before_path p @ pt_path p @ pt_query p). clean_char c)
    \<and> (\<forall>c\<in>set (tl (fragment_text p)). clean_char c)"
proof -
  have "\<forall>c\<in>set (pt_scheme p). clean_char c"
    using assms(1) scheme_char_clean by (auto simp: scheme_ok_def)
  moreover have "\<forall>c\<in>set (case pt_auth p of None \<Rightarrow> [] | Some a \<Rightarrow> lit ''//'' @ auth_text a). clean_char c"
    using assms(3) auth_clean delimiter_clean(2) by (cases "pt_auth p") auto
  ultimately show ?thesis
    using assms(2) delimiter_clean(1)
    by (auto simp: before_path_def tail_ok_def fragment_text_def split: option.splits)
qed

lemma clean_range: "clean_char c \<Longrightarrow> 0x20 < c \<and> c < 0x7F \<and> c \<noteq> ch CHR ''#'' \<and> c \<noteq> 0x22
    \<and> c \<noteq> ch CHR ''<'' \<and> c \<noteq> ch CHR ''>''"
  by (auto simp: clean_char_def class_iffs class_docs word_less_nat_alt byte_eq_iff)

lemma parse_parts:
  assumes "m_isValid (parse url originalString)" "0 \<notin> set url"
  obtains p se a t where "parse_ranges url = Some (url_text p, url_offsets p)"
    "scheme_ok (pt_scheme p)" "tail_ok p" "\<And>b. pt_auth p = Some b \<Longrightarrow> auth_ok b"
    "p = parts_of url se (in_http_family url) (is_file url se) a t" "se < length url"
    "in_http_family url = http_scheme (pt_scheme p)"
    "t = scan_tail url (au_portEnd a)"
    "a = no_authority (se + 1) \<or> (at url (se + 1) = ch CHR ''/'' \<and> authority_ok url se a)"
    "is_file url se = file_scheme (pt_scheme p)"
proof -
  obtain buf u where r: "parse_ranges url = Some (buf, u)"
    using assms(1) by (cases "parse_ranges url") (auto simp: parse_def invalidate_def)
  from r show ?thesis
  proof (rule parse_ranges_shape)
    fix se a t
    let ?p = "parts_of url se (in_http_family url) (is_file url se) a t"
    assume *: "se < length url" "url ! se = ch CHR '':''" "scheme_ok (segment url 0 se)"
      "in_http_family url = http_scheme (segment url 0 se)"
      "t = scan_tail url (au_portEnd a)"
      "a = no_authority (se + 1) \<or> (at url (se + 1) = ch CHR ''/'' \<and> authority_ok url se a)"
      "buf = url_text ?p" "u = url_offsets ?p"
    have ok: "tail_ok ?p" "auth_ok (auth_of url a d)" for d
      using parts_of_ok [OF *(1) assms(2) *(5,6)] by blast+
    have sch: "pt_scheme ?p = segment url 0 se" by (simp add: parts_of_def)
    have au: "auth_ok b" if "pt_auth ?p = Some b" for b
      using that ok(2) by (auto simp: parts_of_def split: if_splits)
    have f: "is_file url se = file_scheme (pt_scheme ?p)"
      using file_pieces [of "segment url 0 se" "drop se url"] *(1) unfolding sch by (simp add: segment_def)
    have r': "parse_ranges url = Some (url_text ?p, url_offsets ?p)" using r unfolding *(7,8) .
    have s': "scheme_ok (pt_scheme ?p)" using *(3) unfolding sch .
    have h': "in_http_family url = http_scheme (pt_scheme ?p)" using *(4) unfolding sch .
    show ?thesis by (rule that [OF r' s' ok(1) au refl *(1) h' *(5,6) f])
  qed
qed

lemma latin1_nth: "i < length s \<Longrightarrow> latin1 s ! i = ucast (s ! i)"
  by (simp add: latin1_def)

lemma latin1_length [simp]: "length (latin1 s) = length s"
  by (simp add: latin1_def)

lemma unat_ucast_byte: "unat (ucast (c::byte) :: uchar) = unat c"
proof -
  have "unat c < 2 ^ 8" using unsigned_less [of c] by simp
  then have "unat c < 2 ^ 16" by simp
  then show ?thesis by (simp add: unsigned_ucast_eq take_bit_nat_eq_self)
qed

lemma ucast_byte_eq: "(ucast (c::byte) :: uchar) = ucast d \<longleftrightarrow> c = d"
  by (simp add: word_unat_eq_iff unat_ucast_byte)

lemma ucast_byte_less: "(ucast (c::byte) :: uchar) < ucast d \<longleftrightarrow> c < d"
  by (simp add: word_less_nat_alt unat_ucast_byte)

text \<open>The string of parts, with its delimiters.\<close>

definition canonical_string :: "KURL \<Rightarrow> bool" where
  "canonical_string u \<longleftrightarrow> (\<forall>i<length (m_string u). 0x20 < m_string u ! i \<and> m_string u ! i < 0x7F
      \<and> m_string u ! i \<noteq> 0x22 \<and> m_string u ! i \<noteq> ch CHR ''<'' \<and> m_string u ! i \<noteq> ch CHR ''>''
      \<and> (m_string u ! i = ch CHR ''#'' \<longrightarrow> i = m_queryEnd u))
    \<and> m_string u ! m_schemeEnd u = ch CHR '':''
    \<and> (m_pathEnd u < m_queryEnd u \<longrightarrow> m_string u ! m_pathEnd u = ch CHR ''?'')
    \<and> (m_queryEnd u < m_fragmentEnd u \<longrightarrow> m_string u ! m_queryEnd u = ch CHR ''#'')"

lemma url_text_characters:
  assumes p: "scheme_ok (pt_scheme p)" "tail_ok p" "\<And>b. pt_auth p = Some b \<Longrightarrow> auth_ok b" and i: "i < length (url_text p)"
  shows "clean_char (url_text p ! i) \<or> (i = m_queryEnd (url_offsets p) \<and> url_text p ! i = ch CHR ''#'')"
proof -
  define pre where "pre = before_path p @ pt_path p @ pt_query p"
  have eq: "url_text p = pre @ fragment_text p" by (simp add: pre_def url_text_def)
  have qe: "m_queryEnd (url_offsets p) = length pre" by (simp add: url_offsets_simps pre_def)
  note clean = url_text_clean [OF p, folded pre_def]
  show ?thesis
  proof (cases "i < length pre")
    case True
    then show ?thesis using clean by (simp add: eq nth_append)
  next
    case False
    with i obtain f where f: "pt_fragment p = Some f" by (auto simp: eq fragment_text_def split: option.splits)
    then show ?thesis
      using clean False i qe by (cases "i - length pre") (auto simp: eq nth_append fragment_text_def)
  qed
qed

lemma url_text_delimiters:
  assumes "tail_ok p"
  shows "url_text p ! m_schemeEnd (url_offsets p) = ch CHR '':''"
    "m_pathEnd (url_offsets p) < m_queryEnd (url_offsets p) \<Longrightarrow> url_text p ! m_pathEnd (url_offsets p) = ch CHR ''?''"
    "m_queryEnd (url_offsets p) < m_fragmentEnd (url_offsets p) \<Longrightarrow> url_text p ! m_queryEnd (url_offsets p) = ch CHR ''#''"
proof -
  show "url_text p ! m_schemeEnd (url_offsets p) = ch CHR '':''"
    by (simp add: url_offsets_simps url_text_def before_path_def nth_append)
  show "url_text p ! m_pathEnd (url_offsets p) = ch CHR ''?''" if "m_pathEnd (url_offsets p) < m_queryEnd (url_offsets p)"
  proof -
    have "pt_query p \<noteq> []" using that by (auto simp: url_offsets_simps)
    then show ?thesis using assms by (auto simp: tail_ok_def url_offsets_simps url_text_def nth_append hd_conv_nth)
  qed
  show "url_text p ! m_queryEnd (url_offsets p) = ch CHR ''#''" if "m_queryEnd (url_offsets p) < m_fragmentEnd (url_offsets p)"
    using that by (auto simp: url_offsets_simps url_text_def nth_append fragment_text_def split: option.splits)
qed

lemma canonical_parts:
  assumes p: "scheme_ok (pt_scheme p)" "tail_ok p" "\<And>b. pt_auth p = Some b \<Longrightarrow> auth_ok b"
  shows "canonical_string (url_of p)"
proof -
  have u: "m_string (url_of p) = latin1 (url_text p)" "m_schemeEnd (url_of p) = m_schemeEnd (url_offsets p)"
    "m_pathEnd (url_of p) = m_pathEnd (url_offsets p)" "m_queryEnd (url_of p) = m_queryEnd (url_offsets p)"
    "m_fragmentEnd (url_of p) = m_fragmentEnd (url_offsets p)"
    by (simp_all add: url_of_def)
  have le: "m_schemeEnd (url_offsets p) < length (url_text p)" "m_queryEnd (url_offsets p) \<le> length (url_text p)"
    "m_fragmentEnd (url_offsets p) = length (url_text p)"
    by (simp_all add: url_offsets_simps url_text_def before_path_def)
  have delim: "(ucast (0x20::byte) :: uchar) = 0x20" "(ucast (0x7F::byte) :: uchar) = 0x7F"
      "(ucast (0x22::byte) :: uchar) = 0x22" "(ucast (ch CHR ''<''::byte) :: uchar) = ch CHR ''<''"
      "(ucast (ch CHR ''>''::byte) :: uchar) = ch CHR ''>''" "(ucast (ch CHR ''#''::byte) :: uchar) = ch CHR ''#''"
      "(ucast (ch CHR '':''::byte) :: uchar) = ch CHR '':''" "(ucast (ch CHR ''?''::byte) :: uchar) = ch CHR ''?''"
    by simp_all
  have chars: "0x20 < latin1 (url_text p) ! i \<and> latin1 (url_text p) ! i < 0x7F \<and> latin1 (url_text p) ! i \<noteq> 0x22
      \<and> latin1 (url_text p) ! i \<noteq> ch CHR ''<'' \<and> latin1 (url_text p) ! i \<noteq> ch CHR ''>''
      \<and> (latin1 (url_text p) ! i = ch CHR ''#'' \<longrightarrow> i = m_queryEnd (url_offsets p))"
    if i: "i < length (url_text p)" for i
    using url_text_characters [OF p i] clean_range [of "url_text p ! i"]
    unfolding latin1_nth [OF i] delim [symmetric] ucast_byte_eq ucast_byte_less by auto
  have nth: "latin1 (url_text p) ! i = ucast c" if "url_text p ! i = c" "i < length (url_text p)" for i c
    using that by (simp only: latin1_nth)
  show ?thesis
    unfolding canonical_string_def u latin1_length
  proof (intro conjI impI)
    show "\<forall>i<length (url_text p). 0x20 < latin1 (url_text p) ! i \<and> latin1 (url_text p) ! i < 0x7F \<and> latin1 (url_text p) ! i \<noteq> 0x22
      \<and> latin1 (url_text p) ! i \<noteq> ch CHR ''<'' \<and> latin1 (url_text p) ! i \<noteq> ch CHR ''>''
      \<and> (latin1 (url_text p) ! i = ch CHR ''#'' \<longrightarrow> i = m_queryEnd (url_offsets p))"
      using chars by blast
    show "latin1 (url_text p) ! m_schemeEnd (url_offsets p) = ch CHR '':''"
      unfolding delim [symmetric] using url_text_delimiters(1) [OF p(2)] le(1) by (rule nth)
    assume q: "m_pathEnd (url_offsets p) < m_queryEnd (url_offsets p)"
    show "latin1 (url_text p) ! m_pathEnd (url_offsets p) = ch CHR ''?''"
      unfolding delim [symmetric] using url_text_delimiters(2) [OF p(2) q] less_le_trans [OF q le(2)] by (rule nth)
  next
    assume f: "m_queryEnd (url_offsets p) < m_fragmentEnd (url_offsets p)"
    show "latin1 (url_text p) ! m_queryEnd (url_offsets p) = ch CHR ''#''"
      unfolding delim [symmetric] using url_text_delimiters(3) [OF p(2) f] f [unfolded le(3)] by (rule nth)
  qed
qed

text \<open>C7: A valid URL, parsed from bytes alone or from the string of these bytes, is printable ASCII without
  quotes or angle brackets; its scheme ends at a colon, its query starts at a question mark and its
  fragment at a hash, the only one.\<close>

theorem parse_canonical_characters:
  assumes "m_isValid (parse url original)" and "0 \<notin> set url" and "original = None \<or> original = Some (latin1 url)"
  defines "u \<equiv> parse url original"
  shows "(\<forall>i<length (m_string u). 0x20 < m_string u ! i \<and> m_string u ! i < 0x7F
      \<and> m_string u ! i \<noteq> 0x22 \<and> m_string u ! i \<noteq> ch CHR ''<'' \<and> m_string u ! i \<noteq> ch CHR ''>''
      \<and> (m_string u ! i = ch CHR ''#'' \<longrightarrow> i = m_queryEnd u))
    \<and> m_string u ! m_schemeEnd u = ch CHR '':''
    \<and> (m_pathEnd u < m_queryEnd u \<longrightarrow> m_string u ! m_pathEnd u = ch CHR ''?'')
    \<and> (m_queryEnd u < m_fragmentEnd u \<longrightarrow> m_string u ! m_queryEnd u = ch CHR ''#'')"
  using assms(1,2)
proof (rule parse_parts)
  fix p
  assume r: "parse_ranges url = Some (url_text p, url_offsets p)"
    and p: "scheme_ok (pt_scheme p)" "tail_ok p" "\<And>b. pt_auth p = Some b \<Longrightarrow> auth_ok b"
  have "u = url_of p"
    using r assms(3) by (auto simp: u_def parse_def url_of_def)
  then show ?thesis using canonical_parts [OF p] unfolding canonical_string_def by blast
qed

theorem parse_canonical_characters_witness:
  "m_string (parse (lit ''http://h/a b#c#'') None) ! 14 = ch CHR ''#''"
proof -
  let ?u = "parse (lit ''http://h/a b#c#'') None"
  have u: "m_isValid ?u" "m_queryEnd ?u = 14" "m_fragmentEnd ?u = 19" "0 \<notin> set (lit ''http://h/a b#c#'' :: byte list)"
    by code_simp+
  have "m_queryEnd ?u < m_fragmentEnd ?u \<longrightarrow> m_string ?u ! m_queryEnd ?u = ch CHR ''#''"
    using parse_canonical_characters [OF u(1,4)] by blast
  then show ?thesis unfolding u(2,3) by (rule mp) simp
qed

end
