(* ===== verification/KURLIdempotent.thy ===== *)
theory KURLIdempotent
  imports KURLFacts
begin

text \<open>
  Parsing the string of a parsed URL: it gives the same \<open>KURL\<close> when the URL has a host; and
  the inputs for which it gives another one, with a host the first parse did not see.
\<close>

section \<open>Segments of an escaped path\<close>

lemma appendEscapingBadChars_append [simp]:
  "appendEscapingBadChars (a @ b) = appendEscapingBadChars a @ appendEscapingBadChars b"
  by (simp add: appendEscapingBadChars_def)

lemma appendEscapingBadChars_Nil [simp]: "appendEscapingBadChars [] = []"
  by (simp add: appendEscapingBadChars_def)

lemma appendEscapingBadChars_Cons: "appendEscapingBadChars (c # s) = escape_bad c @ appendEscapingBadChars s"
  by (simp add: appendEscapingBadChars_def)

lemma escape_slash [simp]: "escape_bad slash = [slash]"
  by (simp add: escape_bad_def slash_def class_iffs class_docs)

lemma escape_no_slash: "c \<noteq> slash \<Longrightarrow> slash \<notin> set (escape_bad c)"
  using hexDigits_clean [OF nibbles(1), of c] hexDigits_clean [OF nibbles(2), of c]
  by (auto simp: escape_bad_def hex_escape_def slash_def split: if_splits)

lemma append_escape_no_slash: "slash \<notin> set w \<Longrightarrow> slash \<notin> set (appendEscapingBadChars w)"
  using escape_no_slash by (induction w) (auto simp: appendEscapingBadChars_Cons)

lemma segs_escape: "segs (appendEscapingBadChars r) = map appendEscapingBadChars (segs r)"
proof (induction "length r" arbitrary: r rule: less_induct)
  case less
  define w where "w = takeWhile (\<lambda>c. c \<noteq> slash) r"
  have w: "slash \<notin> set w" by (auto simp: w_def dest: set_takeWhileD)
  show ?case
  proof (cases "dropWhile (\<lambda>c. c \<noteq> slash) r")
    case Nil
    then have "r = w" using takeWhile_dropWhile_id [of "\<lambda>c. c \<noteq> slash" r] unfolding w_def by (simp only: append_Nil2)
    then show ?thesis using w append_escape_no_slash [OF w] by (simp add: segs_single)
  next
    case (Cons x r')
    then have "x = slash" using hd_dropWhile [of "\<lambda>c. c \<noteq> slash" r] by simp
    then have r: "r = w @ slash # r'"
      using takeWhile_dropWhile_id [of "\<lambda>c. c \<noteq> slash" r] Cons by (simp add: w_def)
    have "segs (appendEscapingBadChars r') = map appendEscapingBadChars (segs r')"
      using r by (intro less) simp
    then show ?thesis
      using w append_escape_no_slash [OF w] by (simp add: r segs_append appendEscapingBadChars_Cons)
  qed
qed

text \<open>The three characters that the escaping deletes.\<close>

definition no_deleted :: "byte list \<Rightarrow> bool" where
  "no_deleted s \<longleftrightarrow> 0x09 \<notin> set s \<and> 0x0a \<notin> set s \<and> 0x0d \<notin> set s"

lemma escape_nonempty: "c \<noteq> 0x09 \<Longrightarrow> c \<noteq> 0x0a \<Longrightarrow> c \<noteq> 0x0d \<Longrightarrow> escape_bad c = [c] \<or> length (escape_bad c) = 3"
  by (simp add: escape_bad_def hex_escape_def)

lemma dot_segment_escape: "no_deleted s \<Longrightarrow> dot_segment (appendEscapingBadChars s) \<Longrightarrow> dot_segment s"
proof -
  assume s: "no_deleted s" and d: "dot_segment (appendEscapingBadChars s)"
  have len: "length s \<le> length (appendEscapingBadChars s)"
    using s
  proof (induction s)
    case (Cons c s)
    then show ?case using escape_nonempty [of c] by (auto simp: no_deleted_def appendEscapingBadChars_Cons)
  qed simp
  have d2: "length (appendEscapingBadChars s) \<le> 2" "appendEscapingBadChars s \<noteq> []" using d by (auto simp: dot_segment_def)
  consider "s = []" | c where "s = [c]" | c e where "s = [c, e]" | c e f t where "s = c # e # f # t"
    by (metis list.exhaust)
  then show ?thesis
  proof cases
    case (2 c)
    with s d d2 escape_nonempty [of c] show ?thesis by (auto simp: no_deleted_def appendEscapingBadChars_Cons)
  next
    case (3 c e)
    with s d d2 escape_nonempty [of c] escape_nonempty [of e] show ?thesis
      by (auto simp: no_deleted_def appendEscapingBadChars_Cons)
  qed (use len d2 in auto)
qed

section \<open>A path without "/." has no dot segments\<close>

lemma slash_dot_loop_found: "slash_dot_loop pc (pre @ slash # dot # post)"
proof (induction pre arbitrary: pc)
  case Nil
  then show ?case by (simp add: slash_def dot_def)
qed simp

lemma hasSlashDot_found: "hasSlashDotOrDotDot (pre @ slash # dot # post)"
proof (cases pre)
  case Nil
  then show ?thesis by (simp add: hasSlashDotOrDotDot_def slash_def dot_def)
next
  case (Cons c cs)
  then show ?thesis using slash_dot_loop_found [of c cs post] by (simp add: hasSlashDotOrDotDot_def)
qed

lemma no_slash_dot_segs:
  "\<not> hasSlashDotOrDotDot (pre @ slash # r @ post) \<Longrightarrow> s \<in> set (segs r) \<Longrightarrow> s = [] \<or> hd s \<noteq> dot"
proof (induction "length r" arbitrary: r pre s rule: less_induct)
  case less
  define w where "w = takeWhile (\<lambda>c. c \<noteq> slash) r"
  define d where "d = dropWhile (\<lambda>c. c \<noteq> slash) r"
  have r: "r = w @ d" by (simp add: w_def d_def)
  have first: "w = [] \<or> hd w \<noteq> dot"
  proof (rule ccontr)
    assume "\<not> (w = [] \<or> hd w \<noteq> dot)"
    then obtain t where "w = dot # t" by (cases w) auto
    with less.prems(1) hasSlashDot_found [of pre "t @ d @ post"] show False by (simp add: r)
  qed
  show ?case
  proof (cases d)
    case Nil
    then have "segs r = [w]" unfolding w_def d_def by (rule segs_last)
    with less.prems(2) first show ?thesis by simp
  next
    case (Cons x r')
    then have "x = slash" using hd_dropWhile [of "\<lambda>c. c \<noteq> slash" r] by (simp add: d_def)
    with Cons r have r': "r = w @ slash # r'" by simp
    have "slash \<notin> set w" by (auto simp: w_def dest: set_takeWhileD)
    then have segs: "segs r = w # segs r'" unfolding r' by (rule segs_append)
    have "s' = [] \<or> hd s' \<noteq> dot" if "s' \<in> set (segs r')" for s'
      using less.prems(1) that r' by (intro less.hyps [of r' "pre @ slash # w"]) simp_all
    with less.prems(2) first segs show ?thesis by auto
  qed
qed

lemma segs_subset: "s \<in> set (segs r) \<Longrightarrow> set s \<subseteq> set r"
proof (induction "length r" arbitrary: r rule: less_induct)
  case less
  show ?case
  proof (cases "dropWhile (\<lambda>c. c \<noteq> slash) r")
    case Nil
    with less.prems have "s = takeWhile (\<lambda>c. c \<noteq> slash) r" using segs_last [OF Nil] by simp
    then show ?thesis using set_takeWhileD by fastforce
  next
    case (Cons x r')
    have "set r' \<subseteq> set r" using Cons set_dropWhileD [of _ "\<lambda>c. c \<noteq> slash" r] by auto
    moreover have "segs r = takeWhile (\<lambda>c. c \<noteq> slash) r # segs r'" using Cons by (subst segs.simps) simp
    moreover have "length r' < length r" using Cons by (rule dropWhile_Cons_shrinks)
    ultimately show ?thesis
      using less.hyps [of r'] less.prems set_takeWhileD [of _ "\<lambda>c. c \<noteq> slash" r] by auto
  qed
qed

section \<open>The path of a URL with an authority\<close>

lemma remove_dot_segments_slash: "\<exists>r. remove_dot_segments st ss = slash # r"
  by (induction st ss rule: remove_dot_segments.induct) (simp_all add: render_stack_def)

lemma path_first_char:
  assumes ok: "authority_ok url se a" and t: "t = scan_tail url (au_portEnd a)" and nul: "0 \<notin> set url"
    and ne: "au_portEnd a \<noteq> ta_pathEnd t"
  shows "url ! au_portEnd a = slash \<and> au_portEnd a < length url"
proof -
  define po where "po = au_portEnd a"
  have po: "po \<le> length url" "isPathSegmentEndChar (at url po)" using ok by (simp_all add: authority_ok_def po_def)
  note tail = scan_tail_spec [OF po(1), unfolded po_def, folded t]
  have "po < ta_pathEnd t" using tail(1) ne by (simp add: po_def)
  then have lt: "po < length url" using tail(1) by simp
  have "url ! po \<in> set (segment url po (ta_pathEnd t))"
    using \<open>po < ta_pathEnd t\<close> tail(1) by (subst segment_step) auto
  with tail(2) have "url ! po \<noteq> ch CHR ''?''" "url ! po \<noteq> ch CHR ''#''" by (auto simp: po_def)
  moreover have "url ! po \<noteq> 0" using nul lt by (metis nth_mem)
  ultimately show ?thesis
    using po(2) lt by (auto simp: PathSegmentEnd_cases slash_def po_def)
qed

lemma raw_path_clean:
  assumes ok: "authority_ok url se a" and t: "t = scan_tail url (au_portEnd a)" and nul: "0 \<notin> set url"
    and ne: "au_portEnd a \<noteq> ta_pathEnd t" and h: "at url (se + 1) = ch CHR ''/''"
  shows "\<exists>r. raw_path url se (au_portEnd a) (ta_pathEnd t) = slash # r
    \<and> (\<forall>s\<in>set (segs r). \<not> dot_segment s)"
proof -
  define po where "po = au_portEnd a"
  define pe where "pe = ta_pathEnd t"
  have po: "url ! po = slash" "po < length url" using path_first_char [OF ok t nul ne] by (simp_all add: po_def)
  have "po \<le> length url" using po by simp
  note tail = scan_tail_spec [OF this, unfolded po_def, folded t]
  have pe: "po < pe" "pe \<le> length url" using tail(1) ne by (simp_all add: po_def pe_def)
  have seg: "segment url po pe = slash # segment url (po + 1) pe" using pe po by (subst segment_step) simp_all
  show ?thesis
  proof (cases "hasSlashDotOrDotDot url")
    case False
    have "url = take po url @ slash # segment url (po + 1) pe @ drop pe url"
    proof -
      have "drop po url = segment url po pe @ drop pe url"
        using pe append_take_drop_id [of "pe - po" "drop po url"] by (simp add: segment_def)
      then show ?thesis using append_take_drop_id [of po url] seg by simp
    qed
    with False have "\<not> hasSlashDotOrDotDot (take po url @ slash # segment url (po + 1) pe @ drop pe url)" by simp
    from no_slash_dot_segs [OF this] have "\<forall>s\<in>set (segs (segment url (po + 1) pe)). \<not> dot_segment s"
      by (force simp: dot_segment_def)
    with False seg show ?thesis by (auto simp: raw_path_def po_def pe_def)
  next
    case True
    have "copyPathRemovingDots url po pe = remove_dot_segments [] (segs (segment url (po + 1) pe))"
      using pe po by (intro copyPathRemovingDots_segs) (simp_all add: slash_def)
    moreover obtain r where "remove_dot_segments [] (segs (segment url (po + 1) pe)) = slash # r"
      using remove_dot_segments_slash by blast
    moreover have "\<forall>s\<in>set (segs (tl (remove_dot_segments [] (segs (segment url (po + 1) pe))))). \<not> dot_segment s"
      using segs_no_slash by (intro remove_dot_segments_clean) auto
    ultimately show ?thesis using True h by (simp add: raw_path_def po_def pe_def)
  qed
qed

lemma escaped_path_clean:
  "raw = slash # r \<Longrightarrow> \<forall>s\<in>set (segs r). \<not> dot_segment s \<Longrightarrow> no_deleted r \<Longrightarrow>
   appendEscapingBadChars raw = slash # appendEscapingBadChars r
   \<and> (\<forall>s\<in>set (segs (appendEscapingBadChars r)). \<not> dot_segment s)"
proof (intro conjI ballI)
  fix s
  assume *: "\<forall>s\<in>set (segs r). \<not> dot_segment s" "no_deleted r" "s \<in> set (segs (appendEscapingBadChars r))"
  then obtain x where "x \<in> set (segs r)" "s = appendEscapingBadChars x" by (auto simp: segs_escape)
  moreover have "no_deleted x" using \<open>x \<in> set (segs r)\<close> *(2) segs_subset by (auto simp: no_deleted_def)
  ultimately show "\<not> dot_segment s" using *(1) dot_segment_escape by blast
qed (simp add: appendEscapingBadChars_Cons)

section \<open>Idempotence\<close>

definition KURL_hostStart :: "KURL \<Rightarrow> nat" where
  "KURL_hostStart u = (if m_passwordEnd u = m_userStart u then m_passwordEnd u else m_passwordEnd u + 1)"

lemma hostStart_string [simp]: "KURL_hostStart (u\<lparr>m_string := s\<rparr>) = KURL_hostStart u"
  by (cases u) (simp add: KURL_hostStart_def)

lemma hostStart_offsets:
  "pt_auth p = Some b \<Longrightarrow> KURL_hostStart (url_offsets p) = length (pt_scheme p) + 3 + length (userinfo_text b)"
  "pt_auth p = None \<Longrightarrow> KURL_hostStart (url_offsets p) = length (pt_scheme p) + 1"
  unfolding KURL_hostStart_def by (simp_all add: url_offsets_auth userinfo_length)

lemma latin1_inverse: "copyASCII (latin1 t) = t"
proof -
  have "(ucast (ucast c :: uchar) :: byte) = c" for c
  proof -
    have "unat (ucast (ucast c :: uchar) :: byte) = take_bit LENGTH(8) (unat (ucast c :: uchar))"
      by (rule unsigned_ucast_eq)
    also have "\<dots> = unat c"
      using unsigned_less [of c, where 'a = nat] by (simp add: unat_ucast_byte take_bit_nat_eq_self)
    finally show ?thesis by (simp only: word_unat_eq_iff)
  qed
  then show ?thesis by (simp add: copyASCII_def latin1_def o_def map_idI)
qed

lemma cstr_id: "0 \<notin> set t \<Longrightarrow> cstr t = t"
  unfolding cstr_def takeWhile_eq_all_conv by auto

lemma parse_String_latin1: "0 \<notin> set t \<Longrightarrow> parse_String (latin1 t) = parse t None"
proof (cases "parse_ranges t")
  case None
  assume "0 \<notin> set t"
  with None show ?thesis by (simp add: parse_String_def latin1_inverse cstr_id parse_def)
next
  case (Some r)
  assume nul: "0 \<notin> set t"
  obtain buf u where r: "r = (buf, u)" by (meson surj_pair)
  have "(if length (latin1 t) = m_fragmentEnd u \<and> buf = take (m_fragmentEnd u) t then latin1 t else latin1 buf) = latin1 buf"
  proof (cases "length t = m_fragmentEnd u \<and> buf = take (m_fragmentEnd u) t")
    case True
    then have "buf = t" by (metis order_refl take_all)
    then show ?thesis by simp
  next
    case False
    then show ?thesis by (simp only: latin1_length if_False)
  qed
  then show ?thesis
    unfolding parse_String_def latin1_inverse cstr_id [OF nul] parse_def Some r by simp
qed

lemma url_text_nul:
  "scheme_ok (pt_scheme p) \<Longrightarrow> tail_ok p \<Longrightarrow> (\<And>a. pt_auth p = Some a \<Longrightarrow> auth_ok a) \<Longrightarrow> 0 \<notin> set (url_text p)"
proof
  assume *: "scheme_ok (pt_scheme p)" "tail_ok p" "\<And>a. pt_auth p = Some a \<Longrightarrow> auth_ok a" and 0: "0 \<in> set (url_text p)"
  have "0 \<in> set (before_path p @ pt_path p @ pt_query p) \<or> 0 \<in> set (tl (fragment_text p))"
    using 0 by (auto simp: url_text_def fragment_text_def split: option.splits)
  with url_text_clean [OF *] have "clean_char 0" by blast
  then show False by (simp add: clean_char_def)
qed

lemma no_authority_host: "pt_host (auth_of url (no_authority n) d) = []"
  unfolding auth_of_def no_authority_def url_authority.simps auth_parts.simps by simp

lemma parts_ok_of_parse:
  assumes p: "p = parts_of url se (in_http_family url) (is_file url se) a t"
    and ok: "scheme_ok (pt_scheme p)" "tail_ok p" "\<And>b. pt_auth p = Some b \<Longrightarrow> auth_ok b"
    and f: "\<not> is_file url se" "is_file url se = file_scheme (pt_scheme p)" "in_http_family url = http_scheme (pt_scheme p)"
    and t: "t = scan_tail url (au_portEnd a)"
    and a: "a = no_authority (se + 1) \<or> (at url (se + 1) = ch CHR ''/'' \<and> authority_ok url se a)"
    and nul: "0 \<notin> set url" "no_deleted url"
    and b: "pt_auth p = Some b" "pt_host b \<noteq> []"
  shows "parts_ok p"
proof -
  have b': "b = auth_of url a (drops_host url (is_file url se) a)"
    using b(1) by (simp add: p parts_of_def split: if_splits)
  have "a \<noteq> no_authority (se + 1)"
    using b(2) no_authority_host by (auto simp: b')
  with a have h: "at url (se + 1) = ch CHR ''/''" and aok: "authority_ok url se a" by blast+
  define po where "po = au_portEnd a"
  have "pt_path p \<noteq> [] \<longrightarrow> hd (pt_path p) = slash \<and> (\<forall>s\<in>set (segs (tl (pt_path p))). \<not> dot_segment s)"
    and http: "http_scheme (pt_scheme p) \<longrightarrow> pt_path p \<noteq> []"
  proof -
    have path: "pt_path p = added_slash url se (in_http_family url) po (ta_pathEnd t)
        @ appendEscapingBadChars (raw_path url se po (ta_pathEnd t))"
      by (simp add: p parts_of_def po_def)
    show "pt_path p \<noteq> [] \<longrightarrow> hd (pt_path p) = slash \<and> (\<forall>s\<in>set (segs (tl (pt_path p))). \<not> dot_segment s)"
    proof (cases "po = ta_pathEnd t")
      case True
      then have "raw_path url se po (ta_pathEnd t) = []" by (simp add: raw_path_def copyPathRemovingDots_def)
      then show ?thesis
        unfolding path by (simp add: added_slash_def slash_def segs_single dot_segment_def)
    next
      case False
      obtain r where r: "raw_path url se po (ta_pathEnd t) = slash # r" "\<forall>s\<in>set (segs r). \<not> dot_segment s"
        using raw_path_clean [OF aok t nul(1) _ h] False by (auto simp: po_def)
      have "po \<le> ta_pathEnd t" "ta_pathEnd t \<le> length url"
        using aok scan_tail_spec(1) [of po url, folded t [folded po_def]] by (simp_all add: authority_ok_def po_def)
      then have "set (slash # r) \<subseteq> set url"
        using raw_path_subset [of po "ta_pathEnd t" url se] set_segment_subset [of url] r(1) by fastforce
      then have "no_deleted r" using nul(2) by (auto simp: no_deleted_def)
      with escaped_path_clean [OF r] show ?thesis unfolding path using False by (simp add: added_slash_def)
    qed
    show "http_scheme (pt_scheme p) \<longrightarrow> pt_path p \<noteq> []"
    proof (cases "po = ta_pathEnd t")
      case True
      then show ?thesis unfolding path using h f(3) by (simp add: added_slash_def)
    next
      case False
      obtain r where r: "raw_path url se po (ta_pathEnd t) = slash # r"
        using raw_path_clean [OF aok t nul(1) _ h] False by (auto simp: po_def)
      then show ?thesis unfolding path by (simp add: appendEscapingBadChars_Cons)
    qed
  qed
  moreover have "\<forall>s\<in>set (segs (tl [])). \<not> dot_segment s" by (simp add: segs_single dot_segment_def)
  ultimately have "\<forall>s\<in>set (segs (tl (pt_path p))). \<not> dot_segment s" "pt_path p \<noteq> [] \<longrightarrow> hd (pt_path p) = slash"
    by (cases "pt_path p = []"; simp)+
  then show ?thesis
    using ok f b http unfolding parts_ok_def by (auto simp: auth_nonempty_def)
qed

text \<open>C1: A URL with a host that is not empty and a scheme other than file, parsed from bytes without NUL, tab, line feed and
  carriage return, reads back as itself: parsing the string of the parsed URL gives the same object, offsets included, as
  the callers of the \<open>ParsedURLString\<close> constructor rely on. The last three are deleted, and only after the dot segments were
  removed: a tab between two dots leaves a ".." in the path, which the next parse removes; such a URL does not read back.\<close>

theorem parse_idempotent:
  assumes "m_isValid (parse url None)" and "0 \<notin> set url" and "no_deleted url"
    and "\<not> is_file url (m_schemeEnd (parse url None))"
    and "KURL_hostStart (parse url None) < m_hostEnd (parse url None)"
  shows "parse_String (m_string (parse url None)) = parse url None"
  using assms(1,2)
proof (rule parse_parts)
  fix p se a t
  assume r: "parse_ranges url = Some (url_text p, url_offsets p)"
    and p: "scheme_ok (pt_scheme p)" "tail_ok p" "\<And>b. pt_auth p = Some b \<Longrightarrow> auth_ok b"
      "p = parts_of url se (in_http_family url) (is_file url se) a t" "se < length url"
      "in_http_family url = http_scheme (pt_scheme p)" "t = scan_tail url (au_portEnd a)"
      "a = no_authority (se + 1) \<or> (at url (se + 1) = ch CHR ''/'' \<and> authority_ok url se a)"
      "is_file url se = file_scheme (pt_scheme p)"
  have u: "parse url None = (url_offsets p)\<lparr>m_string := latin1 (url_text p)\<rparr>" using r by (simp add: parse_def)
  have "length (pt_scheme p) = se" using p(4,5) by (simp add: parts_of_def)
  then have f: "\<not> is_file url se" using assms(4) by (simp add: u url_offsets_simps)
  have "pt_auth p \<noteq> None"
    using assms(5) unfolding u hostStart_string
    by (cases "pt_auth p") (simp_all add: hostStart_offsets url_offsets_auth)
  then obtain b where b: "pt_auth p = Some b" by blast
  have host: "pt_host b \<noteq> []"
    using assms(5) b unfolding u hostStart_string by (auto simp: hostStart_offsets url_offsets_auth)
  have "parts_ok p"
    by (rule parts_ok_of_parse [OF p(4,1,2,3) f p(9,6,7,8) assms(2,3) b host])
  then have "parse_ranges (url_text p) = Some (url_text p, url_offsets p)" by (rule parse_ranges_parts)
  then have "parse (url_text p) None = parse url None" unfolding u by (simp add: parse_def)
  moreover have "0 \<notin> set (url_text p)" using p(1-3) by (rule url_text_nul)
  ultimately show ?thesis by (simp add: u parse_String_latin1)
qed

theorem parse_idempotent_witness:
  "parse_String (m_string (parse (lit ''HTTP://u:p@h:8/a/./b?x#y'') None)) = parse (lit ''HTTP://u:p@h:8/a/./b?x#y'') None"
proof (rule parse_idempotent)
  show "m_isValid (parse (lit ''HTTP://u:p@h:8/a/./b?x#y'') None)" by code_simp
  show "0 \<notin> set (lit ''HTTP://u:p@h:8/a/./b?x#y'' :: byte list)" by code_simp
  show "no_deleted (lit ''HTTP://u:p@h:8/a/./b?x#y'')" by code_simp
  show "\<not> is_file (lit ''HTTP://u:p@h:8/a/./b?x#y'') (m_schemeEnd (parse (lit ''HTTP://u:p@h:8/a/./b?x#y'') None))"
    by code_simp
  show "KURL_hostStart (parse (lit ''HTTP://u:p@h:8/a/./b?x#y'') None) < m_hostEnd (parse (lit ''HTTP://u:p@h:8/a/./b?x#y'') None)"
    by code_simp
qed

definition reads_back_with_host :: "byte list \<Rightarrow> ustring \<Rightarrow> bool" where
  "reads_back_with_host url h \<longleftrightarrow>
     (let u = parse url None; v = parse_String (m_string u)
      in m_isValid u \<and> m_hostEnd u = KURL_hostStart u
         \<and> segment (m_string v) (KURL_hostStart v) (m_hostEnd v) = h)"

text \<open>Without a host the string of a valid URL can name a host the URL itself does not
  have: "http:////evil" has an empty host and the string "http://evil", and so has
  "http:/.//evil", whose dot segment is removed. Parsing that string again finds the host.\<close>

theorem parse_not_idempotent:
  "reads_back_with_host (lit ''http:////evil'') (lit ''evil'') \<and> reads_back_with_host (lit ''http:/.//evil'') (lit ''evil'')"
proof
  show "reads_back_with_host (lit ''http:////evil'') (lit ''evil'')" by code_simp
  show "reads_back_with_host (lit ''http:/.//evil'') (lit ''evil'')" by code_simp
qed

end
