(* ===== verification/KURLOps.thy ===== *)
theory KURLOps
  imports KURLIdempotent
begin

text \<open>
  The operations on a parsed URL (src/webkit/WebCore/platform/KURL.cpp): escape sequences,
  accessors, setters, comparison, ports, and the free functions on URL strings. Text
  encodings belong to the codec library: a \<open>text_encoding\<close> holds what the URL code calls
  of one, and \<open>utf8\<close> is the one it names \<open>UTF8Encoding()\<close>.
\<close>

unbundle bit_operations_syntax

record text_encoding =
  enc_name :: string
  enc_isValid :: bool
  enc_decode :: "byte list \<Rightarrow> ustring"
  enc_encode :: "ustring \<Rightarrow> byte list"

section \<open>Escape sequences\<close>

definition hexDigitValue :: "uchar \<Rightarrow> uchar" where
  "hexDigitValue c = (if c < ch CHR ''A'' then c - ch CHR ''0'' else (c - ch CHR ''A'' + 10) AND 0xF)"

text \<open>The end of the run of escape codes at \<open>i\<close>.\<close>

function run_end :: "ustring \<Rightarrow> nat \<Rightarrow> nat" where
  "run_end str i =
     (if int (length str) - int i \<ge> 3 \<and> String_at str i = ch CHR ''%''
         \<and> isASCIIHexDigit (String_at str (i + 1)) \<and> isASCIIHexDigit (String_at str (i + 2))
      then run_end str (i + 3) else i)"
  by pat_completeness auto
termination
  by (relation "measure (\<lambda>(str, i). length str - i)") auto

declare run_end.simps [simp del]

definition run_bytes :: "ustring \<Rightarrow> nat \<Rightarrow> nat \<Rightarrow> byte list" where
  "run_bytes str i runLength =
     map (\<lambda>k. ucast (push_bit 4 (hexDigitValue (str ! (i + 3 * k + 1)))
                     OR hexDigitValue (str ! (i + 3 * k + 2)))) [0..<runLength]"

text \<open>The next "%" and the end of the run of escape codes it starts, which may be empty.\<close>

definition find_run :: "ustring \<Rightarrow> nat \<Rightarrow> (nat \<times> nat) option" where
  "find_run str searchPosition =
     (let pos = find_char str (ch CHR ''%'') (int searchPosition)
      in if pos < 0 then None else Some (nat pos, run_end str (nat pos)))"

definition decode_run :: "(byte list \<Rightarrow> ustring) \<Rightarrow> ustring \<Rightarrow> nat \<Rightarrow> nat \<Rightarrow> ustring" where
  "decode_run decode str run runEnd = decode (run_bytes str run ((runEnd - run) div 3))"

lemma run_end_ge: "i \<le> run_end str i"
proof (induction str i rule: run_end.induct)
  case (1 str i)
  then show ?case by (subst run_end.simps) auto
qed

lemma find_run_range: "find_run str i = Some (run, runEnd) \<Longrightarrow> i \<le> run \<and> run < length str \<and> run \<le> runEnd"
  using find_char_range [of "int i" str "ch CHR ''%''"] run_end_ge [of run str]
  by (auto simp: find_run_def Let_def split: if_splits)

function decode_loop ::
  "(byte list \<Rightarrow> ustring) \<Rightarrow> ustring \<Rightarrow> nat \<Rightarrow> nat \<Rightarrow> ustring \<Rightarrow> ustring" where
  "decode_loop decode str searchPosition decodedPosition result =
     (case find_run str searchPosition of
        None \<Rightarrow> result @ drop decodedPosition str
      | Some (run, runEnd) \<Rightarrow>
          if runEnd \<le> run then decode_loop decode str (searchPosition + 1) decodedPosition result
          else if decode_run decode str run runEnd = []
          then decode_loop decode str runEnd decodedPosition result
          else decode_loop decode str runEnd runEnd
                 (result @ segment str decodedPosition run @ decode_run decode str run runEnd))"
  by pat_completeness auto
termination
  by (relation "measure (\<lambda>(_, str, i, _). length str - i)") (auto dest!: find_run_range)

declare decode_loop.simps [simp del]

definition decodeURLEscapeSequences :: "text_encoding \<Rightarrow> ustring \<Rightarrow> text_encoding \<Rightarrow> ustring" where
  "decodeURLEscapeSequences utf8 str encoding =
     decode_loop (enc_decode (if enc_isValid encoding then encoding else utf8)) str 0 0 []"

definition encodeWithURLEscapeSequences :: "(ustring \<Rightarrow> byte list) \<Rightarrow> ustring \<Rightarrow> ustring" where
  "encodeWithURLEscapeSequences toUTF8 notEncodedString =
     latin1 (concat (map (\<lambda>c. if isBadChar c then hex_escape c else [c]) (toUTF8 notEncodedString)))"

section \<open>Accessors\<close>

definition hostStart :: "KURL \<Rightarrow> nat" where
  "hostStart u = (if m_passwordEnd u = m_userStart u then m_passwordEnd u else m_passwordEnd u + 1)"

definition hasPath :: "KURL \<Rightarrow> bool" where
  "hasPath u \<longleftrightarrow> m_pathEnd u \<noteq> m_portEnd u"

definition hasPort :: "KURL \<Rightarrow> bool" where
  "hasPort u \<longleftrightarrow> m_hostEnd u < m_portEnd u"

definition isHierarchical :: "KURL \<Rightarrow> bool" where
  "isHierarchical u \<longleftrightarrow> m_isValid u \<and> String_at (m_string u) (m_schemeEnd u + 1) = ch CHR ''/''"

definition lastPathComponent :: "KURL \<Rightarrow> ustring" where
  "lastPathComponent u =
     (if \<not> hasPath u then []
      else let end = (if String_at (m_string u) (m_pathEnd u - 1) = ch CHR ''/''
                      then int (m_pathEnd u) - 2 else int (m_pathEnd u) - 1);
               start = reverseFind_char (m_string u) (ch CHR ''/'') end
           in if start < int (m_portEnd u) then []
              else substring (m_string u) (nat (start + 1)) (to_unsigned (end - (start + 1) + 1)))"

definition protocol :: "KURL \<Rightarrow> ustring" where
  "protocol u = left (m_string u) (m_schemeEnd u)"

definition host :: "text_encoding \<Rightarrow> KURL \<Rightarrow> ustring" where
  "host utf8 u = decodeURLEscapeSequences utf8 (substring (m_string u) (hostStart u) (m_hostEnd u - hostStart u)) utf8"

definition maximumValidPortNumber :: u32 where
  "maximumValidPortNumber = 0xFFFE"

definition invalidPortNumber :: u16 where
  "invalidPortNumber = 0xFFFF"

definition port :: "unicode_peer \<Rightarrow> KURL \<Rightarrow> u16" where
  "port U u =
     (if m_hostEnd u = m_portEnd u \<or> m_hostEnd u + 1 = m_portEnd u then 0
      else let (number, ok) = charactersToUIntStrict U (segment (m_string u) (m_hostEnd u + 1) (m_portEnd u))
           in if \<not> ok \<or> number > maximumValidPortNumber then invalidPortNumber else ucast number)"

definition pass :: "text_encoding \<Rightarrow> KURL \<Rightarrow> ustring" where
  "pass utf8 u =
     (if m_passwordEnd u = m_userEnd u then []
      else decodeURLEscapeSequences utf8
             (substring (m_string u) (m_userEnd u + 1) (m_passwordEnd u - m_userEnd u - 1)) utf8)"

definition user :: "text_encoding \<Rightarrow> KURL \<Rightarrow> ustring" where
  "user utf8 u = decodeURLEscapeSequences utf8 (substring (m_string u) (m_userStart u) (m_userEnd u - m_userStart u)) utf8"

definition fragmentIdentifier :: "KURL \<Rightarrow> ustring" where
  "fragmentIdentifier u =
     (if m_fragmentEnd u = m_queryEnd u then []
      else substring (m_string u) (m_queryEnd u + 1) (m_fragmentEnd u - (m_queryEnd u + 1)))"

definition hasFragmentIdentifier :: "KURL \<Rightarrow> bool" where
  "hasFragmentIdentifier u \<longleftrightarrow> m_fragmentEnd u \<noteq> m_queryEnd u"

definition baseAsString :: "KURL \<Rightarrow> ustring" where
  "baseAsString u = left (m_string u) (m_pathAfterLastSlash u)"

text \<open>The comparison stops at the argument's terminator or at the first difference.\<close>

definition KURL_protocolIs :: "KURL \<Rightarrow> byte list \<Rightarrow> bool" where
  "KURL_protocolIs u p \<longleftrightarrow> m_isValid u
     \<and> (\<forall>i<m_schemeEnd u. at p i \<noteq> 0 \<and> toASCIILower (String_at (m_string u) i) = ucast (at p i))
     \<and> at p (m_schemeEnd u) = 0"

definition query :: "KURL \<Rightarrow> ustring" where
  "query u =
     (if m_queryEnd u = m_pathEnd u then []
      else substring (m_string u) (m_pathEnd u + 1) (m_queryEnd u - (m_pathEnd u + 1)))"

definition path :: "text_encoding \<Rightarrow> KURL \<Rightarrow> ustring" where
  "path utf8 u = decodeURLEscapeSequences utf8 (substring (m_string u) (m_portEnd u) (m_pathEnd u - m_portEnd u)) utf8"

definition isLocalFile :: "KURL \<Rightarrow> bool" where
  "isLocalFile u \<longleftrightarrow> KURL_protocolIs u (lit ''file'')"

definition prettyURL :: "unicode_peer \<Rightarrow> text_encoding \<Rightarrow> KURL \<Rightarrow> ustring" where
  "prettyURL U utf8 u =
     (if \<not> m_isValid u then m_string u
      else let authority =
             (if m_hostEnd u \<noteq> m_passwordEnd u
              then (if m_userEnd u \<noteq> m_userStart u then user utf8 u @ [ch CHR ''@''] else [])
                   @ host utf8 u
                   @ (if hasPort u then ch CHR '':'' # decimal (unat (port U u)) else [])
              else [])
           in protocol u @ [ch CHR '':'']
              @ (if authority \<noteq> [] then lit ''//'' @ authority
                 else if KURL_protocolIs u (lit ''file'') then lit ''//'' else [])
              @ path utf8 u
              @ (if m_pathEnd u \<noteq> m_queryEnd u then ch CHR ''?'' # query u else [])
              @ (if m_fragmentEnd u \<noteq> m_queryEnd u then ch CHR ''#'' # fragmentIdentifier u else []))"

section \<open>Setters\<close>

text \<open>Every setter edits the string and parses the result again.\<close>

definition setProtocol :: "ustring \<Rightarrow> KURL \<Rightarrow> KURL" where
  "setProtocol s u =
     (if \<not> m_isValid u then parse_String (s @ lit '':'' @ m_string u)
      else parse_String (s @ substring (m_string u) (m_schemeEnd u) UINT_MAX))"

definition slashSlashNeeded :: "KURL \<Rightarrow> bool" where
  "slashSlashNeeded u \<longleftrightarrow> m_userStart u = m_schemeEnd u + 1"

definition setHost :: "ustring \<Rightarrow> KURL \<Rightarrow> KURL" where
  "setHost s u =
     (if \<not> m_isValid u then u
      else parse_String (left (m_string u) (hostStart u) @ (if slashSlashNeeded u then lit ''//'' else [])
                         @ s @ substring (m_string u) (m_hostEnd u) UINT_MAX))"

definition removePort :: "KURL \<Rightarrow> KURL" where
  "removePort u =
     (if m_hostEnd u = m_portEnd u then u
      else parse_String (left (m_string u) (m_hostEnd u) @ substring (m_string u) (m_portEnd u) UINT_MAX))"

definition setPort :: "u16 \<Rightarrow> KURL \<Rightarrow> KURL" where
  "setPort i u =
     (if \<not> m_isValid u then u
      else let colonNeeded = (m_portEnd u = m_hostEnd u);
               portStart = (if colonNeeded then m_hostEnd u else m_hostEnd u + 1)
           in parse_String (left (m_string u) portStart @ (if colonNeeded then lit '':'' else [])
                            @ decimal (unat i) @ substring (m_string u) (m_portEnd u) UINT_MAX))"

definition setHostAndPort :: "ustring \<Rightarrow> KURL \<Rightarrow> KURL" where
  "setHostAndPort hostAndPort u =
     (if \<not> m_isValid u then u
      else parse_String (left (m_string u) (hostStart u) @ (if slashSlashNeeded u then lit ''//'' else [])
                         @ hostAndPort @ substring (m_string u) (m_portEnd u) UINT_MAX))"

definition setUser :: "ustring \<Rightarrow> KURL \<Rightarrow> KURL" where
  "setUser name u =
     (if \<not> m_isValid u then u
      else let end = m_userEnd u;
               (text, end') =
                 (if name \<noteq> []
                  then ((if slashSlashNeeded u then lit ''//'' else []) @ name
                        @ (if end = m_hostEnd u
                              \<or> (end = m_passwordEnd u \<and> String_at (m_string u) end \<noteq> ch CHR ''@'')
                           then lit ''@'' else []), end)
                  else ([], if m_userEnd u = m_passwordEnd u \<and> end \<noteq> m_hostEnd u
                               \<and> String_at (m_string u) end = ch CHR ''@''
                            then end + 1 else end))
           in parse_String (left (m_string u) (m_userStart u) @ text @ substring (m_string u) end' UINT_MAX))"

definition setPass :: "ustring \<Rightarrow> KURL \<Rightarrow> KURL" where
  "setPass password u =
     (if \<not> m_isValid u then u
      else let end = m_passwordEnd u;
               at_end = (end \<noteq> m_hostEnd u \<and> String_at (m_string u) end = ch CHR ''@'');
               (text, end') =
                 (if password \<noteq> []
                  then ((if m_userEnd u = m_schemeEnd u + 1 then lit ''//'' else [])
                        @ lit '':'' @ password @ lit ''@'', if at_end then end + 1 else end)
                  else ([], if m_userStart u = m_userEnd u \<and> at_end then end + 1 else end))
           in parse_String (left (m_string u) (m_userEnd u) @ text @ substring (m_string u) end' UINT_MAX))"

definition setFragmentIdentifier :: "ustring \<Rightarrow> KURL \<Rightarrow> KURL" where
  "setFragmentIdentifier s u =
     (if \<not> m_isValid u then u else parse_String (left (m_string u) (m_queryEnd u) @ lit ''#'' @ s))"

definition removeFragmentIdentifier :: "KURL \<Rightarrow> KURL" where
  "removeFragmentIdentifier u =
     (if \<not> m_isValid u then u else parse_String (left (m_string u) (m_queryEnd u)))"

text \<open>The argument of \<open>setQuery\<close> may be the null string, which removes the query.\<close>

definition setQuery :: "ustring option \<Rightarrow> KURL \<Rightarrow> KURL" where
  "setQuery qry u =
     (if \<not> m_isValid u then u
      else let q = (case qry of None \<Rightarrow> [] | Some s \<Rightarrow> s)
           in if (q = [] \<or> String_at q 0 \<noteq> ch CHR ''?'') \<and> qry \<noteq> None
              then parse_String (left (m_string u) (m_pathEnd u) @ lit ''?'' @ q
                                 @ substring (m_string u) (m_queryEnd u) UINT_MAX)
              else parse_String (left (m_string u) (m_pathEnd u) @ q
                                 @ substring (m_string u) (m_queryEnd u) UINT_MAX))"

definition setPath :: "(ustring \<Rightarrow> byte list) \<Rightarrow> ustring \<Rightarrow> KURL \<Rightarrow> KURL" where
  "setPath toUTF8 s u =
     (if \<not> m_isValid u then u
      else parse_String (left (m_string u) (m_portEnd u) @ encodeWithURLEscapeSequences toUTF8 s
                         @ substring (m_string u) (m_pathEnd u) UINT_MAX))"

section \<open>Comparison\<close>

definition equalIgnoringFragmentIdentifier :: "KURL \<Rightarrow> KURL \<Rightarrow> bool" where
  "equalIgnoringFragmentIdentifier a b \<longleftrightarrow> m_queryEnd a = m_queryEnd b
     \<and> (\<forall>i<m_queryEnd a. String_at (m_string a) i = String_at (m_string b) i)"

text \<open>The second loop compares the hosts at the index of the first URL in both strings.\<close>

definition protocolHostAndPortAreEqual :: "unicode_peer \<Rightarrow> KURL \<Rightarrow> KURL \<Rightarrow> bool" where
  "protocolHostAndPortAreEqual U a b \<longleftrightarrow>
     m_schemeEnd a = m_schemeEnd b
     \<and> int (m_hostEnd a) - int (hostStart a) = int (m_hostEnd b) - int (hostStart b)
     \<and> (\<forall>i<m_schemeEnd a. String_at (m_string a) i = String_at (m_string b) i)
     \<and> (\<forall>i\<in>{hostStart a..<m_hostEnd a}. String_at (m_string a) i = String_at (m_string b) i)
     \<and> port U a = port U b"

section \<open>Functions on URL strings\<close>

fun protocolIs_loop :: "ustring \<Rightarrow> byte list \<Rightarrow> nat \<Rightarrow> bool" where
  "protocolIs_loop url [] i = (String_at url i = ch CHR '':'')"
| "protocolIs_loop url (c # cs) i =
     (if toASCIILower (String_at url i) \<noteq> ucast c then False else protocolIs_loop url cs (i + 1))"

definition protocolIs :: "ustring \<Rightarrow> byte list \<Rightarrow> bool" where
  "protocolIs url p = protocolIs_loop url p 0"

definition protocolIsJavaScript :: "ustring \<Rightarrow> bool" where
  "protocolIsJavaScript url = protocolIs url (lit ''javascript'')"

definition isValidProtocol :: "ustring \<Rightarrow> bool" where
  "isValidProtocol p \<longleftrightarrow> isSchemeFirstChar_u (String_at p 0)
     \<and> (\<forall>i\<in>{1..<length p}. isSchemeChar_u (String_at p i))"

definition default_ports :: "(byte list \<times> nat) list" where
  "default_ports = [(lit ''http'', 80), (lit ''https'', 443), (lit ''ftp'', 21), (lit ''ftps'', 990)]"

text \<open>\<open>HashMap::get\<close> gives 0 for a key that is not there.\<close>

definition isDefaultPortForProtocol :: "unicode_peer \<Rightarrow> u16 \<Rightarrow> ustring \<Rightarrow> bool" where
  "isDefaultPortForProtocol U portNumber p \<longleftrightarrow> p \<noteq> []
     \<and> (case List.find (\<lambda>(k, _). map (peer_foldCase U) (latin1 k) = map (peer_foldCase U) p) default_ports of
          None \<Rightarrow> 0 | Some (_, v) \<Rightarrow> v) = unat portNumber"

definition blockedPortList :: "u16 list" where
  "blockedPortList =
     [1, 7, 9, 11, 13, 15, 17, 19, 20, 21, 22, 23, 25, 37, 42, 43, 53, 77, 79, 87, 95, 101, 102, 103,
      104, 109, 110, 111, 113, 115, 117, 119, 123, 135, 139, 143, 179, 389, 465, 512, 513, 514, 515,
      526, 530, 531, 532, 540, 556, 563, 587, 601, 636, 993, 995, 2049, 3659, 4045, 6000, 6665, 6666,
      6667, 6668, 6669, invalidPortNumber]"

text \<open>\<open>std::binary_search\<close>: the lower bound by halving, then one comparison.\<close>

function lower_bound :: "u16 list \<Rightarrow> nat \<Rightarrow> nat \<Rightarrow> u16 \<Rightarrow> nat" where
  "lower_bound xs first len v =
     (if len = 0 then first
      else let half = len div 2; mid = first + half
           in if xs ! mid < v then lower_bound xs (mid + 1) (len - half - 1) v
              else lower_bound xs first half v)"
  by pat_completeness auto
termination
  by (relation "measure (\<lambda>(_, _, len, _). len)") auto

declare lower_bound.simps [simp del]

definition binary_search :: "u16 list \<Rightarrow> u16 \<Rightarrow> bool" where
  "binary_search xs v = (let i = lower_bound xs 0 (length xs) v in i \<noteq> length xs \<and> \<not> v < xs ! i)"

definition portAllowed :: "unicode_peer \<Rightarrow> KURL \<Rightarrow> bool" where
  "portAllowed U u =
     (let p = port U u
      in if p = 0 then True
         else if \<not> binary_search blockedPortList p then True
         else if (p = 21 \<or> p = 22) \<and> KURL_protocolIs u (lit ''ftp'') then True
         else if KURL_protocolIs u (lit ''file'') then True
         else False)"

definition mimeTypeFromDataURL :: "ustring \<Rightarrow> ustring" where
  "mimeTypeFromDataURL url =
     (let i = find_char url (ch CHR '';'') 0;
          index = (if i = -1 then find_char url (ch CHR '','') 0 else i)
      in if index \<noteq> -1
         then let len = index - 5
              in if len > 0 then substring url 5 (nat len) else lit ''text/plain''
         else [])"

definition blankURL :: KURL where
  "blankURL = parse (lit ''about:blank'') None"

end
