(* ===== verification/KURLOpsFacts.thy ===== *)
theory KURLOpsFacts
  imports KURLOps
begin

text \<open>
  Facts about the operations on URLs: ports and port blocking, the setters as edits of the
  parts, escaping and unescaping, and the comparisons.
\<close>

section \<open>Ports\<close>

lemma isASCIIDigit_ucast: "isASCIIDigit (ucast (c::byte) :: uchar) = isASCIIDigit c"
  by (simp add: isASCIIDigit_def word_le_nat_alt unat_ucast_byte)

lemma digit_allowed: "isASCIIDigit c \<Longrightarrow> isCharacterAllowedInBase c 10"
  by (auto simp: isCharacterAllowedInBase_def isASCIIDigit_def word_le_nat_alt word_less_nat_alt)

lemma digit_not_space: "isASCIIDigit (c::uchar) \<Longrightarrow> \<not> isSpaceOrNewline U c \<and> c \<noteq> ch CHR ''+'' \<and> c \<noteq> ch CHR ''-''"
  by (auto simp: isSpaceOrNewline_def isASCIISpace_def isASCIIDigit_def word_le_nat_alt)

lemma unsigned_reading_digits:
  "ds \<noteq> [] \<Longrightarrow> \<forall>c\<in>set ds. isASCIIDigit c \<Longrightarrow> unsigned_reading U 10 ds = Some (number_value 10 ds)"
proof -
  assume ds: "ds \<noteq> []" "\<forall>c\<in>set ds. isASCIIDigit c"
  then obtain c cs where c: "ds = c # cs" by (cases ds) auto
  have all: "\<forall>c\<in>set ds. isCharacterAllowedInBase c 10" using ds digit_allowed by blast
  have t: "takeWhile (\<lambda>c. isCharacterAllowedInBase c 10) ds = ds" using all by (simp add: takeWhile_eq_all_conv)
  have d: "dropWhile (\<lambda>c. isCharacterAllowedInBase c 10) ds = []" using all by (simp add: dropWhile_Nil_iff)
  have s: "dropWhile (isSpaceOrNewline U) ds = ds" "hd ds \<noteq> ch CHR ''+''"
    using digit_not_space [of c U] ds c by auto
  have s2: "(if ds \<noteq> [] \<and> hd ds = ch CHR ''+'' then tl ds else ds) = ds"
    using s(2) by (simp only: if_False simp_thms)
  show ?thesis
    unfolding unsigned_reading_def Let_def s(1) s2 t d using ds(1) by simp
qed

lemma port_value:
  assumes "m_hostEnd u \<le> m_portEnd u" "m_portEnd u \<le> length (m_string u)"
  defines "ds \<equiv> segment (m_string u) (m_hostEnd u + 1) (m_portEnd u)"
  assumes ds: "\<forall>c\<in>set ds. isASCIIDigit c"
  shows "port U u = (if ds = [] then 0 else if number_value 10 ds \<le> 0xFFFE then of_nat (number_value 10 ds)
      else 0xFFFF)"
proof (cases "ds = []")
  case True
  then have "m_hostEnd u = m_portEnd u \<or> m_hostEnd u + 1 = m_portEnd u"
    using assms(1,2) by (auto simp: ds_def segment_def)
  with True show ?thesis by (simp add: port_def)
next
  case False
  then have ne: "\<not> (m_hostEnd u = m_portEnd u \<or> m_hostEnd u + 1 = m_portEnd u)"
    by (auto simp: ds_def)
  let ?n = "number_value 10 ds"
  have num: "charactersToUIntStrict U ds = (if ?n < 2 ^ 32 then (of_nat ?n, True) else (0, False))"
    unfolding charactersToUIntStrict_def
    using toIntegralType_unsigned [of 10 U ds] unsigned_reading_digits [OF False ds] by simp
  have u: "unat (of_nat ?n :: u32) = ?n" if "?n < 2 ^ 32"
    using that by (simp add: unat_of_nat)
  have c: "(ucast (of_nat ?n :: u32) :: u16) = of_nat ?n" if "?n \<le> 0xFFFE"
    using that by (simp add: word_unat_eq_iff unsigned_ucast_eq take_bit_nat_def unat_of_nat)
  show ?thesis
    unfolding port_def if_not_P [OF ne] ds_def [symmetric] num
    using False u c
    by (auto simp: maximumValidPortNumber_def invalidPortNumber_def word_less_nat_alt)
qed

section \<open>The blocked ports\<close>

lemma lower_bound_spec:
  assumes "sorted_wrt (<) xs" "first + len \<le> length xs"
    "\<And>j. j < first \<Longrightarrow> xs ! j < v" "\<And>j. first + len \<le> j \<Longrightarrow> j < length xs \<Longrightarrow> v \<le> xs ! j"
  shows "lower_bound xs first len v \<le> length xs \<and> (\<forall>j<lower_bound xs first len v. xs ! j < v)
    \<and> (\<forall>j. lower_bound xs first len v \<le> j \<and> j < length xs \<longrightarrow> v \<le> xs ! j)"
  using assms
proof (induction xs first len v rule: lower_bound.induct)
  case (1 xs first len v)
  show ?case
  proof (cases "len = 0")
    case True
    with "1.prems" show ?thesis by (subst (1 2 3) lower_bound.simps) auto
  next
    case False
    define half where "half = len div 2"
    define mid where "mid = first + half"
    have half: "half < len" using False by (simp add: half_def)
    have mid: "mid < length xs" using half "1.prems"(2) by (simp add: mid_def)
    have mono: "xs ! i < xs ! j" if "i < j" "j < length xs" for i j
      using "1.prems"(1) that by (simp add: sorted_wrt_iff_nth_less)
    show ?thesis
    proof (cases "xs ! mid < v")
      case True
      have eq: "lower_bound xs first len v = lower_bound xs (mid + 1) (len - half - 1) v"
        using False True by (subst lower_bound.simps) (simp add: Let_def half_def mid_def)
      have "xs ! j < v" if "j < mid + 1" for j
        using mono [of j mid] mid that True by (cases "j = mid") auto
      then show ?thesis
        unfolding eq using "1.prems" half
        by (intro "1.IH"(1) [OF False half_def mid_def True]) (auto simp: mid_def)
    next
      case F: False
      have eq: "lower_bound xs first len v = lower_bound xs first half v"
        using False F by (subst lower_bound.simps) (simp add: Let_def half_def mid_def)
      have "v \<le> xs ! j" if "mid \<le> j" "j < length xs" for j
        using mono [of mid j] that F by (cases "j = mid") auto
      then show ?thesis
        unfolding eq using "1.prems" half
        by (intro "1.IH"(2) [OF False half_def mid_def F]) (auto simp: mid_def)
    qed
  qed
qed

lemma binary_search_iff: "sorted_wrt (<) xs \<Longrightarrow> binary_search xs v \<longleftrightarrow> v \<in> set xs"
proof -
  assume s: "sorted_wrt (<) xs"
  define i where "i = lower_bound xs 0 (length xs) v"
  have i: "i \<le> length xs" "\<forall>j<i. xs ! j < v" "\<forall>j. i \<le> j \<and> j < length xs \<longrightarrow> v \<le> xs ! j"
    using lower_bound_spec [OF s, of 0 "length xs" v] by (auto simp: i_def)
  have "i \<noteq> length xs \<and> \<not> v < xs ! i \<longleftrightarrow> v \<in> set xs"
  proof
    assume "i \<noteq> length xs \<and> \<not> v < xs ! i"
    with i have "i < length xs" "xs ! i = v" by auto
    then show "v \<in> set xs" by (auto simp: in_set_conv_nth)
  next
    assume "v \<in> set xs"
    then obtain j where j: "j < length xs" "xs ! j = v" by (auto simp: in_set_conv_nth)
    with i(2) have "i \<le> j" by (meson less_irrefl not_le_imp_less)
    have "v \<le> xs ! i" using i(3) \<open>i \<le> j\<close> j by simp
    moreover have "xs ! i \<le> xs ! j"
      using s \<open>i \<le> j\<close> j by (cases "i = j") (auto simp: sorted_wrt_iff_nth_less less_imp_le)
    ultimately show "i \<noteq> length xs \<and> \<not> v < xs ! i" using \<open>i \<le> j\<close> j by auto
  qed
  then show ?thesis by (simp add: binary_search_def i_def Let_def)
qed

lemma blockedPortList_sorted: "sorted_wrt (<) blockedPortList"
  by (simp add: blockedPortList_def invalidPortNumber_def)

text \<open>The port filter decides exactly this: a blocked port is refused except 21 and 22 under
  ftp and anything under file. The binary search in it is sound because the list is sorted.\<close>

theorem portAllowed_iff:
  "(\<not> portAllowed U u) = (port U u \<in> set blockedPortList
     \<and> \<not> ((port U u = 21 \<or> port U u = 22) \<and> KURL_protocolIs u (lit ''ftp''))
     \<and> \<not> KURL_protocolIs u (lit ''file''))"
proof -
  have "0 \<notin> set blockedPortList" by (simp add: blockedPortList_def invalidPortNumber_def)
  then show ?thesis
    by (auto simp: portAllowed_def Let_def binary_search_iff [OF blockedPortList_sorted])
qed

section \<open>The port of a parsed URL\<close>

lemma segment_latin1: "segment (latin1 s) a b = latin1 (segment s a b)"
  by (simp add: segment_def latin1_def take_map drop_map)

text \<open>The digits between host and path of a URL.\<close>

definition port_digits :: "KURL \<Rightarrow> ustring" where
  "port_digits u = segment (m_string u) (m_hostEnd u + 1) (m_portEnd u)"

lemma port_segment:
  assumes "pt_auth p = Some a"
  shows "segment (url_text p) (m_hostEnd (url_offsets p) + 1) (m_portEnd (url_offsets p)) = tl (port_text a)"
proof (cases "port_text a")
  case Nil
  with assms show ?thesis by (simp add: url_offsets_auth url_offsets_simps before_path_length)
next
  case (Cons c d)
  have "url_text p = (pt_scheme p @ lit ''://'' @ userinfo_text a @ pt_host a @ [c]) @ d
      @ (pt_path p @ pt_query p @ fragment_text p)"
    using assms Cons by (simp add: url_text_def before_path_def auth_text_def)
  then show ?thesis
    using assms Cons by (simp add: url_offsets_auth url_offsets_simps before_path_length segment_pieces del: append_assoc)
qed

lemma parsed_port:
  assumes "m_isValid (parse url None)" "0 \<notin> set url"
  defines "u \<equiv> parse url None"
  shows "port U u = (if port_digits u = [] then 0
      else if number_value 10 (port_digits u) \<le> 0xFFFE then of_nat (number_value 10 (port_digits u)) else 0xFFFF)"
  using assms(1,2)
proof (rule parse_parts)
  fix p
  assume r: "parse_ranges url = Some (url_text p, url_offsets p)"
    and p: "scheme_ok (pt_scheme p)" "\<And>b. pt_auth p = Some b \<Longrightarrow> auth_ok b"
  have u: "u = (url_offsets p)\<lparr>m_string := latin1 (url_text p)\<rparr>" using r by (simp add: u_def parse_def)
  have ok: "KURL_offsets_ok u" "m_isValid u" unfolding u_def using assms(1) by (simp_all add: parse_offsets)
  then have le: "m_hostEnd u \<le> m_portEnd u" "m_portEnd u \<le> length (m_string u)" by (auto simp: KURL_offsets_ok_def)
  have "\<forall>c\<in>set (port_digits u). isASCIIDigit c"
  proof (cases "pt_auth p")
    case None
    then have "m_hostEnd u = m_portEnd u" by (simp add: u url_offsets_simps url_offsets_auth before_path_length)
    then show ?thesis by (simp add: port_digits_def)
  next
    case (Some a)
    have "port_digits u = latin1 (tl (port_text a))"
    proof -
      have "m_string u = latin1 (url_text p)" "m_hostEnd u = m_hostEnd (url_offsets p)"
          "m_portEnd u = m_portEnd (url_offsets p)"
        by (simp_all add: u)
      then show ?thesis
        unfolding port_digits_def by (simp only: segment_latin1 port_segment [OF Some])
    qed
    moreover have "\<forall>c\<in>set (tl (port_text a)). isASCIIDigit c"
      using p(2) [OF Some] by (auto simp: auth_ok_def port_text_def split: option.splits)
    ultimately show ?thesis by (auto simp: latin1_def isASCIIDigit_ucast)
  qed
  with le show ?thesis unfolding port_digits_def by (rule port_value)
qed

text \<open>The port of a parsed URL is the number written after the host, 0 when there is none
  and the reserved value 0xFFFF when the number is above 65534.\<close>

theorem port_of_parsed_URL:
  assumes "m_isValid (parse url None)" and "0 \<notin> set url"
  shows "port U (parse url None) =
    (let ds = port_digits (parse url None)
     in if ds = [] then 0 else if number_value 10 ds \<le> 0xFFFE then of_nat (number_value 10 ds) else 0xFFFF)"
  using parsed_port [OF assms] by (simp add: Let_def)

lemma port_65616:
  "m_isValid (parse (lit ''http://h:65616/'') None)" "0 \<notin> set (lit ''http://h:65616/'' :: byte list)"
  "port_digits (parse (lit ''http://h:65616/'') None) = lit ''65616''"
  "number_value 10 (lit ''65616'') = 65616"
proof -
  show "m_isValid (parse (lit ''http://h:65616/'') None)" by code_simp
  show "0 \<notin> set (lit ''http://h:65616/'' :: byte list)" by code_simp
  show "port_digits (parse (lit ''http://h:65616/'') None) = lit ''65616''" by code_simp
  show "number_value 10 (lit ''65616'') = 65616" by (simp add: number_value_def digitValue_def isASCIIDigit_def)
qed

theorem port_of_parsed_URL_witness: "port ascii_peer (parse (lit ''http://h:65616/'') None) = 0xFFFF"
  using port_of_parsed_URL [OF port_65616(1,2), of ascii_peer] unfolding port_65616(3) Let_def port_65616(4) by simp

text \<open>A port that does not fit 16 bits is never taken for the port it is congruent to: a
  URL with a port above 65534 is refused, file URLs apart.\<close>

theorem portAllowed_refuses_large_ports:
  assumes "m_isValid (parse url None)" and "0 \<notin> set url"
    and "0xFFFE < number_value 10 (port_digits (parse url None))"
    and "\<not> KURL_protocolIs (parse url None) (lit ''file'')"
  shows "\<not> portAllowed U (parse url None)"
proof -
  have "port_digits (parse url None) \<noteq> []" using assms(3) by (auto simp: number_value_def)
  then have p: "port U (parse url None) = 0xFFFF" using parsed_port [OF assms(1,2)] assms(3) by simp
  moreover have "(0xFFFF :: u16) \<in> set blockedPortList" by (simp add: blockedPortList_def invalidPortNumber_def)
  ultimately show ?thesis
    using assms(4) unfolding portAllowed_def Let_def binary_search_iff [OF blockedPortList_sorted] by simp
qed

theorem portAllowed_refuses_large_ports_witness:
  "\<not> portAllowed ascii_peer (parse (lit ''http://h:65616/'') None)"
proof (rule portAllowed_refuses_large_ports [OF port_65616(1,2)])
  show "0xFFFE < number_value 10 (port_digits (parse (lit ''http://h:65616/'') None))"
    unfolding port_65616(3,4) by simp
  show "\<not> KURL_protocolIs (parse (lit ''http://h:65616/'') None) (lit ''file'')" by code_simp
qed

section \<open>Setters edit one part\<close>

lemma reparse: "parts_ok q \<Longrightarrow> parse_String (latin1 (url_text q)) = url_of q"
proof -
  assume q: "parts_ok q"
  then have "0 \<notin> set (url_text q)" by (intro url_text_nul) (auto simp: parts_ok_def)
  then show ?thesis
    using parse_ranges_parts [OF q] by (simp add: parse_String_latin1 parse_def url_of_def)
qed

lemma latin1_append: "latin1 (a @ b) = latin1 a @ latin1 b"
  by (simp add: latin1_def)

lemma latin1_Cons: "latin1 (c # s) = ucast c # latin1 s"
  by (simp add: latin1_def)

lemma url_of_fields:
  "m_isValid (url_of p)" "m_string (url_of p) = latin1 (url_text p)"
  "m_schemeEnd (url_of p) = m_schemeEnd (url_offsets p)" "m_userStart (url_of p) = m_userStart (url_offsets p)"
  "m_userEnd (url_of p) = m_userEnd (url_offsets p)" "m_passwordEnd (url_of p) = m_passwordEnd (url_offsets p)"
  "m_hostEnd (url_of p) = m_hostEnd (url_offsets p)" "m_portEnd (url_of p) = m_portEnd (url_offsets p)"
  "m_pathEnd (url_of p) = m_pathEnd (url_offsets p)" "m_queryEnd (url_of p) = m_queryEnd (url_offsets p)"
  "m_fragmentEnd (url_of p) = m_fragmentEnd (url_offsets p)"
  by (simp_all add: url_of_def)

lemma left_latin1: "left (latin1 (a @ b)) (length a) = latin1 a"
  by (simp add: latin1_def take_map)

lemma substring_latin1:
  "length b \<le> UINT_MAX \<Longrightarrow> substring (latin1 (a @ b)) (length a) UINT_MAX = latin1 b"
  by (simp add: substring_eq_take_drop latin1_def drop_map)

lemma parts_ok_tail:
  "parts_ok p \<Longrightarrow> pt_scheme q = pt_scheme p \<Longrightarrow> pt_auth q = pt_auth p \<Longrightarrow> pt_path q = pt_path p \<Longrightarrow> tail_ok q
   \<Longrightarrow> parts_ok q"
  unfolding parts_ok_def by (elim conjE) (simp only: simp_thms)

lemma take_query: "left (m_string (url_of p)) (m_queryEnd (url_of p)) = latin1 (before_path p @ pt_path p @ pt_query p)"
  using left_latin1 [of "before_path p @ pt_path p @ pt_query p" "fragment_text p"]
  by (simp add: url_of_fields url_offsets_simps url_text_def add.assoc)

lemma take_path: "left (m_string (url_of p)) (m_pathEnd (url_of p)) = latin1 (before_path p @ pt_path p)"
  using left_latin1 [of "before_path p @ pt_path p" "pt_query p @ fragment_text p"]
  by (simp add: url_of_fields url_offsets_simps url_text_def)

lemma drop_query:
  "length (url_text p) \<le> UINT_MAX \<Longrightarrow>
   substring (m_string (url_of p)) (m_queryEnd (url_of p)) UINT_MAX = latin1 (fragment_text p)"
  using substring_latin1 [of "fragment_text p" "before_path p @ pt_path p @ pt_query p"]
  by (simp add: url_of_fields url_offsets_simps url_text_def add.assoc)

text \<open>On a URL with canonical parts, setting or removing the fragment and the query changes
  that part and nothing else.\<close>

theorem tail_setters_edit_parts:
  assumes "parts_ok p" and "length (url_text p) \<le> UINT_MAX" and "\<forall>c\<in>set s. clean_char c"
  shows "setFragmentIdentifier (latin1 s) (url_of p) = url_of (p\<lparr>pt_fragment := Some s\<rparr>)
    \<and> removeFragmentIdentifier (url_of p) = url_of (p\<lparr>pt_fragment := None\<rparr>)
    \<and> (s = [] \<or> hd s \<noteq> ch CHR ''?'' \<longrightarrow> setQuery (Some (latin1 s)) (url_of p) = url_of (p\<lparr>pt_query := ch CHR ''?'' # s\<rparr>))
    \<and> setQuery None (url_of p) = url_of (p\<lparr>pt_query := []\<rparr>)"
proof (intro conjI impI)
  have tail: "tail_ok p" using assms(1) by (simp add: parts_ok_def)
  have q: "clean_char (ch CHR ''?'')" by (simp add: clean_char_def class_iffs class_docs)
  show "setFragmentIdentifier (latin1 s) (url_of p) = url_of (p\<lparr>pt_fragment := Some s\<rparr>)"
  proof -
    let ?q = "p\<lparr>pt_fragment := Some s\<rparr>"
    have "tail_ok ?q" using tail assms(3) by (simp add: tail_ok_def)
    then have "parts_ok ?q" by (intro parts_ok_tail [OF assms(1)]) simp_all
    moreover have "latin1 (before_path p @ pt_path p @ pt_query p) @ lit ''#'' @ latin1 s = latin1 (url_text ?q)"
      by (simp add: url_text_def before_path_def fragment_text_def latin1_def)
    ultimately show ?thesis
      using reparse [of ?q] unfolding setFragmentIdentifier_def take_query by (simp add: url_of_fields)
  qed
  show "removeFragmentIdentifier (url_of p) = url_of (p\<lparr>pt_fragment := None\<rparr>)"
  proof -
    let ?q = "p\<lparr>pt_fragment := None\<rparr>"
    have "tail_ok ?q" using tail by (simp add: tail_ok_def)
    then have "parts_ok ?q" by (intro parts_ok_tail [OF assms(1)]) simp_all
    moreover have "latin1 (before_path p @ pt_path p @ pt_query p) = latin1 (url_text ?q)"
      by (simp add: url_text_def before_path_def fragment_text_def)
    ultimately show ?thesis
      using reparse [of ?q] unfolding removeFragmentIdentifier_def take_query by (simp add: url_of_fields)
  qed
  show "setQuery None (url_of p) = url_of (p\<lparr>pt_query := []\<rparr>)"
  proof -
    let ?q = "p\<lparr>pt_query := []\<rparr>"
    have "tail_ok ?q" using tail by (simp add: tail_ok_def)
    then have "parts_ok ?q" by (intro parts_ok_tail [OF assms(1)]) simp_all
    moreover have "latin1 (before_path p @ pt_path p) @ latin1 (fragment_text p) = latin1 (url_text ?q)"
      by (simp add: url_text_def before_path_def fragment_text_def latin1_def)
    ultimately show ?thesis
      using reparse [of ?q] unfolding setQuery_def take_path drop_query [OF assms(2)] by (simp add: url_of_fields)
  qed
  show "setQuery (Some (latin1 s)) (url_of p) = url_of (p\<lparr>pt_query := ch CHR ''?'' # s\<rparr>)"
    if s: "s = [] \<or> hd s \<noteq> ch CHR ''?''"
  proof -
    let ?q = "p\<lparr>pt_query := ch CHR ''?'' # s\<rparr>"
    have "tail_ok ?q" using tail assms(3) q by (simp add: tail_ok_def)
    then have "parts_ok ?q" by (intro parts_ok_tail [OF assms(1)]) simp_all
    moreover have "latin1 (before_path p @ pt_path p) @ lit ''?'' @ latin1 s @ latin1 (fragment_text p) = latin1 (url_text ?q)"
      by (simp add: url_text_def before_path_def fragment_text_def latin1_def)
    moreover have "(latin1 s = [] \<or> String_at (latin1 s) 0 \<noteq> ch CHR ''?'') \<and> Some (latin1 s) \<noteq> None"
    proof (cases s)
      case (Cons c t)
      then have "(ucast c :: uchar) \<noteq> ucast (ch CHR ''?'' :: byte)" using s by (subst ucast_byte_eq) simp
      with Cons show ?thesis by (simp add: latin1_def)
    qed (simp add: latin1_def)
    ultimately show ?thesis
      using reparse [of ?q] unfolding setQuery_def take_path drop_query [OF assms(2)] by (simp add: url_of_fields)
  qed
qed

definition example_parts :: url_parts where
  "example_parts = \<lparr>pt_scheme = lit ''http'',
     pt_auth = Some \<lparr>pt_user = [], pt_pass = [], pt_host = lit ''h'', pt_port = None\<rparr>,
     pt_path = lit ''/a'', pt_query = lit ''?q'', pt_fragment = Some (lit ''f'')\<rparr>"

lemma example_parts_ok: "parts_ok example_parts"
  "length (url_text example_parts) \<le> UINT_MAX" "\<forall>c\<in>set (lit ''new''). clean_char c"
proof -
  have s: "scheme_ok (pt_scheme example_parts)" "tail_ok example_parts" "\<not> file_scheme (pt_scheme example_parts)"
      "\<forall>s\<in>set (segs (tl (pt_path example_parts))). \<not> dot_segment s"
      "pt_path example_parts \<noteq> []" "hd (pt_path example_parts) = slash"
    by code_simp+
  have "auth_ok \<lparr>pt_user = [], pt_pass = [], pt_host = lit ''h'', pt_port = None\<rparr>" by code_simp
  moreover have "auth_nonempty \<lparr>pt_user = [], pt_pass = [], pt_host = lit ''h'', pt_port = None\<rparr>"
    by (simp add: auth_nonempty_def)
  ultimately show "parts_ok example_parts"
    using s unfolding parts_ok_def by (simp add: example_parts_def)
  show "length (url_text example_parts) \<le> UINT_MAX"
    by (simp add: example_parts_def url_text_def before_path_def auth_text_def userinfo_text_def upass_text_def
        port_text_def fragment_text_def UINT_MAX_def)
  show "\<forall>c\<in>set (lit ''new''). clean_char c" by code_simp
qed

theorem tail_setters_edit_parts_witness:
  "m_string (setFragmentIdentifier (lit ''new'') (url_of example_parts)) = lit ''http://h/a?q#new''"
proof -
  have l: "latin1 (lit ''new'') = lit ''new''" by (simp add: latin1_def)
  have "setFragmentIdentifier (lit ''new'') (url_of example_parts) = url_of (example_parts\<lparr>pt_fragment := Some (lit ''new'')\<rparr>)"
    using tail_setters_edit_parts [OF example_parts_ok] unfolding l by blast
  then show ?thesis
    by (simp add: url_of_fields) (simp add: example_parts_def url_text_def before_path_def auth_text_def
        userinfo_text_def upass_text_def port_text_def fragment_text_def latin1_def)
qed

section \<open>Setters of the authority\<close>

lemma take_hostEnd:
  "pt_auth p = Some a \<Longrightarrow> left (m_string (url_of p)) (m_hostEnd (url_of p)) =
     latin1 (pt_scheme p @ lit ''://'' @ userinfo_text a @ pt_host a)"
proof -
  assume a: "pt_auth p = Some a"
  have "m_hostEnd (url_of p) = length (pt_scheme p @ lit ''://'' @ userinfo_text a @ pt_host a)"
    using a by (simp add: url_of_fields url_offsets_auth)
  then show ?thesis
    using a left_latin1 [of "pt_scheme p @ lit ''://'' @ userinfo_text a @ pt_host a"
        "port_text a @ pt_path p @ pt_query p @ fragment_text p"]
    by (simp add: url_of_fields url_text_def before_path_def auth_text_def)
qed

lemma take_hostStart:
  "pt_auth p = Some a \<Longrightarrow> left (m_string (url_of p)) (hostStart (url_of p)) =
     latin1 (pt_scheme p @ lit ''://'' @ userinfo_text a)"
proof -
  assume a: "pt_auth p = Some a"
  have "hostStart (url_of p) = length (pt_scheme p @ lit ''://'' @ userinfo_text a)"
    using a by (simp add: hostStart_def url_of_fields url_offsets_auth userinfo_length)
  then show ?thesis
    using a left_latin1 [of "pt_scheme p @ lit ''://'' @ userinfo_text a"
        "pt_host a @ port_text a @ pt_path p @ pt_query p @ fragment_text p"]
    by (simp add: url_of_fields url_text_def before_path_def auth_text_def)
qed

lemma drop_port:
  "pt_auth p = Some a \<Longrightarrow> length (url_text p) \<le> UINT_MAX \<Longrightarrow>
   substring (m_string (url_of p)) (m_portEnd (url_of p)) UINT_MAX = latin1 (pt_path p @ pt_query p @ fragment_text p)"
  using substring_latin1 [of "pt_path p @ pt_query p @ fragment_text p" "before_path p"]
  by (simp add: url_of_fields url_offsets_simps url_text_def)

lemma drop_host:
  assumes a: "pt_auth p = Some a" and len: "length (url_text p) \<le> UINT_MAX"
  shows "substring (m_string (url_of p)) (m_hostEnd (url_of p)) UINT_MAX = latin1 (port_text a @ pt_path p @ pt_query p @ fragment_text p)"
proof -
  have "m_hostEnd (url_of p) = length (pt_scheme p @ lit ''://'' @ userinfo_text a @ pt_host a)"
    using a by (simp add: url_of_fields url_offsets_auth)
  then show ?thesis
    using a len substring_latin1 [of "port_text a @ pt_path p @ pt_query p @ fragment_text p"
        "pt_scheme p @ lit ''://'' @ userinfo_text a @ pt_host a"]
    by (simp add: url_of_fields url_text_def before_path_def auth_text_def)
qed

lemma parts_ok_auth:
  "parts_ok p \<Longrightarrow> \<not> file_scheme (pt_scheme p) \<Longrightarrow> auth_ok b \<Longrightarrow> auth_nonempty b \<Longrightarrow> parts_ok (p\<lparr>pt_auth := Some b\<rparr>)"
  by (simp add: parts_ok_def tail_ok_def)

lemma text_of_auth: "url_text (p\<lparr>pt_auth := Some b\<rparr>) =
    pt_scheme p @ lit ''://'' @ auth_text b @ pt_path p @ pt_query p @ fragment_text p"
  by (simp add: url_text_def before_path_def fragment_text_def)

lemma digit_byte: "m < 10 \<Longrightarrow> \<exists>b::byte. (of_nat (48 + m) :: uchar) = ucast b \<and> isASCIIDigit b"
proof (intro exI conjI)
  assume m: "m < 10"
  show "(of_nat (48 + m) :: uchar) = ucast (of_nat (48 + m) :: byte)"
    using m by (simp only: word_unat_eq_iff unat_ucast_byte) (simp add: unat_of_nat del: of_nat_add)
  show "isASCIIDigit (of_nat (48 + m) :: byte)"
    using m by (simp add: isASCIIDigit_def word_le_nat_alt unat_of_nat del: of_nat_add)
qed

lemma decimal_digits: "\<forall>c\<in>set (decimal n). isASCIIDigit c \<and> (\<exists>b::byte. c = ucast b \<and> isASCIIDigit b)"
proof (induction n rule: decimal.induct)
  case (1 n)
  have "\<exists>b::byte. (of_nat (48 + n mod 10) :: uchar) = ucast b \<and> isASCIIDigit b"
    by (rule digit_byte) simp
  moreover from this have "isASCIIDigit (of_nat (48 + n mod 10) :: uchar)"
    using isASCIIDigit_ucast by metis
  ultimately show ?case using 1 by (subst decimal.simps) auto
qed

lemma decimal_nonempty: "decimal n \<noteq> []"
  by (subst decimal.simps) simp

lemma decimal_bytes: "latin1 (copyASCII (decimal n)) = decimal n \<and> (\<forall>c\<in>set (copyASCII (decimal n)). isASCIIDigit c)"
proof
  have inv: "ucast (ucast (ucast (b::byte) :: uchar) :: byte) = (ucast b :: uchar)" for b
    using latin1_inverse [of "[b]"] by (simp add: copyASCII_def latin1_def)
  show "latin1 (copyASCII (decimal n)) = decimal n"
    unfolding latin1_def copyASCII_def map_map o_def
    using decimal_digits [of n] inv by (intro map_idI) fastforce
  show "\<forall>c\<in>set (copyASCII (decimal n)). isASCIIDigit c"
  proof
    fix c
    assume "c \<in> set (copyASCII (decimal n))"
    then obtain d where "d \<in> set (decimal n)" "c = ucast d" by (auto simp: copyASCII_def)
    moreover obtain b :: byte where "d = ucast b" "isASCIIDigit b"
      using decimal_digits [of n] \<open>d \<in> set (decimal n)\<close> by blast
    ultimately have "c = ucast (ucast b :: uchar)" "isASCIIDigit b" by simp_all
    then show "isASCIIDigit c" using latin1_inverse [of "[b]"] by (simp add: copyASCII_def latin1_def)
  qed
qed

text \<open>C16: On a URL with canonical parts, a host that is not empty, a scheme other than file and a string whose length fits in 32 bits,
  setting the port, removing it, and setting the host to one that is not empty and made of host name characters (or an
  address in brackets) change that part of the authority and nothing else: the user name and the path survive, and
  setting port 80 writes ":80". (\<open>setHost\<close> does not check or escape its argument, as its FIXME says.)\<close>

theorem authority_setters_edit_parts:
  assumes "parts_ok p" and "length (url_text p) \<le> UINT_MAX" and "pt_auth p = Some a"
    and "\<not> file_scheme (pt_scheme p)" and "pt_host a \<noteq> []" and "host_ok h" and "h \<noteq> []"
  shows "setPort n (url_of p) =
      url_of (p\<lparr>pt_auth := Some (a\<lparr>pt_port := Some (copyASCII (decimal (unat n)))\<rparr>)\<rparr>)
    \<and> removePort (url_of p) = url_of (p\<lparr>pt_auth := Some (a\<lparr>pt_port := None\<rparr>)\<rparr>)
    \<and> setHost (latin1 h) (url_of p) = url_of (p\<lparr>pt_auth := Some (a\<lparr>pt_host := h\<rparr>)\<rparr>)"
proof (intro conjI)
  have a: "auth_ok a" using assms(1,3) by (auto simp: parts_ok_def)
  note ends = url_of_fields url_offsets_auth(1) [OF assms(3)] url_offsets_simps before_path_length(1) [OF assms(3)]
  have ui: "userinfo_text (a\<lparr>pt_port := x\<rparr>) = userinfo_text a" "userinfo_text (a\<lparr>pt_host := h\<rparr>) = userinfo_text a"
      "port_text (a\<lparr>pt_host := h\<rparr>) = port_text a" for x
    by (simp_all add: userinfo_text_def upass_text_def port_text_def)
  have nonempty: "auth_nonempty (a\<lparr>pt_port := x\<rparr>)" "auth_nonempty (a\<lparr>pt_host := h\<rparr>)" for x
    using assms(5,7) by (simp_all add: auth_nonempty_def)
  show "setHost (latin1 h) (url_of p) = url_of (p\<lparr>pt_auth := Some (a\<lparr>pt_host := h\<rparr>)\<rparr>)"
  proof -
    let ?b = "a\<lparr>pt_host := h\<rparr>"
    have "auth_ok ?b" using a assms(6) by (simp add: auth_ok_def)
    then have "parse_String (latin1 (url_text (p\<lparr>pt_auth := Some ?b\<rparr>))) = url_of (p\<lparr>pt_auth := Some ?b\<rparr>)"
      using nonempty assms(1,4) by (intro reparse parts_ok_auth) simp_all
    moreover have "\<not> slashSlashNeeded (url_of p)" by (simp add: slashSlashNeeded_def ends)
    ultimately show ?thesis
      unfolding setHost_def take_hostStart [OF assms(3)] drop_host [OF assms(3,2)] text_of_auth
      by (simp add: url_of_fields latin1_append latin1_Cons auth_text_def ui)
  qed
  show "removePort (url_of p) = url_of (p\<lparr>pt_auth := Some (a\<lparr>pt_port := None\<rparr>)\<rparr>)"
  proof (cases "pt_port a")
    case None
    have "p\<lparr>pt_auth := Some (a\<lparr>pt_port := None\<rparr>)\<rparr> = p"
      using None assms(3) by (cases a, cases p) simp
    then show ?thesis unfolding removePort_def using None by (simp add: ends port_text_def)
  next
    case (Some d)
    let ?b = "a\<lparr>pt_port := None\<rparr>"
    have "auth_ok ?b" using a by (simp add: auth_ok_def)
    then have "parse_String (latin1 (url_text (p\<lparr>pt_auth := Some ?b\<rparr>))) = url_of (p\<lparr>pt_auth := Some ?b\<rparr>)"
      using nonempty assms(1,4) by (intro reparse parts_ok_auth) simp_all
    with Some show ?thesis
      unfolding removePort_def take_hostEnd [OF assms(3)] drop_port [OF assms(3,2)] text_of_auth
      by (simp add: ends latin1_append auth_text_def ui) (simp add: port_text_def latin1_def)
  qed
  show "setPort n (url_of p) =
      url_of (p\<lparr>pt_auth := Some (a\<lparr>pt_port := Some (copyASCII (decimal (unat n)))\<rparr>)\<rparr>)"
  proof -
    let ?b = "a\<lparr>pt_port := Some (copyASCII (decimal (unat n)))\<rparr>"
    have "auth_ok ?b" using a decimal_bytes by (simp add: auth_ok_def)
    then have r: "parse_String (latin1 (url_text (p\<lparr>pt_auth := Some ?b\<rparr>))) = url_of (p\<lparr>pt_auth := Some ?b\<rparr>)"
      using nonempty assms(1,4) by (intro reparse parts_ok_auth) simp_all
    have colon: "left (m_string (url_of p)) (if m_portEnd (url_of p) = m_hostEnd (url_of p) then m_hostEnd (url_of p) else m_hostEnd (url_of p) + 1)
        @ (if m_portEnd (url_of p) = m_hostEnd (url_of p) then lit '':'' else [])
        = latin1 (pt_scheme p @ lit ''://'' @ userinfo_text a @ pt_host a @ [ch CHR '':''])"
    proof (cases "pt_port a")
      case None
      then show ?thesis
        using take_hostEnd [OF assms(3)] by (simp add: ends port_text_def latin1_def)
    next
      case (Some d)
      let ?X = "pt_scheme p @ lit ''://'' @ userinfo_text a @ pt_host a @ [ch CHR '':'']"
      have "m_hostEnd (url_of p) + 1 = length ?X" "m_portEnd (url_of p) \<noteq> m_hostEnd (url_of p)"
        using Some by (simp_all add: ends port_text_def)
      moreover have "m_string (url_of p) = latin1 (?X @ d @ pt_path p @ pt_query p @ fragment_text p)"
        using Some assms(3) by (simp add: url_of_fields url_text_def before_path_def auth_text_def port_text_def)
      ultimately show ?thesis
        using left_latin1 [of ?X "d @ pt_path p @ pt_query p @ fragment_text p"] by (simp only: if_False append_Nil2)
    qed
    have "setPort n (url_of p) = parse_String ((left (m_string (url_of p)) (if m_portEnd (url_of p) = m_hostEnd (url_of p) then m_hostEnd (url_of p) else m_hostEnd (url_of p) + 1)
        @ (if m_portEnd (url_of p) = m_hostEnd (url_of p) then lit '':'' else []))
        @ decimal (unat n) @ substring (m_string (url_of p)) (m_portEnd (url_of p)) UINT_MAX)"
      unfolding setPort_def Let_def append_assoc by (simp only: url_of_fields(1) simp_thms if_False)
    also have "\<dots> = parse_String (latin1 (url_text (p\<lparr>pt_auth := Some ?b\<rparr>)))"
      unfolding colon drop_port [OF assms(3,2)] text_of_auth
      using decimal_bytes [of "unat n"]
      by (simp add: latin1_append auth_text_def ui port_text_def) (simp add: latin1_def)
    finally show ?thesis using r by simp
  qed
qed

theorem authority_setters_edit_parts_witness:
  "m_string (setHost (lit ''new'') (url_of example_parts)) = lit ''http://new/a?q#f''"
proof -
  let ?a = "\<lparr>pt_user = [], pt_pass = [], pt_host = lit ''h'', pt_port = None\<rparr>"
  have l: "latin1 (lit ''new'') = lit ''new''" by (simp add: latin1_def)
  have "pt_auth example_parts = Some ?a" "\<not> file_scheme (pt_scheme example_parts)" "pt_host ?a \<noteq> []"
      "host_ok (lit ''new'')" "lit ''new'' \<noteq> ([] :: byte list)"
    by code_simp+
  from authority_setters_edit_parts [OF example_parts_ok(1,2) this]
  have "setHost (lit ''new'') (url_of example_parts) = url_of (example_parts\<lparr>pt_auth := Some (?a\<lparr>pt_host := lit ''new''\<rparr>)\<rparr>)"
    unfolding l by blast
  then show ?thesis
    by (simp add: url_of_fields text_of_auth) (simp add: example_parts_def auth_text_def
        userinfo_text_def upass_text_def port_text_def fragment_text_def latin1_def)
qed

end
