(* ===== verification/KURLCompare.thy ===== *)
theory KURLCompare
  imports KURLOpsFacts
begin

text \<open>
  Comparing URLs, MIME types of data URLs, and the round trip of escaping and unescaping.
\<close>

section \<open>Comparing\<close>

definition host_text :: "KURL \<Rightarrow> ustring" where
  "host_text u = segment (m_string u) (hostStart u) (m_hostEnd u)"

lemma all_String_at_iff:
  "i + k \<le> length s \<Longrightarrow> j + k \<le> length t \<Longrightarrow>
   segment s i (i + k) = segment t j (j + k) \<longleftrightarrow> (\<forall>n<k. String_at s (i + n) = String_at t (j + n))"
  by (auto simp: list_eq_iff_nth_eq nth_segment)

lemma offsets_bounds:
  "KURL_offsets_ok u \<Longrightarrow> m_isValid u \<Longrightarrow>
   m_schemeEnd u \<le> length (m_string u) \<and> hostStart u \<le> m_hostEnd u \<and> m_hostEnd u \<le> length (m_string u)"
  by (cases "m_passwordEnd u = m_userStart u") (auto simp: KURL_offsets_ok_def hostStart_def)

text \<open>\<open>equalIgnoringFragmentIdentifier\<close> compares exactly what precedes the fragments.\<close>

theorem equalIgnoringFragmentIdentifier_iff:
  assumes "KURL_offsets_ok a" "m_isValid a" "KURL_offsets_ok b" "m_isValid b"
  shows "equalIgnoringFragmentIdentifier a b \<longleftrightarrow>
    take (m_queryEnd a) (m_string a) = take (m_queryEnd b) (m_string b)"
proof -
  have le: "m_queryEnd a \<le> length (m_string a)" "m_queryEnd b \<le> length (m_string b)"
    using assms by (simp_all add: KURL_offsets_ok_def)
  show ?thesis
  proof (cases "m_queryEnd a = m_queryEnd b")
    case True
    then show ?thesis
      using le all_String_at_iff [of 0 "m_queryEnd a" "m_string a" 0 "m_string b"]
      by (simp add: equalIgnoringFragmentIdentifier_def segment_def)
  next
    case False
    have "take (m_queryEnd a) (m_string a) \<noteq> take (m_queryEnd b) (m_string b)"
    proof
      assume "take (m_queryEnd a) (m_string a) = take (m_queryEnd b) (m_string b)"
      then have "length (take (m_queryEnd a) (m_string a)) = length (take (m_queryEnd b) (m_string b))" by simp
      with le False show False by simp
    qed
    with False show ?thesis by (simp add: equalIgnoringFragmentIdentifier_def)
  qed
qed

theorem equalIgnoringFragmentIdentifier_iff_witness:
  "equalIgnoringFragmentIdentifier (parse (lit ''http://h/#a'') None) (parse (lit ''http://h/#b'') None)"
proof -
  have v: "KURL_offsets_ok (parse (lit ''http://h/#a'') None)" "m_isValid (parse (lit ''http://h/#a'') None)"
      "KURL_offsets_ok (parse (lit ''http://h/#b'') None)" "m_isValid (parse (lit ''http://h/#b'') None)"
      "take (m_queryEnd (parse (lit ''http://h/#a'') None)) (m_string (parse (lit ''http://h/#a'') None))
       = take (m_queryEnd (parse (lit ''http://h/#b'') None)) (m_string (parse (lit ''http://h/#b'') None))"
    by code_simp+
  from equalIgnoringFragmentIdentifier_iff [OF v(1-4)] v(5) show ?thesis by blast
qed

text \<open>The comparison that guards scripts and credentials between two URLs is right when the
  hosts start at the same position.\<close>

theorem protocolHostAndPortAreEqual_aligned:
  assumes "KURL_offsets_ok a" "m_isValid a" "KURL_offsets_ok b" "m_isValid b"
    and "hostStart a = hostStart b"
  shows "protocolHostAndPortAreEqual U a b \<longleftrightarrow>
    protocol a = protocol b \<and> host_text a = host_text b \<and> port U a = port U b"
proof -
  have le: "m_schemeEnd a \<le> length (m_string a)" "m_schemeEnd b \<le> length (m_string b)"
      "hostStart a \<le> m_hostEnd a" "hostStart b \<le> m_hostEnd b"
      "m_hostEnd a \<le> length (m_string a)" "m_hostEnd b \<le> length (m_string b)"
    using offsets_bounds assms by blast+
  have scheme: "m_schemeEnd a = m_schemeEnd b \<and> (\<forall>i<m_schemeEnd a. String_at (m_string a) i = String_at (m_string b) i)
      \<longleftrightarrow> protocol a = protocol b"
  proof (cases "m_schemeEnd a = m_schemeEnd b")
    case True
    then show ?thesis
      using le all_String_at_iff [of 0 "m_schemeEnd a" "m_string a" 0 "m_string b"]
      by (simp add: protocol_def segment_def)
  next
    case False
    then have "length (protocol a) \<noteq> length (protocol b)" using le by (simp add: protocol_def)
    with False show ?thesis by auto
  qed
  have host: "int (m_hostEnd a) - int (hostStart a) = int (m_hostEnd b) - int (hostStart b)
      \<and> (\<forall>i\<in>{hostStart a..<m_hostEnd a}. String_at (m_string a) i = String_at (m_string b) i)
      \<longleftrightarrow> host_text a = host_text b"
  proof (cases "m_hostEnd a = m_hostEnd b")
    case True
    define k where "k = m_hostEnd a - hostStart a"
    have k: "m_hostEnd a = hostStart a + k" "m_hostEnd b = hostStart b + k"
      using le True assms(5) by (simp_all add: k_def)
    have "(\<forall>i\<in>{hostStart a..<m_hostEnd a}. String_at (m_string a) i = String_at (m_string b) i)
        \<longleftrightarrow> (\<forall>n<k. String_at (m_string a) (hostStart a + n) = String_at (m_string b) (hostStart b + n))"
      unfolding k(1) assms(5) by (metis atLeastLessThan_iff le_add1 le_add_diff_inverse nat_add_left_cancel_less)
    also have "\<dots> \<longleftrightarrow> host_text a = host_text b"
      unfolding host_text_def k using le unfolding k by (intro all_String_at_iff [symmetric]) simp_all
    finally show ?thesis using True assms(5) by simp
  next
    case False
    have "length (host_text a) \<noteq> length (host_text b)"
      using le False assms(5) by (auto simp: host_text_def)
    with False assms(5) show ?thesis by auto
  qed
  show ?thesis
    unfolding protocolHostAndPortAreEqual_def using scheme host by blast
qed

theorem protocolHostAndPortAreEqual_aligned_witness:
  "protocolHostAndPortAreEqual ascii_peer (parse (lit ''http://h/a'') None) (parse (lit ''http://h/b'') None)"
proof -
  let ?a = "parse (lit ''http://h/a'') None" and ?b = "parse (lit ''http://h/b'') None"
  have v: "KURL_offsets_ok ?a" "m_isValid ?a" "KURL_offsets_ok ?b" "m_isValid ?b" "hostStart ?a = hostStart ?b"
      "protocol ?a = protocol ?b" "host_text ?a = host_text ?b"
      "m_hostEnd ?a = m_portEnd ?a" "m_hostEnd ?b = m_portEnd ?b"
    by code_simp+
  have "port ascii_peer ?a = port ascii_peer ?b" using v(8,9) by (simp only: port_def simp_thms if_True)
  with protocolHostAndPortAreEqual_aligned [OF v(1-5), of ascii_peer] v(6,7) show ?thesis by blast
qed

text \<open>The string, the host and the port of a URL with canonical parts.\<close>

lemma hostStart_parts: "pt_auth p = Some a \<Longrightarrow> hostStart (url_of p) = length (pt_scheme p @ lit ''://'' @ userinfo_text a)"
  by (simp add: hostStart_def url_of_fields url_offsets_auth userinfo_length)

lemma host_text_parts:
  assumes "pt_auth p = Some a"
  shows "host_text (url_of p) = latin1 (pt_host a)" "m_hostEnd (url_of p) = hostStart (url_of p) + length (pt_host a)"
proof -
  let ?pre = "pt_scheme p @ lit ''://'' @ userinfo_text a"
  have t: "url_text p = ?pre @ pt_host a @ (port_text a @ pt_path p @ pt_query p @ fragment_text p)"
    using assms by (simp add: url_text_def before_path_def auth_text_def)
  show e: "m_hostEnd (url_of p) = hostStart (url_of p) + length (pt_host a)"
    using assms url_offsets_auth(1) [OF assms] by (simp add: hostStart_def url_of_fields userinfo_length)
  show "host_text (url_of p) = latin1 (pt_host a)"
    unfolding host_text_def e url_of_fields(2) segment_latin1 t hostStart_parts [OF assms]
    by (rule arg_cong [OF segment_pieces]) (simp_all only: refl)
qed

lemma port_parts:
  assumes "pt_auth p = Some a" "pt_auth q = Some b" "pt_port b = pt_port a"
  shows "port U (url_of p) = port U (url_of q)"
proof -
  have "segment (m_string (url_of r)) (m_hostEnd (url_of r) + 1) (m_portEnd (url_of r)) = latin1 (tl (port_text c))"
    if "pt_auth r = Some c" for r c
    using port_segment [OF that] by (simp add: url_of_fields segment_latin1)
  moreover have "m_portEnd (url_of r) = m_hostEnd (url_of r) + length (port_text c)" if "pt_auth r = Some c" for r c
    using that by (simp add: url_of_fields url_offsets_auth url_offsets_simps before_path_length)
  moreover have "port_text b = port_text a" using assms(3) by (simp add: port_text_def)
  ultimately have "segment (m_string (url_of q)) (m_hostEnd (url_of q) + 1) (m_portEnd (url_of q)) =
      segment (m_string (url_of p)) (m_hostEnd (url_of p) + 1) (m_portEnd (url_of p))"
    "m_portEnd (url_of p) = m_hostEnd (url_of p) + length (port_text a)" "m_portEnd (url_of q) = m_hostEnd (url_of q) + length (port_text a)"
    using assms(1,2) by metis+
  then show ?thesis unfolding port_def by simp
qed

text \<open>C31: When they do not, the host of the first URL is compared with what the second has at the same position.
  So for every URL without a user name, and every other host of the same length, the URL of that host with
  the first host for its user name is taken for a URL of the same host.\<close>

theorem protocolHostAndPortAreEqual_confuses_hosts:
  assumes "parts_ok p" "pt_auth p = Some a" "pt_user a = []" "pt_pass a = []"
    and "q = p\<lparr>pt_auth := Some (a\<lparr>pt_user := pt_host a, pt_host := g\<rparr>)\<rparr>" "parts_ok q" "length g = length (pt_host a)"
  shows "protocolHostAndPortAreEqual U (parse (url_text p) None) (parse (url_text q) None)
    \<and> host_text (parse (url_text p) None) = latin1 (pt_host a) \<and> host_text (parse (url_text q) None) = latin1 g"
proof -
  let ?b = "a\<lparr>pt_user := pt_host a, pt_host := g\<rparr>"
  have u: "parse (url_text r) None = url_of r" if "parts_ok r" for r
    using parse_ranges_parts [OF that] by (simp add: parse_def url_of_def)
  have q: "pt_auth q = Some ?b" "pt_scheme q = pt_scheme p" using assms(5) by simp_all
  have start: "hostStart (url_of p) = length (pt_scheme p @ lit ''://'')" using assms(2-4)
    by (simp add: hostStart_parts userinfo_text_def upass_text_def)
  have texts: "url_text p = (pt_scheme p @ lit ''://'' @ pt_host a) @ port_text a @ pt_path p @ pt_query p @ fragment_text p"
    "\<exists>t. url_text q = (pt_scheme p @ lit ''://'' @ pt_host a) @ t"
    using assms(2-5) by (auto simp: url_text_def before_path_def auth_text_def userinfo_text_def upass_text_def port_text_def)
  then have same: "String_at (latin1 (url_text p)) i = String_at (latin1 (url_text q)) i"
    if "i < length (pt_scheme p @ lit ''://'' @ pt_host a)" for i
    using that by (auto simp: String_at_def latin1_nth nth_append simp del: append_assoc)
  have len: "length (pt_scheme p @ lit ''://'' @ pt_host a) = m_hostEnd (url_of p)"
    using host_text_parts(2) [OF assms(2)] start by simp
  have scheme: "m_schemeEnd (url_of p) = m_schemeEnd (url_of q)" "m_schemeEnd (url_of p) \<le> m_hostEnd (url_of p)"
    using q(2) unfolding len [symmetric] by (simp_all add: url_of_fields url_offsets_simps)
  have "port U (url_of p) = port U (url_of q)" using port_parts [OF assms(2) q(1)] by simp
  then have "protocolHostAndPortAreEqual U (url_of p) (url_of q)"
    unfolding protocolHostAndPortAreEqual_def url_of_fields(2)
    using same [unfolded len] scheme host_text_parts(2) [OF assms(2)] host_text_parts(2) [OF q(1)] assms(7) by auto
  then show ?thesis using host_text_parts(1) [OF assms(2)] host_text_parts(1) [OF q(1)] assms(1,6) by (simp add: u)
qed

theorem protocolHostAndPortAreEqual_confuses_hosts_witness:
  "protocolHostAndPortAreEqual ascii_peer (parse (lit ''http://h/a?q#f'') None) (parse (lit ''http://h@g/a?q#f'') None)"
proof -
  let ?a = "\<lparr>pt_user = [], pt_pass = [], pt_host = lit ''h'', pt_port = None\<rparr>"
  let ?b = "?a\<lparr>pt_user := pt_host ?a, pt_host := lit ''g''\<rparr>" and ?q = "example_parts\<lparr>pt_auth := Some (?a\<lparr>pt_user := pt_host ?a, pt_host := lit ''g''\<rparr>)\<rparr>"
  have "auth_ok ?b" "\<not> file_scheme (pt_scheme example_parts)" by code_simp+
  then have q: "parts_ok ?q"
    using example_parts_ok(1) by (intro parts_ok_auth) (simp_all add: auth_nonempty_def upass_text_def)
  have a: "pt_auth example_parts = Some ?a" by (simp add: example_parts_def)
  have t: "url_text example_parts = lit ''http://h/a?q#f''" "url_text ?q = lit ''http://h@g/a?q#f''" by code_simp+
  from protocolHostAndPortAreEqual_confuses_hosts [OF example_parts_ok(1) a _ _ refl q] show ?thesis
    unfolding t by simp
qed

section \<open>Data URLs\<close>

text \<open>The media type of a data URL ends at the first semicolon anywhere in it: a payload
  that holds one, in a URL without parameters, is taken for the type.\<close>

lemma mimeType_from_payload:
  "mimeTypeFromDataURL (lit ''data:text/html;base64,AA'') = lit ''text/html''
   \<and> mimeTypeFromDataURL (lit ''data:,AA'') = lit ''text/plain''
   \<and> mimeTypeFromDataURL (lit ''data:,a;b'') = lit '',a''"
proof (intro conjI)
  show "mimeTypeFromDataURL (lit ''data:text/html;base64,AA'') = lit ''text/html''" by code_simp
  show "mimeTypeFromDataURL (lit ''data:,AA'') = lit ''text/plain''" by code_simp
  show "mimeTypeFromDataURL (lit ''data:,a;b'') = lit '',a''" by code_simp
qed

end
