(* ===== verification/KURLEscapes.thy ===== *)
theory KURLEscapes
  imports KURLOps
begin

text \<open>
  Escaping a string and unescaping it gives the string back, for any decoder that reads
  ASCII bytes as themselves.
\<close>

unbundle bit_operations_syntax

definition encode_bytes :: "byte list \<Rightarrow> byte list" where
  "encode_bytes bs = concat (map (\<lambda>c. if isBadChar c then hex_escape c else [c]) bs)"

lemma encode_bytes_simps [simp]:
  "encode_bytes [] = []" "encode_bytes (a @ b) = encode_bytes a @ encode_bytes b"
  "encode_bytes (c # b) = (if isBadChar c then hex_escape c else [c]) @ encode_bytes b"
  by (simp_all add: encode_bytes_def)

lemma latin1_simps [simp]: "latin1 [] = []" "latin1 (c # s) = ucast c # latin1 s" "latin1 (a @ b) = latin1 a @ latin1 b"
  by (simp_all add: latin1_def)

section \<open>One escape code\<close>

lemma hexDigits_value:
  "n < 16 \<Longrightarrow> isASCIIHexDigit (ucast (hexDigits ! n)) \<and> hexDigitValue (ucast (hexDigits ! n)) = of_nat n"
proof -
  have "list_all (\<lambda>n. isASCIIHexDigit (ucast (hexDigits ! n)) \<and> hexDigitValue (ucast (hexDigits ! n)) = of_nat n) [0..<16]"
    by code_simp
  then show "n < 16 \<Longrightarrow> ?thesis" by (simp add: list_all_iff)
qed

lemma nibbles_join:
  "(ucast (push_bit 4 (of_nat (unat (drop_bit 4 c)) :: uchar) OR of_nat (unat (c AND 0xF))) :: byte) = c"
proof -
  have m: "(0xF :: byte) = mask 4" by (simp add: mask_eq_exp_minus_1)
  have "(of_nat (unat (drop_bit 4 c)) :: uchar) = ucast (drop_bit 4 c)" "(of_nat (unat (c AND 0xF)) :: uchar) = ucast (c AND 0xF)"
    by simp_all
  moreover have "(ucast (push_bit 4 (ucast (drop_bit 4 c) :: uchar) OR ucast (c AND 0xF)) :: byte) = c"
    unfolding m by (rule bit_word_eqI) (auto simp: bit_simps)
  ultimately show ?thesis by simp
qed

definition is_code :: "ustring \<Rightarrow> nat \<Rightarrow> byte \<Rightarrow> bool" where
  "is_code str i c \<longleftrightarrow> i + 3 \<le> length str \<and> take 3 (drop i str) = latin1 (hex_escape c)"

lemma is_code_reads:
  assumes "is_code str i c"
  shows "String_at str i = ch CHR ''%''" "isASCIIHexDigit (String_at str (i + 1))"
    "isASCIIHexDigit (String_at str (i + 2))"
    "(ucast (push_bit 4 (hexDigitValue (str ! (i + 1))) OR hexDigitValue (str ! (i + 2))) :: byte) = c"
proof -
  have len: "i + 2 < length str" using assms by (simp add: is_code_def)
  have nth: "str ! (i + k) = latin1 (hex_escape c) ! k" if "k < 3" for k
  proof -
    have "latin1 (hex_escape c) ! k = take 3 (drop i str) ! k" using assms by (simp add: is_code_def)
    also have "\<dots> = str ! (i + k)" using that len by simp
    finally show ?thesis by simp
  qed
  have h: "latin1 (hex_escape c) = [ch CHR ''%'', ucast (hexDigits ! unat (drop_bit 4 c)), ucast (hexDigits ! unat (c AND 0xF))]"
    unfolding hex_escape_def latin1_def by simp
  have e0: "str ! (i + 0) = ch CHR ''%''" by (subst nth) (simp, unfold h, simp)
  have e1: "str ! (i + 1) = ucast (hexDigits ! unat (drop_bit 4 c))" by (subst nth) (simp, unfold h, simp)
  have e2: "str ! (i + 2) = ucast (hexDigits ! unat (c AND 0xF))" by (subst nth) (simp, unfold h, simp)
  note e = e0 [unfolded add_0_right] e1 e2
  show "String_at str i = ch CHR ''%''" using e(1) len by simp
  show "isASCIIHexDigit (String_at str (i + 1))" "isASCIIHexDigit (String_at str (i + 2))"
    using e(2,3) len hexDigits_value [OF nibbles(1)] hexDigits_value [OF nibbles(2)] by simp_all
  show "(ucast (push_bit 4 (hexDigitValue (str ! (i + 1))) OR hexDigitValue (str ! (i + 2))) :: byte) = c"
    unfolding e(2,3) using hexDigits_value [OF nibbles(1)] hexDigits_value [OF nibbles(2)] nibbles_join by simp
qed

section \<open>A run of escape codes\<close>

lemma encode_bad: "\<forall>c\<in>set bads. isBadChar c \<Longrightarrow> encode_bytes bads = concat (map hex_escape bads)"
  by (induction bads) simp_all

lemma length_codes: "length (concat (map hex_escape bads)) = 3 * length bads"
  by (induction bads) (simp_all add: hex_escape_def)

lemma run_end_codes:
  "str = pre @ latin1 (concat (map hex_escape bads)) @ post \<Longrightarrow> i = length pre \<Longrightarrow>
   post = [] \<or> hd post \<noteq> ch CHR ''%'' \<Longrightarrow> run_end str i = i + 3 * length bads"
proof (induction bads arbitrary: pre i)
  case Nil
  have "\<not> (int (length str) - int i \<ge> 3 \<and> String_at str i = ch CHR ''%'')"
    using Nil by (cases post) (auto simp: String_at_def nth_append)
  then show ?case by (subst run_end.simps) auto
next
  case (Cons c bads)
  have "is_code str i c"
    using Cons.prems(1,2) by (simp add: is_code_def hex_escape_def)
  note reads = is_code_reads [OF this]
  have "int (length str) - int i \<ge> 3" using \<open>is_code str i c\<close> by (simp add: is_code_def)
  then have "run_end str i = run_end str (i + 3)" using reads by (subst run_end.simps) simp
  also have "\<dots> = i + 3 + 3 * length bads"
    using Cons.prems by (intro Cons.IH [of "pre @ latin1 (hex_escape c)"]) (simp_all add: hex_escape_def)
  finally show ?case by simp
qed

lemma run_bytes_codes:
  "str = pre @ latin1 (concat (map hex_escape bads)) @ post \<Longrightarrow> i = length pre \<Longrightarrow>
   run_bytes str i (length bads) = bads"
proof (rule nth_equalityI)
  fix k
  assume str: "str = pre @ latin1 (concat (map hex_escape bads)) @ post" "i = length pre"
    and k: "k < length (run_bytes str i (length bads))"
  then have k: "k < length bads" by (simp add: run_bytes_def)
  have split: "bads = take k bads @ bads ! k # drop (Suc k) bads" using k by (rule id_take_nth_drop)
  have e: "str = (pre @ latin1 (concat (map hex_escape (take k bads)))) @ latin1 (hex_escape (bads ! k))
      @ (latin1 (concat (map hex_escape (drop (Suc k) bads))) @ post)"
    unfolding str(1) by (subst split) simp
  have p: "i + 3 * k = length (pre @ latin1 (concat (map hex_escape (take k bads))))"
    using k str(2) by (simp add: length_codes)
  have "is_code str (i + 3 * k) (bads ! k)"
    unfolding is_code_def p by (subst (1 2) e) (simp add: hex_escape_def)
  from is_code_reads(4) [OF this] show "run_bytes str i (length bads) ! k = bads ! k"
    using k by (simp add: run_bytes_def)
qed (simp add: run_bytes_def)

section \<open>The loop\<close>

lemma find_char_append:
  "c \<notin> set plain \<Longrightarrow> i = length pre \<Longrightarrow> find_char (pre @ plain @ c # post) c (int i) = int (i + length plain)"
proof -
  assume *: "c \<notin> set plain" "i = length pre"
  have "find_from (\<lambda>x. x = c) (plain @ c # post) i = int (i + length plain)"
    using *(1) by (induction plain arbitrary: i) auto
  with * show ?thesis by (simp add: find_char_def)
qed

lemma find_char_absent: "c \<notin> set plain \<Longrightarrow> i = length pre \<Longrightarrow> find_char (pre @ plain) c (int i) = -1"
proof -
  assume *: "c \<notin> set plain" "i = length pre"
  have "find_from (\<lambda>x. x = c) plain i = -1"
    using *(1) by (induction plain arbitrary: i) auto
  with * show ?thesis by (simp add: find_char_def)
qed

lemma plain_no_percent: "\<forall>c\<in>set plain. \<not> isBadChar c \<Longrightarrow> ch CHR ''%'' \<notin> set (latin1 plain)"
proof
  assume *: "\<forall>c\<in>set plain. \<not> isBadChar c" "ch CHR ''%'' \<in> set (latin1 plain)"
  then obtain c where "c \<in> set plain" "(ucast c :: uchar) = ucast (ch CHR ''%'' :: byte)" by (auto simp: latin1_def)
  then have "c = ch CHR ''%''" by (simp only: ucast_byte_eq)
  with * \<open>c \<in> set plain\<close> show False by (auto simp: class_iffs class_docs)
qed

lemma encode_plain: "\<forall>c\<in>set plain. \<not> isBadChar c \<Longrightarrow> encode_bytes plain = plain"
  by (induction plain) auto

lemma decode_loop_encoded:
  assumes decode: "\<And>bs. \<forall>b\<in>set bs. b < 0x80 \<Longrightarrow> decode bs = latin1 bs"
  shows "\<forall>b\<in>set t. b < 0x80 \<Longrightarrow> dp \<le> length pre \<Longrightarrow>
    decode_loop decode (pre @ latin1 (encode_bytes t)) (length pre) dp result = result @ drop dp pre @ latin1 t"
proof (induction "length t" arbitrary: t pre dp result rule: less_induct)
  case less
  define plain where "plain = takeWhile (\<lambda>c. \<not> isBadChar c) t"
  define t1 where "t1 = dropWhile (\<lambda>c. \<not> isBadChar c) t"
  define bads where "bads = takeWhile isBadChar t1"
  define t2 where "t2 = dropWhile isBadChar t1"
  have t: "t = plain @ bads @ t2" by (simp add: plain_def t1_def bads_def t2_def)
  have plain: "\<forall>c\<in>set plain. \<not> isBadChar c" by (auto simp: plain_def dest: set_takeWhileD)
  have bad: "\<forall>c\<in>set bads. isBadChar c" by (auto simp: bads_def dest: set_takeWhileD)
  note pp = plain_no_percent [OF plain]
  let ?str = "pre @ latin1 (encode_bytes t)"
  show ?case
  proof (cases "bads = []")
    case True
    have "t1 = []"
    proof (rule ccontr)
      assume "t1 \<noteq> []"
      then have "isBadChar (hd t1)" unfolding t1_def using hd_dropWhile by force
      with True \<open>t1 \<noteq> []\<close> show False by (cases t1) (auto simp: bads_def)
    qed
    then have t': "t = plain" using t True by (simp add: t2_def)
    have "find_run ?str (length pre) = None"
      using find_char_absent [OF pp refl, of pre] by (simp add: find_run_def t' encode_plain [OF plain])
    with less.prems(2) show ?thesis
      by (subst decode_loop.simps) (simp add: t' encode_plain [OF plain])
  next
    case False
    let ?pre = "pre @ latin1 plain"
    let ?codes = "latin1 (concat (map hex_escape bads))"
    let ?post = "latin1 (encode_bytes t2)"
    have str: "?str = ?pre @ ?codes @ ?post"
      by (simp add: t encode_plain [OF plain] encode_bad [OF bad])
    have post: "?post = [] \<or> hd ?post \<noteq> ch CHR ''%''"
    proof (cases t2)
      case (Cons c s)
      then have "\<not> isBadChar c" using hd_dropWhile [of isBadChar t1] by (simp add: t2_def)
      with plain_no_percent [of "[c]"] Cons show ?thesis by auto
    qed simp
    obtain b bs where bb: "bads = b # bs" using False by (cases bads) auto
    have codes: "?codes = ch CHR ''%'' # tl ?codes" by (simp add: bb hex_escape_def)
    have "find_char ?str (ch CHR ''%'') (int (length pre)) = int (length pre + length plain)"
    proof -
      have "?str = pre @ latin1 plain @ ch CHR ''%'' # (tl ?codes @ ?post)"
        unfolding str using codes by (metis append_Cons append_assoc)
      then show ?thesis using find_char_append [OF pp refl, of pre] by simp
    qed
    moreover have re: "run_end ?str (length ?pre) = length ?pre + 3 * length bads"
      unfolding str using post by (intro run_end_codes [OF refl refl])
    ultimately have fr: "find_run ?str (length pre) = Some (length ?pre, length ?pre + 3 * length bads)"
      by (simp add: find_run_def Let_def nat_add_distrib)
    have rb: "run_bytes ?str (length ?pre) (length bads) = bads"
      unfolding str by (rule run_bytes_codes [OF refl refl])
    have "\<forall>x\<in>set bads. x < 0x80" using less.prems(1) by (simp add: t)
    then have dec: "decode_run decode ?str (length ?pre) (length ?pre + 3 * length bads) = latin1 bads"
      using rb decode by (simp add: decode_run_def)
    have ne: "latin1 bads \<noteq> []" by (simp add: bb)
    have gt: "\<not> length ?pre + 3 * length bads \<le> length ?pre" using False by simp
    have seg: "segment ?str dp (length ?pre) = drop dp ?pre"
      unfolding str segment_def using less.prems(2) by simp
    have len: "length ?pre + 3 * length bads = length (?pre @ ?codes)" by (simp add: length_codes)
    have "decode_loop decode ?str (length pre) dp result
        = decode_loop decode ?str (length ?pre + 3 * length bads) (length ?pre + 3 * length bads)
            (result @ drop dp ?pre @ latin1 bads)"
      using ne gt by (subst decode_loop.simps) (simp only: fr option.case prod.case if_False dec seg)
    also have "\<dots> = decode_loop decode ((?pre @ ?codes) @ ?post) (length (?pre @ ?codes)) (length (?pre @ ?codes))
            (result @ drop dp ?pre @ latin1 bads)"
      unfolding len str append_assoc ..
    also have "\<dots> = (result @ drop dp ?pre @ latin1 bads) @ drop (length (?pre @ ?codes)) (?pre @ ?codes) @ latin1 t2"
      using less.prems(1) False by (intro less.hyps) (auto simp: t)
    also have "\<dots> = result @ drop dp pre @ latin1 t"
      using less.prems(2) by (simp add: t)
    finally show ?thesis .
  qed
qed

text \<open>C24: Unescaping an escaped ASCII string gives the string back, for every decoder that reads
  ASCII as ASCII. The loop returns on every input: it is total.\<close>

theorem decode_encode:
  assumes "\<And>bs. \<forall>b\<in>set bs. b < 0x80 \<Longrightarrow> enc_decode utf8 bs = latin1 bs"
    and "\<forall>b\<in>set bs. b < 0x80" and "toUTF8 (latin1 bs) = bs"
  shows "decodeURLEscapeSequences utf8 (encodeWithURLEscapeSequences toUTF8 (latin1 bs)) utf8 = latin1 bs"
proof -
  have "encodeWithURLEscapeSequences toUTF8 (latin1 bs) = latin1 (encode_bytes bs)"
    using assms(3) by (simp add: encodeWithURLEscapeSequences_def encode_bytes_def)
  then show ?thesis
    using decode_loop_encoded [of "enc_decode utf8" bs 0 "[]" "[]", OF assms(1,2)]
    by (simp add: decodeURLEscapeSequences_def)
qed

theorem decode_encode_witness:
  "decodeURLEscapeSequences \<lparr>enc_name = ''UTF-8'', enc_isValid = True, enc_decode = latin1, enc_encode = copyASCII\<rparr>
     (encodeWithURLEscapeSequences copyASCII (lit ''a b%<c>''))
     \<lparr>enc_name = ''UTF-8'', enc_isValid = True, enc_decode = latin1, enc_encode = copyASCII\<rparr> = lit ''a b%<c>''"
proof -
  let ?e = "\<lparr>enc_name = ''UTF-8'', enc_isValid = True, enc_decode = latin1, enc_encode = copyASCII\<rparr>"
  have l: "latin1 (lit ''a b%<c>'') = lit ''a b%<c>''" by (simp add: latin1_def)
  have "decodeURLEscapeSequences ?e (encodeWithURLEscapeSequences copyASCII (latin1 (lit ''a b%<c>''))) ?e
      = latin1 (lit ''a b%<c>'')"
  proof (rule decode_encode)
    show "\<forall>b\<in>set (lit ''a b%<c>''). (b::byte) < 0x80" by code_simp
    show "copyASCII (latin1 (lit ''a b%<c>'')) = lit ''a b%<c>''" by (rule latin1_inverse)
  qed simp
  then show ?thesis unfolding l .
qed

end
