(* ===== verification/KURLResolve.thy ===== *)
theory KURLResolve
  imports KURLOpsFacts
begin

text \<open>
  Resolving a reference against a base URL: \<open>KURL::init\<close> of
  src/webkit/WebCore/platform/KURL.cpp with its host name and query encoding. Host names
  beyond ASCII go through the IDN library (\<open>idn\<close>: None when the conversion fails), and the
  text encodings are the codec library's.
\<close>

section \<open>Finding host names\<close>

text \<open>\<open>findFirstOf(s, sLen, startPos, toFind)\<close>.\<close>

definition findFirstOf :: "ustring \<Rightarrow> nat \<Rightarrow> byte list \<Rightarrow> int" where
  "findFirstOf s startPos toFind = find_from (\<lambda>c. c \<in> set (latin1 toFind)) (drop startPos s) startPos"

definition quote_chars :: "byte list" where
  "quote_chars = lit [CHR 34, CHR 92]"

lemma findFirstOf_range:
  "findFirstOf s i t = -1 \<or> (int i \<le> findFirstOf s i t \<and> nat (findFirstOf s i t) < length s)"
  using find_from_range [of "\<lambda>c. c \<in> set (latin1 t)" "drop i s" i]
  by (auto simp: findFirstOf_def)

text \<open>Skipping a quoted string; None when it has no end.\<close>

function skip_quoted :: "ustring \<Rightarrow> nat \<Rightarrow> nat option" where
  "skip_quoted str p =
     (case findFirstOf str p quote_chars of
        i \<Rightarrow> if i < 0 then None
             else if str ! nat i = 34 then Some (nat i + 1)
             else if nat i + 1 = length str then None
             else skip_quoted str (nat i + 2))"
  by pat_completeness auto
termination
proof (relation "measure (\<lambda>(str, p). length str + 2 - p)", goal_cases)
  case (2 str p)
  then show ?case using findFirstOf_range [of str p quote_chars] by auto
qed simp

declare skip_quoted.simps [simp del]

lemma skip_quoted_greater: "skip_quoted str p = Some q \<Longrightarrow> p < q"
proof (induction str p rule: skip_quoted.induct)
  case (1 str p)
  from "1.prems" show ?case
    using "1.IH" findFirstOf_range [of str p quote_chars]
    by (subst (asm) skip_quoted.simps) (auto simp: Let_def split: if_splits)
qed

definition mailto_delimiters :: "byte list" where
  "mailto_delimiters = lit [CHR 34, CHR ''@'', CHR ''?'']"

function mailto_loop :: "ustring \<Rightarrow> nat \<Rightarrow> (nat \<times> nat) list \<Rightarrow> (nat \<times> nat) list" where
  "mailto_loop str p ranges =
     (case findFirstOf str p mailto_delimiters of
        i \<Rightarrow> if i < 0 then ranges
             else if str ! nat i = ch CHR ''?'' then ranges
             else if str ! nat i = ch CHR ''@''
             then (case findFirstOf str (nat i + 1) (lit ''>,?'') of
                     e \<Rightarrow> if e < 0 then ranges @ [(nat i + 1, length str)]
                          else mailto_loop str (nat e) (ranges @ [(nat i + 1, nat e)]))
             else (case skip_quoted str (nat i + 1) of
                     None \<Rightarrow> ranges
                   | Some q \<Rightarrow> mailto_loop str q ranges))"
  by pat_completeness auto
termination
proof (relation "measure (\<lambda>(str, p, _). length str + 2 - p)", goal_cases)
  case (2 str p ranges)
  then show ?case
    using findFirstOf_range [of str p mailto_delimiters]
      findFirstOf_range [of str "nat (findFirstOf str p mailto_delimiters) + 1" "lit ''>,?''"]
    by auto
next
  case (3 str p ranges q)
  then show ?case
    using findFirstOf_range [of str p mailto_delimiters]
      skip_quoted_greater [of str "nat (findFirstOf str p mailto_delimiters) + 1" q]
    by auto
qed simp

declare mailto_loop.simps [simp del]

definition findHostnamesInMailToURL :: "ustring \<Rightarrow> (nat \<times> nat) list" where
  "findHostnamesInMailToURL str = mailto_loop str 0 []"

definition findHostnameInHierarchicalURL :: "ustring \<Rightarrow> (nat \<times> nat) option" where
  "findHostnameInHierarchicalURL str =
     (let separator = findFirstOf str 0 (lit '':'');
          s = nat separator
      in if separator = -1 \<or> s + 2 \<ge> length str \<or> str ! (s + 1) \<noteq> ch CHR ''/'' \<or> str ! (s + 2) \<noteq> ch CHR ''/''
         then None
         else if \<not> isSchemeFirstChar_u (str ! 0) then None
         else if \<not> (\<forall>i\<in>{1..<s}. isSchemeChar_u (str ! i)) then None
         else let authorityStart = s + 3;
                  hostnameEnd = scan_while (\<lambda>c. \<not> (c = ch CHR '':'' \<or> (isPathSegmentEndChar_u c \<and> c \<noteq> 0)))
                                  str authorityStart;
                  userInfoTerminator = findFirstOf str authorityStart (lit ''@'');
                  hostnameStart = (if userInfoTerminator = -1 \<or> userInfoTerminator > int hostnameEnd
                                   then authorityStart else nat userInfoTerminator + 1)
              in Some (hostnameStart, hostnameEnd))"

definition appendEncodedHostname :: "(ustring \<Rightarrow> ustring option) \<Rightarrow> ustring \<Rightarrow> ustring" where
  "appendEncodedHostname idn str =
     (if length str > 2048 \<or> charactersAreAllASCII str then str
      else case idn str of Some s \<Rightarrow> s | None \<Rightarrow> [])"

fun encode_ranges :: "(ustring \<Rightarrow> ustring option) \<Rightarrow> ustring \<Rightarrow> nat \<Rightarrow> (nat \<times> nat) list \<Rightarrow> ustring" where
  "encode_ranges idn str p [] = drop p str"
| "encode_ranges idn str p ((first, second) # rs) =
     segment str p first @ appendEncodedHostname idn (segment str first second)
     @ encode_ranges idn str second rs"

definition encodeHostnames :: "(ustring \<Rightarrow> ustring option) \<Rightarrow> ustring \<Rightarrow> ustring" where
  "encodeHostnames idn str =
     (if protocolIs str (lit ''mailto'') then encode_ranges idn str 0 (findHostnamesInMailToURL str)
      else case findHostnameInHierarchicalURL str of
             Some (hs, he) \<Rightarrow>
               take hs str @ appendEncodedHostname idn (segment str hs he) @ drop he str
           | None \<Rightarrow> str)"

definition encodeRelativeString ::
  "(ustring \<Rightarrow> ustring option) \<Rightarrow> text_encoding \<Rightarrow> text_encoding \<Rightarrow> ustring \<Rightarrow> byte list" where
  "encodeRelativeString idn utf8 encoding rel =
     (let s = encodeHostnames idn rel;
          pathEnd = (if enc_name encoding \<noteq> enc_name utf8 \<and> enc_isValid encoding
                        \<and> \<not> protocolIs rel (lit ''mailto'') \<and> \<not> protocolIs rel (lit ''data'')
                        \<and> \<not> protocolIsJavaScript rel
                     then findFirstOf s 0 (lit ''#?'') else -1)
      in if pathEnd = -1 then enc_encode utf8 s
         else enc_encode utf8 (take (nat pathEnd) s) @ enc_encode encoding (drop (nat pathEnd) s))"

definition substituteBackslashes :: "ustring \<Rightarrow> ustring" where
  "substituteBackslashes string =
     (let questionPos = find_char string (ch CHR ''?'') 0;
          hashPos = find_char string (ch CHR ''#'') 0;
          pathEnd = (if hashPos \<ge> 0 \<and> (questionPos < 0 \<or> questionPos > hashPos) then nat hashPos
                     else if questionPos \<ge> 0 then nat questionPos
                     else length string)
      in replace_char (left string pathEnd) 92 (ch CHR ''/'') @ substring string pathEnd UINT_MAX)"

section \<open>The reference as bytes\<close>

text \<open>
  What \<open>str\<close> points to, without leading and trailing spaces, and whether the original
  string can still be reused. \<open>len\<close> is the length of the list; it may hold NULs.
\<close>

definition reference_bytes ::
  "(ustring \<Rightarrow> ustring option) \<Rightarrow> text_encoding \<Rightarrow> text_encoding \<Rightarrow> ustring \<Rightarrow> byte list \<times> ustring option" where
  "reference_bytes idn utf8 encoding rel =
     (let allASCII = charactersAreAllASCII rel;
          bytes = (if allASCII then copyASCII rel else cstr (encodeRelativeString idn utf8 encoding rel));
          s1 = dropWhile (\<lambda>c. c = ch CHR '' '') bytes;
          s2 = rev (dropWhile (\<lambda>c. c = ch CHR '' '') (rev s1))
      in (s2, if allASCII \<and> length s2 = length bytes then Some rel else None))"

text \<open>\<open>equalIgnoringCase\<close> on two strings compares folded characters.\<close>

definition equalIgnoringCase :: "unicode_peer \<Rightarrow> ustring \<Rightarrow> ustring \<Rightarrow> bool" where
  "equalIgnoringCase U a b \<longleftrightarrow> map (peer_foldCase U) a = map (peer_foldCase U) b"

text \<open>
  The reference after its scheme was looked at: whether it is absolute, and the bytes at
  \<open>str\<close>. When the scheme of the base is skipped \<open>str\<close> moves and \<open>len\<close> does not: the result
  keeps the old \<open>len\<close>.
\<close>

definition strip_scheme :: "unicode_peer \<Rightarrow> KURL \<Rightarrow> byte list \<Rightarrow> bool \<times> byte list \<times> nat" where
  "strip_scheme U base str =
     (if isSchemeFirstChar (at str 0)
      then let p = scan_while isSchemeChar str 1
           in if at str p = ch CHR '':''
              then if at str (p + 1) \<noteq> ch CHR ''/''
                      \<and> equalIgnoringCase U (protocol base) (latin1 (take p str)) \<and> isHierarchical base
                   then (False, drop (p + 1) str, length str)
                   else (True, str, length str)
              else (False, str, length str)
      else (False, str, length str))"

text \<open>
  \<open>memcpy(dst, str, len)\<close> for a NUL-terminated \<open>str\<close>: what lies behind the terminator is
  whatever the memory holds, \<open>beyond\<close>.
\<close>

definition copy_bytes :: "(nat \<Rightarrow> byte) \<Rightarrow> byte list \<Rightarrow> nat \<Rightarrow> byte list" where
  "copy_bytes beyond str len =
     map (\<lambda>i. if i < length str then str ! i else if i = length str then 0 else beyond i) [0..<len]"

definition appendASCII :: "(nat \<Rightarrow> byte) \<Rightarrow> ustring \<Rightarrow> byte list \<Rightarrow> nat \<Rightarrow> byte list" where
  "appendASCII beyond base str len = copyASCII base @ copy_bytes beyond str len"

section \<open>Relative paths\<close>

function relative_loop :: "byte list \<Rightarrow> nat \<Rightarrow> nat \<Rightarrow> byte list \<Rightarrow> byte list \<times> nat" where
  "relative_loop str pos pathStart out =
     (if pos < length str \<and> str ! pos \<noteq> ch CHR ''?'' \<and> str ! pos \<noteq> ch CHR ''#''
      then if str ! pos = ch CHR ''.'' \<and> out \<noteq> [] \<and> last out = ch CHR ''/''
              \<and> isPathSegmentEndChar (at str (pos + 1))
           then relative_loop str (if at str (pos + 1) = ch CHR ''/'' then pos + 2 else pos + 1) pathStart out
           else if str ! pos = ch CHR ''.'' \<and> out \<noteq> [] \<and> last out = ch CHR ''/''
              \<and> at str (pos + 1) = ch CHR ''.'' \<and> isPathSegmentEndChar (at str (pos + 2))
           then relative_loop str (if at str (pos + 2) = ch CHR ''/'' then pos + 3 else pos + 2) pathStart
                  (rewind_while (\<lambda>c. c \<noteq> ch CHR ''/'') (pathStart + 1)
                     (if length out > pathStart + 1 then butlast out else out))
           else relative_loop str (pos + 1) pathStart (out @ [str ! pos])
      else (out, pos))"
  by pat_completeness auto
termination
  by (relation "measure (\<lambda>(str, pos, _). length str - pos)") auto

declare relative_loop.simps [simp del]

text \<open>The text that is parsed for a relative path; \<open>str\<close> has no NUL.\<close>

definition merge_path :: "KURL \<Rightarrow> byte list \<Rightarrow> byte list" where
  "merge_path base str =
     (let baseString = copyASCII (m_string base);
          before = take (m_portEnd base) baseString;
          baseEnd = last_slash baseString (m_portEnd base) (m_pathEnd base);
          out = (if baseEnd = m_portEnd base
                 then before @ (if m_schemeEnd base + 1 \<noteq> m_pathEnd base \<and> str \<noteq> []
                                   \<and> str ! 0 \<noteq> ch CHR ''?'' \<and> str ! 0 \<noteq> ch CHR ''#''
                                then [ch CHR ''/''] else [])
                 else before @ copyPathRemovingDots (drop (m_portEnd base) baseString) 0
                                 (baseEnd - m_portEnd base));
          (out', pos) = relative_loop str 0 (m_portEnd base) out
      in out' @ drop pos str)"

section \<open>\<open>KURL::init\<close>\<close>

definition normalized_reference :: "ustring \<Rightarrow> ustring" where
  "normalized_reference relative =
     (if find_char relative 92 0 \<noteq> -1 \<and> \<not> (protocolIsJavaScript relative \<or> protocolIs relative (lit ''data''))
      then substituteBackslashes relative else relative)"

definition resolve ::
  "unicode_peer \<Rightarrow> (ustring \<Rightarrow> ustring option) \<Rightarrow> (nat \<Rightarrow> byte) \<Rightarrow> text_encoding \<Rightarrow> KURL \<Rightarrow> ustring
   \<Rightarrow> text_encoding \<Rightarrow> KURL" where
  "resolve U idn beyond utf8 base relative encoding =
     (if \<not> m_isValid base \<and> m_string base \<noteq> [] then invalidate relative
      else let rel = normalized_reference relative;
               (bytes, originalString) = reference_bytes idn utf8 encoding rel;
               (absolute, str, len) = strip_scheme U base bytes;
               parse_after = (\<lambda>end. parse (cstr (appendASCII beyond (left (m_string base) end) str len)) None)
           in if absolute then parse (cstr str) originalString
              else if \<not> isHierarchical base
              then if at str 0 = ch CHR ''#'' then parse_after (m_queryEnd base) else invalidate relative
              else if at str 0 = 0 then base
              else if at str 0 = ch CHR ''#'' then parse_after (m_queryEnd base)
              else if at str 0 = ch CHR ''?'' then parse_after (m_pathEnd base)
              else if at str 0 = ch CHR ''/''
              then if at str 1 = ch CHR ''/'' then parse_after (m_schemeEnd base + 1)
                   else parse_after (m_portEnd base)
              else parse (cstr (merge_path base (cstr str))) None)"

end
