(* ===== verification/KURLResolveFacts.thy ===== *)
theory KURLResolveFacts
  imports KURLResolve
begin

text \<open>
  What resolving a reference guarantees: the memory behind the reference does not matter,
  the merged path fits its buffer, and a reference without authority keeps the base's.
\<close>

section \<open>Reading behind the reference\<close>

lemma cstr_append: "cstr (a @ b) = (if 0 \<in> set a then cstr a else a @ cstr b)"
  by (induction a) (auto simp: cstr_def)

lemma cstr_copy_bytes:
  "cstr (copy_bytes beyond str len) = cstr (take len str)"
proof (cases "len \<le> length str")
  case True
  then have "copy_bytes beyond str len = take len str"
    by (intro nth_equalityI) (simp_all add: copy_bytes_def)
  then show ?thesis by simp
next
  case False
  let ?rest = "map (\<lambda>i. if i < length str then str ! i else if i = length str then 0 else beyond i) [Suc (length str)..<len]"
  have "[0..<len] = [0..<length str] @ length str # [Suc (length str)..<len]"
    using False upt_add_eq_append [of 0 "length str" "len - length str"] by (simp add: upt_conv_Cons)
  moreover have "map (\<lambda>i. if i < length str then str ! i else if i = length str then 0 else beyond i) [0..<length str] = str"
    by (rule nth_equalityI) simp_all
  ultimately have "copy_bytes beyond str len = str @ 0 # ?rest"
    by (simp add: copy_bytes_def)
  moreover have "cstr (0 # ?rest) = []" by (simp add: cstr_def)
  ultimately show ?thesis using False by (cases "0 \<in> set str") (simp_all add: cstr_append cstr_id)
qed

lemma cstr_appendASCII:
  "cstr (appendASCII beyond b str len) = cstr (copyASCII b @ take len str)"
  by (simp add: appendASCII_def cstr_append cstr_copy_bytes)

text \<open>Whatever lies in memory behind the reference, resolving it gives the same URL, although
  the bytes are copied with the length the reference had before its scheme was skipped.\<close>

theorem resolve_ignores_memory:
  "resolve U idn memory utf8 base relative encoding = resolve U idn memory' utf8 base relative encoding"
  unfolding resolve_def cstr_appendASCII ..

text \<open>The copy does read past the end of the reference: for "http:?x" against an http URL
  it copies seven bytes from a string of two, four of them from behind its terminator.\<close>

theorem scheme_relative_overread:
  "strip_scheme U (parse (lit ''http://h/'') None) (lit ''http:?x'') = (False, lit ''?x'', 7)
   \<and> drop 3 (copy_bytes memory (lit ''?x'') 7) = [memory 3, memory 4, memory 5, memory 6]"
proof
  have p: "protocol (parse (lit ''http://h/'') None) = lit ''http''" "isHierarchical (parse (lit ''http://h/'') None)"
    "scan_while isSchemeChar (lit ''http:?x'') 1 = 4" "isSchemeFirstChar (at (lit ''http:?x'') 0)"
    by code_simp+
  show "strip_scheme U (parse (lit ''http://h/'') None) (lit ''http:?x'') = (False, lit ''?x'', 7)"
    unfolding strip_scheme_def p(3) if_P [OF p(4)] Let_def p(1)
    using p(2) by (simp add: equalIgnoringCase_def at_def latin1_def)
  show "drop 3 (copy_bytes memory (lit ''?x'') 7) = [memory 3, memory 4, memory 5, memory 6]"
    by (simp add: copy_bytes_def upt_rec eval_nat_numeral)
qed

section \<open>The merged path\<close>

lemma relative_loop_bound:
  "pos \<le> length str \<Longrightarrow> relative_loop str pos ps out = (out', pos') \<Longrightarrow>
   length out' + (length str - pos') \<le> length out + (length str - pos) \<and> pos' \<le> length str"
proof (induction str pos ps out rule: relative_loop.induct)
  case (1 str pos ps out)
  let ?A = "pos < length str \<and> str ! pos \<noteq> ch CHR ''?'' \<and> str ! pos \<noteq> ch CHR ''#''"
  let ?B = "str ! pos = ch CHR ''.'' \<and> out \<noteq> [] \<and> last out = ch CHR ''/'' \<and> isPathSegmentEndChar (at str (pos + 1))"
  let ?C = "str ! pos = ch CHR ''.'' \<and> out \<noteq> [] \<and> last out = ch CHR ''/''
              \<and> at str (pos + 1) = ch CHR ''.'' \<and> isPathSegmentEndChar (at str (pos + 2))"
  have read: "at str k = c \<Longrightarrow> c \<noteq> 0 \<Longrightarrow> k < length str" for k c using at_neq_0_less by blast
  show ?case
  proof (cases ?A)
    case False
    then show ?thesis using "1.prems" by (subst (asm) relative_loop.simps) auto
  next
    case A: True
    show ?thesis
    proof (cases ?B)
      case B: True
      let ?pos = "if at str (pos + 1) = ch CHR ''/'' then pos + 2 else pos + 1"
      have "relative_loop str ?pos ps out = (out', pos')"
        using "1.prems"(2) unfolding relative_loop.simps [of str pos] if_P [OF A] if_P [OF B] .
      moreover have "?pos \<le> length str" using A read [of "pos + 1" "ch CHR ''/''"] by auto
      ultimately have "length out' + (length str - pos') \<le> length out + (length str - ?pos) \<and> pos' \<le> length str"
        using "1.IH"(1) [OF A B] by blast
      moreover have "pos \<le> ?pos" by simp
      ultimately show ?thesis by linarith
    next
      case B: False
      show ?thesis
      proof (cases ?C)
        case C: True
        let ?pos = "if at str (pos + 2) = ch CHR ''/'' then pos + 3 else pos + 2"
        let ?out = "rewind_while (\<lambda>c. c \<noteq> ch CHR ''/'') (ps + 1) (if length out > ps + 1 then butlast out else out)"
        have "relative_loop str ?pos ps ?out = (out', pos')"
          using "1.prems"(2) unfolding relative_loop.simps [of str pos] if_P [OF A] if_not_P [OF B] if_P [OF C] .
        moreover have "?pos \<le> length str"
          using A C read [of "pos + 1" "ch CHR ''.''"] read [of "pos + 2" "ch CHR ''/''"] by auto
        moreover have "length ?out \<le> length out"
        proof -
          have "length (if length out > ps + 1 then butlast out else out) \<le> length out" by simp
          then show ?thesis
            using rewind_while_subset [of "\<lambda>c. c \<noteq> ch CHR ''/''" "ps + 1" "if length out > ps + 1 then butlast out else out"]
            by linarith
        qed
        ultimately have "length out' + (length str - pos') \<le> length out + (length str - ?pos) \<and> pos' \<le> length str"
          using "1.IH"(2) [OF A B C] by linarith
        moreover have "pos \<le> ?pos" by simp
        ultimately show ?thesis by linarith
      next
        case C: False
        have "relative_loop str (pos + 1) ps (out @ [str ! pos]) = (out', pos')"
          using "1.prems"(2) unfolding relative_loop.simps [of str pos] if_P [OF A] if_not_P [OF B] if_not_P [OF C] .
        then show ?thesis using "1.IH"(3) [OF A B C] A by auto
      qed
    qed
  qed
qed

lemma rewind_while_keeps: "k \<le> length out \<Longrightarrow> take k (rewind_while p k out) = take k out \<and> k \<le> length (rewind_while p k out)"
proof (induction p k out rule: rewind_while.induct)
  case (1 p k out)
  show ?case
  proof (cases "length out > k \<and> out \<noteq> [] \<and> p (last out)")
    case True
    then have "k \<le> length (butlast out)" unfolding length_butlast by linarith
    with 1 True have "take k (rewind_while p k (butlast out)) = take k (butlast out)"
        "k \<le> length (rewind_while p k (butlast out))" by auto
    moreover have "take k (butlast out) = take k out" using True by (simp add: take_butlast)
    ultimately show ?thesis using True by (subst (1 2) rewind_while.simps) simp
  next
    case False
    then have "rewind_while p k out = out" by (subst rewind_while.simps) (simp only: if_False)
    with "1.prems" show ?thesis by simp
  qed
qed

lemma relative_loop_keeps:
  "ps + 1 \<le> length out \<Longrightarrow> relative_loop str pos ps out = (out', pos') \<Longrightarrow>
   take (ps + 1) out' = take (ps + 1) out \<and> ps + 1 \<le> length out'
   \<and> (0 \<notin> set str \<and> 0 \<notin> set out \<longrightarrow> 0 \<notin> set out')"
proof (induction str pos ps out rule: relative_loop.induct)
  case (1 str pos ps out)
  let ?A = "pos < length str \<and> str ! pos \<noteq> ch CHR ''?'' \<and> str ! pos \<noteq> ch CHR ''#''"
  let ?B = "str ! pos = ch CHR ''.'' \<and> out \<noteq> [] \<and> last out = ch CHR ''/'' \<and> isPathSegmentEndChar (at str (pos + 1))"
  let ?C = "str ! pos = ch CHR ''.'' \<and> out \<noteq> [] \<and> last out = ch CHR ''/''
              \<and> at str (pos + 1) = ch CHR ''.'' \<and> isPathSegmentEndChar (at str (pos + 2))"
  show ?case
  proof (cases ?A)
    case False
    then show ?thesis using "1.prems" by (subst (asm) relative_loop.simps) auto
  next
    case A: True
    show ?thesis
    proof (cases ?B)
      case B: True
      show ?thesis
        using "1.prems" "1.IH"(1) [OF A B] unfolding relative_loop.simps [of str pos] if_P [OF A] if_P [OF B] by blast
    next
      case B: False
      show ?thesis
      proof (cases ?C)
        case C: True
        let ?b = "if length out > ps + 1 then butlast out else out"
        let ?out = "rewind_while (\<lambda>c. c \<noteq> ch CHR ''/'') (ps + 1) ?b"
        have b: "ps + 1 \<le> length ?b" "take (ps + 1) ?b = take (ps + 1) out" "set ?b \<subseteq> set out"
          using "1.prems"(1) by (auto simp: take_butlast dest: in_set_butlastD)
        have o: "take (ps + 1) ?out = take (ps + 1) out" "ps + 1 \<le> length ?out" "set ?out \<subseteq> set out"
          using rewind_while_keeps [OF b(1), of "\<lambda>c. c \<noteq> ch CHR ''/''"] b
            rewind_while_subset [of "\<lambda>c. c \<noteq> ch CHR ''/''" "ps + 1" ?b]
          by (simp only: simp_thms, blast)+
        have "relative_loop str (if at str (pos + 2) = ch CHR ''/'' then pos + 3 else pos + 2) ps ?out = (out', pos')"
          using "1.prems"(2) unfolding relative_loop.simps [of str pos] if_P [OF A] if_not_P [OF B] if_P [OF C] .
        from "1.IH"(2) [OF A B C o(2) this] o show ?thesis by auto
      next
        case C: False
        have "relative_loop str (pos + 1) ps (out @ [str ! pos]) = (out', pos')"
          using "1.prems"(2) unfolding relative_loop.simps [of str pos] if_P [OF A] if_not_P [OF B] if_not_P [OF C] .
        moreover have "str ! pos \<in> set str" using A by simp
        ultimately show ?thesis using "1.IH"(3) [OF A B C] "1.prems"(1) by auto
      qed
    qed
  qed
qed

text \<open>C20: The text merged from the base path and a relative path fits the buffer the resolver
  allocates for it, terminator included.\<close>

theorem merge_path_fits_buffer:
  assumes "KURL_offsets_ok base" and "m_isValid base"
  shows "length (merge_path base str) + 1 \<le> m_pathEnd base + 1 + length str + 1"
proof -
  define b where "b = copyASCII (m_string base)"
  define e where "e = last_slash b (m_portEnd base) (m_pathEnd base)"
  have le: "m_portEnd base \<le> m_pathEnd base" "m_pathEnd base \<le> length b"
    using assms by (auto simp: KURL_offsets_ok_def b_def copyASCII_def)
  have e: "m_portEnd base \<le> e" "e \<le> m_pathEnd base"
    using last_slash_bounds [OF le(1), of b] by (simp_all add: e_def)
  define out where "out = (if e = m_portEnd base
      then take (m_portEnd base) b @ (if m_schemeEnd base + 1 \<noteq> m_pathEnd base \<and> str \<noteq> []
          \<and> str ! 0 \<noteq> ch CHR ''?'' \<and> str ! 0 \<noteq> ch CHR ''#'' then [ch CHR ''/''] else [])
      else take (m_portEnd base) b @ copyPathRemovingDots (drop (m_portEnd base) b) 0 (e - m_portEnd base))"
  have "length (copyPathRemovingDots (drop (m_portEnd base) b) 0 (e - m_portEnd base)) \<le> e - m_portEnd base"
    using copyPathRemovingDots_subset [of 0 "e - m_portEnd base" "drop (m_portEnd base) b"] le e by simp
  then have "length out \<le> m_pathEnd base + 1"
    using le e by (auto simp: out_def)
  moreover obtain out' pos where r: "relative_loop str 0 (m_portEnd base) out = (out', pos)" by (meson surj_pair)
  moreover have "merge_path base str = out' @ drop pos str"
    unfolding merge_path_def Let_def b_def [symmetric] e_def [symmetric] out_def [symmetric] r by simp
  then have "length (merge_path base str) = length out' + (length str - pos)" by simp
  ultimately show ?thesis using relative_loop_bound [OF _ r] by linarith
qed

theorem merge_path_fits_buffer_witness:
  "length (merge_path (parse (lit ''http://h'') None) (lit ''x'')) + 1 \<le> 9 + 1 + 1 + 1"
proof -
  have v: "KURL_offsets_ok (parse (lit ''http://h'') None)" "m_isValid (parse (lit ''http://h'') None)"
      "m_pathEnd (parse (lit ''http://h'') None) = 9"
    by code_simp+
  show ?thesis using merge_path_fits_buffer [OF v(1,2), of "lit ''x''"] unfolding v(3) by simp
qed

section \<open>A reference without authority keeps the authority of the base\<close>

lemma auth_text_inj:
  assumes t: "auth_text x = auth_text a" and u: "length (pt_user x) = length (pt_user a)"
    and up: "length (upass_text x) = length (upass_text a)"
    and h: "length (userinfo_text x @ pt_host x) = length (userinfo_text a @ pt_host a)"
  shows "x = (a :: auth_parts)"
proof -
  have ui: "length (userinfo_text x) = length (userinfo_text a)"
    using up unfolding userinfo_length by (auto split: if_splits)
  with t have ui': "userinfo_text x = userinfo_text a" "pt_host x @ port_text x = pt_host a @ port_text a"
    unfolding auth_text_def by simp_all
  have "length (pt_host x) = length (pt_host a)" using h ui by simp
  then have host: "pt_host x = pt_host a" "port_text x = port_text a" using ui'(2) by simp_all
  have tk: "take (length (upass_text z)) (userinfo_text z) = upass_text z"
    and tu: "take (length (pt_user z)) (upass_text z) = pt_user z"
    and td: "drop (length (pt_user z)) (upass_text z) = (if pt_pass z \<noteq> [] then ch CHR '':'' # pt_pass z else [])" for z
    by (simp_all add: userinfo_text_def upass_text_def)
  have ux: "upass_text x = upass_text a" using tk [of x] unfolding ui'(1) up tk ..
  have "pt_user x = pt_user a" using tu [of x] unfolding ux u tu ..
  moreover have p: "(if pt_pass x \<noteq> [] then ch CHR '':'' # pt_pass x else []) = (if pt_pass a \<noteq> [] then ch CHR '':'' # pt_pass a else [])"
    using td [of x] unfolding ux u td ..
  moreover have "pt_pass x = pt_pass a" using p by (auto split: if_splits)
  moreover have "pt_port x = pt_port a" using host(2) by (auto simp: port_text_def split: option.splits)
  ultimately show ?thesis using host(1) by (cases x, cases a) simp
qed

lemma auth_of_scanned:
  assumes "auth_ok a"
  shows "auth_of (pre @ auth_text a @ r) (scanned_auth (length pre) a) False = a"
proof (rule auth_text_inj)
  let ?x = "auth_of (pre @ auth_text a @ r) (scanned_auth (length pre) a) False"
  have "au_passwordStart (scanned_auth (length pre) a) \<le> au_passwordEnd (scanned_auth (length pre) a)"
    unfolding scanned_auth_fields by (simp add: upass_text_def)
  moreover have "au_passwordEnd (scanned_auth (length pre) a) \<le> length (pre @ auth_text a @ r)"
    unfolding scanned_auth_fields by (simp add: auth_text_def userinfo_length)
  ultimately have "(auth_text ?x, length (pt_user ?x), length (upass_text ?x), length (userinfo_text ?x @ pt_host ?x))
      = (auth_text a, length (pt_user a), length (upass_text a), length (userinfo_text a @ pt_host a))"
    using assemble_authority_pieces [of "length pre" pre a r] assemble_authority_parts by metis
  then show "auth_text ?x = auth_text a" "length (pt_user ?x) = length (pt_user a)"
      "length (upass_text ?x) = length (upass_text a)"
      "length (userinfo_text ?x @ pt_host ?x) = length (userinfo_text a @ pt_host a)"
    by (simp_all only: prod.inject)
qed

lemma parse_same_authority:
  assumes s: "scheme_ok (pt_scheme p)" "\<not> file_scheme (pt_scheme p)"
    and a: "pt_auth p = Some a" "auth_ok a" "auth_nonempty a" and r: "isPathSegmentEndChar (hd0 r)"
  shows "\<exists>q. parse_ranges (before_path p @ r) = Some (url_text q, url_offsets q)
    \<and> pt_scheme q = pt_scheme p \<and> pt_auth q = Some a"
proof -
  define sc where "sc = pt_scheme p"
  let ?url = "before_path p @ r"
  let ?A = "scanned_auth (length sc + 3) a"
  let ?t = "scan_tail ?url (au_portEnd ?A)"
  have url: "?url = sc @ ch CHR '':'' # lit ''//'' @ auth_text a @ r" "?url = (sc @ lit ''://'') @ auth_text a @ r"
    by (simp_all add: before_path_def a sc_def)
  have sok: "scheme_ok sc" using s by (simp add: sc_def)
  have first: "?url \<noteq> []" "isSchemeFirstChar (at ?url 0)"
    using sok by (auto simp: url scheme_ok_def at_def nth_append hd_conv_nth)
  have se: "scan_while isSchemeChar ?url 0 = length sc" unfolding url(1) using sok by (rule scan_scheme)
  have colon: "at ?url (length sc) = ch CHR '':''" unfolding url(1) by (simp add: at_hd0)
  have http: "in_http_family ?url = http_scheme sc" unfolding url(1) using scheme_no_colon [OF sok] by (rule http_pieces)
  have isf: "is_file ?url (length sc) = False" unfolding url(1) file_pieces using s(2) by (simp add: sc_def)
  have "auth_text a \<noteq> []"
    using a(3) by (auto simp: auth_nonempty_def auth_text_def userinfo_text_def port_text_def split: if_splits)
  then have au: "scan_authority ?url (length sc) (http_scheme sc) False = Some ?A"
    unfolding url(2) using a(2) r by (intro scan_authority_pieces) simp_all
  let ?q = "parts_of ?url (length sc) (http_scheme sc) False ?A ?t"
  have seg: "segment ?url 0 (length sc) = sc" unfolding url(1) by (simp add: segment_def)
  have ps: "au_passwordStart ?A \<le> au_passwordEnd ?A" "au_passwordEnd ?A \<le> length ?url"
    unfolding scanned_auth_fields url(2) by (simp_all add: upass_text_def auth_text_def userinfo_text_def)
  have "assemble ?url (length sc) (http_scheme sc) False ?A ?t = (url_text ?q, url_offsets ?q)"
  proof (rule assemble_parts)
    show "length sc \<le> length ?url" by (simp add: url(1))
  qed (use ps seg in simp_all)
  then have "parse_ranges ?url = Some (url_text ?q, url_offsets ?q)"
    unfolding parse_ranges_def Let_def se http isf using first colon by (simp add: au)
  moreover have "pt_scheme ?q = pt_scheme p" using seg by (simp add: parts_of_def sc_def)
  moreover have "pt_auth ?q = Some a"
  proof -
    have "writes_authority ?url False ?A ?t"
      using auth_nonempty_ranges [OF a(3), of "length sc + 3"] by (auto simp: writes_authority_def)
    moreover have "drops_host ?url False ?A = False" by (simp add: drops_host_def)
    moreover have "auth_of ?url ?A False = a"
      using auth_of_scanned [OF a(2), of "sc @ lit ''://''" r] unfolding url(2) by (simp add: numeral_3_eq_3)
    ultimately show ?thesis by (simp add: parts_of_def)
  qed
  ultimately show ?thesis by blast
qed

definition same_authority :: "KURL \<Rightarrow> KURL \<Rightarrow> bool" where
  "same_authority v u \<longleftrightarrow> m_isValid v \<and> m_schemeEnd v = m_schemeEnd u \<and> m_userStart v = m_userStart u
     \<and> m_userEnd v = m_userEnd u \<and> m_passwordEnd v = m_passwordEnd u \<and> m_hostEnd v = m_hostEnd u
     \<and> m_portEnd v = m_portEnd u \<and> take (m_portEnd u) (m_string v) = take (m_portEnd u) (m_string u)"

lemma before_path_nul: "parts_ok p \<Longrightarrow> 0 \<notin> set (before_path p)"
proof -
  assume "parts_ok p"
  then have "0 \<notin> set (url_text p)" by (intro url_text_nul) (auto simp: parts_ok_def)
  then show ?thesis by (simp add: url_text_def)
qed

lemma parse_after_authority:
  assumes "parts_ok p" "\<not> file_scheme (pt_scheme p)" "isPathSegmentEndChar (hd0 r)"
  shows "same_authority (parse (cstr (before_path p @ r)) None) (url_of p)"
proof -
  from assms(1,2) obtain a where a: "pt_auth p = Some a" "auth_ok a" "auth_nonempty a" and s: "scheme_ok (pt_scheme p)"
    unfolding parts_ok_def by auto
  have c: "cstr (before_path p @ r) = before_path p @ cstr r"
    using before_path_nul [OF assms(1)] by (simp add: cstr_append)
  have "isPathSegmentEndChar (hd0 (cstr r))"
    using assms(3) by (cases r) (auto simp: cstr_def)
  from parse_same_authority [OF s assms(2) a this] obtain q where
    q: "parse_ranges (before_path p @ cstr r) = Some (url_text q, url_offsets q)" "pt_scheme q = pt_scheme p" "pt_auth q = Some a"
    by blast
  have b: "before_path q = before_path p" using q a by (simp add: before_path_def)
  have v: "parse (cstr (before_path p @ r)) None = url_of q" using q(1) by (simp add: c parse_def url_of_def)
  have "take (length (before_path p)) (latin1 (url_text q)) = take (length (before_path p)) (latin1 (url_text p))"
    using left_latin1 [of "before_path p" "pt_path q @ pt_query q @ fragment_text q"]
      left_latin1 [of "before_path p" "pt_path p @ pt_query p @ fragment_text p"]
    by (simp add: url_text_def b)
  then show ?thesis
    unfolding v same_authority_def
    by (simp add: url_of_fields url_offsets_simps url_offsets_auth(1) [OF a(1)] url_offsets_auth(1) [OF q(3)] q(2) b)
qed

lemma last_slash_found: "po < i \<Longrightarrow> b ! po = slash \<Longrightarrow> po < last_slash b po i"
proof (induction i)
  case (Suc i)
  then show ?case by (cases "po = i") (auto simp: slash_def)
qed simp

lemma copyASCII_latin1_text: "copyASCII (m_string (url_of p)) = url_text p"
  by (simp add: url_of_fields latin1_inverse)

lemma merge_path_authority:
  assumes p: "parts_ok p" and str: "str \<noteq> []" "str ! 0 \<noteq> ch CHR ''?''" "str ! 0 \<noteq> ch CHR ''#''"
  shows "\<exists>x. merge_path (url_of p) str = before_path p @ slash # x"
proof -
  define po where "po = length (before_path p)"
  define e where "e = last_slash (url_text p) po (po + length (pt_path p))"
  have ends: "m_portEnd (url_of p) = po" "m_pathEnd (url_of p) = po + length (pt_path p)"
      "m_schemeEnd (url_of p) = length (pt_scheme p)"
    by (simp_all add: url_of_fields url_offsets_simps po_def)
  have take: "take po (url_text p) = before_path p" by (simp add: url_text_def po_def)
  have path: "pt_path p \<noteq> [] \<longrightarrow> hd (pt_path p) = slash" using p by (simp add: parts_ok_def)
  define out where "out = (if e = po
      then before_path p @ (if length (pt_scheme p) + 1 \<noteq> po + length (pt_path p) \<and> str \<noteq> []
          \<and> str ! 0 \<noteq> ch CHR ''?'' \<and> str ! 0 \<noteq> ch CHR ''#'' then [ch CHR ''/''] else [])
      else before_path p @ copyPathRemovingDots (drop po (url_text p)) 0 (e - po))"
  have "\<exists>x. out = before_path p @ slash # x"
  proof (cases "e = po")
    case True
    obtain a where "pt_auth p = Some a" using p by (auto simp: parts_ok_def)
    then have "length (pt_scheme p) + 1 < po" by (simp add: po_def before_path_length)
    with True str show ?thesis by (simp add: out_def slash_def)
  next
    case False
    have e: "po \<le> e" "e \<le> po + length (pt_path p)"
      using last_slash_bounds [of po "po + length (pt_path p)" "url_text p"] by (simp_all add: e_def)
    with False have ne: "pt_path p \<noteq> []" "po < e" by auto
    with path obtain q where q: "pt_path p = slash # q" by (cases "pt_path p") auto
    have d: "drop po (url_text p) = slash # q @ pt_query p @ fragment_text p"
      by (simp add: url_text_def po_def q)
    have "copyPathRemovingDots (drop po (url_text p)) 0 (e - po)
        = remove_dot_segments [] (segs (segment (drop po (url_text p)) (0 + 1) (e - po)))"
      using ne e q by (intro copyPathRemovingDots_segs) (simp_all add: d slash_def)
    moreover obtain r where "remove_dot_segments [] (segs (segment (drop po (url_text p)) (0 + 1) (e - po))) = slash # r"
      using remove_dot_segments_slash by blast
    ultimately show ?thesis using False by (simp add: out_def)
  qed
  then obtain x where x: "out = before_path p @ slash # x" by blast
  obtain out' pos where r: "relative_loop str 0 po out = (out', pos)" by (meson surj_pair)
  have "take (po + 1) out' = take (po + 1) out \<and> po + 1 \<le> length out'"
    using relative_loop_keeps [OF _ r] x by (simp add: po_def)
  then have "out' = before_path p @ slash # drop (po + 1) out'"
    using x append_take_drop_id [of "po + 1" out'] by (simp add: po_def)
  moreover have "merge_path (url_of p) str = out' @ drop pos str"
    unfolding merge_path_def Let_def copyASCII_latin1_text ends take e_def [symmetric] out_def [symmetric] r by simp
  ultimately show ?thesis by (metis append_Cons append_assoc)
qed

lemma take_port: "left (m_string (url_of p)) (m_portEnd (url_of p)) = latin1 (before_path p)"
  using left_latin1 [of "before_path p" "pt_path p @ pt_query p @ fragment_text p"]
  by (simp add: url_of_fields url_offsets_simps url_text_def)

lemma tail_starts: "parts_ok p \<Longrightarrow> r = [] \<or> isPathSegmentEndChar (hd r) \<Longrightarrow>
   isPathSegmentEndChar (hd0 (pt_path p @ pt_query p @ r)) \<and> isPathSegmentEndChar (hd0 (pt_path p @ r))"
proof -
  assume p: "parts_ok p" and r: "r = [] \<or> isPathSegmentEndChar (hd r)"
  then obtain a where "pt_auth p = Some a" by (auto simp: parts_ok_def)
  then have "pt_path p = [] \<or> hd (pt_path p) = ch CHR ''/''" "pt_query p = [] \<or> hd (pt_query p) = ch CHR ''?''"
    using p by (auto simp: parts_ok_def tail_ok_def slash_def)
  then show ?thesis using r
    by (cases "pt_path p"; cases "pt_query p"; cases r) (simp_all add: PathSegmentEnd_cases)
qed

lemma hierarchical_parts: "parts_ok p \<Longrightarrow> isHierarchical (url_of p)"
proof -
  assume "parts_ok p"
  then obtain a where "pt_auth p = Some a" by (auto simp: parts_ok_def)
  then have "url_text p = (pt_scheme p @ [ch CHR '':'']) @ ch CHR ''/'' # ch CHR ''/'' # auth_text a @ pt_path p @ pt_query p @ fragment_text p"
    by (simp add: url_text_def before_path_def)
  then have "String_at (latin1 (url_text p)) (length (pt_scheme p) + 1) = ch CHR ''/''"
    by (simp add: latin1_def String_at_def nth_append)
  then show ?thesis by (simp add: isHierarchical_def url_of_fields url_offsets_simps)
qed

lemma strip_scheme_len: "strip_scheme U base bytes = (absolute, str, len) \<Longrightarrow> length str \<le> len"
  by (auto simp: strip_scheme_def Let_def split: if_splits)

text \<open>C4: Against a base with canonical parts (their text reads back as the same parts, so the authority is not empty) and a scheme
  other than file, a reference that is neither absolute nor starts with "//", once a scheme equal to that of the base is
  stripped, resolves to a valid URL with the scheme, user, password, host and port of the base: no relative path, with
  however many "..", reaches into the authority.\<close>

theorem resolve_keeps_authority:
  assumes p: "parts_ok p" "\<not> file_scheme (pt_scheme p)"
    and str: "strip_scheme U (url_of p) (fst (reference_bytes idn utf8 encoding (normalized_reference relative))) = (False, str, len)"
    and path: "\<not> (at str 0 = ch CHR ''/'' \<and> at str 1 = ch CHR ''/'')"
  shows "same_authority (resolve U idn memory utf8 (url_of p) relative encoding) (url_of p)"
proof -
  obtain bytes orig where rb: "reference_bytes idn utf8 encoding (normalized_reference relative) = (bytes, orig)" by (meson surj_pair)
  have st: "strip_scheme U (url_of p) bytes = (False, str, len)" using str by (simp add: rb)
  have valid: "\<not> (\<not> m_isValid (url_of p) \<and> m_string (url_of p) \<noteq> [])" by (simp add: url_of_fields)
  have len: "length str \<le> len" using st by (rule strip_scheme_len)
  have tk: "take len str = str" using len by simp
  have hier: "\<not> \<not> isHierarchical (url_of p)" using hierarchical_parts [OF p(1)] by simp
  have first: "str = [] \<or> isPathSegmentEndChar (hd str)"
    if "at str 0 \<in> {ch CHR ''#'', ch CHR ''?'', ch CHR ''/''}"
    using that by (cases str) (auto simp: PathSegmentEnd_cases)
  note res = resolve_def [of U idn memory utf8 "url_of p" relative encoding, unfolded if_not_P [OF valid] Let_def rb
      prod.case st cstr_appendASCII if_False tk if_not_P [OF hier]]
  consider (empty) "at str 0 = 0" | (frag) "at str 0 = ch CHR ''#''" | (query) "at str 0 = ch CHR ''?''"
    | (abs) "at str 0 = ch CHR ''/''" | (rel) "at str 0 \<notin> {0, ch CHR ''#'', ch CHR ''?'', ch CHR ''/''}" by blast
  then show ?thesis
  proof cases
    case empty
    then show ?thesis by (simp add: res same_authority_def url_of_fields)
  next
    case frag
    then have "resolve U idn memory utf8 (url_of p) relative encoding
        = parse (cstr (before_path p @ pt_path p @ pt_query p @ str)) None"
      unfolding res take_query latin1_inverse by simp
    moreover have "isPathSegmentEndChar (hd0 (pt_path p @ pt_query p @ str))"
      using tail_starts [OF p(1) first] frag by blast
    ultimately show ?thesis using parse_after_authority [OF p] by simp
  next
    case query
    then have "resolve U idn memory utf8 (url_of p) relative encoding = parse (cstr (before_path p @ pt_path p @ str)) None"
      unfolding res take_path latin1_inverse by simp
    moreover have "isPathSegmentEndChar (hd0 (pt_path p @ str))"
      using tail_starts [OF p(1) first] query by blast
    ultimately show ?thesis using parse_after_authority [OF p] by simp
  next
    case abs
    then have "resolve U idn memory utf8 (url_of p) relative encoding = parse (cstr (before_path p @ str)) None"
      unfolding res take_port latin1_inverse using path by simp
    moreover have "isPathSegmentEndChar (hd0 str)" using first abs by (cases str) auto
    ultimately show ?thesis using parse_after_authority [OF p] by simp
  next
    case rel
    then have "resolve U idn memory utf8 (url_of p) relative encoding = parse (cstr (merge_path (url_of p) (cstr str))) None"
      unfolding res by simp
    moreover have "cstr str \<noteq> [] \<and> cstr str ! 0 = str ! 0" "at str 0 = str ! 0"
      using rel by (cases str; simp add: cstr_def)+
    moreover from this have "\<exists>x. merge_path (url_of p) (cstr str) = before_path p @ slash # x"
      using rel by (intro merge_path_authority [OF p(1)]) auto
    ultimately show ?thesis
      using parse_after_authority [OF p, of "slash # x" for x] by (auto simp: PathSegmentEnd_cases slash_def)
  qed
qed

theorem resolve_keeps_authority_witness:
  "same_authority (resolve ascii_peer (\<lambda>_. None) (\<lambda>_. 0)
      \<lparr>enc_name = ''UTF-8'', enc_isValid = True, enc_decode = latin1, enc_encode = copyASCII\<rparr>
      (url_of example_parts) (lit ''../../x'')
      \<lparr>enc_name = ''UTF-8'', enc_isValid = True, enc_decode = latin1, enc_encode = copyASCII\<rparr>) (url_of example_parts)"
proof (rule resolve_keeps_authority [OF example_parts_ok(1)])
  let ?e = "\<lparr>enc_name = ''UTF-8'', enc_isValid = True, enc_decode = latin1, enc_encode = copyASCII\<rparr>"
  show "\<not> file_scheme (pt_scheme example_parts)" by code_simp
  have "fst (reference_bytes (\<lambda>_. None) ?e ?e (normalized_reference (lit ''../../x''))) = lit ''../../x''"
    "\<not> isSchemeFirstChar (at (lit ''../../x'') 0)"
    by code_simp+
  then show "strip_scheme ascii_peer (url_of example_parts)
      (fst (reference_bytes (\<lambda>_. None) ?e ?e (normalized_reference (lit ''../../x'')))) = (False, lit ''../../x'', 7)"
    by (simp add: strip_scheme_def)
  show "\<not> (at (lit ''../../x'') 0 = (ch CHR ''/'' :: byte) \<and> at (lit ''../../x'') 1 = (ch CHR ''/'' :: byte))" by simp
qed

end
