(* ===== verification/SecurityOrigin.thy ===== *)
theory SecurityOrigin
  imports KURLResolveFacts "HOL-Library.AList"
begin

text \<open>
  The same-origin policy: src/webkit/WebCore/page/SecurityOrigin.cpp and
  src/webkit/WebCore/page/OriginAccessEntry.cpp. What the URL code takes from libraries (Unicode
  tables, IDN, the UTF-8 codec, memory behind strings) is the parameter \<open>url_library\<close>; the static
  tables of the class are the record \<open>origin_registry\<close>.
\<close>

unbundle bit_operations_syntax

record url_library =
  lib_peer :: unicode_peer
  lib_idn :: "ustring \<Rightarrow> ustring option"
  lib_memory :: "nat \<Rightarrow> byte"
  lib_utf8 :: text_encoding

text \<open>\<open>KURL()\<close> and \<open>KURL(base, relative)\<close>, which resolves with UTF-8.\<close>

definition emptyKURL :: KURL where
  "emptyKURL = invalidate []"

definition KURL_relative :: "url_library \<Rightarrow> KURL \<Rightarrow> ustring \<Rightarrow> KURL" where
  "KURL_relative L base relative =
     resolve (lib_peer L) (lib_idn L) (lib_memory L) (lib_utf8 L) base relative (lib_utf8 L)"

section \<open>Origins and white lists\<close>

datatype subdomain_setting = AllowSubdomains | DisallowSubdomains

record origin_access_entry =
  oa_protocol :: ustring
  oa_host :: ustring
  oa_subdomainSettings :: subdomain_setting
  oa_hostIsIPAddress :: bool

record security_origin =
  so_protocol :: ustring
  so_host :: ustring
  so_domain :: ustring
  so_port :: u16
  so_sandboxFlags :: u32
  so_noAccess :: bool
  so_universalAccess :: bool
  so_domainWasSetInDOM :: bool
  so_canLoadLocalResources :: bool

datatype local_load_policy = AllowLocalLoadsForAll | AllowLocalLoadsForLocalAndSubstituteData
  | AllowLocalLoadsForLocalOnly

record origin_registry =
  or_localSchemes :: "ustring list"
  or_noAccessSchemes :: "ustring list"
  or_accessMap :: "(ustring \<times> origin_access_entry list) list"
  or_localLoadPolicy :: local_load_policy

definition SandboxNone :: u32 where "SandboxNone = 0"

definition SandboxOrigin :: u32 where "SandboxOrigin = 4"

definition isSandboxed :: "security_origin \<Rightarrow> u32 \<Rightarrow> bool" where
  "isSandboxed o1 flags \<longleftrightarrow> so_sandboxFlags o1 AND flags \<noteq> 0"

text \<open>\<open>resetVariables\<close>: the tables are created on first use.\<close>

definition resetVariables :: origin_registry where
  "resetVariables = \<lparr>or_localSchemes = [], or_noAccessSchemes = [], or_accessMap = [],
     or_localLoadPolicy = AllowLocalLoadsForLocalOnly\<rparr>"

definition localSchemes :: "origin_registry \<Rightarrow> ustring list" where
  "localSchemes R = (if or_localSchemes R = [] then [lit ''file''] else or_localSchemes R)"

definition noAccessSchemes :: "origin_registry \<Rightarrow> ustring list" where
  "noAccessSchemes R = (if or_noAccessSchemes R = [] then [lit ''data''] else or_noAccessSchemes R)"

text \<open>Membership in a \<open>HashSet<String, CaseFoldingHash>\<close>.\<close>

definition folding_contains :: "unicode_peer \<Rightarrow> ustring list \<Rightarrow> ustring \<Rightarrow> bool" where
  "folding_contains U schemes s \<longleftrightarrow> list_ex (\<lambda>t. equalIgnoringCase U t s) schemes"

definition folding_add :: "unicode_peer \<Rightarrow> ustring \<Rightarrow> ustring list \<Rightarrow> ustring list" where
  "folding_add U s schemes = (if folding_contains U schemes s then schemes else schemes @ [s])"

definition schemeRequiresAuthority :: "unicode_peer \<Rightarrow> ustring \<Rightarrow> bool" where
  "schemeRequiresAuthority U scheme \<longleftrightarrow>
     folding_contains U [lit ''http'', lit ''https'', lit ''ftp''] scheme"

definition shouldTreatURLSchemeAsNoAccess :: "unicode_peer \<Rightarrow> origin_registry \<Rightarrow> ustring \<Rightarrow> bool" where
  "shouldTreatURLSchemeAsNoAccess U R scheme \<longleftrightarrow> folding_contains U (noAccessSchemes R) scheme"

definition shouldTreatURLSchemeAsLocal :: "unicode_peer \<Rightarrow> origin_registry \<Rightarrow> ustring \<Rightarrow> bool" where
  "shouldTreatURLSchemeAsLocal U R scheme =
     (if length scheme = 4 \<and> scheme = lit ''http'' then False
      else if length scheme = 4 \<and> scheme = lit ''file'' then True
      else if scheme = [] then False
      else folding_contains U (localSchemes R) scheme)"

definition shouldTreatURLAsLocal :: "unicode_peer \<Rightarrow> origin_registry \<Rightarrow> ustring \<Rightarrow> bool" where
  "shouldTreatURLAsLocal U R url =
     (if length url \<ge> 5 \<and> take 5 url = lit ''http:'' then False
      else if length url \<ge> 5 \<and> take 5 url = lit ''file:'' then True
      else let loc = find_char url (ch CHR '':'') 0
           in if loc = -1 then False else folding_contains U (localSchemes R) (left url (nat loc)))"

definition isLocal :: "unicode_peer \<Rightarrow> origin_registry \<Rightarrow> security_origin \<Rightarrow> bool" where
  "isLocal U R o1 = shouldTreatURLSchemeAsLocal U R (so_protocol o1)"

text \<open>The constructor from a URL.\<close>

definition SecurityOrigin_new :: "url_library \<Rightarrow> origin_registry \<Rightarrow> KURL \<Rightarrow> security_origin" where
  "SecurityOrigin_new L R url =
     (let U = lib_peer L;
          protocol0 = lower U (protocol url);
          hst = lower U (host (lib_utf8 L) url);
          protocol1 = (if equalCStr protocol0 (lit ''about'') \<or> equalCStr protocol0 (lit ''javascript'')
                       then [] else protocol0);
          noAccess1 = ((schemeRequiresAuthority U protocol1 \<and> hst = [])
                       \<or> shouldTreatURLSchemeAsNoAccess U R protocol1);
          canLoadLocal = shouldTreatURLSchemeAsLocal U R protocol1;
          noAccess2 = (noAccess1 \<or> (canLoadLocal
                         \<and> (\<not> hasPath url \<or> endsWith U (path (lib_utf8 L) url) (lit ''/''))));
          prt = port U url
      in \<lparr>so_protocol = protocol1, so_host = hst, so_domain = hst,
          so_port = (if isDefaultPortForProtocol U prt protocol1 then 0 else prt),
          so_sandboxFlags = SandboxNone, so_noAccess = noAccess2, so_universalAccess = False,
          so_domainWasSetInDOM = False, so_canLoadLocalResources = canLoadLocal\<rparr>)"

definition SecurityOrigin_create :: "url_library \<Rightarrow> origin_registry \<Rightarrow> KURL \<Rightarrow> security_origin" where
  "SecurityOrigin_create L R url =
     (if \<not> m_isValid url then SecurityOrigin_new L R emptyKURL else SecurityOrigin_new L R url)"

definition SecurityOrigin_createEmpty :: "url_library \<Rightarrow> origin_registry \<Rightarrow> security_origin" where
  "SecurityOrigin_createEmpty L R = SecurityOrigin_create L R emptyKURL"

text \<open>The constructor from another origin, which \<open>threadsafeCopy\<close> calls, copies field by field.\<close>

definition SecurityOrigin_threadsafeCopy :: "security_origin \<Rightarrow> security_origin" where
  "SecurityOrigin_threadsafeCopy other =
     \<lparr>so_protocol = so_protocol other, so_host = so_host other, so_domain = so_domain other,
      so_port = so_port other, so_sandboxFlags = so_sandboxFlags other, so_noAccess = so_noAccess other,
      so_universalAccess = so_universalAccess other, so_domainWasSetInDOM = so_domainWasSetInDOM other,
      so_canLoadLocalResources = so_canLoadLocalResources other\<rparr>"

definition SecurityOrigin_isEmpty :: "security_origin \<Rightarrow> bool" where
  "SecurityOrigin_isEmpty o1 \<longleftrightarrow> so_protocol o1 = []"

definition setDomainFromDOM :: "unicode_peer \<Rightarrow> ustring \<Rightarrow> security_origin \<Rightarrow> security_origin" where
  "setDomainFromDOM U newDomain o1 = o1\<lparr>so_domainWasSetInDOM := True, so_domain := lower U newDomain\<rparr>"

definition setSandboxFlags :: "u32 \<Rightarrow> security_origin \<Rightarrow> security_origin" where
  "setSandboxFlags flags o1 = o1\<lparr>so_sandboxFlags := flags\<rparr>"

definition grantLoadLocalResources :: "security_origin \<Rightarrow> security_origin" where
  "grantLoadLocalResources o1 = o1\<lparr>so_canLoadLocalResources := True\<rparr>"

definition grantUniversalAccess :: "security_origin \<Rightarrow> security_origin" where
  "grantUniversalAccess o1 = o1\<lparr>so_universalAccess := True\<rparr>"

section \<open>Access decisions\<close>

definition canAccess :: "security_origin \<Rightarrow> security_origin \<Rightarrow> bool" where
  "canAccess o1 other =
     (if so_universalAccess o1 then True
      else if so_noAccess o1 \<or> so_noAccess other \<or> isSandboxed o1 SandboxOrigin \<or> isSandboxed other SandboxOrigin
      then False
      else if so_protocol o1 = so_protocol other
      then if \<not> so_domainWasSetInDOM o1 \<and> \<not> so_domainWasSetInDOM other
           then so_host o1 = so_host other \<and> so_port o1 = so_port other
           else if so_domainWasSetInDOM o1 \<and> so_domainWasSetInDOM other
           then so_domain o1 = so_domain other
           else False
      else False)"

definition isSameSchemeHostPort :: "security_origin \<Rightarrow> security_origin \<Rightarrow> bool" where
  "isSameSchemeHostPort o1 other =
     (if so_host o1 \<noteq> so_host other then False
      else if so_protocol o1 \<noteq> so_protocol other then False
      else if so_port o1 \<noteq> so_port other then False
      else True)"

text \<open>The comparison of the two pointers first only shortens an answer that is the same.\<close>

definition SecurityOrigin_equal :: "security_origin \<Rightarrow> security_origin \<Rightarrow> bool" where
  "SecurityOrigin_equal o1 other =
     (if \<not> isSameSchemeHostPort o1 other then False
      else if so_domainWasSetInDOM o1 \<noteq> so_domainWasSetInDOM other then False
      else if so_domainWasSetInDOM o1 \<and> so_domain o1 \<noteq> so_domain other then False
      else True)"

definition SecurityOrigin_toString :: "security_origin \<Rightarrow> ustring" where
  "SecurityOrigin_toString o1 =
     (if SecurityOrigin_isEmpty o1 then lit ''null''
      else if so_noAccess o1 \<or> isSandboxed o1 SandboxOrigin then lit ''null''
      else if equalCStr (so_protocol o1) (lit ''file'') then lit ''file://''
      else so_protocol o1 @ lit ''://'' @ so_host o1
           @ (if so_port o1 \<noteq> 0 then ch CHR '':'' # decimal (unat (so_port o1)) else []))"

definition createFromString :: "url_library \<Rightarrow> origin_registry \<Rightarrow> ustring \<Rightarrow> security_origin" where
  "createFromString L R originString = SecurityOrigin_create L R (KURL_relative L emptyKURL originString)"

definition OriginAccessEntry_new ::
  "unicode_peer \<Rightarrow> ustring \<Rightarrow> ustring \<Rightarrow> subdomain_setting \<Rightarrow> origin_access_entry" where
  "OriginAccessEntry_new U scheme hostname setting =
     (let h = lower U hostname
      in \<lparr>oa_protocol = lower U scheme, oa_host = h, oa_subdomainSettings = setting,
          oa_hostIsIPAddress = (h \<noteq> [] \<and> isASCIIDigit (last h))\<rparr>)"

definition matchesOrigin :: "unicode_peer \<Rightarrow> origin_access_entry \<Rightarrow> security_origin \<Rightarrow> bool" where
  "matchesOrigin U e o1 =
     (if oa_protocol e \<noteq> so_protocol o1 then False
      else if oa_subdomainSettings e = AllowSubdomains \<and> oa_host e = [] then True
      else if oa_host e = so_host o1 then True
      else if oa_subdomainSettings e = DisallowSubdomains then False
      else if oa_hostIsIPAddress e then False
      else length (so_host o1) > length (oa_host e)
           \<and> String_at (so_host o1) (length (so_host o1) - length (oa_host e) - 1) = ch CHR ''.''
           \<and> endsWith U (so_host o1) (oa_host e))"

definition canRequest :: "url_library \<Rightarrow> origin_registry \<Rightarrow> security_origin \<Rightarrow> KURL \<Rightarrow> bool" where
  "canRequest L R o1 url =
     (if so_universalAccess o1 then True
      else if so_noAccess o1 \<or> isSandboxed o1 SandboxOrigin then False
      else let targetOrigin = SecurityOrigin_create L R url
           in if so_noAccess targetOrigin then False
              else if isSameSchemeHostPort o1 targetOrigin then True
              else case map_of (or_accessMap R) (SecurityOrigin_toString o1) of
                     None \<Rightarrow> False
                   | Some entries \<Rightarrow> list_ex (\<lambda>e. matchesOrigin (lib_peer L) e targetOrigin) entries)"

definition taintsCanvas :: "url_library \<Rightarrow> origin_registry \<Rightarrow> security_origin \<Rightarrow> KURL \<Rightarrow> bool" where
  "taintsCanvas L R o1 url =
     (if canRequest L R o1 url then False
      else if KURL_protocolIs url (lit ''data'') then False
      else True)"

text \<open>\<open>document\<close> is the origin of the document, if one was given.\<close>

definition canLoad :: "unicode_peer \<Rightarrow> origin_registry \<Rightarrow> KURL \<Rightarrow> ustring \<Rightarrow> security_origin option \<Rightarrow> bool" where
  "canLoad U R url referrer document =
     (if \<not> shouldTreatURLAsLocal U R (m_string url) then True
      else case document of
             Some d \<Rightarrow> so_canLoadLocalResources d
           | None \<Rightarrow> if referrer \<noteq> [] then shouldTreatURLAsLocal U R referrer else False)"

definition isSecureTransitionTo :: "url_library \<Rightarrow> origin_registry \<Rightarrow> security_origin \<Rightarrow> KURL \<Rightarrow> bool" where
  "isSecureTransitionTo L R o1 url =
     (if SecurityOrigin_isEmpty o1 then True else canAccess o1 (SecurityOrigin_create L R url))"

definition shouldHideReferrer :: "KURL \<Rightarrow> ustring \<Rightarrow> bool" where
  "shouldHideReferrer url referrer =
     (let referrerIsSecureURL = protocolIs referrer (lit ''https'');
          referrerIsWebURL = (referrerIsSecureURL \<or> protocolIs referrer (lit ''http''))
      in if \<not> referrerIsWebURL then True
         else if \<not> referrerIsSecureURL then False
         else \<not> KURL_protocolIs url (lit ''https''))"

section \<open>Identifiers\<close>

definition SeparatorCharacter :: uchar where
  "SeparatorCharacter = ch CHR ''_''"

definition databaseIdentifier :: "security_origin \<Rightarrow> ustring" where
  "databaseIdentifier o1 =
     so_protocol o1 @ [SeparatorCharacter] @ so_host o1 @ [SeparatorCharacter] @ decimal (unat (so_port o1))"

definition createFromDatabaseIdentifier :: "url_library \<Rightarrow> origin_registry \<Rightarrow> ustring \<Rightarrow> security_origin" where
  "createFromDatabaseIdentifier L R ident =
     (let failed = SecurityOrigin_create L R emptyKURL;
          separator1 = find_char ident SeparatorCharacter 0;
          separator2 = reverseFind_char ident SeparatorCharacter (-1);
          s1 = nat separator1; s2 = nat separator2
      in if separator1 = -1 then failed
         else if separator2 = -1 then failed
         else if separator1 = separator2 then failed
         else let (portWord, portOkay) = charactersToInt (lib_peer L) (right ident (length ident - s2 - 1));
                  portAbsent = (s2 = length ident - 1)
              in if \<not> (portOkay \<or> portAbsent) then failed
                 else if sint portWord < 0 \<or> sint portWord > 65535 then failed
                 else let scheme = substring ident 0 s1;
                          hostname = substring ident (s1 + 1) (s2 - s1 - 1)
                      in SecurityOrigin_create L R
                           (KURL_relative L emptyKURL
                              (scheme @ lit ''://'' @ hostname @ ch CHR '':'' # decimal (unat portWord))))"

section \<open>Static tables\<close>

definition registerURLSchemeAsLocal :: "unicode_peer \<Rightarrow> ustring \<Rightarrow> origin_registry \<Rightarrow> origin_registry" where
  "registerURLSchemeAsLocal U scheme R = R\<lparr>or_localSchemes := folding_add U scheme (localSchemes R)\<rparr>"

definition removeURLSchemeRegisteredAsLocal :: "unicode_peer \<Rightarrow> ustring \<Rightarrow> origin_registry \<Rightarrow> origin_registry" where
  "removeURLSchemeRegisteredAsLocal U scheme R =
     (if equalCStr scheme (lit ''file'') then R
      else R\<lparr>or_localSchemes := filter (\<lambda>s. \<not> equalIgnoringCase U s scheme) (localSchemes R)\<rparr>)"

definition registerURLSchemeAsNoAccess :: "unicode_peer \<Rightarrow> ustring \<Rightarrow> origin_registry \<Rightarrow> origin_registry" where
  "registerURLSchemeAsNoAccess U scheme R = R\<lparr>or_noAccessSchemes := folding_add U scheme (noAccessSchemes R)\<rparr>"

definition setLocalLoadPolicy :: "local_load_policy \<Rightarrow> origin_registry \<Rightarrow> origin_registry" where
  "setLocalLoadPolicy policy R = R\<lparr>or_localLoadPolicy := policy\<rparr>"

definition restrictAccessToLocal :: "origin_registry \<Rightarrow> bool" where
  "restrictAccessToLocal R \<longleftrightarrow> or_localLoadPolicy R \<noteq> AllowLocalLoadsForAll"

definition allowSubstituteDataAccessToLocal :: "origin_registry \<Rightarrow> bool" where
  "allowSubstituteDataAccessToLocal R \<longleftrightarrow> or_localLoadPolicy R \<noteq> AllowLocalLoadsForLocalOnly"

definition whiteListAccessFromOrigin ::
  "unicode_peer \<Rightarrow> security_origin \<Rightarrow> ustring \<Rightarrow> ustring \<Rightarrow> bool \<Rightarrow> origin_registry \<Rightarrow> origin_registry" where
  "whiteListAccessFromOrigin U sourceOrigin destinationProtocol destinationDomains allowDestinationSubdomains R =
     (if SecurityOrigin_isEmpty sourceOrigin then R
      else let sourceString = SecurityOrigin_toString sourceOrigin;
               entries = (case map_of (or_accessMap R) sourceString of None \<Rightarrow> [] | Some l \<Rightarrow> l);
               e = OriginAccessEntry_new U destinationProtocol destinationDomains
                     (if allowDestinationSubdomains then AllowSubdomains else DisallowSubdomains)
           in R\<lparr>or_accessMap := AList.update sourceString (entries @ [e]) (or_accessMap R)\<rparr>)"

definition resetOriginAccessWhiteLists :: "origin_registry \<Rightarrow> origin_registry" where
  "resetOriginAccessWhiteLists R = R\<lparr>or_accessMap := []\<rparr>"

end
