(* ===== verification/SecurityOriginFacts.thy ===== *)
theory SecurityOriginFacts
  imports SecurityOrigin KURLEscapes KURLCompare
begin

text \<open>
  The same-origin policy: who may access whom, which hosts a white list entry covers, and the
  two texts an origin is written as, with the origins they read back as.
\<close>

unbundle bit_operations_syntax

section \<open>Texts that the string operations leave alone\<close>

lemma low_seven_bits: "(c::uchar) AND NOT 0x7F = 0 \<longleftrightarrow> c \<le> 0x7F"
proof -
  have "(0x7F :: uchar) = mask 7" by (simp add: mask_eq_exp_minus_1)
  then show ?thesis unfolding conj_compl by (simp only: take_bit_eq_mask [symmetric] take_bit_7)
qed

lemma lower_id: "\<forall>c\<in>set s. c \<le> 0x7F \<and> \<not> isASCIIUpper c \<Longrightarrow> lower U s = s"
proof -
  assume *: "\<forall>c\<in>set s. c \<le> 0x7F \<and> \<not> isASCIIUpper c"
  then have "fold (\<lambda>c ored. ored OR c) s 0 AND NOT 0x7F = 0"
    unfolding charactersAreAllASCII_aux by (simp only: low_seven_bits and_zero_eq simp_thms ball_simps) simp
  with * show ?thesis unfolding lower_def Let_def by (simp only: if_True simp_thms) simp
qed

lemma decode_no_escape: "ch CHR ''%'' \<notin> set s \<Longrightarrow> decodeURLEscapeSequences utf8 s encoding = s"
  using find_char_absent [of "ch CHR ''%''" s 0 "[]"]
  unfolding decodeURLEscapeSequences_def by (subst decode_loop.simps) (simp add: find_run_def)

definition plain_text :: "byte list \<Rightarrow> bool" where
  "plain_text t \<longleftrightarrow> list_all (\<lambda>c. \<not> (ch CHR ''A'' \<le> c \<and> c \<le> ch CHR ''Z'') \<and> c \<noteq> ch CHR ''%'' \<and> c < 0x80) t"

lemma ucast_byte_le: "(ucast (c::byte) :: uchar) \<le> ucast d \<longleftrightarrow> c \<le> d"
  by (simp add: word_le_nat_alt unat_ucast_byte)

lemma plain_latin1:
  assumes "plain_text t"
  shows "lower U (latin1 t) = latin1 t" "ch CHR ''%'' \<notin> set (latin1 t)"
proof -
  have u: "(ucast c :: uchar) \<le> 0x7F \<and> \<not> isASCIIUpper (ucast c) \<and> (ucast c :: uchar) \<noteq> ch CHR ''%''" if "c \<in> set t" for c
  proof -
    have p: "\<not> (ch CHR ''A'' \<le> c \<and> c \<le> ch CHR ''Z'')" "c \<noteq> ch CHR ''%''" "c < 0x80"
      using assms that by (auto simp: plain_text_def list_all_iff)
    have "(ucast c :: uchar) \<le> 0x7F" using p(3) by (simp add: word_le_nat_alt word_less_nat_alt unat_ucast_byte)
    moreover have "\<not> isASCIIUpper (ucast c)"
      using p(1) by (simp add: isASCIIUpper_def word_le_nat_alt unat_ucast_byte)
    moreover have "(ucast c :: uchar) \<noteq> ch CHR ''%''"
      using p(2) ucast_byte_eq [of c "ch CHR ''%''"] by simp
    ultimately show ?thesis by simp
  qed
  then show "lower U (latin1 t) = latin1 t" "ch CHR ''%'' \<notin> set (latin1 t)"
    by (auto intro!: lower_id simp: latin1_def)
qed

lemma number_value_decimal: "number_value 10 (decimal n) = n"
proof (induction n rule: decimal.induct)
  case (1 n)
  have "(of_nat (48 + n mod 10) :: uchar) = of_nat (n mod 10) + 48" by simp
  moreover have "isASCIIDigit (of_nat (48 + n mod 10) :: uchar)"
    using digit_byte [of "n mod 10"] isASCIIDigit_ucast by (metis mod_less_divisor zero_less_numeral)
  moreover have "unat (ucast (of_nat (48 + n mod 10) :: uchar) - 48 :: u32) = n mod 10"
    by (subst unat_ucast_minus) (simp_all add: word_le_nat_alt unat_of_nat del: of_nat_add)
  ultimately have d: "unat (digitValue (of_nat (48 + n mod 10))) = n mod 10"
    by (simp add: digitValue_def)
  show ?case
  proof (cases "n < 10")
    case True
    then show ?thesis using d by (subst decimal.simps) (simp add: number_value_def)
  next
    case False
    then have "number_value 10 (decimal (n div 10)) = n div 10" using 1 by simp
    then show ?thesis using False d by (subst decimal.simps) (simp add: number_value_def)
  qed
qed

section \<open>Reading the text of an origin\<close>

lemma reference_of_clean:
  assumes "\<forall>c\<in>set t. clean_char c" "92 \<notin> set t"
  shows "normalized_reference (latin1 t) = latin1 t"
    "reference_bytes idn utf8 encoding (latin1 t) = (t, Some (latin1 t))"
proof -
  have c: "(ucast c :: uchar) \<le> 0x7F \<and> (ucast c :: uchar) \<noteq> 92 \<and> c \<noteq> ch CHR '' ''" if "c \<in> set t" for c
  proof -
    have "0x20 < c" "c < 0x7F" "c \<noteq> 92" using assms clean_range that by blast+
    moreover from this have "(ucast c :: uchar) \<noteq> ucast (92 :: byte)" by (simp only: ucast_byte_eq) simp
    ultimately show ?thesis by (auto simp: word_le_nat_alt word_less_nat_alt unat_ucast_byte)
  qed
  then have b: "(92::uchar) \<notin> set (latin1 t)" "charactersAreAllASCII (latin1 t)"
    by (auto simp: latin1_def charactersAreAllASCII_iff)
  then show "normalized_reference (latin1 t) = latin1 t"
    using find_char_None [of 0 "latin1 t" 92] by (simp add: normalized_reference_def)
  have d: "dropWhile (\<lambda>c. c = ch CHR '' '') x = x" if "set x \<subseteq> set t" for x :: "byte list"
    using c that by (cases x) auto
  show "reference_bytes idn utf8 encoding (latin1 t) = (t, Some (latin1 t))"
    using b(2) d [of t] d [of "rev t"] by (simp add: reference_bytes_def latin1_inverse)
qed

lemma KURL_relative_origin:
  assumes p: "parts_ok p" "\<not> file_scheme (pt_scheme p)" and bs: "92 \<notin> set (before_path p)"
  shows "same_authority (KURL_relative L emptyKURL (latin1 (before_path p))) (url_of p)"
proof -
  let ?t = "before_path p"
  obtain a where a: "pt_auth p = Some a" "scheme_ok (pt_scheme p)" "tail_ok p" "auth_ok a"
    using p unfolding parts_ok_def by auto
  have clean: "\<forall>c\<in>set ?t. clean_char c" using url_text_clean [of p] a by auto
  note nul = before_path_nul [OF p(1)]
  have t: "?t = pt_scheme p @ ch CHR '':'' # ch CHR ''/'' # (ch CHR ''/'' # auth_text a)"
    by (simp add: before_path_def a(1))
  have first: "isSchemeFirstChar (at ?t 0)"
    using a(2) unfolding t by (cases "pt_scheme p") (auto simp: scheme_ok_def)
  have scan: "scan_while isSchemeChar ?t 1 = length (pt_scheme p)"
  proof -
    have "scan_while isSchemeChar ?t 0 = length (pt_scheme p)" unfolding t using a(2) by (rule scan_scheme)
    moreover have "0 < length (pt_scheme p)" "\<forall>c\<in>set (pt_scheme p). isSchemeChar c"
      using a(2) by (auto simp: scheme_ok_def)
    ultimately show ?thesis
      using first by (subst (asm) scan_while.simps) (auto simp: t nth_append split: if_splits)
  qed
  have strip: "strip_scheme U emptyKURL ?t = (True, ?t, length ?t)" for U
  proof -
    have "at ?t (length (pt_scheme p)) = ch CHR '':''" "at ?t (length (pt_scheme p) + 1) = ch CHR ''/''"
      unfolding t by (simp_all add: at_def nth_append)
    then show ?thesis unfolding strip_scheme_def Let_def scan using first by (simp only: if_True) simp
  qed
  have "KURL_relative L emptyKURL (latin1 ?t) = parse (cstr ?t) (Some (latin1 ?t))"
    unfolding KURL_relative_def resolve_def Let_def reference_of_clean [OF clean bs]
      prod.case strip by (simp add: emptyKURL_def invalidate_def)
  also have "\<dots> = parse (cstr (?t @ [])) None"
    using parse_String_latin1 [OF nul] nul by (simp add: parse_String_def latin1_inverse cstr_id)
  finally show ?thesis using parse_after_authority [OF p(1,2), of "[]"] by (simp add: PathSegmentEnd_cases)
qed

text \<open>The parts of the URL of an origin.\<close>

definition origin_parts :: "byte list \<Rightarrow> byte list \<Rightarrow> byte list option \<Rightarrow> url_parts" where
  "origin_parts s h d = \<lparr>pt_scheme = s, pt_auth = Some \<lparr>pt_user = [], pt_pass = [], pt_host = h, pt_port = d\<rparr>,
     pt_path = [slash], pt_query = [], pt_fragment = None\<rparr>"

lemma origin_parts_ok:
  assumes "scheme_ok s" "\<not> file_scheme s" "host_ok h" "h \<noteq> []" "\<And>x. d = Some x \<Longrightarrow> \<forall>c\<in>set x. isASCIIDigit c"
  shows "parts_ok (origin_parts s h d)"
  using assms
  by (auto simp: parts_ok_def origin_parts_def tail_ok_def auth_ok_def auth_nonempty_def segs.simps dot_segment_def
      clean_char_def slash_def class_iffs class_docs split: option.split)

lemma origin_text: "latin1 (before_path (origin_parts s h d)) =
    latin1 s @ lit ''://'' @ latin1 h @ (case d of None \<Rightarrow> [] | Some x \<Rightarrow> ch CHR '':'' # latin1 x)"
  by (simp add: origin_parts_def before_path_def auth_text_def userinfo_text_def upass_text_def port_text_def split: option.split)

lemma host_no_backslash: "host_ok h \<Longrightarrow> (92::byte) \<notin> set h"
proof (erule host_cases)
  show "\<forall>c\<in>set h. isHostnameChar c \<Longrightarrow> 92 \<notin> set h" by (auto simp: class_iffs class_docs)
  show "\<And>w. h = ch CHR ''['' # w @ [ch CHR '']''] \<Longrightarrow> \<forall>c\<in>set w. isIPv6Char c \<Longrightarrow> 92 \<notin> set h"
    by (auto simp: class_iffs class_docs)
qed

lemma origin_no_backslash:
  assumes "scheme_ok s" "host_ok h" "\<And>x. d = Some x \<Longrightarrow> \<forall>c\<in>set x. isASCIIDigit c"
  shows "92 \<notin> set (before_path (origin_parts s h d))"
proof -
  have "(92::byte) \<notin> set s" using assms(1) by (auto simp: scheme_ok_def class_iffs class_docs)
  moreover have "(92::byte) \<notin> set x" if "d = Some x" for x
    using assms(3) [OF that] by (auto simp: isASCIIDigit_def)
  ultimately show ?thesis using host_no_backslash [OF assms(2)]
    by (auto simp: origin_parts_def before_path_def auth_text_def userinfo_text_def upass_text_def port_text_def split: option.splits)
qed

text \<open>What the accessors read from a URL with that authority.\<close>

lemma origin_fields:
  assumes v: "same_authority v (url_of (origin_parts s h d))"
    and ok: "plain_text h" "\<And>x. d = Some x \<Longrightarrow> \<forall>c\<in>set x. isASCIIDigit c"
  shows "m_isValid v" "protocol v = latin1 s" "host utf8 v = latin1 h"
    "port U v = (case d of None \<Rightarrow> 0 | Some x \<Rightarrow> if x = [] then 0
       else if number_value 10 (latin1 x) \<le> 0xFFFE then of_nat (number_value 10 (latin1 x)) else 0xFFFF)"
proof -
  let ?p = "origin_parts s h d"
  let ?u = "url_of ?p"
  define a where "a = \<lparr>pt_user = [], pt_pass = [], pt_host = h, pt_port = d\<rparr>"
  have a: "pt_auth ?p = Some a" "pt_user a = []" "pt_pass a = []" "pt_host a = h" "pt_port a = d"
    by (simp_all add: origin_parts_def a_def)
  have empty: "upass_text a = []" "userinfo_text a = []" by (simp_all add: a upass_text_def userinfo_text_def)
  note off = url_of_fields url_offsets_simps url_offsets_auth(1) [OF a(1)] before_path_length(1) [OF a(1)]
  have f: "m_schemeEnd v = length s" "m_userStart v = length s + 3" "m_passwordEnd v = length s + 3"
    "m_hostEnd v = length s + 3 + length h" "m_portEnd v = length (before_path ?p)"
    using v by (simp_all add: same_authority_def off a empty) (simp_all add: origin_parts_def)
  have tk: "take (length (before_path ?p)) (m_string v) = latin1 (before_path ?p)"
    using v left_latin1 [of "before_path ?p" "pt_path ?p @ pt_query ?p @ fragment_text ?p"]
    by (simp add: same_authority_def off url_text_def)
  then obtain r where str: "m_string v = latin1 (before_path ?p) @ r" by (metis append_take_drop_id)
  have bp: "before_path ?p = s @ lit ''://'' @ h @ port_text a"
    by (simp add: before_path_def a(1) auth_text_def empty a(4)) (simp add: origin_parts_def)
  have str': "m_string v = latin1 s @ (latin1 (lit ''://'') @ (latin1 h @ (latin1 (port_text a) @ r)))"
    unfolding str bp by (simp only: latin1_simps append_assoc)
  show "m_isValid v" using v by (simp add: same_authority_def)
  show "protocol v = latin1 s" unfolding protocol_def f(1) str' by simp
  have "substring (m_string v) (hostStart v) (m_hostEnd v - hostStart v) = latin1 h"
    unfolding str' by (simp add: substring_eq_take_drop hostStart_def f)
  then show "host utf8 v = latin1 h" using plain_latin1(2) [OF ok(1)] by (simp add: host_def decode_no_escape)
  have le: "m_hostEnd v \<le> m_portEnd v" "m_portEnd v \<le> length (m_string v)" by (simp_all add: f str bp)
  have seg: "segment (m_string v) (m_hostEnd v + 1) (m_portEnd v) = latin1 (tl (port_text a))"
  proof (cases "port_text a")
    case (Cons c w)
    have e: "m_string v = (latin1 s @ latin1 (lit ''://'') @ latin1 h @ [ucast c]) @ latin1 w @ r"
      unfolding str' Cons by simp
    show ?thesis unfolding e Cons list.sel by (rule segment_pieces) (simp_all add: f bp Cons)
  qed (simp add: f bp)
  have digits: "\<forall>c\<in>set (latin1 (tl (port_text a))). isASCIIDigit c"
    using ok(2) by (auto simp: port_text_def a(5) latin1_def isASCIIDigit_ucast split: option.splits)
  show "port U v = (case d of None \<Rightarrow> 0 | Some x \<Rightarrow> if x = [] then 0
       else if number_value 10 (latin1 x) \<le> 0xFFFE then of_nat (number_value 10 (latin1 x)) else 0xFFFF)"
    using port_value [OF le] digits unfolding seg by (auto simp: port_text_def a(5) latin1_def split: option.splits)
qed

section \<open>Origins with a name\<close>

text \<open>
  An origin whose scheme \<open>s\<close> and host \<open>h\<close> are texts the URL parser accepts unescaped and in
  lower case, with the port the constructor keeps.
\<close>

definition named_origin :: "unicode_peer \<Rightarrow> byte list \<Rightarrow> byte list \<Rightarrow> security_origin \<Rightarrow> bool" where
  "named_origin U s h o1 \<longleftrightarrow> so_protocol o1 = latin1 s \<and> so_host o1 = latin1 h
     \<and> scheme_ok s \<and> plain_text s \<and> \<not> file_scheme s \<and> s \<noteq> lit ''file'' \<and> s \<noteq> lit ''about'' \<and> s \<noteq> lit ''javascript''
     \<and> host_ok h \<and> plain_text h \<and> h \<noteq> []
     \<and> (isDefaultPortForProtocol U (so_port o1) (latin1 s) \<longrightarrow> so_port o1 = 0)"

lemma latin1_eq: "latin1 s = latin1 t \<longleftrightarrow> s = t"
  using latin1_inverse by metis

lemma equalCStr_latin1: "0 \<notin> set t \<Longrightarrow> equalCStr (latin1 s) t \<longleftrightarrow> s = t"
  unfolding latin1_eq [symmetric] by (simp only: equalCStr_iff latin1_def not_False_eq_True)

lemma scheme_names:
  "equalCStr (latin1 s) (lit ''about'') \<longleftrightarrow> s = lit ''about''"
  "equalCStr (latin1 s) (lit ''javascript'') \<longleftrightarrow> s = lit ''javascript''"
  "equalCStr (latin1 s) (lit ''file'') \<longleftrightarrow> s = lit ''file''"
  by (rule equalCStr_latin1; simp)+

lemma created_origin:
  assumes n: "named_origin U s h o1" and U: "U = lib_peer L"
    and v: "m_isValid v" "protocol v = latin1 s" "host (lib_utf8 L) v = latin1 h" "port U v = so_port o1"
  shows "isSameSchemeHostPort (SecurityOrigin_create L R v) o1"
proof -
  have no: "\<not> equalCStr (latin1 s) (lit ''about'')" "\<not> equalCStr (latin1 s) (lit ''javascript'')"
    using n unfolding scheme_names by (auto simp: named_origin_def simp del: lit_Cons)
  have lo: "lower U (latin1 s) = latin1 s" "lower U (latin1 h) = latin1 h"
    using n by (auto simp: named_origin_def plain_latin1)
  have p: "isDefaultPortForProtocol U (so_port o1) (latin1 s) \<longrightarrow> so_port o1 = 0"
    using n by (auto simp: named_origin_def)
  have "so_protocol (SecurityOrigin_new L R v) = latin1 s" "so_host (SecurityOrigin_new L R v) = latin1 h"
    "so_port (SecurityOrigin_new L R v) = so_port o1"
    using no p by (simp_all add: SecurityOrigin_new_def Let_def v lo U [symmetric])
  then show ?thesis
    using n v(1) by (simp add: SecurityOrigin_create_def isSameSchemeHostPort_def named_origin_def)
qed

lemma named_origin_url:
  assumes n: "named_origin U s h o1" and d: "d = None \<and> so_port o1 = 0 \<or> d = Some (copyASCII (decimal (unat (so_port o1))))"
    and U: "U = lib_peer L"
  shows "isSameSchemeHostPort
      (SecurityOrigin_create L R (KURL_relative L emptyKURL (latin1 (before_path (origin_parts s h d))))) o1"
proof (rule created_origin [OF n U])
  let ?n = "unat (so_port o1)"
  have ok: "scheme_ok s" "\<not> file_scheme s" "host_ok h" "h \<noteq> []" "plain_text h"
    using n by (auto simp: named_origin_def)
  have dg: "\<And>x. d = Some x \<Longrightarrow> \<forall>c\<in>set x. isASCIIDigit c" using d decimal_bytes by auto
  have ps: "pt_scheme (origin_parts s h d) = s" by (simp add: origin_parts_def)
  have sa: "same_authority (KURL_relative L emptyKURL (latin1 (before_path (origin_parts s h d)))) (url_of (origin_parts s h d))"
    using ok dg by (intro KURL_relative_origin origin_parts_ok origin_no_backslash) (simp_all add: ps)
  note f = origin_fields [OF sa ok(5) dg]
  from f(1) show "m_isValid (KURL_relative L emptyKURL (latin1 (before_path (origin_parts s h d))))" by blast
  from f(2) show "protocol (KURL_relative L emptyKURL (latin1 (before_path (origin_parts s h d)))) = latin1 s" by blast
  from f(3) show "host (lib_utf8 L) (KURL_relative L emptyKURL (latin1 (before_path (origin_parts s h d)))) = latin1 h" by blast
  have b: "?n \<le> 0xFFFF" using unsigned_less [of "so_port o1", where 'a = nat] by simp
  have "copyASCII (decimal ?n) \<noteq> []" using decimal_nonempty [of ?n] decimal_bytes [of ?n] by auto
  moreover have "so_port o1 = 0xFFFF" if "\<not> ?n \<le> 0xFFFE"
  proof -
    have "unat (so_port o1) = unat (0xFFFF :: u16)" using that b by simp
    then show ?thesis by (rule unsigned_word_eqI)
  qed
  ultimately show "port U (KURL_relative L emptyKURL (latin1 (before_path (origin_parts s h d)))) = so_port o1"
    using d f(4) decimal_bytes [of ?n] by (auto simp: number_value_decimal)
qed

lemma origin_string_reads_back:
  assumes n: "named_origin (lib_peer L) s h o1" and "\<not> so_noAccess o1" "\<not> isSandboxed o1 SandboxOrigin"
  shows "isSameSchemeHostPort (createFromString L R (SecurityOrigin_toString o1)) o1"
proof -
  let ?d = "if so_port o1 = 0 then None else Some (copyASCII (decimal (unat (so_port o1))))"
  have s: "s \<noteq> []" "s \<noteq> lit ''file''" "so_protocol o1 = latin1 s" "so_host o1 = latin1 h"
    using n by (auto simp: named_origin_def scheme_ok_def)
  have "latin1 s \<noteq> []" using s(1) by (simp add: latin1_def)
  moreover have "\<not> equalCStr (latin1 s) (lit ''file'')" using s(2) by (simp only: scheme_names not_False_eq_True)
  moreover have "latin1 (lit ''://'') = lit ''://''" by simp
  ultimately have "SecurityOrigin_toString o1 = latin1 (before_path (origin_parts s h ?d))"
    using assms(2,3) s(3,4) decimal_bytes [of "unat (so_port o1)"]
    by (simp add: SecurityOrigin_toString_def SecurityOrigin_isEmpty_def origin_text del: lit_Cons)
  then show ?thesis
    unfolding createFromString_def using named_origin_url [OF n, of ?d L R] by simp
qed

text \<open>C19: The text of an origin that is neither sandboxed nor without access (those are written "null"), with a plain scheme other than
  file, about and javascript, a plain host that is not empty, and the default port written as 0, reads back as the same scheme,
  host and port.\<close>

theorem origin_string_roundtrip:
  assumes n: "named_origin (lib_peer L) s h o1" and "\<not> so_noAccess o1" "\<not> isSandboxed o1 SandboxOrigin"
  shows "isSameSchemeHostPort (createFromString L R (SecurityOrigin_toString o1)) o1"
  using assms by (rule origin_string_reads_back)

text \<open>Library instances for the witnesses.\<close>

definition ascii_library :: url_library where
  "ascii_library = \<lparr>lib_peer = ascii_peer, lib_idn = (\<lambda>_. None), lib_memory = (\<lambda>_. 0),
     lib_utf8 = \<lparr>enc_name = ''UTF-8'', enc_isValid = True, enc_decode = latin1, enc_encode = copyASCII\<rparr>\<rparr>"

definition example_origin :: security_origin where
  "example_origin = \<lparr>so_protocol = lit ''http'', so_host = lit ''a.b'', so_domain = lit ''a.b'', so_port = 81,
     so_sandboxFlags = 0, so_noAccess = False, so_universalAccess = False, so_domainWasSetInDOM = False,
     so_canLoadLocalResources = False\<rparr>"

lemma example_origin_named: "named_origin ascii_peer (lit ''http'') (lit ''a.b'') example_origin"
proof -
  have "scheme_ok (lit ''http'')" "plain_text (lit ''http'')" "\<not> file_scheme (lit ''http'')" "host_ok (lit ''a.b'')"
    "plain_text (lit ''a.b'')" "\<not> isDefaultPortForProtocol ascii_peer 81 (latin1 (lit ''http''))"
    by code_simp+
  then show ?thesis by (simp add: named_origin_def example_origin_def del: lit_Cons) (simp add: latin1_def)
qed

theorem origin_string_roundtrip_witness:
  "isSameSchemeHostPort (createFromString ascii_library resetVariables (SecurityOrigin_toString example_origin)) example_origin"
  by (rule origin_string_roundtrip [of _ "lit ''http''" "lit ''a.b''"], unfold ascii_library_def url_library.simps)
    (rule example_origin_named, simp_all add: example_origin_def isSandboxed_def)

section \<open>The identifier of a database\<close>

lemma digit_loop_signed:
  "\<forall>c\<in>set cs. isASCIIDigit c \<Longrightarrow> foldl (\<lambda>v c. 10 * v + unat (digitValue c)) (unat v) cs < 2 ^ 31 \<Longrightarrow>
   digit_loop True 10 False cs v = Some (of_nat (foldl (\<lambda>v c. 10 * v + unat (digitValue c)) (unat v) cs), [])"
proof (induction cs arbitrary: v)
  case (Cons c cs)
  let ?d = "digitValue c"
  let ?w = "10 * unat v + unat ?d"
  have all: "isCharacterAllowedInBase c 10" using Cons.prems(1) by (simp add: digit_allowed)
  have d: "unat ?d < 10" using digitValue_less [OF all] by simp
  have w: "?w < 2 ^ 31"
    using foldl_value_ge [of 10 ?w "\<lambda>c. unat (digitValue c)" cs] Cons.prems(2) by simp
  then have v: "unat v < 2 ^ 31" by simp
  have "unat (integralMax True :: u32) = 0x7FFFFFFF" "sint (integralMax True div 10) = 214748364" "integralMax True mod 10 = 7"
    by (simp_all add: integralMax_def)
  then have "\<not> (integral_gt True v (integralMax True div of_nat 10)
      \<or> (v = integralMax True div of_nat 10
         \<and> integral_gt True ?d (integralMax True mod of_nat 10 + (if False then 1 else 0))))"
    using w d v by (auto simp: integral_gt_def u32_sint integralMax_def word_unat_eq_iff simp del: of_nat_unat)
  moreover have u: "unat (of_nat 10 * v + ?d) = ?w" using w by (simp add: unat_word_ariths)
  ultimately have "digit_loop True 10 False (c # cs) v = digit_loop True 10 False cs (of_nat 10 * v + ?d)"
    using all by (auto simp: Let_def)
  also have "\<dots> = Some (of_nat (foldl (\<lambda>v c. 10 * v + unat (digitValue c)) (unat (of_nat 10 * v + ?d)) cs), [])"
    using Cons.prems u by (intro Cons.IH) simp_all
  finally show ?case unfolding u by simp
qed simp

lemma charactersToInt_digits:
  assumes "ds \<noteq> []" "\<forall>c\<in>set ds. isASCIIDigit c" "number_value 10 ds < 2 ^ 31"
  shows "charactersToInt U ds = (of_nat (number_value 10 ds), True)"
proof -
  obtain c cs where ds: "ds = c # cs" using assms(1) by (cases ds) auto
  then have c: "isASCIIDigit c" using assms(2) by simp
  then have ns: "\<not> isSpaceOrNewline U c" "c \<noteq> ch CHR ''+''" "c \<noteq> ch CHR ''-''"
    using digit_not_space [OF c] by (auto simp: isASCIIDigit_def)
  have l: "lengthOfCharactersAsInteger U ds = length ds"
  proof -
    have "scan_while (isSpaceOrNewline U) ds 0 = 0" using ns ds by (subst scan_while.simps) simp
    moreover have "scan_while isASCIIDigit ds 0 = length ds" using assms(2) by (intro scan_while_eqI) auto
    ultimately show ?thesis using ns ds by (simp add: lengthOfCharactersAsInteger_def)
  qed
  have "digit_loop True 10 False ds 0 = Some (of_nat (number_value 10 ds), [])"
    using digit_loop_signed [of ds 0] assms(2,3) by (simp add: number_value_def)
  then show ?thesis
    unfolding charactersToInt_def l toIntegralType_def Let_def
    using ns digit_allowed [OF c] by (simp add: ds)
qed

lemma reverseFind_loop_last:
  "i < length s \<Longrightarrow> j \<le> i \<Longrightarrow> s ! j = c \<Longrightarrow> (\<And>k. j < k \<Longrightarrow> k \<le> i \<Longrightarrow> s ! k \<noteq> c) \<Longrightarrow> reverseFind_loop s c i = int j"
  by (induction i) (auto simp: le_Suc_eq)

lemma reverseFind_last:
  assumes "c \<notin> set post"
  shows "reverseFind_char (pre @ c # post) c (-1) = int (length pre)"
proof -
  have "nat (-1 + int (length (pre @ c # post))) = length pre + length post" by simp
  moreover have "reverseFind_loop (pre @ c # post) c (length pre + length post) = int (length pre)"
    using assms by (intro reverseFind_loop_last) (auto simp: nth_append nth_Cons')
  ultimately show ?thesis by (simp add: reverseFind_char_def)
qed

lemma decimal_length: "length (decimal n) \<le> n + 1"
proof (induction n rule: decimal.induct)
  case (1 n)
  show ?case
  proof (cases "n < 10")
    case False
    then have "length (decimal (n div 10)) \<le> n div 10 + 1" "n div 10 + 1 \<le> n" using 1 by auto
    then show ?thesis using False by (subst decimal.simps) simp
  qed (subst decimal.simps, simp)
qed

text \<open>C22: The database identifier of a named origin reads back as the same scheme, host and port.\<close>

theorem database_identifier_roundtrip:
  assumes n: "named_origin (lib_peer L) s h o1" and len: "length s + length h < 2 ^ 31"
  shows "isSameSchemeHostPort (createFromDatabaseIdentifier L R (databaseIdentifier o1)) o1"
proof -
  let ?n = "unat (so_port o1)"
  let ?ds = "decimal ?n"
  have o1: "so_protocol o1 = latin1 s" "so_host o1 = latin1 h" "scheme_ok s" using n by (auto simp: named_origin_def)
  define ident where "ident = databaseIdentifier o1"
  have id1: "ident = latin1 s @ SeparatorCharacter # (latin1 h @ SeparatorCharacter # ?ds)"
    and id2: "ident = (latin1 s @ SeparatorCharacter # latin1 h) @ SeparatorCharacter # ?ds"
    by (simp_all add: ident_def databaseIdentifier_def o1)
  have b: "?n \<le> 0xFFFF" using unsigned_less [of "so_port o1", where 'a = nat] by simp
  have dl: "length ?ds < 2 ^ 30" using decimal_length [of ?n] b by simp
  have sep: "SeparatorCharacter \<notin> set (latin1 s)"
  proof
    assume "SeparatorCharacter \<in> set (latin1 s)"
    then obtain c where c: "c \<in> set s" "(ucast c :: uchar) = ucast (ch CHR ''_'' :: byte)"
      by (auto simp: latin1_def SeparatorCharacter_def)
    from c(2) have "c = ch CHR ''_''" by (simp only: ucast_byte_eq)
    with c(1) o1(3) show False by (auto simp: scheme_ok_def class_iffs class_docs)
  qed
  have dg: "SeparatorCharacter \<notin> set ?ds" "\<forall>c\<in>set ?ds. isASCIIDigit c" "?ds \<noteq> []"
    using decimal_digits [of ?n] decimal_nonempty [of ?n] by (auto simp: SeparatorCharacter_def isASCIIDigit_def)
  have f1: "find_char ident SeparatorCharacter 0 = int (length s)"
    using find_char_append [OF sep, of 0 "[]"] unfolding id1 by simp
  have f2: "reverseFind_char ident SeparatorCharacter (-1) = int (length s + 1 + length h)"
    using reverseFind_last [OF dg(1), of "latin1 s @ SeparatorCharacter # latin1 h"] unfolding id2 by simp
  have l: "length ident - (length s + 1 + length h) - 1 = length ?ds" by (simp add: id1)
  have rt: "right ident (length ?ds) = ?ds"
    using len dl by (subst right_eq_drop) (simp_all add: id1)
  obtain w where w: "charactersToInt (lib_peer L) ?ds = (w, True)" "sint w = int ?n" "unat w = ?n"
  proof
    show "charactersToInt (lib_peer L) ?ds = (of_nat ?n, True)"
      using charactersToInt_digits [OF dg(3,2)] b by (simp add: number_value_decimal)
    show "sint (of_nat ?n :: u32) = int ?n" "unat (of_nat ?n :: u32) = ?n"
      using u32_sint_of_nat [of ?n] b by (simp_all add: unat_of_nat)
  qed
  have sub: "substring ident 0 (length s) = latin1 s"
    "substring ident (length s + 1) (length s + 1 + length h - length s - 1) = latin1 h"
    by (simp_all add: substring_eq_take_drop id1)
  have bp: "latin1 s @ lit ''://'' @ latin1 h @ ch CHR '':'' # ?ds = latin1 (before_path (origin_parts s h (Some (copyASCII ?ds))))"
    using decimal_bytes [of ?n] by (simp add: origin_text)
  have ne: "int (length s) \<noteq> -1" "int (length s + 1 + length h) \<noteq> -1" "int (length s) \<noteq> int (length s + 1 + length h)"
    "\<not> (int ?n < 0 \<or> int ?n > 65535)" using b by (simp_all del: of_nat_unat)
  have "createFromDatabaseIdentifier L R ident = SecurityOrigin_create L R
      (KURL_relative L emptyKURL (latin1 (before_path (origin_parts s h (Some (copyASCII ?ds))))))"
    unfolding createFromDatabaseIdentifier_def Let_def f1 f2 nat_int l rt w prod.case sub bp using ne
    by (simp only: if_False simp_thms)
  then show ?thesis using named_origin_url [OF n, of "Some (copyASCII ?ds)" L R] by (simp add: ident_def)
qed

theorem database_identifier_roundtrip_witness:
  "isSameSchemeHostPort (createFromDatabaseIdentifier ascii_library resetVariables (databaseIdentifier example_origin)) example_origin"
  by (rule database_identifier_roundtrip [of _ "lit ''http''" "lit ''a.b''"], unfold ascii_library_def url_library.simps)
    (rule example_origin_named, simp)

section \<open>Who may access whom\<close>

definition isolated :: "security_origin \<Rightarrow> bool" where
  "isolated o1 \<longleftrightarrow> so_noAccess o1 \<or> isSandboxed o1 SandboxOrigin"

text \<open>What identifies an origin to scripts: the domain a page chose, or host and port.\<close>

definition access_key :: "security_origin \<Rightarrow> ustring \<times> (ustring \<times> u16 + ustring)" where
  "access_key o1 = (so_protocol o1,
     if so_domainWasSetInDOM o1 then Inr (so_domain o1) else Inl (so_host o1, so_port o1))"










lemma SecurityOrigin_equal_key:
  "SecurityOrigin_equal o1 o2 \<longleftrightarrow> isSameSchemeHostPort o1 o2 \<and> access_key o1 = access_key o2"
  by (auto simp: SecurityOrigin_equal_def isSameSchemeHostPort_def access_key_def)

lemma threadsafeCopy_same: "SecurityOrigin_threadsafeCopy o1 = o1"
  by (simp add: SecurityOrigin_threadsafeCopy_def)

section \<open>White lists\<close>

lemma endsWith_iff:
  assumes "length s < 2 ^ 31"
  shows "endsWith U s t \<longleftrightarrow> (\<exists>p. s = p @ t)"
proof (cases "length t \<le> length s")
  case True
  let ?i = "length s - length t"
  have i: "int (length s) - int (length t) = int ?i" using True by simp
  have occ: "occurs_at s t ?i \<longleftrightarrow> drop ?i s = t"
    using True by (simp add: occurs_at_def)
  have late: "\<not> occurs_at s t j" if "?i < j" for j using that True by (auto simp: occurs_at_def)
  have "find_string U s t (int ?i) True = int ?i \<longleftrightarrow> occurs_at s t ?i"
  proof -
    have "int ?i < 2 ^ 31" using assms by simp
    from find_string_spec [OF _ this assms, of U t]
    consider "find_string U s t (int ?i) True = -1" "\<forall>j\<ge>?i. \<not> occurs_at s t j"
      | k where "find_string U s t (int ?i) True = int k" "?i \<le> k" "occurs_at s t k" by auto
    then show ?thesis
    proof cases
      case (2 k)
      then have "k = ?i" using late [of k] by force
      with 2 show ?thesis by simp
    qed auto
  qed
  moreover have "drop ?i s = t \<longleftrightarrow> (\<exists>p. s = p @ t)"
    by (auto simp: append_eq_conv_conj) (metis append_take_drop_id)
  ultimately show ?thesis unfolding endsWith_def Let_def i occ by simp
next
  case False
  then show ?thesis by (auto simp: endsWith_def)
qed

lemma dotted_suffix:
  "length t < length s \<and> String_at s (length s - length t - 1) = c \<and> (\<exists>p. s = p @ t) \<longleftrightarrow> (\<exists>p. s = p @ c # t)"
proof
  assume *: "length t < length s \<and> String_at s (length s - length t - 1) = c \<and> (\<exists>p. s = p @ t)"
  then obtain p where p: "s = p @ t" by blast
  with * have "p \<noteq> []" by auto
  moreover from this have "last p = c"
    using * p by (cases p rule: rev_cases) (auto simp: String_at_def nth_append split: if_splits)
  ultimately show "\<exists>p. s = p @ c # t" using p by (metis append_butlast_last_id append.assoc append_Cons append_Nil)
next
  assume "\<exists>p. s = p @ c # t"
  then obtain p where "s = p @ c # t" by blast
  then show "length t < length s \<and> String_at s (length s - length t - 1) = c \<and> (\<exists>p. s = p @ t)"
    by (auto simp: nth_append String_at_def intro: exI [of _ "p @ [c]"])
qed

text \<open>An entry covers its host, and with subdomains every host that ends with a dot and its host.\<close>

theorem matchesOrigin_iff:
  assumes "length (so_host o1) < 2 ^ 31"
  shows "matchesOrigin U e o1 = (oa_protocol e = so_protocol o1
    \<and> (so_host o1 = oa_host e
       \<or> (oa_subdomainSettings e = AllowSubdomains
          \<and> (oa_host e = [] \<or> (oa_hostIsIPAddress e = False \<and> (\<exists>p. so_host o1 = p @ ch CHR ''.'' # oa_host e))))))"
  using dotted_suffix [of "oa_host e" "so_host o1" "ch CHR ''.''"] assms
  by (cases "oa_subdomainSettings e") (auto simp: matchesOrigin_def endsWith_iff)

theorem matchesOrigin_iff_witness:
  "matchesOrigin ascii_peer (OriginAccessEntry_new ascii_peer (lit ''http'') (lit ''b.c'') AllowSubdomains)
     \<lparr>so_protocol = lit ''http'', so_host = lit ''a.b.c'', so_domain = [], so_port = 0, so_sandboxFlags = 0,
      so_noAccess = False, so_universalAccess = False, so_domainWasSetInDOM = False, so_canLoadLocalResources = False\<rparr>"
proof -
  have l: "lower ascii_peer (lit ''http'') = lit ''http''" "lower ascii_peer (lit ''b.c'') = lit ''b.c''"
    by code_simp+
  have "\<exists>p. lit ''a.b.c'' = p @ ch CHR ''.'' # lit ''b.c''" by (rule exI [of _ "lit ''a''"]) simp
  then show ?thesis
    unfolding OriginAccessEntry_new_def Let_def l by (subst matchesOrigin_iff) (simp_all add: isASCIIDigit_def)
qed

text \<open>The tables that a URL's origin depends on are not those a white list entry changes.\<close>

lemma tables_accessMap [simp]:
  "localSchemes (R\<lparr>or_accessMap := m\<rparr>) = localSchemes R"
  "noAccessSchemes (R\<lparr>or_accessMap := m\<rparr>) = noAccessSchemes R"
  by (simp_all add: localSchemes_def noAccessSchemes_def)

lemma create_accessMap [simp]: "SecurityOrigin_create L (R\<lparr>or_accessMap := m\<rparr>) url = SecurityOrigin_create L R url"
  unfolding SecurityOrigin_create_def SecurityOrigin_new_def shouldTreatURLSchemeAsNoAccess_def
    shouldTreatURLSchemeAsLocal_def tables_accessMap ..

text \<open>C25: Adding an entry to the white list of a source grants the origins whose string is the source's exactly
  the targets the entry covers, and changes nothing for any other origin or target.\<close>

theorem whiteList_grants_exactly:
  fixes L :: url_library and R :: origin_registry and prot domain :: ustring and subdomains :: bool and url :: KURL
  assumes "\<not> SecurityOrigin_isEmpty source"
  defines "R' \<equiv> whiteListAccessFromOrigin (lib_peer L) source prot domain subdomains R"
    and "entry \<equiv> OriginAccessEntry_new (lib_peer L) prot domain (if subdomains then AllowSubdomains else DisallowSubdomains)"
    and "target \<equiv> SecurityOrigin_create L R url"
  shows "canRequest L R' o1 url = (canRequest L R o1 url
    \<or> (SecurityOrigin_toString o1 = SecurityOrigin_toString source \<and> \<not> isolated o1 \<and> \<not> so_noAccess target
       \<and> matchesOrigin (lib_peer L) entry target))"
proof -
  have R': "or_accessMap R' = AList.update (SecurityOrigin_toString source)
      ((case map_of (or_accessMap R) (SecurityOrigin_toString source) of None \<Rightarrow> [] | Some l \<Rightarrow> l) @ [entry]) (or_accessMap R)"
    "SecurityOrigin_create L R' url = target"
    using assms(1) by (simp_all add: R'_def whiteListAccessFromOrigin_def Let_def entry_def target_def)
  show ?thesis
    unfolding canRequest_def R' target_def [symmetric] Let_def
    by (auto simp: update_conv' isolated_def split: option.splits)
qed

theorem whiteList_grants_exactly_witness:
  "canRequest ascii_library (whiteListAccessFromOrigin ascii_peer example_origin (lit ''https'') (lit ''c.d'') True resetVariables)
     example_origin (parse (lit ''https://x.c.d/'') None)"
proof -
  have "\<not> SecurityOrigin_isEmpty example_origin" "\<not> isolated example_origin"
    "\<not> so_noAccess (SecurityOrigin_create ascii_library resetVariables (parse (lit ''https://x.c.d/'') None))"
    "matchesOrigin ascii_peer (OriginAccessEntry_new ascii_peer (lit ''https'') (lit ''c.d'') AllowSubdomains)
       (SecurityOrigin_create ascii_library resetVariables (parse (lit ''https://x.c.d/'') None))"
    "lib_peer ascii_library = ascii_peer"
    by code_simp+
  then show ?thesis
    using whiteList_grants_exactly [where source = example_origin and L = ascii_library and prot = "lit ''https''"
        and domain = "lit ''c.d''" and subdomains = True and R = resetVariables and url = "parse (lit ''https://x.c.d/'') None"
        and ?o1.0 = example_origin]
    by (simp del: lit_Cons)
qed

text \<open>Two origins that may not access each other are written as the same string: "%3A" in a host
  decodes to a colon.
\<close>

theorem origin_strings_collide:
  "(let o1 = SecurityOrigin_create ascii_library resetVariables (parse (lit ''http://a%3A81/'') None);
        o2 = SecurityOrigin_create ascii_library resetVariables (parse (lit ''http://a:81/'') None)
    in SecurityOrigin_toString o1 = lit ''http://a:81'' \<and> SecurityOrigin_toString o2 = lit ''http://a:81''
       \<and> \<not> canAccess o1 o2 \<and> \<not> isSameSchemeHostPort o1 o2)"
  by code_simp

end
