(* ===== verification/HTTPParsers.thy ===== *)
theory HTTPParsers
  imports StringSplit StringNumber
begin

text \<open>
  The parsers of HTTP header fields: src/webkit/WebCore/platform/network/HTTPParsers.cpp. A null
  string is \<open>None\<close> where the code returns one. \<open>toDouble\<close>, the conversion with \<open>strtod\<close>, is a
  parameter: it gives a number and whether the whole text was one.
\<close>

section \<open>Refresh\<close>

text \<open>\<open>skipWhiteSpace\<close> moves the position and tells whether there is more to parse.\<close>

definition skipWhiteSpace :: "ustring \<Rightarrow> nat \<Rightarrow> bool \<Rightarrow> nat" where
  "skipWhiteSpace str pos fromHttpEquivMeta =
     (if fromHttpEquivMeta then scan_while (\<lambda>c. c \<le> ch CHR '' '') str pos
      else scan_while (\<lambda>c. c = 9 \<or> c = ch CHR '' '') str pos)"

text \<open>
  \<open>while (urlEndPos > urlStartPos) { urlEndPos--; if (refresh[urlEndPos] == quotationMark) break; }\<close>
\<close>

fun closing_quote :: "ustring \<Rightarrow> uchar \<Rightarrow> nat \<Rightarrow> nat \<Rightarrow> nat" where
  "closing_quote refresh quotationMark urlStartPos urlEndPos =
     (if urlEndPos > urlStartPos
      then if String_at refresh (urlEndPos - 1) = quotationMark then urlEndPos - 1
           else closing_quote refresh quotationMark urlStartPos (urlEndPos - 1)
      else urlEndPos)"

declare closing_quote.simps [simp del]

text \<open>Where the URL starts after the separator, and its text from there on.\<close>

definition refresh_url_start :: "unicode_peer \<Rightarrow> ustring \<Rightarrow> nat \<Rightarrow> bool \<Rightarrow> nat" where
  "refresh_url_start U refresh pos fromHttpEquivMeta =
     (if find_cstr U refresh (lit ''url'') (int pos) False = int pos
      then let u1 = skipWhiteSpace refresh (pos + 3) fromHttpEquivMeta
           in if String_at refresh u1 = ch CHR ''='' then skipWhiteSpace refresh (u1 + 1) fromHttpEquivMeta
              else pos
      else pos)"

definition refresh_url :: "unicode_peer \<Rightarrow> ustring \<Rightarrow> nat \<Rightarrow> ustring" where
  "refresh_url U refresh urlStartPos =
     (let len = length refresh;
          q = String_at refresh urlStartPos;
          (s, e) = (if q = 34 \<or> q = 39
                    then let e1 = closing_quote refresh q (urlStartPos + 1) len
                         in (urlStartPos + 1, if e1 = urlStartPos + 1 then len else e1)
                    else (urlStartPos, len))
      in stripWhiteSpace U (substring refresh s (to_unsigned (int e - int s))))"

text \<open>The two reference arguments are passed in and out.\<close>

definition parseHTTPRefresh ::
  "unicode_peer \<Rightarrow> (ustring \<Rightarrow> 'd \<times> bool) \<Rightarrow> ustring \<Rightarrow> bool \<Rightarrow> 'd \<Rightarrow> ustring option
   \<Rightarrow> bool \<times> 'd \<times> ustring option" where
  "parseHTTPRefresh U toDouble refresh fromHttpEquivMeta delay url =
     (let len = length refresh;
          pos0 = skipWhiteSpace refresh 0 fromHttpEquivMeta
      in if pos0 = len then (False, delay, url)
         else let pos = scan_while (\<lambda>c. c \<noteq> ch CHR '','' \<and> c \<noteq> ch CHR '';'') refresh pos0
              in if pos = len
                 then let (d, ok) = toDouble (stripWhiteSpace U refresh) in (ok, d, None)
                 else let (d, ok) = toDouble (stripWhiteSpace U (left refresh pos))
                      in if \<not> ok then (False, d, url)
                         else let pos1 = skipWhiteSpace refresh (pos + 1) fromHttpEquivMeta
                              in (True, d, Some (refresh_url U refresh
                                    (refresh_url_start U refresh pos1 fromHttpEquivMeta))))"

section \<open>Content-Disposition\<close>

fun filename_loop :: "unicode_peer \<Rightarrow> ustring list \<Rightarrow> ustring option" where
  "filename_loop U [] = None"
| "filename_loop U (pair # pairs) =
     (let valueStartPos = find_char pair (ch CHR ''='') 0
      in if valueStartPos < 0 then filename_loop U pairs
         else let key = stripWhiteSpace U (left pair (nat valueStartPos))
              in if key = [] \<or> \<not> equalCStr key (lit ''filename'') then filename_loop U pairs
                 else let value = stripWhiteSpace U (substring pair (nat valueStartPos + 1) UINT_MAX)
                      in Some (if String_at value 0 = 34
                               then substring value 1 (to_unsigned (int (length value) - 2))
                               else value))"

text \<open>The outer option is the split, which returns for this separator.\<close>

definition filenameFromHTTPContentDisposition :: "unicode_peer \<Rightarrow> ustring \<Rightarrow> ustring option option" where
  "filenameFromHTTPContentDisposition U value =
     map_option (filename_loop U) (String_split_uchar U value (ch CHR '';''))"

section \<open>Content-Type\<close>

fun mime_loop :: "unicode_peer \<Rightarrow> ustring \<Rightarrow> ustring \<Rightarrow> ustring" where
  "mime_loop U [] mimeType = mimeType"
| "mime_loop U (c # cs) mimeType =
     (if c = ch CHR '';'' then mimeType
      else if c = ch CHR '','' then mimeType
      else if isSpaceOrNewline U c then mime_loop U cs mimeType
      else mime_loop U cs (mimeType @ [c]))"

definition extractMIMETypeFromMediaType :: "unicode_peer \<Rightarrow> ustring \<Rightarrow> ustring" where
  "extractMIMETypeFromMediaType U mediaType =
     (let mimeType = mime_loop U mediaType []
      in if length mimeType = length mediaType then mediaType else mimeType)"

text \<open>The search moves on, so the charset loop ends.\<close>

lemma find_charset_ge: "\<not> find_cstr U s (lit ''charset'') (int i) cs \<le> 0 \<Longrightarrow>
    i \<le> nat (find_cstr U s (lit ''charset'') (int i) cs)"
  using find_cstr_spec [of "lit ''charset''" U s i cs] by auto

function charset_loop :: "unicode_peer \<Rightarrow> ustring \<Rightarrow> nat \<Rightarrow> ustring option" where
  "charset_loop U mediaType pos =
     (if pos < length mediaType
      then case find_cstr U mediaType (lit ''charset'') (int pos) False of
             f \<Rightarrow> if f \<le> 0 then None
                  else if String_at mediaType (nat f - 1) > ch CHR '' '' \<and> String_at mediaType (nat f - 1) \<noteq> ch CHR '';''
                  then charset_loop U mediaType (nat f + 7)
                  else case scan_while (\<lambda>c. c \<le> ch CHR '' '') mediaType (nat f + 7) of
                         p1 \<Rightarrow> if String_at mediaType p1 \<noteq> ch CHR ''='' then charset_loop U mediaType (p1 + 1)
                               else let p2 = scan_while (\<lambda>c. c \<le> ch CHR '' '' \<or> c = 34 \<or> c = 39) mediaType (p1 + 1);
                                        endpos = scan_while (\<lambda>c. c > ch CHR '' '' \<and> c \<noteq> 34 \<and> c \<noteq> 39 \<and> c \<noteq> ch CHR '';'')
                                                   mediaType p2
                                    in Some (substring mediaType p2 (endpos - p2))
      else None)"
  by pat_completeness auto
termination
proof (relation "measure (\<lambda>(U, s, pos). length s - pos)", goal_cases)
  case (2 U s pos)
  then show ?case using find_charset_ge [of U s pos False] by auto
next
  case (3 U s pos)
  let ?f = "nat (find_cstr U s (lit ''charset'') (int pos) False)"
  have "pos \<le> ?f" using 3 find_charset_ge [of U s pos False] by blast
  moreover have "?f + 7 \<le> scan_while (\<lambda>c. c \<le> ch CHR '' '') s (?f + 7)" by (rule scan_while_ge)
  ultimately have "pos < scan_while (\<lambda>c. c \<le> ch CHR '' '') s (?f + 7) + 1" by linarith
  with 3(1) show ?case by simp
qed simp

declare charset_loop.simps [simp del]

definition extractCharsetFromMediaType :: "unicode_peer \<Rightarrow> ustring \<Rightarrow> ustring option" where
  "extractCharsetFromMediaType U mediaType = charset_loop U mediaType 0"

end
