(* ===== verification/CrossOrigin.thy ===== *)
theory CrossOrigin
  imports SecurityOriginFacts HTTPParsers Complex_Main
begin

text \<open>
  Cross-origin requests: src/webkit/WebCore/loader/CrossOriginAccessControl.cpp and
  CrossOriginPreflightResultCache.cpp. Header maps fold the case of their names; the times are
  real numbers of seconds (the code's doubles, without their rounding), and the current time is
  an argument.
\<close>

type_synonym header_map = "(ustring \<times> ustring) list"

text \<open>\<open>httpHeaderField\<close>: a missing field is the null string, which the code here treats as empty.\<close>

definition httpHeaderField :: "unicode_peer \<Rightarrow> header_map \<Rightarrow> byte list \<Rightarrow> ustring" where
  "httpHeaderField U headers name =
     (case List.find (\<lambda>(k, _). equalIgnoringCase U k (latin1 name)) headers of
        None \<Rightarrow> [] | Some (_, v) \<Rightarrow> v)"

section \<open>Simple requests\<close>

definition isOnAccessControlSimpleRequestMethodWhitelist :: "ustring \<Rightarrow> bool" where
  "isOnAccessControlSimpleRequestMethodWhitelist method \<longleftrightarrow>
     equalCStr method (lit ''GET'') \<or> equalCStr method (lit ''HEAD'') \<or> equalCStr method (lit ''POST'')"

definition isOnAccessControlSimpleRequestHeaderWhitelist :: "unicode_peer \<Rightarrow> ustring \<Rightarrow> ustring \<Rightarrow> bool" where
  "isOnAccessControlSimpleRequestHeaderWhitelist U name value =
     (if equalIgnoringCaseCStr U name (lit ''accept'') \<or> equalIgnoringCaseCStr U name (lit ''accept-language'')
         \<or> equalIgnoringCaseCStr U name (lit ''content-language'')
      then True
      else if equalIgnoringCaseCStr U name (lit ''content-type'')
      then let mimeType = extractMIMETypeFromMediaType U value
           in equalIgnoringCaseCStr U mimeType (lit ''application/x-www-form-urlencoded'')
              \<or> equalIgnoringCaseCStr U mimeType (lit ''multipart/form-data'')
              \<or> equalIgnoringCaseCStr U mimeType (lit ''text/plain'')
      else False)"

definition isSimpleCrossOriginAccessRequest :: "unicode_peer \<Rightarrow> ustring \<Rightarrow> header_map \<Rightarrow> bool" where
  "isSimpleCrossOriginAccessRequest U method headerMap =
     (if \<not> isOnAccessControlSimpleRequestMethodWhitelist method then False
      else list_all (\<lambda>(k, v). isOnAccessControlSimpleRequestHeaderWhitelist U k v) headerMap)"

definition allowedCrossOriginResponseHeaders :: "ustring list" where
  "allowedCrossOriginResponseHeaders = [lit ''cache-control'', lit ''content-language'', lit ''content-type'',
     lit ''expires'', lit ''last-modified'', lit ''pragma'']"

definition isOnAccessControlResponseHeaderWhitelist :: "unicode_peer \<Rightarrow> ustring \<Rightarrow> bool" where
  "isOnAccessControlResponseHeaderWhitelist U name \<longleftrightarrow> folding_contains U allowedCrossOriginResponseHeaders name"

section \<open>The access check of a response\<close>

definition passesAccessControlCheck ::
  "url_library \<Rightarrow> origin_registry \<Rightarrow> header_map \<Rightarrow> bool \<Rightarrow> security_origin \<Rightarrow> bool" where
  "passesAccessControlCheck L R response includeCredentials o1 =
     (let U = lib_peer L;
          accessControlOriginString = httpHeaderField U response (lit ''Access-Control-Allow-Origin'')
      in if equalCStr accessControlOriginString (lit ''*'') \<and> \<not> includeCredentials then True
         else if isSandboxed o1 SandboxOrigin then False
         else let accessControlOrigin = createFromString L R accessControlOriginString
              in if \<not> isSameSchemeHostPort accessControlOrigin o1 then False
                 else if includeCredentials
                         \<and> \<not> equalCStr (httpHeaderField U response (lit ''Access-Control-Allow-Credentials'')) (lit ''true'')
                 then False
                 else True)"

section \<open>The answer to a preflight\<close>

definition defaultPreflightCacheTimeoutSeconds :: u32 where
  "defaultPreflightCacheTimeoutSeconds = 5"

definition maxPreflightCacheTimeoutSeconds :: u32 where
  "maxPreflightCacheTimeoutSeconds = 600"

definition parseAccessControlMaxAge :: "unicode_peer \<Rightarrow> ustring \<Rightarrow> u32 \<times> bool" where
  "parseAccessControlMaxAge U s = charactersToUIntStrict U s"

text \<open>
  A hash set is the list of its members; \<open>same\<close> is the equality of its hash: exact for methods,
  case folding for headers.
\<close>

definition hash_add :: "(ustring \<Rightarrow> ustring \<Rightarrow> bool) \<Rightarrow> ustring \<Rightarrow> ustring list \<Rightarrow> ustring list" where
  "hash_add same x xs = (if list_ex (same x) xs then xs else xs @ [x])"

definition addToAccessControlAllowList ::
  "unicode_peer \<Rightarrow> (ustring \<Rightarrow> ustring \<Rightarrow> bool) \<Rightarrow> ustring \<Rightarrow> nat \<Rightarrow> nat \<Rightarrow> ustring list \<Rightarrow> ustring list" where
  "addToAccessControlAllowList U same s start end xs =
     (let start' = scan_while (isSpaceOrNewline U) (take (end + 1) s) start
      in if start' > end then xs
         else let end' = skip_back (isSpaceOrNewline U) s end
              in hash_add same (substring s start' (end' - start' + 1)) xs)"

function allow_list_loop ::
  "unicode_peer \<Rightarrow> (ustring \<Rightarrow> ustring \<Rightarrow> bool) \<Rightarrow> ustring \<Rightarrow> nat \<Rightarrow> ustring list \<Rightarrow> bool \<times> ustring list" where
  "allow_list_loop U same s start xs =
     (if find_char s (ch CHR '','') (int start) \<noteq> -1
      then if int start = find_char s (ch CHR '','') (int start) then (False, xs)
           else allow_list_loop U same s (nat (find_char s (ch CHR '','') (int start)) + 1)
                  (addToAccessControlAllowList U same s start (nat (find_char s (ch CHR '','') (int start)) - 1) xs)
      else (True, if start \<noteq> length s then addToAccessControlAllowList U same s start (length s - 1) xs else xs))"
  by pat_completeness auto
termination
proof (relation "measure (\<lambda>(U, same, s, start, xs). length s + 1 - start)", goal_cases)
  case (2 U same s start xs)
  then show ?case using find_char_range [of "int start" s "ch CHR '',''"] by auto
qed simp

declare allow_list_loop.simps [simp del]

definition parseAccessControlAllowList ::
  "unicode_peer \<Rightarrow> (ustring \<Rightarrow> ustring \<Rightarrow> bool) \<Rightarrow> ustring \<Rightarrow> ustring list \<Rightarrow> bool \<times> ustring list" where
  "parseAccessControlAllowList U same s xs = allow_list_loop U same s 0 xs"

record preflight_item =
  pi_absoluteExpiryTime :: real
  pi_credentials :: bool
  pi_methods :: "ustring list"
  pi_headers :: "ustring list"

definition preflight_item_new :: "bool \<Rightarrow> preflight_item" where
  "preflight_item_new credentials =
     \<lparr>pi_absoluteExpiryTime = 0, pi_credentials = credentials, pi_methods = [], pi_headers = []\<rparr>"

definition preflight_parse :: "unicode_peer \<Rightarrow> real \<Rightarrow> header_map \<Rightarrow> preflight_item \<Rightarrow> bool \<times> preflight_item" where
  "preflight_parse U currentTime response item =
     (let (ok1, methods) = parseAccessControlAllowList U (=) (httpHeaderField U response (lit ''Access-Control-Allow-Methods'')) [];
          item1 = item\<lparr>pi_methods := methods\<rparr>
      in if \<not> ok1 then (False, item1)
         else let (ok2, headers) = parseAccessControlAllowList U (equalIgnoringCase U)
                                     (httpHeaderField U response (lit ''Access-Control-Allow-Headers'')) [];
                  item2 = item1\<lparr>pi_headers := headers\<rparr>
              in if \<not> ok2 then (False, item2)
                 else let (parsedDelta, ok3) = parseAccessControlMaxAge U (httpHeaderField U response (lit ''Access-Control-Max-Age''));
                          expiryDelta = (if ok3
                                         then if parsedDelta > maxPreflightCacheTimeoutSeconds
                                              then maxPreflightCacheTimeoutSeconds else parsedDelta
                                         else defaultPreflightCacheTimeoutSeconds)
                      in (True, item2\<lparr>pi_absoluteExpiryTime := currentTime + real (unat expiryDelta)\<rparr>))"

definition allowsCrossOriginMethod :: "preflight_item \<Rightarrow> ustring \<Rightarrow> bool" where
  "allowsCrossOriginMethod item method \<longleftrightarrow>
     method \<in> set (pi_methods item) \<or> isOnAccessControlSimpleRequestMethodWhitelist method"

definition allowsCrossOriginHeaders :: "unicode_peer \<Rightarrow> preflight_item \<Rightarrow> header_map \<Rightarrow> bool" where
  "allowsCrossOriginHeaders U item requestHeaders =
     list_all (\<lambda>(k, v). folding_contains U (pi_headers item) k \<or> isOnAccessControlSimpleRequestHeaderWhitelist U k v)
       requestHeaders"

definition allowsRequest :: "unicode_peer \<Rightarrow> real \<Rightarrow> preflight_item \<Rightarrow> bool \<Rightarrow> ustring \<Rightarrow> header_map \<Rightarrow> bool" where
  "allowsRequest U currentTime item includeCredentials method requestHeaders =
     (if pi_absoluteExpiryTime item < currentTime then False
      else if includeCredentials \<and> \<not> pi_credentials item then False
      else if \<not> allowsCrossOriginMethod item method then False
      else if \<not> allowsCrossOriginHeaders U item requestHeaders then False
      else True)"

section \<open>The cache\<close>

text \<open>The key is a pair of the origin's string and the URL, compared by its string.\<close>

type_synonym preflight_cache = "((ustring \<times> ustring) \<times> preflight_item) list"

definition cache_appendEntry :: "ustring \<Rightarrow> KURL \<Rightarrow> preflight_item \<Rightarrow> preflight_cache \<Rightarrow> preflight_cache" where
  "cache_appendEntry origin url item cache = AList.update (origin, m_string url) item cache"

definition canSkipPreflight ::
  "unicode_peer \<Rightarrow> real \<Rightarrow> ustring \<Rightarrow> KURL \<Rightarrow> bool \<Rightarrow> ustring \<Rightarrow> header_map \<Rightarrow> preflight_cache \<Rightarrow> bool \<times> preflight_cache" where
  "canSkipPreflight U currentTime origin url includeCredentials method requestHeaders cache =
     (case map_of cache (origin, m_string url) of
        None \<Rightarrow> (False, cache)
      | Some item \<Rightarrow>
          if allowsRequest U currentTime item includeCredentials method requestHeaders then (True, cache)
          else (False, AList.delete (origin, m_string url) cache))"

definition cache_empty :: "preflight_cache \<Rightarrow> preflight_cache" where
  "cache_empty cache = []"

end
