(* ===== verification/HTTPParsersFacts.thy ===== *)
theory HTTPParsersFacts
  imports HTTPParsers
begin

text \<open>
  What the header parsers return: the fields between separators, the media type without white
  space, the quoted file name, and the inputs they get wrong.
\<close>

section \<open>Fields between separators\<close>

fun fields :: "uchar \<Rightarrow> ustring \<Rightarrow> ustring list" where
  "fields c [] = [[]]"
| "fields c (x # s) = (if x = c then [] # fields c s else (x # hd (fields c s)) # tl (fields c s))"

lemma fields_nonempty [simp]: "fields c s \<noteq> []"
  by (induction s) auto

lemma fields_prefix: "c \<notin> set q \<Longrightarrow> fields c (q @ t) = (q @ hd (fields c t)) # tl (fields c t)"
  by (induction q) auto

lemma fields_first [simp]: "c \<notin> set q \<Longrightarrow> fields c (q @ c # t) = q # fields c t"
  by (simp add: fields_prefix)

lemma fields_last [simp]: "c \<notin> set q \<Longrightarrow> fields c q = [q]"
  using fields_prefix [of c q "[]"] by simp

lemma join_fields: "ps \<noteq> [] \<Longrightarrow> \<forall>q\<in>set ps. c \<notin> set q \<Longrightarrow> fields c (join [c] ps) = ps"
proof (induction ps)
  case (Cons p ps)
  then show ?case by (cases ps) simp_all
qed simp

lemma occurs_single: "(\<forall>j. \<not> occurs_at q [c] j) \<longleftrightarrow> c \<notin> set q"
proof
  assume *: "\<forall>j. \<not> occurs_at q [c] j"
  show "c \<notin> set q"
  proof
    assume "c \<in> set q"
    then obtain j where "j < length q" "q ! j = c" by (auto simp: in_set_conv_nth)
    then have "occurs_at q [c] j" by (simp add: occurs_at_def take_Suc_conv_app_nth)
    with * show False by blast
  qed
next
  assume "c \<notin> set q"
  then show "\<forall>j. \<not> occurs_at q [c] j" by (auto simp: occurs_at_def take_Suc_conv_app_nth)
qed

lemma split_uchar_fields:
  "length s < 2 ^ 31 \<Longrightarrow> String_split_uchar U s c = Some (filter (\<lambda>q. q \<noteq> []) (fields c s))"
proof -
  assume l: "length s < 2 ^ 31"
  from str.split_returns [OF l, of "[c]" 0 U "[]" "[]"] obtain ps where ps: "ps \<noteq> []" "join [c] ps = s"
      "\<forall>q\<in>set ps. c \<notin> set q" "String_split_uchar U s c = Some (filter (\<lambda>q. q \<noteq> []) ps)"
    by (auto simp: String_split_uchar_def String_split_def occurs_single)
  from join_fields [OF ps(1,3)] have "ps = fields c s" unfolding ps(2) by simp
  with ps(4) show ?thesis by simp
qed

section \<open>Media types\<close>

lemma mime_loop_filter:
  "mime_loop U s acc = acc @ filter (\<lambda>c. \<not> isSpaceOrNewline U c) (takeWhile (\<lambda>c. c \<noteq> ch CHR '';'' \<and> c \<noteq> ch CHR '','') s)"
  by (induction U s acc rule: mime_loop.induct) auto

lemma length_takeWhile_filter:
  "length (filter Q (takeWhile P s)) = length s \<Longrightarrow> filter Q (takeWhile P s) = s"
  by (induction s) (auto split: if_splits, metis Suc_n_not_le_n length_filter_le length_takeWhile_le order_trans)

text \<open>The media type is the text up to the first semicolon or comma without its white space.\<close>

theorem extractMIMETypeFromMediaType_eq:
  "extractMIMETypeFromMediaType U s =
     filter (\<lambda>c. \<not> isSpaceOrNewline U c) (takeWhile (\<lambda>c. c \<noteq> ch CHR '';'' \<and> c \<noteq> ch CHR '','') s)"
  using length_takeWhile_filter [of "\<lambda>c. \<not> isSpaceOrNewline U c" "\<lambda>c. c \<noteq> ch CHR '';'' \<and> c \<noteq> ch CHR '',''" s]
  by (auto simp: extractMIMETypeFromMediaType_def mime_loop_filter Let_def)

section \<open>File names\<close>

lemma quote_not_space [simp]: "\<not> isSpaceOrNewline U 34" "\<not> isSpaceOrNewline U 102" "\<not> isSpaceOrNewline U 101"
  "isSpaceOrNewline U 32"
  by (simp_all add: isSpaceOrNewline_def isASCIISpace_def)

lemma filename_loop_quoted:
  assumes "length n < 2 ^ 31"
  shows "filename_loop U ((lit '' filename='' @ 34 # n @ [34]) # rest) = Some n"
proof -
  let ?p = "lit '' filename='' @ 34 # n @ [34]"
  have f: "find_char ?p (ch CHR ''='') 0 = 9"
    by (simp add: find_char_def)
  have k: "stripWhiteSpace U (left ?p (nat 9)) = lit ''filename''"
    unfolding stripWhiteSpace_trims by simp
  have v: "stripWhiteSpace U (substring ?p (nat 9 + 1) UINT_MAX) = 34 # n @ [34]"
    using assms unfolding stripWhiteSpace_trims by (simp add: substring_eq_take_drop UINT_MAX_def)
  have c: "equalCStr (lit ''filename'') (lit ''filename'')" by (simp add: equalCStr_iff)
  have t: "to_unsigned (int (length (34 # n @ [34])) - 2) = length n" using assms by simp
  show ?thesis
    unfolding filename_loop.simps Let_def f k v t using c
    by (simp add: substring_eq_take_drop String_at_def)
qed

text \<open>A quoted file name after any disposition type without "=" is returned as it stands between
  the quotes.
\<close>

theorem filename_between_quotes:
  assumes "ch CHR '';'' \<notin> set t" "ch CHR ''='' \<notin> set t" "ch CHR '';'' \<notin> set n" "length t + length n < 2 ^ 30"
  shows "filenameFromHTTPContentDisposition U (t @ lit ''; filename='' @ 34 # n @ [34]) = Some (Some n)"
proof -
  let ?p = "lit '' filename='' @ 34 # n @ [34]"
  have s: "t @ lit ''; filename='' @ 34 # n @ [34] = t @ ch CHR '';'' # ?p" by simp
  have "ch CHR '';'' \<notin> set ?p" using assms(3) by simp
  then have "fields (ch CHR '';'') (t @ ch CHR '';'' # ?p) = [t, ?p]"
    using assms(1) by (simp del: lit_Cons)
  moreover have "find_char t (ch CHR ''='') 0 = -1" using assms(2) by (simp add: find_char_None)
  then have "filename_loop U (filter (\<lambda>q. q \<noteq> []) [t, ?p]) = filename_loop U [?p]" by simp
  moreover have "length (t @ ch CHR '';'' # ?p) < 2 ^ 31" using assms(4) by simp
  ultimately show ?thesis
    unfolding filenameFromHTTPContentDisposition_def s
    using filename_loop_quoted [of n U "[]"] assms(4) by (simp add: split_uchar_fields del: lit_Cons)
qed

theorem filename_between_quotes_witness:
  "filenameFromHTTPContentDisposition ascii_peer (lit ''attachment'' @ lit ''; filename='' @ 34 # lit ''a b'' @ [34])
     = Some (Some (lit ''a b''))"
  by (rule filename_between_quotes) simp_all

text \<open>Without a closing quote the last character of the name is lost.\<close>

theorem filename_unclosed_quote:
  "filename_loop ascii_peer [lit '' filename='' @ 34 # lit ''a.txt''] = Some (lit ''a.tx'')"
  by (simp add: find_char_def stripWhiteSpace_trims substring_eq_take_drop equalCStr_iff ascii_peer_def
      isSpaceOrNewline_def isASCIISpace_def UINT_MAX_def)

section \<open>Character sets\<close>

theorem charset_of_parameter:
  assumes first: "find_cstr U s (lit ''charset'') 0 False = int (length t)" and "t \<noteq> []"
    and before: "last t \<le> ch CHR '' '' \<or> last t = ch CHR '';''"
    and s: "s = t @ w @ ch CHR ''='' # n" "length w = 7"
    and n: "\<forall>c\<in>set n. ch CHR '' '' < c \<and> c \<noteq> 34 \<and> c \<noteq> 39 \<and> c \<noteq> ch CHR '';''"
  shows "extractCharsetFromMediaType U s = Some n"
proof -
  let ?P = "\<lambda>c. (c::uchar) \<le> ch CHR '' ''" and ?Q = "\<lambda>c. (c::uchar) \<le> ch CHR '' '' \<or> c = 34 \<or> c = 39"
    and ?R = "\<lambda>c. (c::uchar) > ch CHR '' '' \<and> c \<noteq> 34 \<and> c \<noteq> 39 \<and> c \<noteq> ch CHR '';''"
  let ?i = "length t + 7"
  have len: "length s = ?i + 1 + length n" using s by simp
  have e: "s ! ?i = ch CHR ''=''" using s by (simp add: nth_append)
  have at: "s ! (?i + 1 + k) = n ! k" for k using s by (simp add: nth_append)
  have p: "scan_while ?P s ?i = ?i" using e by (subst scan_while.simps) simp
  have q: "scan_while ?Q s (?i + 1) = ?i + 1"
  proof (rule scan_while_eqI)
    show "?i + 1 = length s \<or> \<not> ?Q (s ! (?i + 1))"
    proof (cases n)
      case (Cons c m)
      then have "s ! (?i + 1) = c" using at [of 0] by simp
      with n Cons show ?thesis by (simp add: not_le)
    qed (use len in simp)
  qed (use len in simp_all)
  have r: "scan_while ?R s (?i + 1) = length s"
  proof (rule scan_while_eqI)
    fix k assume "?i + 1 \<le> k" "k < length s"
    then show "?R (s ! k)" using at [of "k - (?i + 1)"] n len by (simp add: all_set_conv_all_nth)
  qed (use len in auto)
  have b: "\<not> (String_at s (length t - 1) > ch CHR '' '' \<and> String_at s (length t - 1) \<noteq> ch CHR '';'')"
    using before assms(2) s by (auto simp: String_at_def nth_append last_conv_nth not_le)
  have g: "\<not> int (length t) \<le> 0" using assms(2) by simp
  have e': "\<not> String_at s ?i \<noteq> ch CHR ''=''" using e len by (simp add: String_at_def)
  have "substring s (?i + 1) (length s - (?i + 1)) = n" using s by (simp add: substring_eq_take_drop)
  moreover have "0 < length s" using len by simp
  moreover have first': "find_cstr U s (lit ''charset'') (int 0) False = int (length t)" using first by simp
  ultimately show ?thesis
    unfolding extractCharsetFromMediaType_def charset_loop.simps [of U s 0] first' nat_int p Let_def
      if_not_P [OF b] if_not_P [OF g] if_not_P [OF e'] q r
    by (simp only: if_True)
qed

theorem charset_of_parameter_witness:
  "extractCharsetFromMediaType ascii_peer (lit ''text/html; charset=utf-8'') = Some (lit ''utf-8'')"
proof (rule charset_of_parameter)
  show "find_cstr ascii_peer (lit ''text/html; charset=utf-8'') (lit ''charset'') 0 False = int (length (lit ''text/html; ''))"
    by code_simp
  show "lit ''text/html; charset=utf-8'' = lit ''text/html; '' @ lit ''charset'' @ ch CHR ''='' # lit ''utf-8''" by simp
qed simp_all

text \<open>A field that starts with the parameter has no character set.\<close>

lemma charset_at_start_ignored: "extractCharsetFromMediaType ascii_peer (lit ''charset=utf-8'') = None"
  by code_simp

section \<open>Refresh\<close>

lemma skip_stays: "ch CHR '' '' < (s ! i :: uchar) \<Longrightarrow> i < length s \<Longrightarrow> skipWhiteSpace s i m = i"
proof -
  assume *: "ch CHR '' '' < (s ! i :: uchar)" "i < length s"
  then have "s ! i \<noteq> 9" by auto
  with * show ?thesis unfolding skipWhiteSpace_def by (auto intro!: scan_while_eqI)
qed

lemma skip_one: "s ! i = (ch CHR '' '' :: uchar) \<Longrightarrow> ch CHR '' '' < (s ! (i + 1) :: uchar) \<Longrightarrow> i + 1 < length s \<Longrightarrow>
    skipWhiteSpace s i m = i + 1"
proof -
  assume *: "s ! i = ch CHR '' ''" "ch CHR '' '' < s ! (i + 1)" "i + 1 < length s"
  then have "s ! (i + 1) \<noteq> 9" by auto
  moreover have "s ! k = ch CHR '' ''" if "i \<le> k" "k < i + 1" for k
  proof -
    have "k = i" using that by simp
    then show ?thesis using *(1) by simp
  qed
  ultimately show ?thesis using *(2,3) unfolding skipWhiteSpace_def by (auto intro!: scan_while_eqI)
qed

lemma nth_piece: "i = length a \<Longrightarrow> (a @ x # b) ! i = x"
  by (simp add: nth_append)

text \<open>A Refresh field with a delay and a quoted URL parses to that delay and the trimmed text between
  the quotes; when the quotes are empty the URL found is the closing quotation mark.\<close>

theorem refresh_quoted_url:
  assumes ds: "ds \<noteq> []" "ch CHR '' '' < hd ds" "ch CHR '','' \<notin> set ds" "ch CHR '';'' \<notin> set ds"
    and num: "toDouble (stripWhiteSpace U ds) = (d, True)"
    and q: "q = 34 \<or> q = 39" and len: "length ds + length u < 2 ^ 30"
  shows "parseHTTPRefresh U toDouble (ds @ lit ''; url='' @ q # u @ [q]) meta delay0 url0
    = (True, d, Some (if u = [] then [q] else stripWhiteSpace U u))"
proof -
  let ?n = "length ds"
  define s where "s = ds @ lit ''; url='' @ q # u @ [q]"
  have l: "length s = ?n + 8 + length u" by (simp add: s_def)
  have pre: "s = (ds @ lit ''; url='') @ q # (u @ [q])" "s = ds @ ch CHR '';'' # lit '' url='' @ q # u @ [q]"
    "s = (ds @ lit '';'') @ ch CHR '' '' # lit ''url='' @ q # u @ [q]"
    "s = (ds @ lit ''; '') @ ch CHR ''u'' # lit ''rl='' @ q # u @ [q]"
    "s = (ds @ lit ''; url'') @ ch CHR ''='' # q # u @ [q]"
    "s = (ds @ lit ''; url='' @ q # u) @ q # []"
    by (simp_all add: s_def)
  have at: "s ! ?n = ch CHR '';''" "s ! (?n + 1) = ch CHR '' ''" "s ! (?n + 2) = ch CHR ''u''" "s ! (?n + 5) = ch CHR ''=''"
      "s ! (?n + 6) = q" "s ! (?n + 7 + length u) = q"
    by (subst pre(2), rule nth_piece, simp) (subst pre(3), rule nth_piece, simp, subst pre(4), rule nth_piece, simp,
        subst pre(5), rule nth_piece, simp, subst pre(1), rule nth_piece, simp, subst pre(6), rule nth_piece, simp)
  have at0: "s ! 0 = hd ds" using ds(1) by (simp add: s_def nth_append hd_conv_nth)
  have qs: "ch CHR '' '' < q" using q by auto
  have p0: "skipWhiteSpace s 0 meta = 0" by (rule skip_stays) (use ds at0 l in auto)
  have p1: "scan_while (\<lambda>c. c \<noteq> ch CHR '','' \<and> c \<noteq> ch CHR '';'') s 0 = ?n"
  proof (rule scan_while_eqI)
    fix k assume "k < ?n"
    then have "s ! k \<in> set ds" by (simp add: s_def nth_append)
    then show "s ! k \<noteq> ch CHR '','' \<and> s ! k \<noteq> ch CHR '';''" using ds by auto
  qed (use at l in simp_all)
  have p2: "skipWhiteSpace s (?n + 1) meta = ?n + 2"
    using skip_one [of s "?n + 1" meta] at l by simp
  have i: "?n + 2 + 3 = ?n + 5" "?n + 5 + 1 = ?n + 6" by simp_all
  have p3: "skipWhiteSpace s (?n + 2 + 3) meta = ?n + 5" unfolding i using skip_stays [of s "?n + 5" meta] at l by simp
  have p4: "skipWhiteSpace s (?n + 5 + 1) meta = ?n + 6" unfolding i using skip_stays [of s "?n + 6" meta] at l qs by simp
  have "take (length (lit ''url'' :: byte list)) (drop (?n + 2) s) = lit ''url''" by (simp add: s_def)
  then have "cstr_matches U False (lit ''url'') (take (length (lit ''url'' :: byte list)) (drop (?n + 2) s))"
    unfolding cstr_matches_def by (simp only: if_False) simp
  then have f: "find_cstr U s (lit ''url'') (int (?n + 2)) False = int (?n + 2)"
    using find_cstr_spec [of "lit ''url''" U s "?n + 2" False] by (auto simp: le_less)
  have start: "refresh_url_start U s (?n + 2) meta = ?n + 6"
    unfolding refresh_url_start_def f if_P [OF refl] p3 Let_def p4 using at l by (simp add: String_at_def)
  have c: "closing_quote s q (?n + 6 + 1) (length s) = ?n + 7 + length u"
  proof -
    have e: "length s - 1 = ?n + 7 + length u" "?n + 6 + 1 < length s" using l by simp_all
    have "String_at s (?n + 7 + length u) = q" using at(6) l by (simp add: String_at_def)
    then show ?thesis by (subst closing_quote.simps) (simp only: e if_True refl)
  qed
  have "refresh_url U s (?n + 6) = (if u = [] then [q] else stripWhiteSpace U u)"
  proof (cases "u = []")
    case True
    have "stripWhiteSpace U [q] = [q]" using q
      by (auto simp: stripWhiteSpace_trims isSpaceOrNewline_def isASCIISpace_def)
    moreover have "substring s (?n + 6 + 1) 1 = [q]" using True by (simp add: s_def substring_eq_take_drop)
    ultimately show ?thesis
      using True c q at l by (simp add: refresh_url_def String_at_def Let_def)
  next
    case False
    have t: "to_unsigned (int (?n + 7 + length u) - int (?n + 6 + 1)) = length u" using len by simp
    have "substring s (?n + 6 + 1) (length u) = u" by (simp add: s_def substring_eq_take_drop)
    with False c q at l t show ?thesis by (simp add: refresh_url_def String_at_def Let_def)
  qed
  moreover have "left s ?n = ds" by (simp add: s_def)
  ultimately show ?thesis
    unfolding s_def [symmetric] parseHTTPRefresh_def Let_def p0 p1 p2 start using l num by simp
qed

theorem refresh_quoted_url_witness:
  "parseHTTPRefresh ascii_peer (\<lambda>s. (length s, True)) (lit ''0'' @ lit ''; url='' @ 34 # [] @ [34]) True 7 None
    = (True, 1, Some [34])"
proof -
  have "(\<lambda>s. (length s, True)) (stripWhiteSpace ascii_peer (lit ''0'')) = (1, True)" by code_simp
  then show ?thesis
    using refresh_quoted_url [of "lit ''0''" "\<lambda>s. (length s, True)" ascii_peer 1 34 "[]" True 7 None] by simp
qed

end
