(* ===== verification/CrossOriginFacts.thy ===== *)
theory CrossOriginFacts
  imports CrossOrigin HTTPParsersFacts
begin

text \<open>
  Cross-origin requests: what the list of a preflight answer means, that a cached answer is used
  only for what it granted and only for ten minutes, and which responses pass the access check.
\<close>

section \<open>The lists of a preflight answer\<close>

text \<open>One field of the list: trimmed, and skipped when nothing is left.\<close>

definition allow_field :: "unicode_peer \<Rightarrow> (ustring \<Rightarrow> ustring \<Rightarrow> bool) \<Rightarrow> ustring \<Rightarrow> ustring list \<Rightarrow> ustring list" where
  "allow_field U same f xs = (if stripWhiteSpace U f = [] then xs else hash_add same (stripWhiteSpace U f) xs)"

lemma addToAccessControlAllowList_field:
  assumes "start \<le> end" "end < length s"
  shows "addToAccessControlAllowList U same s start end xs = allow_field U same (segment s start (end + 1)) xs"
proof -
  let ?p = "isSpaceOrNewline U"
  define f where "f = segment s start (end + 1)"
  define b where "b = scan_while ?p (take (end + 1) s) start"
  define e where "e = skip_back ?p s end"
  have f: "f = drop start (take (end + 1) s)" by (simp add: f_def segment_def drop_take)
  have b: "b = start + length (takeWhile ?p f)"
    unfolding b_def f using assms by (intro scan_while_takeWhile) simp
  have d: "dropWhile ?p f = drop b (take (end + 1) s)"
    unfolding dropWhile_eq_drop b by (simp add: f add.commute)
  have strip: "stripWhiteSpace U f = rev (dropWhile ?p (rev (dropWhile ?p f)))" by (rule stripWhiteSpace_trims)
  show ?thesis
  proof (cases "b > end")
    case True
    then have "stripWhiteSpace U f = []" unfolding strip d using assms by simp
    with True show ?thesis by (simp add: addToAccessControlAllowList_def b_def f_def allow_field_def)
  next
    case False
    have pb: "\<not> ?p (s ! b)"
    proof -
      have "b < length (take (end + 1) s)" using False assms by simp
      then have "\<not> ?p (take (end + 1) s ! b)" unfolding b_def by (rule scan_while_stop)
      then show ?thesis using False by simp
    qed
    note sk = skip_back_spec [of ?p s "end", folded e_def]
    have "b \<le> e"
    proof (rule ccontr)
      assume "\<not> b \<le> e"
      then have "?p (s ! b)" using sk False by auto
      with pb show False by contradiction
    qed
    moreover have "\<not> ?p (s ! e)" using sk pb \<open>b \<le> e\<close> by (cases "e = 0") auto
    moreover have "?p (s ! (b + k))" if "e - b < k" "k < end + 1 - b" for k
    proof -
      have "e < b + k \<and> b + k \<le> end" using that by linarith
      then show ?thesis using sk by blast
    qed
    ultimately have "rev (dropWhile ?p (rev (dropWhile ?p f))) = take (Suc (e - b)) (dropWhile ?p f)"
      unfolding d using sk assms by (intro rev_dropWhile_rev) auto
    also have "\<dots> = substring s b (e - b + 1)"
    proof -
      have "Suc (e - b) \<le> Suc end - b" using sk \<open>b \<le> e\<close> by linarith
      then show ?thesis unfolding d by (simp add: substring_eq_take_drop drop_take min_def)
    qed
    finally have st: "stripWhiteSpace U f = substring s b (e - b + 1)" unfolding strip .
    moreover have "substring s b (e - b + 1) \<noteq> []" using False assms by (simp add: substring_eq_take_drop)
    ultimately show ?thesis
      unfolding addToAccessControlAllowList_def allow_field_def b_def [symmetric] e_def [symmetric] f_def [symmetric] Let_def
      using False by simp
  qed
qed

lemma allow_list_loop_fields:
  "start \<le> length s \<Longrightarrow>
   fst (allow_list_loop U same s start xs) = ([] \<notin> set (butlast (fields (ch CHR '','') (drop start s))))
   \<and> (fst (allow_list_loop U same s start xs) \<longrightarrow>
      snd (allow_list_loop U same s start xs) = fold (allow_field U same) (fields (ch CHR '','') (drop start s)) xs)"
proof (induction U same s start xs rule: allow_list_loop.induct)
  case (1 U same s start xs)
  let ?c = "ch CHR '','' :: uchar"
  show ?case
  proof (cases "find_char s ?c (int start) = -1")
    case True
    then have "?c \<notin> set (drop start s)" by (simp add: find_char_None)
    then have "fields ?c (drop start s) = [drop start s]" by simp
    moreover have "drop start s = segment s start (length s)" by (simp add: segment_def)
    moreover have "stripWhiteSpace U [] = []" by (simp add: stripWhiteSpace_trims)
    ultimately show ?thesis
      using "1.prems" True addToAccessControlAllowList_field [of start "length s - 1" s U same xs]
      by (cases "start = length s"; cases "length s"; subst (1 2 3) allow_list_loop.simps) (auto simp: allow_field_def)
  next
    case False
    obtain k where k: "find_char s ?c (int start) = int k"
      using find_char_range [of "int start" s ?c] False by (metis int_nat_eq of_nat_0_le_iff order_trans)
    then have ks: "start \<le> k" "k < length s" "s ! k = ?c" "\<forall>j. start \<le> j \<and> j < k \<longrightarrow> s ! j \<noteq> ?c"
      using find_char_Some [of "int start" s ?c k] by auto
    have split: "drop start s = segment s start k @ ?c # drop (k + 1) s"
    proof -
      have "drop start s = take (k - start) (drop start s) @ drop (k - start) (drop start s)"
        by (rule append_take_drop_id [symmetric])
      moreover have "drop (k - start) (drop start s) = drop k s" using ks by simp
      moreover have "drop k s = ?c # drop (k + 1) s" using ks Cons_nth_drop_Suc [of k s] by simp
      ultimately show ?thesis by (simp only: segment_def)
    qed
    have "?c \<notin> set (segment s start k)"
      using ks segment_all_iff [of k s start "\<lambda>c. c \<noteq> ?c"] by auto
    then have fd: "fields ?c (drop start s) = segment s start k # fields ?c (drop (k + 1) s)"
      unfolding split by (rule fields_first)
    show ?thesis
    proof (cases "k = start")
      case True
      then have "allow_list_loop U same s start xs = (False, xs)" using k by (subst allow_list_loop.simps) simp
      then show ?thesis unfolding fd using True by simp
    next
      case ne: False
      let ?xs = "addToAccessControlAllowList U same s start (k - 1) xs"
      have step: "allow_list_loop U same s start xs = allow_list_loop U same s (k + 1) ?xs"
        using k ne by (subst allow_list_loop.simps) simp
      have seg: "segment s start k \<noteq> []" using ks ne by (auto simp: segment_def)
      have add: "?xs = allow_field U same (segment s start k) xs"
        using addToAccessControlAllowList_field [of start "k - 1" s U same xs] ks ne by simp
      have IH: "fst (allow_list_loop U same s (k + 1) ?xs) = ([] \<notin> set (butlast (fields ?c (drop (k + 1) s))))
         \<and> (fst (allow_list_loop U same s (k + 1) ?xs) \<longrightarrow>
            snd (allow_list_loop U same s (k + 1) ?xs) = fold (allow_field U same) (fields ?c (drop (k + 1) s)) ?xs)"
        using "1.IH" [unfolded k nat_int] ks ne by simp
      from IH seg show ?thesis unfolding step fd add [symmetric] by (simp add: add [symmetric] del: One_nat_def)
    qed
  qed
qed

text \<open>The list of allowed methods or headers is rejected exactly when a field before the last is
  empty; otherwise its trimmed non-blank fields are added in order.
\<close>

theorem parseAccessControlAllowList_fields:
  "fst (parseAccessControlAllowList U same s xs) = ([] \<notin> set (butlast (fields (ch CHR '','') s)))
   \<and> (fst (parseAccessControlAllowList U same s xs) \<longrightarrow>
      snd (parseAccessControlAllowList U same s xs) = fold (allow_field U same) (fields (ch CHR '','') s) xs)"
  using allow_list_loop_fields [of 0 s U same xs] by (simp add: parseAccessControlAllowList_def)

theorem parseAccessControlAllowList_fields_witness:
  "snd (parseAccessControlAllowList ascii_peer (=) (lit '' PUT , DELETE,'') []) = [lit ''PUT'', lit ''DELETE'']"
proof -
  have "[] \<notin> set (butlast (fields (ch CHR '','') (lit '' PUT , DELETE,'')))" by simp
  moreover have "fold (allow_field ascii_peer (=)) (fields (ch CHR '','') (lit '' PUT , DELETE,'')) []
      = [lit ''PUT'', lit ''DELETE'']"
    by (simp add: allow_field_def hash_add_def stripWhiteSpace_trims isSpaceOrNewline_def isASCIISpace_def)
  ultimately show ?thesis
    using parseAccessControlAllowList_fields [of ascii_peer "(=)" "lit '' PUT , DELETE,''" "[]"] by metis
qed

section \<open>The life of a cached answer\<close>

datatype cache_op =
    Preflight real ustring KURL bool header_map
  | Skip real ustring KURL bool ustring header_map
  | Clear

text \<open>
  What the loaders do to the cache: an answer that parses is stored (\<open>DocumentThreadableLoader\<close>
  drops the others), a request asks whether it may go without preflight, the cache is emptied.
\<close>

definition cache_step :: "unicode_peer \<Rightarrow> cache_op \<Rightarrow> preflight_cache \<Rightarrow> preflight_cache" where
  "cache_step U step cache =
     (case step of
        Preflight t origin url cred response \<Rightarrow>
          (let (ok, item) = preflight_parse U t response (preflight_item_new cred)
           in if ok then cache_appendEntry origin url item cache else cache)
      | Skip t origin url cred method headers \<Rightarrow> snd (canSkipPreflight U t origin url cred method headers cache)
      | Clear \<Rightarrow> cache_empty cache)"

definition stored_by :: "unicode_peer \<Rightarrow> (ustring \<times> ustring) \<Rightarrow> preflight_item \<Rightarrow> cache_op \<Rightarrow> bool" where
  "stored_by U key item step \<longleftrightarrow>
     (\<exists>t origin url cred response. step = Preflight t origin url cred response \<and> key = (origin, m_string url)
        \<and> preflight_parse U t response (preflight_item_new cred) = (True, item))"

lemma cache_step_stored:
  "map_of (cache_step U step cache) key = Some item \<Longrightarrow> map_of cache key = Some item \<or> stored_by U key item step"
  by (cases step)
    (auto simp: cache_step_def cache_appendEntry_def canSkipPreflight_def cache_empty_def stored_by_def update_conv'
        delete_conv' Let_def split: prod.splits option.splits if_splits)

lemma cache_history:
  "map_of (fold (cache_step U) steps cache) key = Some item \<Longrightarrow>
   map_of cache key = Some item \<or> (\<exists>step\<in>set steps. stored_by U key item step)"
proof (induction steps arbitrary: cache)
  case (Cons step steps)
  then have "map_of (cache_step U step cache) key = Some item \<or> (\<exists>step\<in>set steps. stored_by U key item step)" by simp
  then show ?case using cache_step_stored [of U step cache key item] by auto
qed simp

lemma preflight_parse_lifetime:
  "preflight_parse U t response (preflight_item_new cred) = (True, item) \<Longrightarrow>
   pi_absoluteExpiryTime item \<le> t + 600 \<and> pi_credentials item = cred"
proof -
  have cap: "real (unat d) \<le> 600" if "\<not> maxPreflightCacheTimeoutSeconds < d" for d
  proof -
    have "unat d \<le> 600" using that by (simp add: maxPreflightCacheTimeoutSeconds_def word_less_nat_alt)
    then show ?thesis by (metis of_nat_le_iff of_nat_numeral)
  qed
  have top: "real (unat maxPreflightCacheTimeoutSeconds) \<le> 600" by (rule cap) simp
  assume "preflight_parse U t response (preflight_item_new cred) = (True, item)"
  then show ?thesis
    using cap top by (auto simp: preflight_parse_def preflight_item_new_def defaultPreflightCacheTimeoutSeconds_def Let_def
        split: prod.splits if_splits)
qed

text \<open>C6: However the cache was used, a request goes without preflight only when an earlier successful
  preflight for the same origin string and URL, at most ten minutes old, with credentials if
  the request has them, allows its method and headers.
\<close>

theorem preflight_cache_sound:
  assumes "fst (canSkipPreflight U now origin url cred method headers (fold (cache_step U) steps []))"
  shows "\<exists>t url' cred' response item. Preflight t origin url' cred' response \<in> set steps
    \<and> m_string url' = m_string url \<and> preflight_parse U t response (preflight_item_new cred') = (True, item)
    \<and> now \<le> t + 600 \<and> (cred \<longrightarrow> cred')
    \<and> allowsCrossOriginMethod item method \<and> allowsCrossOriginHeaders U item headers"
proof -
  let ?c = "fold (cache_step U) steps []"
  from assms obtain item where item: "map_of ?c (origin, m_string url) = Some item"
      "allowsRequest U now item cred method headers"
    by (auto simp: canSkipPreflight_def split: option.splits if_splits)
  from cache_history [OF item(1)] obtain step where "step \<in> set steps" "stored_by U (origin, m_string url) item step" by auto
  then obtain t url' cred' response where s: "Preflight t origin url' cred' response \<in> set steps" "m_string url' = m_string url"
      "preflight_parse U t response (preflight_item_new cred') = (True, item)"
    by (auto simp: stored_by_def)
  moreover have "pi_absoluteExpiryTime item \<le> t + 600" "pi_credentials item = cred'"
    using preflight_parse_lifetime [OF s(3)] by simp_all
  ultimately show ?thesis
    using item(2) by (intro exI [of _ t] exI [of _ url'] exI [of _ cred'] exI [of _ response] exI [of _ item])
      (auto simp: allowsRequest_def split: if_splits)
qed

section \<open>The access check\<close>

lemma empty_string_origin:
  assumes "s = [] \<or> s = lit ''*''"
  shows "so_protocol (createFromString L R s) = []" "so_host (createFromString L R s) = []"
    "so_port (createFromString L R s) = 0"
proof -
  have n: "normalized_reference s = s" "\<And>idn utf8 encoding. reference_bytes idn utf8 encoding s
      = (if s = [] then [] else lit ''*'', Some s)"
    using assms by (auto simp: normalized_reference_def find_char_def reference_bytes_def Let_def
        charactersAreAllASCII_iff copyASCII_def)
  have "\<not> isSchemeFirstChar (Prelude.at [] 0)" "\<not> isSchemeFirstChar (Prelude.at (lit ''*'') 0)" by code_simp+
  then have st: "strip_scheme U emptyKURL [] = (False, [], 0)" "strip_scheme U emptyKURL (lit ''*'') = (False, lit ''*'', 1)" for U
    by (simp_all add: strip_scheme_def)
  have "KURL_relative L emptyKURL s = invalidate s"
    using assms st by (auto simp: KURL_relative_def resolve_def n isHierarchical_def emptyKURL_def invalidate_def)
  then have "createFromString L R s = SecurityOrigin_new L R emptyKURL"
    by (simp add: createFromString_def SecurityOrigin_create_def invalidate_def)
  moreover have "protocol emptyKURL = []" "host (lib_utf8 L) emptyKURL = []" "port (lib_peer L) emptyKURL = 0"
    by (simp_all add: emptyKURL_def invalidate_def protocol_def host_def port_def hostStart_def substring_def
        decode_no_escape)
  ultimately show "so_protocol (createFromString L R s) = []" "so_host (createFromString L R s) = []"
    "so_port (createFromString L R s) = 0"
    by (simp_all add: SecurityOrigin_new_def Let_def lower_id equalCStr_iff)
qed

text \<open>Without an origin to compare with, or with the wildcard and credentials, a response passes
  only for an unsandboxed origin that has no scheme, no host and no port.
\<close>

theorem access_check_without_origin:
  assumes "httpHeaderField (lib_peer L) response (lit ''Access-Control-Allow-Origin'') = []
    \<or> (httpHeaderField (lib_peer L) response (lit ''Access-Control-Allow-Origin'') = lit ''*'' \<and> includeCredentials)"
  shows "passesAccessControlCheck L R response includeCredentials o1 =
    (\<not> isSandboxed o1 SandboxOrigin \<and> so_protocol o1 = [] \<and> so_host o1 = [] \<and> so_port o1 = 0
     \<and> (includeCredentials \<longrightarrow>
          equalCStr (httpHeaderField (lib_peer L) response (lit ''Access-Control-Allow-Credentials'')) (lit ''true'')))"
proof -
  let ?h = "httpHeaderField (lib_peer L) response (lit ''Access-Control-Allow-Origin'')"
  have "?h = [] \<or> ?h = lit ''*''" using assms by blast
  note e = empty_string_origin [OF this, of L R]
  have w: "\<not> (equalCStr ?h (lit ''*'') \<and> \<not> includeCredentials)"
    using assms by (auto simp: equalCStr_iff simp del: lit_Cons) (auto simp: equalCStr_iff)
  show ?thesis
    unfolding passesAccessControlCheck_def Let_def if_not_P [OF w] isSameSchemeHostPort_def e by auto
qed

theorem access_check_without_origin_witness:
  "\<not> passesAccessControlCheck ascii_library resetVariables [(lit ''access-control-allow-origin'', lit ''*'')] True example_origin"
proof -
  have "httpHeaderField (lib_peer ascii_library) [(lit ''access-control-allow-origin'', lit ''*'')]
      (lit ''Access-Control-Allow-Origin'') = lit ''*''"
    by code_simp
  then show ?thesis
    using access_check_without_origin [of ascii_library "[(lit ''access-control-allow-origin'', lit ''*'')]" True
        resetVariables example_origin]
    by (simp add: example_origin_def)
qed

text \<open>A response that names the requesting origin passes.\<close>

theorem echoed_origin_passes:
  assumes "named_origin (lib_peer L) s h o1" "\<not> so_noAccess o1" "\<not> isSandboxed o1 SandboxOrigin"
    and "httpHeaderField (lib_peer L) response (lit ''Access-Control-Allow-Origin'') = SecurityOrigin_toString o1"
    and "includeCredentials \<longrightarrow>
      equalCStr (httpHeaderField (lib_peer L) response (lit ''Access-Control-Allow-Credentials'')) (lit ''true'')"
  shows "passesAccessControlCheck L R response includeCredentials o1"
  using origin_string_reads_back [OF assms(1-3), of R] assms(3-5)
  by (auto simp: passesAccessControlCheck_def Let_def)

theorem echoed_origin_passes_witness:
  "passesAccessControlCheck ascii_library resetVariables [(lit ''access-control-allow-origin'', lit ''http://a.b:81'')] False example_origin"
proof (rule echoed_origin_passes)
  show "named_origin (lib_peer ascii_library) (lit ''http'') (lit ''a.b'') example_origin"
    using example_origin_named by (simp add: ascii_library_def)
  show "httpHeaderField (lib_peer ascii_library) [(lit ''access-control-allow-origin'', lit ''http://a.b:81'')]
      (lit ''Access-Control-Allow-Origin'') = SecurityOrigin_toString example_origin"
    by code_simp
qed (simp_all add: example_origin_def isSandboxed_def)

theorem preflight_cache_sound_witness:
  "\<exists>t item. preflight_parse ascii_peer t [(lit ''Access-Control-Allow-Methods'', lit ''PUT'')] (preflight_item_new False) = (True, item)
     \<and> allowsCrossOriginMethod item (lit ''PUT'')"
proof -
  let ?u = "parse (lit ''http://h/'') None" and ?h = "[(lit ''Access-Control-Allow-Methods'', lit ''PUT'')]"
  let ?steps = "[Preflight 10 (lit ''http://a'') ?u False ?h]"
  have p: "preflight_parse ascii_peer 10 ?h (preflight_item_new False) =
     (True, \<lparr>pi_absoluteExpiryTime = 15, pi_credentials = False, pi_methods = [lit ''PUT''], pi_headers = []\<rparr>)"
  proof -
    have "httpHeaderField ascii_peer ?h (lit ''Access-Control-Allow-Methods'') = lit ''PUT''"
      "httpHeaderField ascii_peer ?h (lit ''Access-Control-Allow-Headers'') = []"
      "httpHeaderField ascii_peer ?h (lit ''Access-Control-Max-Age'') = []"
      "parseAccessControlAllowList ascii_peer (=) (lit ''PUT'') [] = (True, [lit ''PUT''])"
      "parseAccessControlAllowList ascii_peer (equalIgnoringCase ascii_peer) [] [] = (True, [])"
      "parseAccessControlMaxAge ascii_peer [] = (0, False)"
      by code_simp+
    then show ?thesis
      by (simp add: preflight_parse_def preflight_item_new_def defaultPreflightCacheTimeoutSeconds_def del: lit_Cons)
  qed
  have "fst (canSkipPreflight ascii_peer 12 (lit ''http://a'') ?u False (lit ''PUT'') [] (fold (cache_step ascii_peer) ?steps []))"
    using p by (simp add: cache_step_def cache_appendEntry_def canSkipPreflight_def allowsRequest_def
        allowsCrossOriginMethod_def allowsCrossOriginHeaders_def del: lit_Cons)
  from preflight_cache_sound [OF this] obtain cred' item where c: "\<not> cred'"
      "preflight_parse ascii_peer 10 ?h (preflight_item_new cred') = (True, item)" "allowsCrossOriginMethod item (lit ''PUT'')"
    by (auto simp del: lit_Cons)
  from c(1) have "cred' = False" by simp
  with c(2,3) show ?thesis by metis
qed

end
