(* ===== verification/Base64.thy ===== *)
theory Base64
  imports Prelude
begin

text \<open>
  Base64: src/webkit/WebCore/platform/text/Base64.cpp. A vector of \<open>char\<close> is a list of bytes. The
  decoder works in place on its output, as the code does; the encoder's output is what was
  written so far, padded at the end to the length the buffer was grown to.
\<close>

unbundle bit_operations_syntax

section \<open>Tables\<close>

definition base64EncMap :: "byte list" where
  "base64EncMap = [0x41, 0x42, 0x43, 0x44, 0x45, 0x46, 0x47, 0x48, 0x49, 0x4A, 0x4B, 0x4C, 0x4D, 0x4E, 0x4F, 0x50,
     0x51, 0x52, 0x53, 0x54, 0x55, 0x56, 0x57, 0x58, 0x59, 0x5A, 0x61, 0x62, 0x63, 0x64, 0x65, 0x66,
     0x67, 0x68, 0x69, 0x6A, 0x6B, 0x6C, 0x6D, 0x6E, 0x6F, 0x70, 0x71, 0x72, 0x73, 0x74, 0x75, 0x76,
     0x77, 0x78, 0x79, 0x7A, 0x30, 0x31, 0x32, 0x33, 0x34, 0x35, 0x36, 0x37, 0x38, 0x39, 0x2B, 0x2F]"

definition base64DecMap :: "byte list" where
  "base64DecMap =
    [0x00, 0x00, 0x00, 0x00, 0x00, 0x00, 0x00, 0x00, 0x00, 0x00, 0x00, 0x00, 0x00, 0x00, 0x00, 0x00,
     0x00, 0x00, 0x00, 0x00, 0x00, 0x00, 0x00, 0x00, 0x00, 0x00, 0x00, 0x00, 0x00, 0x00, 0x00, 0x00,
     0x00, 0x00, 0x00, 0x00, 0x00, 0x00, 0x00, 0x00, 0x00, 0x00, 0x00, 0x3E, 0x00, 0x00, 0x00, 0x3F,
     0x34, 0x35, 0x36, 0x37, 0x38, 0x39, 0x3A, 0x3B, 0x3C, 0x3D, 0x00, 0x00, 0x00, 0x00, 0x00, 0x00,
     0x00, 0x00, 0x01, 0x02, 0x03, 0x04, 0x05, 0x06, 0x07, 0x08, 0x09, 0x0A, 0x0B, 0x0C, 0x0D, 0x0E,
     0x0F, 0x10, 0x11, 0x12, 0x13, 0x14, 0x15, 0x16, 0x17, 0x18, 0x19, 0x00, 0x00, 0x00, 0x00, 0x00,
     0x00, 0x1A, 0x1B, 0x1C, 0x1D, 0x1E, 0x1F, 0x20, 0x21, 0x22, 0x23, 0x24, 0x25, 0x26, 0x27, 0x28,
     0x29, 0x2A, 0x2B, 0x2C, 0x2D, 0x2E, 0x2F, 0x30, 0x31, 0x32, 0x33, 0x00, 0x00, 0x00, 0x00, 0x00]"

definition enc_char :: "byte \<Rightarrow> byte" where
  "enc_char i = base64EncMap ! unat i"

section \<open>Encoding\<close>

definition maxInputBufferSize :: u32 where
  "maxInputBufferSize = 0xFFFFFFFF div 77 * 76 div 4 * 3 - 2"

text \<open>The four characters of a group of three bytes.\<close>

definition enc_group :: "byte \<Rightarrow> byte \<Rightarrow> byte \<Rightarrow> byte list" where
  "enc_group a b c =
     [enc_char (drop_bit 2 a AND 0x3F),
      enc_char ((drop_bit 4 b AND 0xF) OR (push_bit 4 a AND 0x3F)),
      enc_char ((drop_bit 6 c AND 3) OR (push_bit 2 b AND 0x3F)),
      enc_char (c AND 0x3F)]"

text \<open>The loop over whole groups: the source index, \<open>count\<close> and what was written.\<close>

function encode_loop :: "byte list \<Rightarrow> bool \<Rightarrow> nat \<Rightarrow> nat \<Rightarrow> byte list \<Rightarrow> nat \<times> nat \<times> byte list" where
  "encode_loop data insertLFs sidx count out =
     (if length data > 1 \<and> sidx < length data - 2
      then encode_loop data insertLFs (sidx + 3) (if insertLFs then count + 4 else count)
             (out @ (if insertLFs \<and> count \<noteq> 0 \<and> count mod 76 = 0 then [0xA] else [])
                  @ enc_group (data ! sidx) (data ! (sidx + 1)) (data ! (sidx + 2)))
      else (sidx, count, out))"
  by pat_completeness auto
termination
  by (relation "measure (\<lambda>(data, _, sidx, _). length data - sidx)") auto

declare encode_loop.simps [simp del]

text \<open>The rest of one or two bytes.\<close>

definition encode_rest :: "byte list \<Rightarrow> bool \<Rightarrow> nat \<Rightarrow> nat \<Rightarrow> byte list" where
  "encode_rest data insertLFs sidx count =
     (if sidx < length data
      then (if insertLFs \<and> count > 0 \<and> count mod 76 = 0 then [0xA] else [])
           @ [enc_char (drop_bit 2 (data ! sidx) AND 0x3F)]
           @ (if sidx < length data - 1
              then [enc_char ((drop_bit 4 (data ! (sidx + 1)) AND 0xF) OR (push_bit 4 (data ! sidx) AND 0x3F)),
                    enc_char (push_bit 2 (data ! (sidx + 1)) AND 0x3F)]
              else [enc_char (push_bit 4 (data ! sidx) AND 0x3F)])
      else [])"

definition encoded_length :: "nat \<Rightarrow> bool \<Rightarrow> nat" where
  "encoded_length len insertLFs =
     (let out_len = ((len + 2) div 3) * 4
      in if insertLFs \<and> out_len > 76 then out_len + (out_len - 1) div 76 else out_len)"

definition encode_written :: "byte list \<Rightarrow> bool \<Rightarrow> byte list" where
  "encode_written data insertLFs =
     (let lfs = (insertLFs \<and> ((length data + 2) div 3) * 4 > 76);
          (sidx, count, out) = encode_loop data lfs 0 0 []
      in out @ encode_rest data lfs sidx count)"

definition base64Encode :: "byte list \<Rightarrow> bool \<Rightarrow> byte list" where
  "base64Encode data insertLFs =
     (if data = [] then []
      else if length data > unat maxInputBufferSize then []
      else let written = encode_written data insertLFs
           in written @ replicate (encoded_length (length data) insertLFs - length written) (ch CHR ''=''))"

section \<open>Decoding\<close>

definition base64_char :: "byte \<Rightarrow> bool" where
  "base64_char c \<longleftrightarrow> (c > 47 \<and> c < 58) \<or> (c > 64 \<and> c < 91) \<or> (c > 96 \<and> c < 123)
     \<or> c = ch CHR ''+'' \<or> c = ch CHR ''/'' \<or> c = ch CHR ''=''"

definition dec_byte0 :: "byte list \<Rightarrow> nat \<Rightarrow> byte" where
  "dec_byte0 out sidx = (push_bit 2 (out ! sidx) AND 255) OR (drop_bit 4 (out ! (sidx + 1)) AND 3)"

definition dec_byte1 :: "byte list \<Rightarrow> nat \<Rightarrow> byte" where
  "dec_byte1 out sidx = (push_bit 4 (out ! (sidx + 1)) AND 255) OR (drop_bit 2 (out ! (sidx + 2)) AND 0xF)"

definition dec_byte2 :: "byte list \<Rightarrow> nat \<Rightarrow> byte" where
  "dec_byte2 out sidx = (push_bit 6 (out ! (sidx + 2)) AND 255) OR (out ! (sidx + 3) AND 0x3F)"

text \<open>The loop of the 4-byte to 3-byte conversion: each byte is written before the next is computed.\<close>

definition dec_step :: "byte list \<Rightarrow> nat \<Rightarrow> nat \<Rightarrow> byte list" where
  "dec_step out sidx didx =
     (let out1 = out[didx := dec_byte0 out sidx];
          out2 = out1[didx + 1 := dec_byte1 out1 sidx]
      in out2[didx + 2 := dec_byte2 out2 sidx])"

function decode_groups :: "nat \<Rightarrow> byte list \<Rightarrow> nat \<Rightarrow> nat \<Rightarrow> byte list \<times> nat \<times> nat" where
  "decode_groups outLen out sidx didx =
     (if outLen > 1 \<and> didx < outLen - 2
      then decode_groups outLen (dec_step out sidx didx) (sidx + 4) (didx + 3)
      else (out, sidx, didx))"
  by pat_completeness auto
termination
  by (relation "measure (\<lambda>(outLen, _, _, didx). outLen - didx)") auto

declare decode_groups.simps [simp del]

definition base64Decode :: "byte list \<Rightarrow> byte list option" where
  "base64Decode data =
     (if data = [] then Some []
      else let chars = rev (dropWhile (\<lambda>c. c = ch CHR ''='') (rev data));
               len = length chars
           in if \<not> list_all base64_char chars then None
              else let out0 = map (\<lambda>c. base64DecMap ! unat c) chars;
                       outLen = len - (len + 3) div 4
                   in if outLen = 0 \<or> ((outLen + 2) div 3) * 4 < len then None
                      else let (out1, sidx, didx) = decode_groups outLen out0 0 0;
                               out2 = (if didx < outLen then out1[didx := dec_byte0 out1 sidx] else out1);
                               out3 = (if didx + 1 < outLen then out2[didx + 1 := dec_byte1 out2 sidx] else out2)
                           in Some (take outLen out3))"

end
