(* ===== verification/Base64Facts.thy ===== *)
theory Base64Facts
  imports Base64
begin

text \<open>
  Base64: the encoder writes no more than the buffer it sized, and decoding what it wrote gives
  the bytes back.
\<close>

unbundle bit_operations_syntax

section \<open>The six-bit values of a group\<close>

definition v0 :: "byte \<Rightarrow> byte" where "v0 a = drop_bit 2 a AND 0x3F"
definition v1 :: "byte \<Rightarrow> byte \<Rightarrow> byte" where "v1 a b = (drop_bit 4 b AND 0xF) OR (push_bit 4 a AND 0x3F)"
definition v2 :: "byte \<Rightarrow> byte \<Rightarrow> byte" where "v2 b c = (drop_bit 6 c AND 3) OR (push_bit 2 b AND 0x3F)"
definition v3 :: "byte \<Rightarrow> byte" where "v3 c = c AND 0x3F"

lemma masks: "(0x3F :: byte) = mask 6" "(0xF :: byte) = mask 4" "(3 :: byte) = mask 2" "(255 :: byte) = mask 8"
  by (simp_all add: mask_eq_exp_minus_1)

lemma byte_index: "n < 8 \<Longrightarrow> n = 0 \<or> n = 1 \<or> n = 2 \<or> n = 3 \<or> n = 4 \<or> n = 5 \<or> n = 6 \<or> n = (7::nat)"
  by linarith

lemma regroup:
  "(push_bit 2 (v0 a) AND 255) OR (drop_bit 4 (v1 a b) AND 3) = a"
  "(push_bit 4 (v1 a b) AND 255) OR (drop_bit 2 (v2 b c) AND 0xF) = b"
  "(push_bit 6 (v2 b c) AND 255) OR (v3 c AND 0x3F) = c"
  unfolding v0_def v1_def v2_def v3_def masks
  subgoal by (rule bit_word_eqI) (auto simp: bit_simps dest!: byte_index; simp add: numeral_2_eq_2 numeral_3_eq_3)
  subgoal by (rule bit_word_eqI) (auto simp: bit_simps dest!: byte_index; simp add: numeral_2_eq_2 numeral_3_eq_3)
  subgoal by (rule bit_word_eqI) (auto simp: bit_simps dest!: byte_index; simp add: numeral_2_eq_2 numeral_3_eq_3)
  done

lemma sextets: "unat (v0 a) < 64" "unat (v1 a b) < 64" "unat (v2 b c) < 64" "unat (v3 c) < 64"
proof -
  have m: "unat (x AND mask 6 :: byte) < 64" for x :: byte
    using and_mask_less' [of 6 x] by (simp add: word_less_nat_alt)
  have "v1 a b = v1 a b AND mask 6" "v2 b c = v2 b c AND mask 6"
    unfolding v1_def v2_def masks by (rule bit_word_eqI; auto simp: bit_simps)+
  then show "unat (v0 a) < 64" "unat (v1 a b) < 64" "unat (v2 b c) < 64" "unat (v3 c) < 64"
    using m unfolding v0_def v3_def masks by metis+
qed

lemma enc_char_table:
  "n < 64 \<Longrightarrow> base64_char (base64EncMap ! n) \<and> base64EncMap ! n \<noteq> ch CHR ''='' \<and> base64EncMap ! n \<noteq> 0xA
     \<and> base64DecMap ! unat (base64EncMap ! n) = of_nat n"
proof -
  have "list_all (\<lambda>n. base64_char (base64EncMap ! n) \<and> base64EncMap ! n \<noteq> ch CHR ''='' \<and> base64EncMap ! n \<noteq> 0xA
     \<and> base64DecMap ! unat (base64EncMap ! n) = of_nat n) [0..<64]"
    by code_simp
  then show "n < 64 \<Longrightarrow> ?thesis" by (simp add: list_all_iff)
qed

lemma enc_char: "unat v < 64 \<Longrightarrow> base64_char (enc_char v) \<and> enc_char v \<noteq> ch CHR ''='' \<and> base64DecMap ! unat (enc_char v) = v"
  using enc_char_table [of "unat v"] by (simp add: enc_char_def)

section \<open>What the encoder writes\<close>

fun sextets_of :: "byte list \<Rightarrow> byte list" where
  "sextets_of [] = []"
| "sextets_of [a] = [v0 a, v1 a 0]"
| "sextets_of [a, b] = [v0 a, v1 a b, v2 b 0]"
| "sextets_of (a # b # c # r) = [v0 a, v1 a b, v2 b c, v3 c] @ sextets_of r"

lemma enc_group_sextets: "enc_group a b c = map enc_char [v0 a, v1 a b, v2 b c, v3 c]"
  by (simp add: enc_group_def v0_def v1_def v2_def v3_def)

lemma sextets_small: "v \<in> set (sextets_of data) \<Longrightarrow> unat v < 64"
  by (induction data rule: sextets_of.induct) (auto simp: sextets)

lemma length_sextets: "length (sextets_of data) = 4 * (length data div 3) + (if length data mod 3 = 0 then 0 else length data mod 3 + 1)"
  by (induction data rule: sextets_of.induct) (simp_all add: div_add_self1)

lemma sextets_zero: "v1 a 0 = push_bit 4 a AND 0x3F" "v2 b 0 = push_bit 2 b AND 0x3F"
  by (simp_all add: v1_def v2_def)

lemma encode_loop_plain:
  "case encode_loop data False sidx count out of (s, c, o') \<Rightarrow>
     o' @ encode_rest data False s c = out @ map enc_char (sextets_of (drop sidx data))"
proof (induction data "False" sidx count out rule: encode_loop.induct)
  case (1 data sidx count out)
  show ?case
  proof (cases "sidx + 2 < length data")
    case True
    then have d: "drop sidx data = data ! sidx # data ! (sidx + 1) # data ! (sidx + 2) # drop (sidx + 3) data"
      by (simp add: Cons_nth_drop_Suc numeral_3_eq_3)
    have g: "length data > 1 \<and> sidx < length data - 2" using True by linarith
    then show ?thesis
      using "1" unfolding d by (subst encode_loop.simps) (simp add: enc_group_sextets)
  next
    case False
    then have e: "encode_loop data False sidx count out = (sidx, count, out)" by (subst encode_loop.simps) auto
    consider "length data \<le> sidx" | "length data = sidx + 1" | "length data = sidx + 2" using False by linarith
    then show ?thesis
    proof cases
      case 2
      then have "drop sidx data = [data ! sidx]" by (simp add: Cons_nth_drop_Suc [symmetric])
      with 2 show ?thesis unfolding e by (simp add: encode_rest_def v0_def sextets_zero)
    next
      case 3
      then have "drop sidx data = [data ! sidx, data ! (sidx + 1)]" by (simp add: Cons_nth_drop_Suc [symmetric])
      with 3 show ?thesis unfolding e by (simp add: encode_rest_def v0_def v1_def sextets_zero)
    qed (simp add: e encode_rest_def)
  qed
qed

lemma encode_written_plain: "encode_written data False = map enc_char (sextets_of data)"
  using encode_loop_plain [where data = data and sidx = 0 and count = 0 and out = "[]"] by (simp add: encode_written_def Let_def split: prod.splits)

section \<open>The buffer is large enough\<close>

definition line_feeds :: "bool \<Rightarrow> nat \<Rightarrow> nat" where
  "line_feeds lfs k = (if lfs then (k - 1) div 19 else 0)"

lemma line_feeds_step:
  "line_feeds lfs (Suc k) = line_feeds lfs k + (if lfs \<and> (if lfs then 4 * k else 0) \<noteq> 0 \<and> (4 * k) mod 76 = 0 then 1 else 0)"
proof (cases "lfs \<and> k \<noteq> 0")
  case True
  then obtain m where m: "k = Suc m" by (cases k) auto
  have "Suc m div 19 = m div 19 + (if Suc m mod 19 = 0 then 1 else 0)" by (simp add: div_Suc)
  moreover have "(4 * Suc m) mod 76 = 4 * (Suc m mod 19)" using mult_mod_right [of 4 "Suc m" 19] by simp
  ultimately show ?thesis using True by (simp add: line_feeds_def m)
qed (auto simp: line_feeds_def)

lemma encode_loop_length:
  "sidx = 3 * k \<Longrightarrow> count = (if lfs then 4 * k else 0) \<Longrightarrow> length out = 4 * k + line_feeds lfs k \<Longrightarrow> sidx \<le> length data \<Longrightarrow>
   \<exists>k' out'. encode_loop data lfs sidx count out = (3 * k', if lfs then 4 * k' else 0, out')
     \<and> length out' = 4 * k' + line_feeds lfs k' \<and> k' = length data div 3"
proof (induction data lfs sidx count out arbitrary: k rule: encode_loop.induct)
  case (1 data lfs sidx count out)
  show ?case
  proof (cases "sidx + 2 < length data")
    case True
    then have g: "length data > 1 \<and> sidx < length data - 2" by linarith
    have s: "sidx + 3 = 3 * Suc k" "(if lfs then count + 4 else count) = (if lfs then 4 * Suc k else 0)"
      using "1.prems" by simp_all
    have l: "length (out @ (if lfs \<and> count \<noteq> 0 \<and> count mod 76 = 0 then [0xA] else [])
                  @ enc_group (data ! sidx) (data ! (sidx + 1)) (data ! (sidx + 2)))
        = 4 * Suc k + line_feeds lfs (Suc k)"
      unfolding line_feeds_step using "1.prems" by (auto simp: enc_group_def)
    have "encode_loop data lfs sidx count out = encode_loop data lfs (sidx + 3) (if lfs then count + 4 else count)
             (out @ (if lfs \<and> count \<noteq> 0 \<and> count mod 76 = 0 then [0xA] else [])
                  @ enc_group (data ! sidx) (data ! (sidx + 1)) (data ! (sidx + 2)))"
      using g by (subst encode_loop.simps) (simp only: if_True simp_thms)
    with "1.IH" [OF g s l] True show ?thesis by simp
  next
    case False
    then have e: "encode_loop data lfs sidx count out = (sidx, count, out)" by (subst encode_loop.simps) auto
    have "k = length data div 3" using False "1.prems" by linarith
    with e "1.prems" show ?thesis by auto
  qed
qed

lemma group_count: "(n + 2) div 3 = n div 3 + (if n mod 3 = 0 then 0 else 1)" for n :: nat
proof -
  have "(3 * q + m + 2) div 3 = q + (if m = 0 then 0 else 1)" if "m < 3" for q m :: nat
    using that by (simp add: div_add1_eq [of "3 * q"] add.assoc) linarith
  from this [of "n mod 3" "n div 3"] show ?thesis by simp
qed

text \<open>The characters and line feeds written never exceed the length the buffer was grown to.\<close>

theorem base64Encode_fits:
  "length (encode_written data insertLFs) \<le> encoded_length (length data) insertLFs"
proof -
  let ?l = "length data" and ?k = "length data div 3"
  define lfs where "lfs = (insertLFs \<and> ((length data + 2) div 3) * 4 > 76)"
  from encode_loop_length [of 0 0 0 lfs "[]" data] obtain out' where
    e: "encode_loop data lfs 0 0 [] = (3 * ?k, if lfs then 4 * ?k else 0, out')" "length out' = 4 * ?k + line_feeds lfs ?k"
    by (cases lfs) (auto simp: line_feeds_def)
  have w: "length (encode_written data insertLFs) =
      4 * ?k + (if ?l mod 3 = 0 then line_feeds lfs ?k else line_feeds lfs (Suc ?k) + ?l mod 3 + 1)"
  proof -
    have r: "3 * ?k < ?l \<longleftrightarrow> ?l mod 3 \<noteq> 0" "3 * ?k < ?l - 1 \<longleftrightarrow> ?l mod 3 = 2" "?l mod 3 = 0 \<or> ?l mod 3 = 1 \<or> ?l mod 3 = 2"
      by presburger+
    have s: "length (encode_written data insertLFs) = 4 * ?k + line_feeds lfs ?k
        + length (encode_rest data lfs (3 * ?k) (if lfs then 4 * ?k else 0))"
      unfolding encode_written_def lfs_def [symmetric] Let_def e(1) prod.case by (simp only: length_append e(2))
    from r(3) show ?thesis
    proof (elim disjE)
      assume "?l mod 3 = 0"
      with r(1) show ?thesis unfolding s by (simp add: encode_rest_def)
    next
      assume "?l mod 3 = 1"
      with r(1,2) show ?thesis unfolding s line_feeds_step by (simp add: encode_rest_def)
    next
      assume "?l mod 3 = 2"
      with r(1,2) show ?thesis unfolding s line_feeds_step by (simp add: encode_rest_def)
    qed
  qed
  have G: "(?l + 2) div 3 = ?k + (if ?l mod 3 = 0 then 0 else 1)" by (rule group_count)
  have q: "(4 * Suc g - 1) div 76 = g div 19" for g :: nat
    using div_mult2_eq [of "4 * Suc g - 1" 4 19] by simp
  have m: "?l mod 3 < 3" by simp
  show ?thesis
  proof (cases lfs)
    case False
    then have "encoded_length ?l insertLFs = ((?l + 2) div 3) * 4" by (auto simp: encoded_length_def lfs_def)
    then show ?thesis unfolding w G using False m by (auto simp: line_feeds_def)
  next
    case True
    then have el: "encoded_length ?l insertLFs = ((?l + 2) div 3) * 4 + (((?l + 2) div 3) * 4 - 1) div 76"
      by (simp add: encoded_length_def lfs_def Let_def)
    show ?thesis
    proof (cases "?l mod 3 = 0")
      case z: True
      have "?k \<noteq> 0" using True z unfolding lfs_def G by auto
      then obtain g where g: "?k = Suc g" by (cases ?k) auto
      have "(4 * ?k - 1) div 76 = g div 19" unfolding g by (rule q)
      then show ?thesis unfolding w el G using True z g by (simp add: line_feeds_def mult.commute)
    next
      case nz: False
      have "(4 * Suc ?k - 1) div 76 = ?k div 19" by (rule q)
      then show ?thesis unfolding w el G using True nz m by (simp add: line_feeds_def mult.commute)
    qed
  qed
qed

section \<open>Decoding what was encoded\<close>

lemma dec_step_views:
  assumes "drop sidx out = [v0 a, v1 a b, v2 b c, v3 c] @ vs" "didx \<le> sidx"
  shows "take (didx + 3) (dec_step out sidx didx) = take didx out @ [a, b, c]"
    "drop (sidx + 4) (dec_step out sidx didx) = vs" "length (dec_step out sidx didx) = length out"
proof -
  have l: "sidx + 4 \<le> length out" using arg_cong [OF assms(1), of length] by simp
  have n: "out ! (sidx + k) = ([v0 a, v1 a b, v2 b c, v3 c] @ vs) ! k" if "k < 4" for k
  proof -
    have "out ! (sidx + k) = drop sidx out ! k" using that l by simp
    then show ?thesis unfolding assms(1) .
  qed
  have e: "out ! sidx = v0 a" "out ! Suc sidx = v1 a b" "out ! Suc (Suc sidx) = v2 b c" "out ! (sidx + 3) = v3 c"
    using n [of 0] n [of 1] n [of 2] n [of 3] by simp_all
  have b: "dec_byte0 out sidx = a" "dec_byte1 (out[didx := x]) sidx = b" "dec_byte2 (out[didx := x, didx + 1 := y]) sidx = c" for x y
    using assms(2) by (simp_all add: dec_byte0_def dec_byte1_def dec_byte2_def e regroup)
  have s: "dec_step out sidx didx = out[didx := a, didx + 1 := b, didx + 2 := c]"
    unfolding dec_step_def Let_def b ..
  show "length (dec_step out sidx didx) = length out" by (simp add: s)
  show "drop (sidx + 4) (dec_step out sidx didx) = vs"
    using arg_cong [OF assms(1), of "drop 4"] assms(2) by (simp add: s drop_update_cancel add.commute)
  have "out = take didx out @ out ! didx # out ! (didx + 1) # out ! (didx + 2) # drop (didx + 3) out"
    using l assms(2) by (simp add: Cons_nth_drop_Suc numeral_3_eq_3)
  then obtain x y z r where o: "out = take didx out @ x # y # z # r" by blast
  have "length (take didx out) = didx" using l assms(2) by simp
  then show "take (didx + 3) (dec_step out sidx didx) = take didx out @ [a, b, c]"
    unfolding s by (subst o) (simp add: list_update_append)
qed

lemma decode_groups_run:
  assumes "outLen = didx + length rest" "drop sidx out = sextets_of rest" "didx \<le> sidx" "sidx \<le> length out"
  shows "\<exists>out' sidx' didx' tail. decode_groups outLen out sidx didx = (out', sidx', didx')
    \<and> take didx' out' @ tail = take didx out @ rest \<and> length tail = length rest mod 3 \<and> outLen = didx' + length tail
    \<and> drop sidx' out' = sextets_of tail \<and> didx' \<le> sidx' \<and> length out' = length out \<and> sidx' \<le> length out \<and> didx' \<le> length out'"
  using assms
proof (induction rest arbitrary: out sidx didx rule: sextets_of.induct)
  case (4 a b c r)
  have g: "outLen > 1 \<and> didx < outLen - 2" using "4.prems"(1) by simp
  note v = dec_step_views [OF _ "4.prems"(3), of out a b c "sextets_of r"]
  have d: "drop sidx out = [v0 a, v1 a b, v2 b c, v3 c] @ sextets_of r" using "4.prems"(2) by simp
  have le: "sidx + 4 \<le> length out" using arg_cong [OF d, of length] by simp
  have "decode_groups outLen out sidx didx = decode_groups outLen (dec_step out sidx didx) (sidx + 4) (didx + 3)"
    using g by (subst decode_groups.simps) simp
  moreover have "\<exists>out' sidx' didx' tail.
      decode_groups outLen (dec_step out sidx didx) (sidx + 4) (didx + 3) = (out', sidx', didx')
    \<and> take didx' out' @ tail = take (didx + 3) (dec_step out sidx didx) @ r \<and> length tail = length r mod 3 \<and> outLen = didx' + length tail
    \<and> drop sidx' out' = sextets_of tail \<and> didx' \<le> sidx' \<and> length out' = length (dec_step out sidx didx)
    \<and> sidx' \<le> length (dec_step out sidx didx) \<and> didx' \<le> length out'"
    using "4.prems" v [OF d] le by (intro "4.IH") simp_all
  ultimately show ?case using v [OF d] by simp
qed (auto simp: decode_groups.simps intro!: exI [where x = "[]"])

lemma decode_sextets:
  assumes "data \<noteq> []"
  shows "base64Decode (map enc_char (sextets_of data) @ replicate k (ch CHR ''='')) = Some data"
proof -
  let ?s = "sextets_of data" and ?l = "length data"
  have ne: "?s \<noteq> []" using assms by (cases data rule: sextets_of.cases) simp_all
  have small: "\<forall>v\<in>set ?s. unat v < 64" using sextets_small by blast
  have eqs: "\<forall>c\<in>set (map enc_char ?s). c \<noteq> ch CHR ''=''" using small enc_char by auto
  have strip: "rev (dropWhile (\<lambda>c. c = ch CHR ''='') (rev (map enc_char ?s @ replicate k (ch CHR ''='')))) = map enc_char ?s"
  proof -
    have "dropWhile (\<lambda>c. c = ch CHR ''='') (rev (map enc_char ?s)) = rev (map enc_char ?s)"
      using eqs ne by (simp add: dropWhile_eq_self_iff hd_rev last_in_set del: rev_map set_map)
    then show ?thesis unfolding rev_append by (subst dropWhile_append2) (simp_all del: rev_map)
  qed
  have chars: "list_all base64_char (map enc_char ?s)" using small enc_char by (auto simp: list_all_iff)
  have vals: "map (\<lambda>c. base64DecMap ! unat c) (map enc_char ?s) = ?s" using small enc_char by (auto intro: map_idI)
  define q m where "q = ?l div 3" and "m = ?l mod 3"
  have lm: "?l = 3 * q + m" "m < 3" by (simp_all add: q_def m_def)
  have len: "length ?s = 4 * q + (if m = 0 then 0 else m + 1)" unfolding length_sextets q_def m_def ..
  have outLen: "length ?s - (length ?s + 3) div 4 = ?l"
  proof -
    have "(4 * q + (if m = 0 then 0 else m + 1) + 3) div 4 = q + (if m = 0 then 0 else 1)"
    proof -
      have "(4 * q + 3) div 4 = q" "(4 * q + (1 + 1) + 3) div 4 = q + 1" "(4 * q + (2 + 1) + 3) div 4 = q + 1" by presburger+
      moreover have "m = 0 \<or> m = 1 \<or> m = 2" using lm(2) by linarith
      ultimately show ?thesis by auto
    qed
    then show ?thesis unfolding len lm(1) by auto
  qed
  have fits: "\<not> (?l = 0 \<or> ((?l + 2) div 3) * 4 < length ?s)"
    using assms lm(2) unfolding group_count len q_def [symmetric] m_def [symmetric] by auto
  have p: "?l = 0 + length data" "drop 0 ?s = sextets_of data" "0 \<le> (0::nat)" "0 \<le> length ?s" by simp_all
  obtain out' sidx' didx' tail where run: "decode_groups ?l ?s 0 0 = (out', sidx', didx')"
    "take didx' out' @ tail = take 0 ?s @ data" "length tail = ?l mod 3" "?l = didx' + length tail"
    "drop sidx' out' = sextets_of tail" "didx' \<le> sidx'" "length out' = length ?s" "sidx' \<le> length ?s" "didx' \<le> length out'"
    using decode_groups_run [OF p] by (elim exE conjE)
  have nth: "out' ! (sidx' + i) = sextets_of tail ! i" if "i < length (sextets_of tail)" for i
  proof -
    have "i < length (drop sidx' out')" using that run(5) by simp
    then have "out' ! (sidx' + i) = drop sidx' out' ! i" by (simp add: less_diff_conv add.commute)
    then show ?thesis unfolding run(5) .
  qed
  define out2 where "out2 = (if didx' < ?l then out'[didx' := dec_byte0 out' sidx'] else out')"
  define out3 where "out3 = (if didx' + 1 < ?l then out2[didx' + 1 := dec_byte1 out2 sidx'] else out2)"
  have "take ?l out3 = data"
  proof -
    have tl: "length tail < 3" using run(3) by simp
    consider (none) "tail = []" | (one) a where "tail = [a]" | (two) a b where "tail = [a, b]"
      using tl by (cases tail rule: sextets_of.cases) auto
    then show ?thesis
    proof cases
      case none
      with run show ?thesis by (simp add: out3_def out2_def)
    next
      case (one a)
      then have "dec_byte0 out' sidx' = a" using nth [of 0] nth [of 1] by (simp add: dec_byte0_def regroup)
      moreover have "didx' < length out'" using run(5-7) one by (metis drop_all le_neq_implies_less le_trans list.distinct(1) not_le sextets_of.simps(2))
      ultimately show ?thesis using run(2,4) one
        by (simp add: out3_def out2_def take_Suc_conv_app_nth)
    next
      case (two a b)
      have l: "sidx' + 3 \<le> length out'" using arg_cong [OF run(5), of length] two by simp
      have "dec_byte0 out' sidx' = a" "dec_byte1 (out'[didx' := a]) sidx' = b"
        using nth [of 0] nth [of 1] nth [of 2] two run(6) by (simp_all add: dec_byte0_def dec_byte1_def regroup)
      then show ?thesis using run(2,4,6) two l
        by (simp add: out3_def out2_def take_Suc_conv_app_nth nth_list_update)
    qed
  qed
  moreover have "base64Decode (map enc_char ?s @ replicate k (ch CHR ''='')) = Some (take ?l out3)"
    using ne chars fits unfolding base64Decode_def strip Let_def vals length_map outLen run(1) prod.case
    by (simp add: out2_def out3_def)
  ultimately show ?thesis by simp
qed

text \<open>C34: Whatever was encoded without line feeds decodes to itself; the limit is the one above which
  the encoder returns nothing.
\<close>

theorem base64_roundtrip:
  assumes "length data \<le> unat maxInputBufferSize"
  shows "base64Decode (base64Encode data False) = Some data"
proof (cases "data = []")
  case False
  then show ?thesis
    using assms decode_sextets [OF False] by (simp add: base64Encode_def encode_written_plain Let_def)
qed (simp add: base64Encode_def base64Decode_def)

theorem base64_roundtrip_witness:
  "base64Decode (base64Encode (lit ''3DS'') False) = Some (lit ''3DS'')"
  by (rule base64_roundtrip) (simp add: maxInputBufferSize_def)

text \<open>The decoder refuses the line feeds the encoder inserts after 76 characters.
\<close>

theorem base64_line_feeds_not_decoded:
  "base64Decode (base64Encode (replicate 58 0) True) = None"
proof -
  have "encode_written (replicate 58 0) True = replicate 76 (ch CHR ''A'') @ [0xA] @ replicate 2 (ch CHR ''A'')
      \<and> encoded_length 58 True = 81"
    by code_simp
  then have "base64Encode (replicate 58 0) True = replicate 76 (ch CHR ''A'') @ [0xA] @ replicate 2 (ch CHR ''A'') @ replicate 2 (ch CHR ''='')"
    by (simp add: base64Encode_def Let_def maxInputBufferSize_def)
  moreover have "base64Decode (replicate 76 (ch CHR ''A'') @ [0xA] @ replicate 2 (ch CHR ''A'') @ replicate 2 (ch CHR ''='')) = None"
    by code_simp
  ultimately show ?thesis by (simp only:)
qed

end
