(* ===== verification/UTF8.thy ===== *)
theory UTF8
  imports Prelude
begin

text \<open>
  The UTF-8 codec: src/webkit/JavaScriptCore/wtf/unicode/UTF8.cpp. A source is the list between its
  two pointers, a target the list of what was written with the room that is left; the pointers
  the code moves are the remaining source and the written part of the result.
\<close>

unbundle bit_operations_syntax

section \<open>Sequence lengths\<close>

definition inlineUTF8SequenceLengthNonASCII :: "byte \<Rightarrow> nat" where
  "inlineUTF8SequenceLengthNonASCII b0 =
     (if b0 AND 0xC0 \<noteq> 0xC0 then 0
      else if b0 AND 0xE0 = 0xC0 then 2
      else if b0 AND 0xF0 = 0xE0 then 3
      else if b0 AND 0xF8 = 0xF0 then 4
      else 0)"

definition UTF8SequenceLength :: "byte \<Rightarrow> nat" where
  "UTF8SequenceLength b0 = (if b0 AND 0x80 = 0 then 1 else inlineUTF8SequenceLengthNonASCII b0)"

text \<open>\<open>decodeUTF8Sequence\<close> reads a NUL-terminated sequence; -1 is None.\<close>

definition decodeUTF8Sequence :: "byte list \<Rightarrow> u32 option" where
  "decodeUTF8Sequence sequence =
     (let b0 = at sequence 0; b1 = at sequence 1; b2 = at sequence 2; b3 = at sequence 3; b4 = at sequence 4;
          l = UTF8SequenceLength b0
      in if l = 0 then None
         else if l = 1 then (if b1 \<noteq> 0 then None else Some (ucast b0))
         else if b1 AND 0xC0 \<noteq> 0x80 then None
         else if l = 2
         then if b2 \<noteq> 0 then None
              else let c = push_bit 6 (ucast (b0 AND 0x1F)) OR ucast (b1 AND 0x3F)
                   in if c < 0x80 then None else Some c
         else if b2 AND 0xC0 \<noteq> 0x80 then None
         else if l = 3
         then if b3 \<noteq> 0 then None
              else let c = push_bit 12 (ucast (b0 AND 0xF)) OR push_bit 6 (ucast (b1 AND 0x3F)) OR ucast (b2 AND 0x3F)
                   in if c < 0x800 then None
                      else if c \<ge> 0xD800 \<and> c \<le> 0xDFFF then None
                      else Some c
         else if b3 AND 0xC0 \<noteq> 0x80 then None
         else if l = 4
         then if b4 \<noteq> 0 then None
              else let c = push_bit 18 (ucast (b0 AND 7)) OR push_bit 12 (ucast (b1 AND 0x3F))
                           OR push_bit 6 (ucast (b2 AND 0x3F)) OR ucast (b3 AND 0x3F)
                   in if c < 0x10000 \<or> c > 0x10FFFF then None else Some c
         else None)"

section \<open>UTF-16 to UTF-8\<close>

datatype ConversionResult = conversionOK | sourceExhausted | targetExhausted | sourceIllegal

text \<open>The next character of the source and what is left of it, or why there is none.\<close>

definition next_utf16 :: "bool \<Rightarrow> uchar \<Rightarrow> ustring \<Rightarrow> ConversionResult + (u32 \<times> ustring)" where
  "next_utf16 strict c source =
     (let uc = ucast c :: u32
      in if uc \<ge> 0xD800 \<and> uc \<le> 0xDBFF
         then case source of
                [] \<Rightarrow> Inl sourceExhausted
              | c2 # source' \<Rightarrow>
                  let uc2 = ucast c2 :: u32
                  in if uc2 \<ge> 0xDC00 \<and> uc2 \<le> 0xDFFF
                     then Inr (push_bit 10 (uc - 0xD800) + (uc2 - 0xDC00) + 0x10000, source')
                     else if strict then Inl sourceIllegal
                     else Inr (uc, source)
         else if strict
         then if uc \<ge> 0xDC00 \<and> uc \<le> 0xDFFF then Inl sourceIllegal else Inr (uc, source)
         else Inr (uc, source))"

definition firstByteMark :: "byte list" where
  "firstByteMark = [0x00, 0x00, 0xC0, 0xE0, 0xF0, 0xF8, 0xFC]"

text \<open>The bytes of a character, written from the last to the first.\<close>

definition bytesToWrite :: "u32 \<Rightarrow> nat \<times> u32" where
  "bytesToWrite c =
     (if c < 0x80 then (1, c)
      else if c < 0x800 then (2, c)
      else if c < 0x10000 then (3, c)
      else if c < 0x110000 then (4, c)
      else (3, 0xFFFD))"

fun write_bytes :: "nat \<Rightarrow> u32 \<Rightarrow> nat \<Rightarrow> byte list \<Rightarrow> byte list" where
  "write_bytes n0 c 0 later = later"
| "write_bytes n0 c (Suc 0) later = ucast (c OR ucast (firstByteMark ! n0)) # later"
| "write_bytes n0 c (Suc (Suc n)) later =
     write_bytes n0 (drop_bit 6 c) (Suc n) (ucast ((c OR 0x80) AND 0xBF) # later)"

lemma next_utf16_shrinks: "next_utf16 strict c source = Inr (uc, source') \<Longrightarrow> length source' \<le> length source"
  by (auto simp: next_utf16_def Let_def split: if_splits list.splits)

function convertUTF16ToUTF8 ::
  "bool \<Rightarrow> nat \<Rightarrow> ustring \<Rightarrow> byte list \<Rightarrow> ConversionResult \<times> ustring \<times> byte list" where
  "convertUTF16ToUTF8 strict room [] target = (conversionOK, [], target)"
| "convertUTF16ToUTF8 strict room (c # source) target =
     (case next_utf16 strict c source of
        Inl result \<Rightarrow> (result, c # source, target)
      | Inr (uc, source') \<Rightarrow>
          if fst (bytesToWrite uc) > room then (targetExhausted, c # source, target)
          else convertUTF16ToUTF8 strict (room - fst (bytesToWrite uc)) source'
                 (target @ write_bytes (fst (bytesToWrite uc)) (snd (bytesToWrite uc)) (fst (bytesToWrite uc)) []))"
  by pat_completeness auto
termination
  by (relation "measure (\<lambda>(_, _, source, _). length source)") (auto dest!: next_utf16_shrinks)

section \<open>UTF-8 to UTF-16\<close>

text \<open>\<open>isLegalUTF8(source, length)\<close> with its fall-through cases.\<close>

definition isLegalUTF8 :: "byte list \<Rightarrow> nat \<Rightarrow> bool" where
  "isLegalUTF8 source l =
     (if l < 1 \<or> l > 4 then False
      else if l = 4 \<and> (source ! 3 < 0x80 \<or> source ! 3 > 0xBF) then False
      else if l \<ge> 3 \<and> (source ! 2 < 0x80 \<or> source ! 2 > 0xBF) then False
      else if l \<ge> 2 \<and> source ! 1 > 0xBF then False
      else if l \<ge> 2 \<and> (let a = source ! 1; s = source ! 0
                        in if s = 0xE0 then a < 0xA0
                           else if s = 0xED then a > 0x9F
                           else if s = 0xF0 then a < 0x90
                           else if s = 0xF4 then a > 0x8F
                           else a < 0x80) then False
      else if source ! 0 \<ge> 0x80 \<and> source ! 0 < 0xC2 then False
      else if source ! 0 > 0xF4 then False
      else True)"

lemma isLegalUTF8_length: "isLegalUTF8 source l \<Longrightarrow> 1 \<le> l \<and> l \<le> 4"
  unfolding isLegalUTF8_def by (cases "l < 1 \<or> l > 4") auto

definition offsetsFromUTF8 :: "u32 list" where
  "offsetsFromUTF8 = [0x00000000, 0x00003080, 0x000E2080, 0x03C82080, 0xFA082080, 0x82082080]"

text \<open>\<open>ch += *source++; ch <<= 6\<close> for all but the last byte.\<close>

fun read_bytes :: "u32 \<Rightarrow> byte list \<Rightarrow> u32" where
  "read_bytes c [] = c"
| "read_bytes c [b] = c + ucast b"
| "read_bytes c (b # b2 # bs) = read_bytes (push_bit 6 (c + ucast b)) (b2 # bs)"

text \<open>What is written for a character: an error, or one or two units.\<close>

definition units_of :: "bool \<Rightarrow> u32 \<Rightarrow> ConversionResult + ustring" where
  "units_of strict c =
     (if c \<le> 0xFFFF
      then if c \<ge> 0xD800 \<and> c \<le> 0xDFFF then (if strict then Inl sourceIllegal else Inr [0xFFFD])
           else Inr [ucast c]
      else if c > 0x10FFFF then (if strict then Inl sourceIllegal else Inr [0xFFFD])
      else Inr [ucast (drop_bit 10 (c - 0x10000) + 0xD800), ucast (((c - 0x10000) AND 0x3FF) + 0xDC00)])"

function convertUTF8ToUTF16 ::
  "bool \<Rightarrow> nat \<Rightarrow> byte list \<Rightarrow> ustring \<Rightarrow> ConversionResult \<times> byte list \<times> ustring" where
  "convertUTF8ToUTF16 strict room source target =
     (if source = [] then (conversionOK, source, target)
      else let extraBytesToRead = int (UTF8SequenceLength (hd source)) - 1
           in if extraBytesToRead \<ge> int (length source) then (sourceExhausted, source, target)
              else if \<not> isLegalUTF8 source (nat (extraBytesToRead + 1)) then (sourceIllegal, source, target)
              else let l = UTF8SequenceLength (hd source);
                       uc = read_bytes 0 (take l source) - offsetsFromUTF8 ! (l - 1)
                   in if room = 0 then (targetExhausted, source, target)
                      else case units_of strict uc of
                             Inl result \<Rightarrow> (result, source, target)
                           | Inr units \<Rightarrow>
                               if length units > room then (targetExhausted, source, target)
                               else convertUTF8ToUTF16 strict (room - length units) (drop l source) (target @ units))"
  by pat_completeness auto
termination
proof (relation "measure (\<lambda>(_, _, source, _). length source)", goal_cases)
  case (2 strict room source target)
  then have "1 \<le> nat (int (UTF8SequenceLength (hd source)) - 1 + 1)"
    using isLegalUTF8_length by simp
  with 2 show ?case by (cases source) auto
qed simp

declare convertUTF8ToUTF16.simps [simp del]

end
