(* ===== verification/UTF8Facts.thy ===== *)
theory UTF8Facts
  imports UTF8
begin

text \<open>
  Well-formed UTF-16 encodes to UTF-8 that decodes to the same text, in as much room as its
  characters need; an encoder in its target never writes more than the room it was given.
\<close>

unbundle bit_operations_syntax

section \<open>Bytes of a character\<close>

lemma all_byte_ints: "list_all (\<lambda>i. P (word_of_int i)) [0..255] \<Longrightarrow> P (b :: byte)"
proof -
  assume "list_all (\<lambda>i. P (word_of_int i)) [0..255]"
  moreover have "uint b \<in> set [0..255]" using uint_lt2p [of b] by simp
  ultimately have "P (word_of_int (uint b))" by (simp only: list_all_iff)
  then show ?thesis by simp
qed

lemma byte_words:
  "(b OR 0x80) AND 0xBF = 0x80 + (b AND 0x3F) \<and> b AND 0x3F < 0x40
   \<and> (b < 32 \<longrightarrow> b OR 0xC0 = 0xC0 + b \<and> UTF8SequenceLength (0xC0 + b) = 2)
   \<and> (b < 16 \<longrightarrow> b OR 0xE0 = 0xE0 + b \<and> UTF8SequenceLength (0xE0 + b) = 3)
   \<and> (b < 8 \<longrightarrow> b OR 0xF0 = 0xF0 + b \<and> UTF8SequenceLength (0xF0 + b) = 4)
   \<and> (b < 128 \<longrightarrow> UTF8SequenceLength b = 1)" for b :: byte
  by (rule all_byte_ints [where b = b]) code_simp

lemma byte_facts:
  "unat ((b OR 0x80) AND 0xBF) = 0x80 + unat (b :: byte) mod 64"
  "unat b < 32 \<Longrightarrow> unat (b OR 0xC0) = 0xC0 + unat b \<and> UTF8SequenceLength (b OR 0xC0) = 2"
  "unat b < 16 \<Longrightarrow> unat (b OR 0xE0) = 0xE0 + unat b \<and> UTF8SequenceLength (b OR 0xE0) = 3"
  "unat b < 8 \<Longrightarrow> unat (b OR 0xF0) = 0xF0 + unat b \<and> UTF8SequenceLength (b OR 0xF0) = 4"
  "unat b < 128 \<Longrightarrow> UTF8SequenceLength b = 1"
proof -
  have "(0x3F :: byte) = mask 6" by (simp add: mask_eq_exp_minus_1)
  then have m: "unat (b AND 0x3F) = unat b mod 64"
    by (simp only: take_bit_eq_mask [symmetric] unsigned_take_bit_eq) (simp add: take_bit_eq_mod)
  show "unat ((b OR 0x80) AND 0xBF) = 0x80 + unat b mod 64"
    using byte_words [of b] by (simp only: unat_word_ariths m) (simp add: mod_less_divisor [of 64 "unat b", simplified])
qed (use byte_words [of b] in \<open>simp_all add: word_less_nat_alt unat_word_ariths\<close>)

text \<open>The bytes as numbers.\<close>

lemma unat_low_byte: "unat (ucast (c :: u32) :: byte) = unat c mod 256"
  by (simp add: unsigned_ucast_eq take_bit_eq_mod)

lemma trail_byte: "unat (ucast ((c OR 0x80) AND 0xBF) :: byte) = 0x80 + unat (c :: u32) mod 64"
proof -
  have "(ucast ((c OR 0x80) AND 0xBF) :: byte) = (ucast c OR 0x80) AND 0xBF"
    by (rule bit_word_eqI) (auto simp: bit_simps)
  then show ?thesis by (simp add: byte_facts(1) unat_low_byte mod_mod_cancel)
qed

lemma lead_byte: "(ucast (c OR ucast (m :: byte)) :: byte) = ucast (c :: u32) OR m"
  by (rule bit_word_eqI) (auto simp: bit_simps)

lemma drop_bit_unat: "unat (drop_bit n (c :: u32)) = unat c div 2 ^ n"
  unfolding unat_drop_bit_eq by (rule drop_bit_eq_div)

text \<open>The bytes of a code point, as numbers.\<close>

definition encoding :: "u32 \<Rightarrow> byte list" where
  "encoding c = write_bytes (fst (bytesToWrite c)) (snd (bytesToWrite c)) (fst (bytesToWrite c)) []"

definition scalar :: "u32 \<Rightarrow> bool" where
  "scalar c \<longleftrightarrow> unat c < 0xD800 \<or> (0xDFFF < unat c \<and> unat c < 0x110000)"

lemmas word_nat_simps = word_less_nat_alt word_le_nat_alt

lemma bytesToWrite_cases:
  "unat c < 0x80 \<Longrightarrow> bytesToWrite c = (1, c)"
  "0x80 \<le> unat c \<Longrightarrow> unat c < 0x800 \<Longrightarrow> bytesToWrite c = (2, c)"
  "0x800 \<le> unat c \<Longrightarrow> unat c < 0x10000 \<Longrightarrow> bytesToWrite c = (3, c)"
  "0x10000 \<le> unat c \<Longrightarrow> unat c < 0x110000 \<Longrightarrow> bytesToWrite c = (4, c)"
  by (simp_all add: bytesToWrite_def word_nat_simps)

lemma write_bytes_exact:
  "write_bytes 1 c 1 [] = [ucast c]"
  "write_bytes 2 c 2 [] = [ucast (drop_bit 6 c) OR 0xC0, ucast ((c OR 0x80) AND 0xBF)]"
  "write_bytes 3 c 3 [] = [ucast (drop_bit 6 (drop_bit 6 c)) OR 0xE0, ucast ((drop_bit 6 c OR 0x80) AND 0xBF),
     ucast ((c OR 0x80) AND 0xBF)]"
  "write_bytes 4 c 4 [] = [ucast (drop_bit 6 (drop_bit 6 (drop_bit 6 c))) OR 0xF0,
     ucast ((drop_bit 6 (drop_bit 6 c) OR 0x80) AND 0xBF), ucast ((drop_bit 6 c OR 0x80) AND 0xBF),
     ucast ((c OR 0x80) AND 0xBF)]"
proof -
  have fm: "firstByteMark ! 1 = 0" "firstByteMark ! 2 = 0xC0" "firstByteMark ! 3 = 0xE0" "firstByteMark ! 4 = 0xF0"
    by (simp_all add: firstByteMark_def)
  have n: "2 = Suc (Suc 0)" "3 = Suc (Suc (Suc 0))" "4 = Suc (Suc (Suc (Suc 0)))" "1 = Suc 0" by simp_all
  have w: "write_bytes k c (Suc 0) [] = [ucast c OR firstByteMark ! k]"
    "write_bytes k c (Suc (Suc 0)) [] = [ucast (drop_bit 6 c) OR firstByteMark ! k, ucast ((c OR 0x80) AND 0xBF)]"
    "write_bytes k c (Suc (Suc (Suc 0))) [] = [ucast (drop_bit 6 (drop_bit 6 c)) OR firstByteMark ! k,
       ucast ((drop_bit 6 c OR 0x80) AND 0xBF), ucast ((c OR 0x80) AND 0xBF)]"
    "write_bytes k c (Suc (Suc (Suc (Suc 0)))) [] = [ucast (drop_bit 6 (drop_bit 6 (drop_bit 6 c))) OR firstByteMark ! k,
     ucast ((drop_bit 6 (drop_bit 6 c) OR 0x80) AND 0xBF), ucast ((drop_bit 6 c OR 0x80) AND 0xBF),
     ucast ((c OR 0x80) AND 0xBF)]" for k
    by (simp_all only: write_bytes.simps lead_byte)
  show "write_bytes 1 c 1 [] = [ucast c]" using w(1) [of 1] unfolding fm by (simp only: n or.right_neutral)
  show "write_bytes 2 c 2 [] = [ucast (drop_bit 6 c) OR 0xC0, ucast ((c OR 0x80) AND 0xBF)]"
    using w(2) [of 2] unfolding fm by (simp only: n)
  show "write_bytes 3 c 3 [] = [ucast (drop_bit 6 (drop_bit 6 c)) OR 0xE0, ucast ((drop_bit 6 c OR 0x80) AND 0xBF),
     ucast ((c OR 0x80) AND 0xBF)]"
    using w(3) [of 3] unfolding fm by (simp only: n)
  show "write_bytes 4 c 4 [] = [ucast (drop_bit 6 (drop_bit 6 (drop_bit 6 c))) OR 0xF0,
     ucast ((drop_bit 6 (drop_bit 6 c) OR 0x80) AND 0xBF), ucast ((drop_bit 6 c OR 0x80) AND 0xBF),
     ucast ((c OR 0x80) AND 0xBF)]"
    using w(4) [of 4] unfolding fm by (simp only: n)
qed

lemma encoding_bytes:
  "unat c < 0x80 \<Longrightarrow> map unat (encoding c) = [unat c]"
  "0x80 \<le> unat c \<Longrightarrow> unat c < 0x800 \<Longrightarrow> map unat (encoding c) = [0xC0 + unat c div 64, 0x80 + unat c mod 64]"
  "0x800 \<le> unat c \<Longrightarrow> unat c < 0x10000 \<Longrightarrow>
     map unat (encoding c) = [0xE0 + unat c div 64 div 64, 0x80 + unat c div 64 mod 64, 0x80 + unat c mod 64]"
  "0x10000 \<le> unat c \<Longrightarrow> unat c < 0x110000 \<Longrightarrow>
     map unat (encoding c) = [0xF0 + unat c div 64 div 64 div 64, 0x80 + unat c div 64 div 64 mod 64,
       0x80 + unat c div 64 mod 64, 0x80 + unat c mod 64]"
proof -
  have d6: "unat (drop_bit 6 d) = unat d div 64" for d :: u32 by (simp add: drop_bit_unat)
  note w = encoding_def bytesToWrite_cases write_bytes_exact fst_conv snd_conv list.map trail_byte d6
  show "map unat (encoding c) = [unat c]" if "unat c < 0x80"
    using that by (simp add: w unat_low_byte del: One_nat_def)
  show "map unat (encoding c) = [0xC0 + unat c div 64, 0x80 + unat c mod 64]" if c: "0x80 \<le> unat c" "unat c < 0x800"
  proof -
    have "unat (ucast (drop_bit 6 c) :: byte) = unat c div 64" "unat c div 64 < 32"
      using c d6 [of c] by (simp_all add: unat_low_byte)
    with byte_facts(2) [of "ucast (drop_bit 6 c)"] c show ?thesis by (simp add: w)
  qed
  show "map unat (encoding c) = [0xE0 + unat c div 64 div 64, 0x80 + unat c div 64 mod 64, 0x80 + unat c mod 64]"
    if c: "0x800 \<le> unat c" "unat c < 0x10000"
  proof -
    have "unat (ucast (drop_bit 6 (drop_bit 6 c)) :: byte) = unat c div 64 div 64" "unat c div 64 div 64 < 16"
      using c d6 [of c] d6 [of "drop_bit 6 c"] by (simp_all add: unat_low_byte)
    with byte_facts(3) [of "ucast (drop_bit 6 (drop_bit 6 c))"] c show ?thesis by (simp add: w)
  qed
  show "map unat (encoding c) = [0xF0 + unat c div 64 div 64 div 64, 0x80 + unat c div 64 div 64 mod 64,
       0x80 + unat c div 64 mod 64, 0x80 + unat c mod 64]" if c: "0x10000 \<le> unat c" "unat c < 0x110000"
  proof -
    have "unat (ucast (drop_bit 6 (drop_bit 6 (drop_bit 6 c))) :: byte) = unat c div 64 div 64 div 64"
      "unat c div 64 div 64 div 64 < 8"
      using c d6 [of c] d6 [of "drop_bit 6 c"] d6 [of "drop_bit 6 (drop_bit 6 c)"] by (simp_all add: unat_low_byte)
    with byte_facts(4) [of "ucast (drop_bit 6 (drop_bit 6 (drop_bit 6 c)))"] c d6 [of "drop_bit 6 c"] d6 [of c]
    show ?thesis by (simp add: w)
  qed
qed

section \<open>Reading a character back\<close>

lemma sequence_length:
  "(unat b < 0x80 \<longrightarrow> UTF8SequenceLength b = 1) \<and> (0xC0 \<le> unat b \<and> unat b < 0xE0 \<longrightarrow> UTF8SequenceLength b = 2)
   \<and> (0xE0 \<le> unat b \<and> unat b < 0xF0 \<longrightarrow> UTF8SequenceLength b = 3)
   \<and> (0xF0 \<le> unat b \<and> unat b < 0xF8 \<longrightarrow> UTF8SequenceLength b = 4)"
proof -
  have "(b < 0x80 \<longrightarrow> UTF8SequenceLength b = 1) \<and> (0xC0 \<le> b \<and> b < 0xE0 \<longrightarrow> UTF8SequenceLength b = 2)
   \<and> (0xE0 \<le> b \<and> b < 0xF0 \<longrightarrow> UTF8SequenceLength b = 3)
   \<and> (0xF0 \<le> b \<and> b < 0xF8 \<longrightarrow> UTF8SequenceLength b = 4)"
    by (rule all_byte_ints [where b = b]) code_simp
  then show ?thesis by (simp add: word_nat_simps)
qed

lemma byte_widened: "unat (ucast (b :: byte) :: u32) = unat b" "unat b < 256"
  using unsigned_less [of b, where 'a = nat] by (simp_all add: unsigned_ucast_eq take_bit_eq_mod)

lemma add_value: "unat c + unat b < 2 ^ 32 \<Longrightarrow> unat (c + ucast (b :: byte) :: u32) = unat c + unat b"
  using unat_add_lem [of c "ucast b :: u32"] by (simp add: byte_widened(1))

lemma shift_value: "unat c < 2 ^ 26 \<Longrightarrow> unat (push_bit 6 (c :: u32)) = unat c * 64"
  using unat_mult_lem [of c 64] by (simp add: push_bit_eq_mult)

lemma read_two: "unat (read_bytes 0 [a, b]) = unat a * 64 + unat b"
  using byte_widened [of a] byte_widened [of b] by (simp add: add_value shift_value)

lemma read_three: "unat (read_bytes 0 [a, b, c]) = (unat a * 64 + unat b) * 64 + unat c"
  using byte_widened [of a] byte_widened [of b] byte_widened [of c] by (simp add: add_value shift_value)

lemma read_four: "unat (read_bytes 0 [a, b, c, d]) = ((unat a * 64 + unat b) * 64 + unat c) * 64 + unat d"
  using byte_widened [of a] byte_widened [of b] byte_widened [of c] byte_widened [of d]
  by (simp add: add_value shift_value)

lemma diff_by_value: "unat x = unat c + unat k \<Longrightarrow> x - k = (c :: u32)"
proof -
  assume x: "unat x = unat c + unat k"
  then have "unat c + unat k < 2 ^ 32" using unsigned_less [of x, where 'a = nat] by simp
  then have "unat (c + k) = unat x" using unat_add_lem [of c k] x by simp
  then have "x = c + k" by (simp add: word_unat_eq_iff)
  then show ?thesis by simp
qed

text \<open>The four shapes of an encoding.\<close>

lemma encoding_cases:
  assumes "scalar c"
  obtains (one) b0 where "encoding c = [b0]" "unat b0 = unat c" "unat c < 0x80"
  | (two) b0 b1 x y where "encoding c = [b0, b1]" "unat b0 = 0xC0 + x" "unat b1 = 0x80 + y"
      "unat c = x * 64 + y" "y < 64" "0x80 \<le> unat c" "unat c < 0x800"
  | (three) b0 b1 b2 x y z where "encoding c = [b0, b1, b2]" "unat b0 = 0xE0 + x" "unat b1 = 0x80 + y" "unat b2 = 0x80 + z"
      "unat c = (x * 64 + y) * 64 + z" "y < 64" "z < 64" "0x800 \<le> unat c" "unat c < 0x10000"
      "unat c < 0xD800 \<or> 0xDFFF < unat c"
  | (four) b0 b1 b2 b3 w x y z where "encoding c = [b0, b1, b2, b3]" "unat b0 = 0xF0 + w" "unat b1 = 0x80 + x"
      "unat b2 = 0x80 + y" "unat b3 = 0x80 + z" "unat c = ((w * 64 + x) * 64 + y) * 64 + z"
      "x < 64" "y < 64" "z < 64" "0x10000 \<le> unat c" "unat c < 0x110000"
proof -
  have s: "unat c < 0x110000" "unat c < 0xD800 \<or> 0xDFFF < unat c" using assms by (auto simp: scalar_def)
  consider "unat c < 0x80" | "0x80 \<le> unat c" "unat c < 0x800" | "0x800 \<le> unat c" "unat c < 0x10000"
    | "0x10000 \<le> unat c" using s by linarith
  then show thesis
  proof cases
    case 1
    from encoding_bytes(1) [OF 1] show thesis by (auto simp: map_eq_Cons_conv intro: one [OF _ _ 1])
  next
    case 2
    from encoding_bytes(2) [OF 2] obtain b0 b1 where "encoding c = [b0, b1]" "unat b0 = 0xC0 + unat c div 64"
        "unat b1 = 0x80 + unat c mod 64" by (auto simp: map_eq_Cons_conv)
    from two [OF this _ _ 2] show thesis by simp
  next
    case 3
    from encoding_bytes(3) [OF 3] obtain b0 b1 b2 where "encoding c = [b0, b1, b2]" "unat b0 = 0xE0 + unat c div 64 div 64"
        "unat b1 = 0x80 + unat c div 64 mod 64" "unat b2 = 0x80 + unat c mod 64" by (auto simp: map_eq_Cons_conv)
    from three [OF this _ _ _ 3 s(2)] show thesis by simp
  next
    case 4
    from encoding_bytes(4) [OF 4 s(1)] obtain b0 b1 b2 b3 where "encoding c = [b0, b1, b2, b3]"
        "unat b0 = 0xF0 + unat c div 64 div 64 div 64" "unat b1 = 0x80 + unat c div 64 div 64 mod 64"
        "unat b2 = 0x80 + unat c div 64 mod 64" "unat b3 = 0x80 + unat c mod 64" by (auto simp: map_eq_Cons_conv)
    from four [OF this _ _ _ _ 4 s(1)] show thesis by simp
  qed
qed

lemma decode_encoding_case:
  assumes "encoding c = bs" "length bs = n" "0 < n" "UTF8SequenceLength (hd bs) = n" "isLegalUTF8 (bs @ r) n"
    "read_bytes 0 bs - offsetsFromUTF8 ! (n - 1) = c" "n \<le> (if unat c < 0x10000 then 3 else 4)"
  shows "encoding c \<noteq> [] \<and> UTF8SequenceLength (hd (encoding c)) = length (encoding c)
    \<and> isLegalUTF8 (encoding c @ r) (length (encoding c))
    \<and> read_bytes 0 (encoding c) - offsetsFromUTF8 ! (length (encoding c) - 1) = c
    \<and> length (encoding c) \<le> (if unat c < 0x10000 then 3 else 4)"
  using assms by auto

lemma decode_encoding:
  assumes "scalar c"
  shows "encoding c \<noteq> []" "UTF8SequenceLength (hd (encoding c)) = length (encoding c)"
    "isLegalUTF8 (encoding c @ r) (length (encoding c))"
    "read_bytes 0 (encoding c) - offsetsFromUTF8 ! (length (encoding c) - 1) = c"
    "length (encoding c) \<le> (if unat c < 0x10000 then 3 else 4)"
proof -
  have "encoding c \<noteq> [] \<and> UTF8SequenceLength (hd (encoding c)) = length (encoding c)
    \<and> isLegalUTF8 (encoding c @ r) (length (encoding c))
    \<and> read_bytes 0 (encoding c) - offsetsFromUTF8 ! (length (encoding c) - 1) = c
    \<and> length (encoding c) \<le> (if unat c < 0x10000 then 3 else 4)"
    using assms
  proof (cases rule: encoding_cases)
    case (one b0)
    then have "UTF8SequenceLength b0 = 1" using sequence_length [of b0] by simp
    moreover have "isLegalUTF8 ([b0] @ r) 1" using one by (simp add: isLegalUTF8_def word_nat_simps)
    moreover have "read_bytes 0 [b0] = c" using one byte_widened(1) [of b0] by (simp add: word_unat_eq_iff)
    ultimately show ?thesis using one
      by (intro decode_encoding_case [of _ "[b0]" 1]) (simp_all add: offsetsFromUTF8_def del: read_bytes.simps)
  next
    case (two b0 b1 x y)
    then have "UTF8SequenceLength b0 = 2" using sequence_length [of b0] by simp
    moreover have "isLegalUTF8 ([b0, b1] @ r) 2"
      using two by (simp add: isLegalUTF8_def word_nat_simps word_unat_eq_iff Let_def)
    moreover have "read_bytes 0 [b0, b1] - 0x3080 = c" using two by (intro diff_by_value) (simp add: read_two del: read_bytes.simps)
    ultimately show ?thesis using two
      by (intro decode_encoding_case [of _ "[b0, b1]" 2]) (simp_all add: offsetsFromUTF8_def del: read_bytes.simps)
  next
    case (three b0 b1 b2 x y z)
    then have "UTF8SequenceLength b0 = 3" using sequence_length [of b0] by simp
    moreover have "isLegalUTF8 ([b0, b1, b2] @ r) 3"
      using three by (simp add: isLegalUTF8_def word_nat_simps word_unat_eq_iff Let_def) linarith
    moreover have "read_bytes 0 [b0, b1, b2] - 0xE2080 = c" using three by (intro diff_by_value) (simp add: read_three del: read_bytes.simps)
    ultimately show ?thesis using three
      by (intro decode_encoding_case [of _ "[b0, b1, b2]" 3]) (simp_all add: offsetsFromUTF8_def del: read_bytes.simps)
  next
    case (four b0 b1 b2 b3 w x y z)
    then have "UTF8SequenceLength b0 = 4" using sequence_length [of b0] by simp
    moreover have "isLegalUTF8 ([b0, b1, b2, b3] @ r) 4"
      using four by (simp add: isLegalUTF8_def word_nat_simps word_unat_eq_iff Let_def)
    moreover have "read_bytes 0 [b0, b1, b2, b3] - 0x3C82080 = c" using four by (intro diff_by_value) (simp add: read_four del: read_bytes.simps)
    ultimately show ?thesis using four
      by (intro decode_encoding_case [of _ "[b0, b1, b2, b3]" 4]) (simp_all add: offsetsFromUTF8_def del: read_bytes.simps)
  qed
  then show "encoding c \<noteq> []" "UTF8SequenceLength (hd (encoding c)) = length (encoding c)"
    "isLegalUTF8 (encoding c @ r) (length (encoding c))"
    "read_bytes 0 (encoding c) - offsetsFromUTF8 ! (length (encoding c) - 1) = c"
    "length (encoding c) \<le> (if unat c < 0x10000 then 3 else 4)" by blast+
qed

section \<open>The units of a code point\<close>

text \<open>Well-formed UTF-16: no surrogate outside a pair.\<close>

fun well_formed :: "ustring \<Rightarrow> bool" where
  "well_formed [] \<longleftrightarrow> True"
| "well_formed (c # s) \<longleftrightarrow>
     (if 0xD800 \<le> c \<and> c \<le> 0xDBFF
      then (case s of [] \<Rightarrow> False | d # s' \<Rightarrow> 0xDC00 \<le> d \<and> d \<le> 0xDFFF \<and> well_formed s')
      else \<not> (0xDC00 \<le> c \<and> c \<le> 0xDFFF) \<and> well_formed s)"

lemma unit_widened: "unat (ucast (c :: uchar) :: u32) = unat c" "unat c < 0x10000"
  using unsigned_less [of c, where 'a = nat] by (simp_all add: unsigned_ucast_eq take_bit_eq_mod)

lemma unit_narrowed: "unat (c :: u32) = unat (d :: uchar) \<Longrightarrow> ucast c = d"
  using unit_widened(2) [of d] by (simp add: word_unat_eq_iff unsigned_ucast_eq take_bit_eq_mod)

lemma low_ten: "unat ((c :: u32) AND 0x3FF) = unat c mod 1024"
proof -
  have "unat (c AND 0x3FF) = unat c AND mask 10" by (simp add: unsigned_and_eq mask_eq_exp_minus_1)
  also have "\<dots> = unat c mod 1024" by (simp add: take_bit_eq_mod flip: take_bit_eq_mask)
  finally show ?thesis .
qed

lemma add_plain: "unat x + unat y < 2 ^ 32 \<Longrightarrow> unat (x + y :: u32) = unat x + unat y"
  using unat_add_lem [of x y] by simp

lemma sub_plain: "unat y \<le> unat x \<Longrightarrow> unat (x - y :: u32) = unat x - unat y"
  using unat_sub [of y x] by (simp add: word_le_nat_alt)

lemma shift_ten: "unat x < 1024 \<Longrightarrow> unat (push_bit 10 x :: u32) = unat x * 1024"
  using unat_mult_lem [of x 1024] by (simp add: push_bit_eq_mult)

lemma pair_value:
  fixes c d :: uchar
  assumes "0xD800 \<le> unat c" "unat c \<le> 0xDBFF" "0xDC00 \<le> unat d" "unat d \<le> 0xDFFF"
  shows "unat (push_bit 10 (ucast c - 0xD800) + (ucast d - 0xDC00) + 0x10000 :: u32) =
    (unat c - 0xD800) * 1024 + (unat d - 0xDC00) + 0x10000"
proof -
  define x y :: u32 where "x = ucast c - 0xD800" and "y = ucast d - 0xDC00"
  have l: "unat x = unat c - 0xD800" "unat y = unat d - 0xDC00"
    using assms by (simp_all add: x_def y_def sub_plain unit_widened)
  then have "unat (push_bit 10 x + y + 0x10000) = unat x * 1024 + unat y + 0x10000"
    using assms by (simp add: add_plain shift_ten)
  then show ?thesis by (simp only: x_def [symmetric] y_def [symmetric] l)
qed

lemma units_of_pair:
  fixes c d :: uchar
  assumes "unat uc = (unat c - 0xD800) * 1024 + (unat d - 0xDC00) + 0x10000"
    "0xD800 \<le> unat c" "unat c \<le> 0xDBFF" "0xDC00 \<le> unat d" "unat d \<le> 0xDFFF"
  shows "units_of strict uc = Inr [c, d]"
proof -
  define p q where "p = unat c - 0xD800" and "q = unat d - 0xDC00"
  have c: "unat c = p + 0xD800" "unat d = q + 0xDC00" "p < 1024" "q < 1024" using assms by (simp_all add: p_def q_def)
  have u: "unat uc = p * 1024 + q + 0x10000" using assms(1) by (simp only: p_def q_def)
  then have o: "unat (uc - 0x10000) = p * 1024 + q" using sub_plain [of "0x10000" uc] by simp
  have "unat (drop_bit 10 (uc - 0x10000)) = p" using c o by (simp add: drop_bit_unat)
  then have hi: "unat (drop_bit 10 (uc - 0x10000) + 0xD800) = unat c"
    using c add_plain [of "drop_bit 10 (uc - 0x10000)" "0xD800"] by simp
  have "unat ((uc - 0x10000) AND 0x3FF) = q" using c o by (simp add: low_ten)
  then have lo: "unat (((uc - 0x10000) AND 0x3FF) + 0xDC00) = unat d"
    using c add_plain [of "(uc - 0x10000) AND 0x3FF" "0xDC00"] by simp
  show ?thesis using u c unit_narrowed [OF hi] unit_narrowed [OF lo] by (simp add: units_of_def word_nat_simps)
qed

lemma next_utf16_well_formed:
  assumes "well_formed (c # s)"
  obtains uc units s' where "next_utf16 strict c s = Inr (uc, s')" "scalar uc" "\<And>strict'. units_of strict' uc = Inr units"
    "c # s = units @ s'" "well_formed s'" "units \<noteq> []" "length (encoding uc) \<le> 3 * length units"
proof (cases "0xD800 \<le> c \<and> c \<le> 0xDBFF")
  case True
  then obtain d s' where s: "s = d # s'" and d: "0xDC00 \<le> d" "d \<le> 0xDFFF" and w: "well_formed s'"
    using assms by (auto split: list.splits)
  let ?uc = "push_bit 10 (ucast c - 0xD800) + (ucast d - 0xDC00) + 0x10000 :: u32"
  have b: "0xD800 \<le> unat c" "unat c \<le> 0xDBFF" "0xDC00 \<le> unat d" "unat d \<le> 0xDFFF"
    using True d by (simp_all add: word_nat_simps)
  note v = pair_value [OF b]
  then have sc: "scalar ?uc" using b unfolding scalar_def by linarith
  have "next_utf16 strict c s = Inr (?uc, s')"
    using b by (simp add: next_utf16_def s Let_def word_nat_simps unit_widened)
  moreover have "length (encoding ?uc) \<le> 3 * length [c, d]" using decode_encoding(5) [OF sc] by (simp split: if_splits)
  ultimately show thesis using that sc units_of_pair [OF v b] s w by force
next
  case False
  have b: "\<not> (0xD800 \<le> unat c \<and> unat c \<le> 0xDFFF)" and w: "well_formed s"
    using assms False by (auto simp: word_nat_simps)
  then have sc: "scalar (ucast c)" using unit_widened [of c] by (auto simp: scalar_def)
  have "next_utf16 strict c s = Inr (ucast c, s)"
    using b by (auto simp: next_utf16_def Let_def word_nat_simps unit_widened)
  moreover have "units_of strict' (ucast c) = Inr [c]" for strict'
    using b unit_widened(2) [of c] by (auto simp: units_of_def word_nat_simps unit_widened(1) unit_narrowed)
  moreover have "length (encoding (ucast c)) \<le> 3 * length [c]"
    using decode_encoding(5) [OF sc] unit_widened [of c] by simp
  ultimately show thesis using that sc w by simp
qed

section \<open>Legal bytes are encodings\<close>

lemma map_unat_eqI: "map unat (xs :: byte list) = map unat ys \<Longrightarrow> xs = ys"
  by (rule map_injective) (auto intro: injI word_unat_eq_iff [THEN iffD2])

lemma sub_offset: "unat x = n + unat k \<Longrightarrow> unat (x - k :: u32) = n"
  using sub_plain [of k x] by simp

lemma sequence_lengthD:
  "UTF8SequenceLength b = 1 \<Longrightarrow> unat b < 0x80"
  "UTF8SequenceLength b = 2 \<Longrightarrow> 0xC0 \<le> unat b \<and> unat b < 0xE0"
  "UTF8SequenceLength b = 3 \<Longrightarrow> 0xE0 \<le> unat b \<and> unat b < 0xF0"
  "UTF8SequenceLength b = 4 \<Longrightarrow> 0xF0 \<le> unat b \<and> unat b < 0xF8"
proof -
  have "(UTF8SequenceLength b = 1 \<longrightarrow> b < 0x80) \<and> (UTF8SequenceLength b = 2 \<longrightarrow> 0xC0 \<le> b \<and> b < 0xE0)
   \<and> (UTF8SequenceLength b = 3 \<longrightarrow> 0xE0 \<le> b \<and> b < 0xF0)
   \<and> (UTF8SequenceLength b = 4 \<longrightarrow> 0xF0 \<le> b \<and> b < 0xF8)"
    by (rule all_byte_ints [where b = b]) code_simp
  then show "UTF8SequenceLength b = 1 \<Longrightarrow> unat b < 0x80"
    "UTF8SequenceLength b = 2 \<Longrightarrow> 0xC0 \<le> unat b \<and> unat b < 0xE0"
    "UTF8SequenceLength b = 3 \<Longrightarrow> 0xE0 \<le> unat b \<and> unat b < 0xF0"
    "UTF8SequenceLength b = 4 \<Longrightarrow> 0xF0 \<le> unat b \<and> unat b < 0xF8" by (simp_all add: word_nat_simps)
qed

text \<open>The code point a legal sequence stands for.\<close>

abbreviation decoded :: "byte list \<Rightarrow> u32" where
  "decoded bs \<equiv> read_bytes 0 bs - offsetsFromUTF8 ! (length bs - 1)"

lemma legal_two:
  assumes "UTF8SequenceLength a = 2" "isLegalUTF8 (a # b # r) 2"
  shows "scalar (decoded [a, b])" "encoding (decoded [a, b]) = [a, b]"
proof -
  have l: "0xC2 \<le> unat a" "unat a < 0xE0" "0x80 \<le> unat b" "unat b \<le> 0xBF"
    using sequence_lengthD(2) [OF assms(1)] assms(2)
    by (auto simp: isLegalUTF8_def word_nat_simps word_unat_eq_iff Let_def split: if_splits)
  define x y where "x = unat a - 0xC0" and "y = unat b - 0x80"
  have e: "unat a = x + 0xC0" "unat b = y + 0x80" "y < 64" using l by (simp_all add: x_def y_def)
  have u: "unat (decoded [a, b]) = x * 64 + y"
    using e by (simp add: offsetsFromUTF8_def sub_offset read_two del: read_bytes.simps)
  show "scalar (decoded [a, b])" using u e l unfolding scalar_def by linarith
  have "map unat (encoding (decoded [a, b])) = map unat [a, b]"
    using encoding_bytes(2) [of "decoded [a, b]"] u e l by simp
  then show "encoding (decoded [a, b]) = [a, b]" by (rule map_unat_eqI)
qed

lemma offset_values:
  "offsetsFromUTF8 ! (length [a, b, c :: byte] - 1) = 0xE2080"
  "offsetsFromUTF8 ! (length [a, b, c, d :: byte] - 1) = 0x3C82080"
  by (simp_all add: offsetsFromUTF8_def)

text \<open>
  A sequence of three or four bytes is checked less: after the lead bytes ED and F4 the second byte
  is bounded above only, so it may be an ASCII character.
\<close>

lemma legal_three:
  assumes "UTF8SequenceLength a = 3" "isLegalUTF8 (a # b # c # r) 3"
  shows "scalar (decoded [a, b, c])" "0x80 \<le> unat b \<Longrightarrow> encoding (decoded [a, b, c]) = [a, b, c]"
    "0x80 \<le> unat b \<or> unat a = 0xED" "0x80 \<le> unat c"
proof -
  have l: "0xE0 \<le> unat a" "unat a < 0xF0" "unat b \<le> 0xBF" "0x80 \<le> unat c" "unat c \<le> 0xBF"
    "unat a = 0xE0 \<longrightarrow> 0xA0 \<le> unat b" "unat a = 0xED \<longrightarrow> unat b \<le> 0x9F" "unat a \<noteq> 0xED \<longrightarrow> 0x80 \<le> unat b"
    using sequence_lengthD(3) [OF assms(1)] assms(2)
    by (auto simp: isLegalUTF8_def word_nat_simps word_unat_eq_iff Let_def split: if_splits)
  then show "0x80 \<le> unat b \<or> unat a = 0xED" "0x80 \<le> unat c" by auto
  have g: "0x80 \<le> (unat a - 0xE0) * 64 + unat b" using l by arith
  define x y z where "x = unat a - 0xE0" and "y = x * 64 + unat b - 0x80" and "z = unat c - 0x80"
  have e: "unat a = x + 0xE0" "x * 64 + unat b = y + 0x80" "unat c = z + 0x80" "z < 64"
    using l g by (simp_all add: x_def y_def z_def)
  then have y: "32 \<le> y" "y < 1024" "y < 864 \<or> 896 \<le> y" using l by arith+
  have "unat (read_bytes 0 [a, b, c]) = (y * 64 + z) + 0xE2080" unfolding read_three using e by simp
  then have "unat (read_bytes 0 [a, b, c] - 0xE2080) = y * 64 + z" by (intro sub_offset) simp
  then have u: "unat (decoded [a, b, c]) = y * 64 + z" by (simp only: offset_values)
  have r: "0x800 \<le> unat (decoded [a, b, c])" "unat (decoded [a, b, c]) < 0x10000"
    "unat (decoded [a, b, c]) < 0xD800 \<or> 0xDFFF < unat (decoded [a, b, c])"
    unfolding u using y e by linarith+
  show "scalar (decoded [a, b, c])" using r unfolding scalar_def by linarith
  assume b: "0x80 \<le> unat b"
  then have "y = x * 64 + (unat b - 0x80)" using e by simp
  then have q: "y div 64 = x" "y mod 64 = unat b - 0x80" using l by simp_all
  have "map unat (encoding (decoded [a, b, c])) = map unat [a, b, c]"
    unfolding encoding_bytes(3) [OF r(1,2)] using u e b q by simp
  then show "encoding (decoded [a, b, c]) = [a, b, c]" by (rule map_unat_eqI)
qed

lemma legal_four:
  assumes "UTF8SequenceLength a = 4" "isLegalUTF8 (a # b # c # d # r) 4"
  shows "scalar (decoded [a, b, c, d])" "0x80 \<le> unat b \<Longrightarrow> encoding (decoded [a, b, c, d]) = [a, b, c, d]"
    "0x80 \<le> unat b \<or> unat a = 0xF4" "0x80 \<le> unat c" "0x80 \<le> unat d"
proof -
  have l: "0xF0 \<le> unat a" "unat a \<le> 0xF4" "unat b \<le> 0xBF" "0x80 \<le> unat c" "unat c \<le> 0xBF"
    "0x80 \<le> unat d" "unat d \<le> 0xBF" "unat a = 0xF0 \<longrightarrow> 0x90 \<le> unat b" "unat a = 0xF4 \<longrightarrow> unat b \<le> 0x8F"
    "unat a \<noteq> 0xF4 \<longrightarrow> 0x80 \<le> unat b"
    using sequence_lengthD(4) [OF assms(1)] assms(2)
    by (auto simp: isLegalUTF8_def word_nat_simps word_unat_eq_iff Let_def split: if_splits)
  then show "0x80 \<le> unat b \<or> unat a = 0xF4" "0x80 \<le> unat c" "0x80 \<le> unat d" by auto
  have g: "0x80 \<le> (unat a - 0xF0) * 64 + unat b" using l by arith
  define w x y z where "w = unat a - 0xF0" and "x = w * 64 + unat b - 0x80" and "y = unat c - 0x80" and "z = unat d - 0x80"
  have e: "unat a = w + 0xF0" "w * 64 + unat b = x + 0x80" "unat c = y + 0x80" "unat d = z + 0x80" "y < 64" "z < 64"
    using l g by (simp_all add: w_def x_def y_def z_def)
  then have x: "16 \<le> x" "x < 272" using l by linarith+
  have "unat (read_bytes 0 [a, b, c, d]) = ((x * 64 + y) * 64 + z) + 0x3C82080" unfolding read_four using e by simp
  then have "unat (read_bytes 0 [a, b, c, d] - 0x3C82080) = (x * 64 + y) * 64 + z" by (intro sub_offset) simp
  then have u: "unat (decoded [a, b, c, d]) = (x * 64 + y) * 64 + z" by (simp only: offset_values)
  have m: "1024 \<le> x * 64 + y" "x * 64 + y < 17408" using x e by linarith+
  have split: "((x * 64 + y) * 64 + z) div 64 = x * 64 + y" "((x * 64 + y) * 64 + z) mod 64 = z"
    "(x * 64 + y) div 64 = x" "(x * 64 + y) mod 64 = y"
    using e(5,6) by (simp_all only: mod_mult_self3 mod_less div_mult_self3 div_less add_0_right zero_neq_numeral not_False_eq_True)
  have r: "0x10000 \<le> unat (decoded [a, b, c, d])" "unat (decoded [a, b, c, d]) < 0x110000"
    unfolding u using m e(6) by simp_all
  show "scalar (decoded [a, b, c, d])" using r unfolding scalar_def by linarith
  assume b: "0x80 \<le> unat b"
  then have "x = w * 64 + (unat b - 0x80)" using e by simp
  then have q: "x div 64 = w" "x mod 64 = unat b - 0x80" using l by simp_all
  have "map unat (encoding (decoded [a, b, c, d])) = map unat [a, b, c, d]"
    unfolding encoding_bytes(4) [OF r] u split using e b q by simp
  then show "encoding (decoded [a, b, c, d]) = [a, b, c, d]" by (rule map_unat_eqI)
qed

lemma legal_one:
  assumes "UTF8SequenceLength a = 1"
  shows "scalar (decoded [a])" "encoding (decoded [a]) = [a]"
proof -
  have u: "unat (decoded [a]) = unat a" "unat a < 0x80"
    using sequence_lengthD(1) [OF assms] byte_widened(1) [of a] by (simp_all add: offsetsFromUTF8_def)
  then show "scalar (decoded [a])" by (simp add: scalar_def)
  show "encoding (decoded [a]) = [a]"
    by (rule map_unat_eqI) (use u encoding_bytes(1) [of "decoded [a]"] in simp)
qed

section \<open>Whole strings\<close>

lemma write_bytes_length: "length (write_bytes n0 c n later) = n + length later"
  by (induction n0 c n later rule: write_bytes.induct) simp_all

lemma convertUTF16_step:
  assumes "next_utf16 strict c s = Inr (uc, s')" "length (encoding uc) \<le> room" "scalar uc"
  shows "convertUTF16ToUTF8 strict room (c # s) t = convertUTF16ToUTF8 strict (room - length (encoding uc)) s' (t @ encoding uc)"
proof -
  have "length (encoding uc) = fst (bytesToWrite uc)"
    using decode_encoding(2) [OF assms(3)] by (simp add: encoding_def write_bytes_length)
  then show ?thesis using assms by (simp add: encoding_def)
qed

lemma convertUTF8_step:
  assumes "isLegalUTF8 (bs @ r) (length bs)" "UTF8SequenceLength (hd bs) = length bs" "bs \<noteq> []"
    "units_of strict (decoded bs) = Inr units" "units \<noteq> []" "length units \<le> room"
  shows "convertUTF8ToUTF16 strict room (bs @ r) t = convertUTF8ToUTF16 strict (room - length units) r (t @ units)"
proof -
  have "room \<noteq> 0" using assms(5,6) by (cases units) auto
  then show ?thesis using assms by (subst convertUTF8ToUTF16.simps) (simp add: Let_def)
qed

lemma encode_then_decode:
  "well_formed s \<Longrightarrow> 3 * length s \<le> room \<Longrightarrow>
   \<exists>bs. convertUTF16ToUTF8 strict room s t = (conversionOK, [], t @ bs) \<and> length bs \<le> 3 * length s
     \<and> (\<forall>room' r u. length s \<le> room' \<longrightarrow>
          convertUTF8ToUTF16 strict' room' (bs @ r) u = convertUTF8ToUTF16 strict' (room' - length s) r (u @ s))"
proof (induction s arbitrary: room t rule: length_induct)
  case (1 s)
  show ?case
  proof (cases s)
    case (Cons c w)
    with 1 obtain uc units s' where n: "next_utf16 strict c w = Inr (uc, s')" and sc: "scalar uc"
      and u: "\<And>strict'. units_of strict' uc = Inr units" and split: "s = units @ s'" and w: "well_formed s'" and ne: "units \<noteq> []" and l: "length (encoding uc) \<le> 3 * length units"
      by (metis next_utf16_well_formed)
    from split ne have "length s' < length s" by simp
    moreover have "3 * length s' \<le> room - length (encoding uc)" using 1(3) split l by simp
    ultimately obtain bs where bs: "convertUTF16ToUTF8 strict (room - length (encoding uc)) s' (t @ encoding uc)
        = (conversionOK, [], (t @ encoding uc) @ bs)" "length bs \<le> 3 * length s'"
      "\<And>room' r u. length s' \<le> room' \<Longrightarrow>
         convertUTF8ToUTF16 strict' room' (bs @ r) u = convertUTF8ToUTF16 strict' (room' - length s') r (u @ s')"
      using 1(1) w by meson
    show ?thesis
    proof (intro exI [of _ "encoding uc @ bs"] conjI allI impI)
      show "convertUTF16ToUTF8 strict room s t = (conversionOK, [], t @ encoding uc @ bs)"
        unfolding Cons using convertUTF16_step [OF n _ sc, of room t] 1(3) split l bs(1)
        by (simp del: convertUTF16ToUTF8.simps)
      show "length (encoding uc @ bs) \<le> 3 * length s" using l bs(2) split by simp
      fix room' r v assume room': "length s \<le> room'"
      have "convertUTF8ToUTF16 strict' room' (encoding uc @ bs @ r) v =
          convertUTF8ToUTF16 strict' (room' - length units) (bs @ r) (v @ units)"
        using decode_encoding [OF sc] u ne room' split by (intro convertUTF8_step) auto
      then show "convertUTF8ToUTF16 strict' room' ((encoding uc @ bs) @ r) v =
          convertUTF8ToUTF16 strict' (room' - length s) r (v @ s)"
        using bs(3) room' split by simp
    qed
  qed simp
qed

text \<open>A strict encoder accepts well-formed strings only; whatever it does, it keeps to its room.\<close>

lemma strict_encoder_well_formed:
  "fst (convertUTF16ToUTF8 True room s t) = conversionOK \<Longrightarrow> well_formed s"
proof (induction "True" room s t rule: convertUTF16ToUTF8.induct)
  case (2 room c s t)
  then obtain uc s' where n: "next_utf16 True c s = Inr (uc, s')"
    by (cases "next_utf16 True c s") (auto simp: next_utf16_def Let_def split: if_splits list.splits)
  have b: "\<not> fst (bytesToWrite uc) > room" using 2(2) n by (auto split: if_splits)
  then have "well_formed s'" using 2 n by simp
  then show ?case
    using n by (auto simp: next_utf16_def Let_def word_nat_simps unit_widened split: if_splits list.splits)
qed simp

lemma encoder_room:
  "length (snd (snd (convertUTF16ToUTF8 strict room s t))) \<le> length t + room"
proof (induction strict room s t rule: convertUTF16ToUTF8.induct)
  case (2 strict room c s t)
  show ?case
  proof (cases "next_utf16 strict c s")
    case (Inr q)
    with 2 [OF Inr, of "fst q" "snd q"] show ?thesis
      by (cases q) (simp add: write_bytes_length)
  qed simp
qed simp

lemma convertUTF8_cases:
  obtains (stop) result where "convertUTF8ToUTF16 strict room s t = (result, s, t)" "result = conversionOK \<longrightarrow> s = []"
  | (more) bs r units where "s = bs @ r" "bs \<noteq> []" "isLegalUTF8 (bs @ r) (length bs)" "UTF8SequenceLength (hd bs) = length bs"
      "units_of strict (decoded bs) = Inr units" "length units \<le> room"
      "convertUTF8ToUTF16 strict room s t = convertUTF8ToUTF16 strict (room - length units) r (t @ units)"
proof (cases "s = [] \<or> int (UTF8SequenceLength (hd s)) - 1 \<ge> int (length s)
      \<or> \<not> isLegalUTF8 s (UTF8SequenceLength (hd s)) \<or> room = 0")
  case True
  then have "\<exists>result. convertUTF8ToUTF16 strict room s t = (result, s, t) \<and> (result = conversionOK \<longrightarrow> s = [])"
    by (subst convertUTF8ToUTF16.simps) (auto simp: Let_def)
  then show thesis using stop by blast
next
  case False
  let ?l = "UTF8SequenceLength (hd s)"
  have l: "1 \<le> ?l" "?l \<le> length s" using False isLegalUTF8_length by auto
  have e: "convertUTF8ToUTF16 strict room s t =
      (case units_of strict (decoded (take ?l s)) of
         Inl result \<Rightarrow> (result, s, t)
       | Inr units \<Rightarrow> if length units > room then (targetExhausted, s, t)
           else convertUTF8ToUTF16 strict (room - length units) (drop ?l s) (t @ units))"
    using False l by (subst convertUTF8ToUTF16.simps) (simp add: Let_def min_absorb2)
  show thesis
  proof (cases "units_of strict (decoded (take ?l s))")
    case (Inl result)
    then have "result \<noteq> conversionOK" by (auto simp: units_of_def split: if_splits)
    then show thesis using stop e Inl by simp
  next
    case (Inr units)
    have "hd (take ?l s) = hd s" using l by (cases s; cases ?l) auto
    then show thesis
      using more [of "take ?l s" "drop ?l s" units] stop [of targetExhausted] e Inr False l
      by (cases "length units > room") (auto simp: min_absorb2)
  qed
qed

lemma decoder_room:
  "length (snd (snd (convertUTF8ToUTF16 strict room s t))) \<le> length t + room"
proof (induction s arbitrary: room t rule: length_induct)
  case (1 s)
  show ?case
  proof (cases rule: convertUTF8_cases [of strict room s t])
    case (more bs r units)
    then have "length r < length s" by simp
    with 1 have "length (snd (snd (convertUTF8ToUTF16 strict (room - length units) r (t @ units))))
        \<le> length (t @ units) + (room - length units)" by blast
    then show ?thesis using more by simp
  qed simp
qed

text \<open>Where the decoder's check lapses: an ASCII byte after the lead bytes ED and F4.\<close>

definition lead_continued :: "byte list \<Rightarrow> bool" where
  "lead_continued bs \<longleftrightarrow> list_all (\<lambda>(a, b). (a = 0xED \<or> a = 0xF4) \<longrightarrow> 0x80 \<le> b) (zip bs (tl bs))"

lemma of_nat_inverse_small: "n < 0x10000 \<Longrightarrow> \<exists>w :: uchar. unat w = n"
  by (intro exI [of _ "of_nat n"]) (simp add: unat_of_nat)

lemma units_of_scalar:
  assumes "scalar c"
  obtains units where "units_of strict c = Inr units" "units \<noteq> []" "\<And>s. well_formed (units @ s) = well_formed s"
    "\<And>strict' s. next_utf16 strict' (hd units) (tl units @ s) = Inr (c, s)" "length (encoding c) \<le> 3 * length units"
proof (cases "unat c < 0x10000")
  case True
  then have u: "unat (ucast c :: uchar) = unat c" by (simp add: unsigned_ucast_eq take_bit_eq_mod)
  then have w: "ucast (ucast c :: uchar) = c" by (simp add: word_unat_eq_iff unit_widened)
  show thesis
  proof (rule that [of "[ucast c]"])
    show "units_of strict c = Inr [ucast c]" using True assms by (auto simp: units_of_def scalar_def word_nat_simps)
    show "well_formed ([ucast c] @ s) = well_formed s" for s using assms True u by (auto simp: scalar_def word_nat_simps)
    show "next_utf16 strict' (hd [ucast c]) (tl [ucast c] @ s) = Inr (c, s)" for strict' s
      using assms True by (auto simp: next_utf16_def Let_def scalar_def word_nat_simps w)
    show "length (encoding c) \<le> 3 * length [ucast c :: uchar]" using decode_encoding(5) [OF assms] True by simp
  qed simp
next
  case False
  define p q where "p = (unat c - 0x10000) div 1024" and "q = (unat c - 0x10000) mod 1024"
  have c: "unat c = p * 1024 + q + 0x10000" using False by (simp add: p_def q_def)
  have b: "p < 1024" "q < 1024" using assms False by (auto simp: p_def q_def scalar_def)
  obtain h l :: uchar where h: "unat h = p + 0xD800" and l: "unat l = q + 0xDC00"
    using b of_nat_inverse_small [of "p + 0xD800"] of_nat_inverse_small [of "q + 0xDC00"] by auto
  have r: "0xD800 \<le> unat h" "unat h \<le> 0xDBFF" "0xDC00 \<le> unat l" "unat l \<le> 0xDFFF" using b h l by simp_all
  have v: "push_bit 10 (ucast h - 0xD800) + (ucast l - 0xDC00) + 0x10000 = c"
    using pair_value [OF r] c h l by (simp only: word_unat_eq_iff)
  show thesis
  proof (rule that [of "[h, l]"])
    show "units_of strict c = Inr [h, l]" using c h l by (intro units_of_pair r) simp
    show "well_formed ([h, l] @ s) = well_formed s" for s using r by (simp add: word_nat_simps)
    show "next_utf16 strict' (hd [h, l]) (tl [h, l] @ s) = Inr (c, s)" for strict' s
      using r v by (simp add: next_utf16_def Let_def word_nat_simps unit_widened)
    show "length (encoding c) \<le> 3 * length [h, l]" using decode_encoding(5) [OF assms] by (simp split: if_splits)
  qed simp
qed

lemma legal_scalar:
  assumes "isLegalUTF8 (bs @ r) (length bs)" "UTF8SequenceLength (hd bs) = length bs" "bs \<noteq> []"
  shows "scalar (decoded bs)" "lead_continued bs \<Longrightarrow> encoding (decoded bs) = bs"
proof -
  have "length bs \<le> 4" using isLegalUTF8_length [OF assms(1)] by simp
  moreover have "1 \<le> length bs" using assms(3) by (cases bs) auto
  ultimately have "length bs = 1 \<or> length bs = 2 \<or> length bs = 3 \<or> length bs = 4" by arith
  then have "scalar (decoded bs) \<and> (lead_continued bs \<longrightarrow> encoding (decoded bs) = bs)"
  proof (elim disjE)
    assume "length bs = 1"
    then obtain a where b: "bs = [a]" by (cases bs) auto
    show ?thesis unfolding b using legal_one [of a] assms(2) b by simp
  next
    assume "length bs = 2"
    then obtain a b where b: "bs = [a, b]" by (auto simp: length_Suc_conv numeral_eq_Suc)
    show ?thesis unfolding b using legal_two [of a b r] assms b by (simp add: numeral_2_eq_2)
  next
    assume "length bs = 3"
    then obtain a b c where b: "bs = [a, b, c]" by (auto simp: length_Suc_conv numeral_eq_Suc)
    have p: "UTF8SequenceLength a = 3" "isLegalUTF8 (a # b # c # r) 3" using assms(1,2) unfolding b by (simp_all add: eval_nat_numeral)
    show ?thesis unfolding b using legal_three [OF p]
      by (auto simp: lead_continued_def word_nat_simps word_unat_eq_iff)
  next
    assume "length bs = 4"
    then obtain a b c d where b: "bs = [a, b, c, d]" by (auto simp: length_Suc_conv numeral_eq_Suc)
    have p: "UTF8SequenceLength a = 4" "isLegalUTF8 (a # b # c # d # r) 4" using assms(1,2) unfolding b by (simp_all add: eval_nat_numeral)
    show ?thesis unfolding b using legal_four [OF p]
      by (auto simp: lead_continued_def word_nat_simps word_unat_eq_iff)
  qed
  then show "scalar (decoded bs)" "lead_continued bs \<Longrightarrow> encoding (decoded bs) = bs" by blast+
qed

lemma lead_continued_append: "lead_continued (xs @ ys) \<Longrightarrow> lead_continued xs \<and> lead_continued ys"
proof (induction xs)
  case (Cons x xs)
  then show ?case by (cases xs; cases ys) (auto simp: lead_continued_def)
qed (simp add: lead_continued_def)

lemma decode_then_encode:
  "convertUTF8ToUTF16 strict room bs t = (conversionOK, rest, s) \<Longrightarrow>
   rest = [] \<and> (\<exists>u. s = t @ u \<and> well_formed u
     \<and> (lead_continued bs \<longrightarrow> (\<forall>strict' room' v. 3 * length u \<le> room' \<longrightarrow>
          convertUTF16ToUTF8 strict' room' u v = (conversionOK, [], v @ bs))))"
proof (induction bs arbitrary: room t rule: length_induct)
  case (1 bs)
  show ?case
  proof (cases rule: convertUTF8_cases [of strict room bs t])
    case (stop result)
    then show ?thesis using 1(2) by auto
  next
    case (more xs r units)
    have sc: "scalar (decoded xs)" using legal_scalar(1) more by blast
    obtain us where us: "units_of strict (decoded xs) = Inr us" "us \<noteq> []"
      "\<And>w. well_formed (us @ w) = well_formed w"
      "\<And>strict' w. next_utf16 strict' (hd us) (tl us @ w) = Inr (decoded xs, w)"
      "length (encoding (decoded xs)) \<le> 3 * length us"
      by (rule units_of_scalar [OF sc, of strict]) blast
    from more have "length r < length bs" by simp
    with 1 more obtain u where u: "rest = []" "s = (t @ units) @ u" "well_formed u"
      "lead_continued r \<Longrightarrow> 3 * length u \<le> room' \<Longrightarrow> convertUTF16ToUTF8 strict' room' u v = (conversionOK, [], v @ r)"
      for strict' room' v by metis
    have "convertUTF16ToUTF8 strict' room' (units @ u) v = (conversionOK, [], v @ bs)"
      if lc: "lead_continued bs" and l: "3 * length (units @ u) \<le> room'" for strict' room' v
    proof -
      have e: "encoding (decoded xs) = xs" "lead_continued r"
        using legal_scalar(2) lead_continued_append lc more by blast+
      have s: "units @ u = hd us # tl us @ u" using us more by simp
      have "convertUTF16ToUTF8 strict' room' (units @ u) v = convertUTF16ToUTF8 strict' (room' - length xs) u (v @ xs)"
        unfolding s using convertUTF16_step [OF us(4) _ sc, of room' strict' u v] e us more l
        by (simp del: convertUTF16ToUTF8.simps read_bytes.simps)
      then show ?thesis using u(4) [OF e(2)] e us more l by simp
    qed
    then show ?thesis using u us more by (intro conjI exI [of _ "units @ u"]) auto
  qed
qed

text \<open>C27: Encoding to UTF-8 and decoding back, in strict or lenient mode on either side, is the
  identity on every well-formed UTF-16 string: three bytes for each unit are room enough for the
  encoder, one unit for each unit of the string for the decoder, and nothing of the source is left.\<close>

theorem utf8_roundtrip:
  assumes "well_formed s" "3 * length s \<le> room" "length s \<le> room'"
  shows "\<exists>bs. convertUTF16ToUTF8 strict room s [] = (conversionOK, [], bs)
    \<and> convertUTF8ToUTF16 strict' room' bs [] = (conversionOK, [], s)"
proof -
  obtain bs where bs: "convertUTF16ToUTF8 strict room s [] = (conversionOK, [], [] @ bs)"
    "\<And>r u. convertUTF8ToUTF16 strict' room' (bs @ r) u = convertUTF8ToUTF16 strict' (room' - length s) r (u @ s)"
    using encode_then_decode [OF assms(1,2)] assms(3) by metis
  show ?thesis using bs(1) bs(2) [of "[]" "[]"] by (simp add: convertUTF8ToUTF16.simps [where source = "[]"])
qed

theorem utf8_roundtrip_witness:
  "\<exists>bs. convertUTF16ToUTF8 True 9 [0x41, 0xD83D, 0xDE00] [] = (conversionOK, [], bs)
    \<and> convertUTF8ToUTF16 True 3 bs [] = (conversionOK, [], [0x41, 0xD83D, 0xDE00])"
  by (rule utf8_roundtrip) simp_all

text \<open>Whatever the decoder accepts is well-formed UTF-16, and encodes back to the very bytes that
  were decoded, provided no ASCII byte follows a lead byte ED or F4; the decoder's validity check
  lapses there and accepts other spellings of a character.\<close>

theorem utf8_decoded_canonical:
  assumes "convertUTF8ToUTF16 strict room bs [] = (conversionOK, rest, s)"
  shows "rest = [] \<and> well_formed s \<and>
    (lead_continued bs \<longrightarrow> 3 * length s \<le> room' \<longrightarrow> convertUTF16ToUTF8 strict' room' s [] = (conversionOK, [], bs))"
  using decode_then_encode [OF assms] by auto

theorem utf8_decoded_canonical_witness:
  "convertUTF16ToUTF8 True 6 [0x20AC, 0x41] [] = (conversionOK, [], [0xE2, 0x82, 0xAC, 0x41])"
proof -
  have "convertUTF8ToUTF16 True 2 [0xE2, 0x82, 0xAC, 0x41] [] = (conversionOK, [], [0x20AC, 0x41])"
    by code_simp
  from utf8_decoded_canonical [OF this, of 6 True] show ?thesis by (simp add: lead_continued_def)
qed

text \<open>The decoder takes the ASCII byte 3C after the lead byte ED for a continuation byte: the
  bytes ED 3C 80 decode, in strict mode, to a Hangul syllable whose encoding is other bytes.\<close>

theorem utf8_ascii_continuation:
  "convertUTF8ToUTF16 True 1 [0xED, 0x3C, 0x80] [] = (conversionOK, [], [0xBF00])
   \<and> convertUTF16ToUTF8 True 3 [0xBF00] [] = (conversionOK, [], [0xEB, 0xBC, 0x80])"
  by code_simp

text \<open>The strict encoder succeeds exactly on well-formed UTF-16, given three bytes for each unit;
  neither conversion ever writes more than its room.\<close>

theorem utf8_conversions_bounded:
  "(3 * length s \<le> room \<longrightarrow> (fst (convertUTF16ToUTF8 True room s []) = conversionOK) = well_formed s)
   \<and> length (snd (snd (convertUTF16ToUTF8 strict room s []))) \<le> room
   \<and> length (snd (snd (convertUTF8ToUTF16 strict room bs []))) \<le> room"
proof (intro conjI impI iffI)
  show "length (snd (snd (convertUTF16ToUTF8 strict room s []))) \<le> room"
    using encoder_room [of strict room s "[]"] by simp
  show "length (snd (snd (convertUTF8ToUTF16 strict room bs []))) \<le> room"
    using decoder_room [of strict room bs "[]"] by simp
  show "well_formed s" if "fst (convertUTF16ToUTF8 True room s []) = conversionOK"
    using strict_encoder_well_formed that by blast
  show "fst (convertUTF16ToUTF8 True room s []) = conversionOK" if "3 * length s \<le> room" "well_formed s"
    using encode_then_decode [OF that(2,1), of True "[]" True] by auto
qed

theorem utf8_conversions_bounded_witness:
  "fst (convertUTF16ToUTF8 True 3 [0xD800] []) \<noteq> conversionOK"
  using utf8_conversions_bounded [of "[0xD800]" 3 True "[]"] by simp

end
