(* ===== verification/Timers.thy ===== *)
theory Timers
  imports Prelude Complex_Main
begin

text \<open>
  Timers: src/webkit/WebCore/platform/Timer.cpp, ThreadTimers.cpp and the shared timer of the port,
  src/WKC/WebCore/platform/WKC/SharedTimerWKC.cpp. The timers of a thread are a function from their
  addresses, the heap is a list of addresses, and every timer records its index in that list. Times
  are seconds as real numbers, with the minus infinity the code uses as a key of its own. The heap
  algorithms of the standard library are written out as they are commonly implemented, as a hole
  that moves along a path; \<open>heap_write\<close> is the assignment through \<open>TimerHeapElement\<close>, which keeps
  the index of the timer it writes.
\<close>

section \<open>Times\<close>

datatype fire_time = MinusInfinity | Time real

instantiation fire_time :: linorder
begin

fun less_eq_fire_time :: "fire_time \<Rightarrow> fire_time \<Rightarrow> bool" where
  "less_eq_fire_time MinusInfinity t = True"
| "less_eq_fire_time (Time x) MinusInfinity = False"
| "less_eq_fire_time (Time x) (Time y) = (x \<le> y)"

definition less_fire_time :: "fire_time \<Rightarrow> fire_time \<Rightarrow> bool" where
  "less_fire_time s t = (s \<le> t \<and> \<not> t \<le> s)"

instance
proof
  fix x y z :: fire_time
  show "(x < y) = (x \<le> y \<and> \<not> y \<le> x)" by (simp add: less_fire_time_def)
  show "x \<le> x" by (cases x) simp_all
  show "x \<le> y \<Longrightarrow> y \<le> z \<Longrightarrow> x \<le> z" by (cases x; cases y; cases z) simp_all
  show "x \<le> y \<Longrightarrow> y \<le> x \<Longrightarrow> x = y" by (cases x; cases y) simp_all
  show "x \<le> y \<or> y \<le> x" by (cases x; cases y) auto
qed

end

fun add_time :: "fire_time \<Rightarrow> real \<Rightarrow> fire_time" where
  "add_time MinusInfinity d = MinusInfinity"
| "add_time (Time x) d = Time (x + d)"

section \<open>State\<close>

type_synonym timer_id = nat

record timer =
  m_nextFireTime :: fire_time
  m_repeatInterval :: real
  m_heapIndex :: int
  m_heapInsertionOrder :: u32

text \<open>
  The shared timer of the port: the peer's one-shot timer, which exists or not and is armed with a
  number of milliseconds, with the time it was asked for beside it; and whether a function is set.
\<close>

record shared_timer =
  st_peer :: bool
  st_function :: bool
  st_armed :: "(fire_time \<times> int) option"

record threads =
  timers :: "timer_id \<Rightarrow> timer"
  timerHeap :: "timer_id list"
  currentHeapInsertionOrder :: u32
  m_sharedTimer :: bool
  m_firingTimers :: bool
  sharedTimer :: shared_timer
  clock :: real

abbreviation timer_key :: "threads \<Rightarrow> timer_id \<Rightarrow> fire_time" where
  "timer_key s t \<equiv> m_nextFireTime (timers s t)"

definition TimerBase_new :: timer where
  "TimerBase_new = \<lparr>m_nextFireTime = Time 0, m_repeatInterval = 0, m_heapIndex = -1, m_heapInsertionOrder = 0\<rparr>"

definition set_timer :: "timer_id \<Rightarrow> (timer \<Rightarrow> timer) \<Rightarrow> threads \<Rightarrow> threads" where
  "set_timer t f s = s\<lparr>timers := (timers s)(t := f (timers s t))\<rparr>"

section \<open>The shared timer of the port\<close>

text \<open>The conversion of the interval to milliseconds truncates; a time in the past is 0. C++ does not define the cast of
  a double beyond the range of \<open>int\<close> (more than 24 days): there the value is what the cast is meant to give.\<close>

fun intervalInMS :: "fire_time \<Rightarrow> real \<Rightarrow> int" where
  "intervalInMS MinusInfinity now = 0"
| "intervalInMS (Time x) now = (if x - now < 0 then 0 else \<lfloor>(x - now) * 1000\<rfloor>)"

definition stopSharedTimer :: "threads \<Rightarrow> threads" where
  "stopSharedTimer s = (if \<not> st_peer (sharedTimer s) then s else s\<lparr>sharedTimer := (sharedTimer s)\<lparr>st_armed := None\<rparr>\<rparr>)"

definition setSharedTimerFireTime :: "fire_time \<Rightarrow> threads \<Rightarrow> threads" where
  "setSharedTimerFireTime fireTime s =
     (let s1 = stopSharedTimer s
      in if \<not> st_peer (sharedTimer s1) then s1
         else s1\<lparr>sharedTimer := (sharedTimer s1)\<lparr>st_armed := Some (fireTime, intervalInMS fireTime (clock s))\<rparr>\<rparr>)"

definition setSharedTimerFiredFunction :: "bool \<Rightarrow> threads \<Rightarrow> threads" where
  "setSharedTimerFiredFunction f s = s\<lparr>sharedTimer := (sharedTimer s)\<lparr>st_function := f\<rparr>\<rparr>"

definition initializeSharedTimer :: "bool \<Rightarrow> threads \<Rightarrow> bool \<times> threads" where
  "initializeSharedTimer peer s = (peer, s\<lparr>sharedTimer := (sharedTimer s)\<lparr>st_peer := peer, st_armed := None\<rparr>\<rparr>)"

definition finalizeSharedTimer :: "threads \<Rightarrow> threads" where
  "finalizeSharedTimer s =
     (if \<not> st_peer (sharedTimer s) then s else s\<lparr>sharedTimer := (sharedTimer s)\<lparr>st_peer := False, st_armed := None\<rparr>\<rparr>)"

section \<open>Arming the shared timer\<close>

definition updateSharedTimer :: "threads \<Rightarrow> threads" where
  "updateSharedTimer s =
     (if \<not> m_sharedTimer s then s
      else if m_firingTimers s \<or> timerHeap s = [] then stopSharedTimer s
      else setSharedTimerFireTime (timer_key s (hd (timerHeap s))) s)"

definition setSharedTimer :: "bool \<Rightarrow> threads \<Rightarrow> threads" where
  "setSharedTimer new s =
     (let s1 = (if m_sharedTimer s then stopSharedTimer (setSharedTimerFiredFunction False s) else s);
          s2 = s1\<lparr>m_sharedTimer := new\<rparr>
      in if new then updateSharedTimer (setSharedTimerFiredFunction True s2) else s2)"

section \<open>The heap\<close>

text \<open>\<open>operator<\<close> on heap elements, backwards: the soonest timer is the largest.\<close>

definition timer_less :: "threads \<Rightarrow> timer_id \<Rightarrow> timer_id \<Rightarrow> bool" where
  "timer_less s a b =
     (let aFireTime = timer_key s a; bFireTime = timer_key s b
      in if bFireTime \<noteq> aFireTime then bFireTime < aFireTime
         else m_heapInsertionOrder (timers s a) - m_heapInsertionOrder (timers s b) < 0xFFFFFFFF div 2)"

definition heap_write :: "nat \<Rightarrow> timer_id \<Rightarrow> threads \<Rightarrow> threads" where
  "heap_write i t s = set_timer t (m_heapIndex_update (\<lambda>_. int i)) (s\<lparr>timerHeap := (timerHeap s)[i := t]\<rparr>)"

text \<open>A value rises from a hole: the parents that are less move down.\<close>

fun push_up :: "nat \<Rightarrow> timer_id \<Rightarrow> threads \<Rightarrow> threads" where
  "push_up hole v s =
     (if hole > 0 \<and> timer_less s (timerHeap s ! ((hole - 1) div 2)) v
      then push_up ((hole - 1) div 2) v (heap_write hole (timerHeap s ! ((hole - 1) div 2)) s)
      else heap_write hole v s)"

text \<open>\<open>push_heap(0, last)\<close> with the value at \<open>last - 1\<close>.\<close>

definition push_heap :: "nat \<Rightarrow> threads \<Rightarrow> threads" where
  "push_heap l s = push_up (l - 1) (timerHeap s ! (l - 1)) s"

text \<open>A hole sinks to a leaf of the first \<open>len\<close> elements, the larger child moving up.\<close>

definition larger_child :: "threads \<Rightarrow> nat \<Rightarrow> nat" where
  "larger_child s hole =
     (let r = 2 * hole + 2 in if timer_less s (timerHeap s ! r) (timerHeap s ! (r - 1)) then r - 1 else r)"

function sink :: "nat \<Rightarrow> nat \<Rightarrow> threads \<Rightarrow> nat \<times> threads" where
  "sink len hole s =
     (if 2 * hole + 2 < len
      then sink len (larger_child s hole) (heap_write hole (timerHeap s ! larger_child s hole) s)
      else if 2 * hole + 1 < len
      then (2 * hole + 1, heap_write hole (timerHeap s ! (2 * hole + 1)) s)
      else (hole, s))"
  by pat_completeness auto
termination
  by (relation "measure (\<lambda>(len, hole, _). len - hole)") (auto simp: larger_child_def Let_def)

text \<open>\<open>pop_heap(0, len)\<close>: the first element goes last, the last one into the hole it leaves.\<close>

definition pop_heap :: "nat \<Rightarrow> threads \<Rightarrow> threads" where
  "pop_heap len s =
     (if len > 1
      then let v = timerHeap s ! (len - 1);
               s1 = heap_write (len - 1) (timerHeap s ! 0) s;
               (hole, s2) = sink (len - 1) 0 s1
           in push_up hole v s2
      else s)"

declare push_up.simps [simp del] sink.simps [simp del]

section \<open>Operations on the heap\<close>

definition heapDecreaseKey :: "timer_id \<Rightarrow> threads \<Rightarrow> threads" where
  "heapDecreaseKey t s = push_heap (nat (m_heapIndex (timers s t) + 1)) s"

definition heapPopMin :: "threads \<Rightarrow> threads" where
  "heapPopMin s = pop_heap (length (timerHeap s)) s"

definition heapPop :: "timer_id \<Rightarrow> threads \<Rightarrow> threads" where
  "heapPop t s =
     (let fireTime = timer_key s t;
          s1 = set_timer t (m_nextFireTime_update (\<lambda>_. MinusInfinity)) s
      in set_timer t (m_nextFireTime_update (\<lambda>_. fireTime)) (heapPopMin (heapDecreaseKey t s1)))"

definition remove_last :: "timer_id \<Rightarrow> threads \<Rightarrow> threads" where
  "remove_last t s = set_timer t (m_heapIndex_update (\<lambda>_. -1)) (s\<lparr>timerHeap := butlast (timerHeap s)\<rparr>)"

definition heapDelete :: "timer_id \<Rightarrow> threads \<Rightarrow> threads" where
  "heapDelete t s = remove_last t (heapPop t s)"

definition heapDeleteMin :: "timer_id \<Rightarrow> threads \<Rightarrow> threads" where
  "heapDeleteMin t s = remove_last t (heapPopMin s)"

definition heapIncreaseKey :: "timer_id \<Rightarrow> threads \<Rightarrow> threads" where
  "heapIncreaseKey t s = heapDecreaseKey t (heapPop t s)"

definition heapInsert :: "timer_id \<Rightarrow> threads \<Rightarrow> threads" where
  "heapInsert t s =
     (let s1 = s\<lparr>timerHeap := timerHeap s @ [t]\<rparr>
      in heapDecreaseKey t (set_timer t (m_heapIndex_update (\<lambda>_. int (length (timerHeap s1)) - 1)) s1))"

section \<open>Operations on timers\<close>

definition setNextFireTime :: "timer_id \<Rightarrow> fire_time \<Rightarrow> threads \<Rightarrow> threads" where
  "setNextFireTime t newTime s =
     (let oldTime = timer_key s t
      in if oldTime \<noteq> newTime
         then let s1 = set_timer t (\<lambda>r. r\<lparr>m_nextFireTime := newTime, m_heapInsertionOrder := currentHeapInsertionOrder s\<rparr>) s;
                  s2 = s1\<lparr>currentHeapInsertionOrder := currentHeapInsertionOrder s + 1\<rparr>;
                  wasFirstTimerInHeap = (m_heapIndex (timers s2 t) = 0);
                  s3 = (if oldTime = Time 0 then heapInsert t s2
                        else if newTime = Time 0 then heapDelete t s2
                        else if newTime < oldTime then heapDecreaseKey t s2
                        else heapIncreaseKey t s2);
                  isFirstTimerInHeap = (m_heapIndex (timers s3 t) = 0)
              in if wasFirstTimerInHeap \<or> isFirstTimerInHeap then updateSharedTimer s3 else s3
         else s)"

definition timer_start :: "timer_id \<Rightarrow> real \<Rightarrow> real \<Rightarrow> threads \<Rightarrow> threads" where
  "timer_start t nextFireInterval repeatInterval s =
     setNextFireTime t (Time (clock s + nextFireInterval)) (set_timer t (m_repeatInterval_update (\<lambda>_. repeatInterval)) s)"

definition timer_stop :: "timer_id \<Rightarrow> threads \<Rightarrow> threads" where
  "timer_stop t s = setNextFireTime t (Time 0) (set_timer t (m_repeatInterval_update (\<lambda>_. 0)) s)"

definition isActive :: "timer_id \<Rightarrow> threads \<Rightarrow> bool" where
  "isActive t s \<longleftrightarrow> timer_key s t \<noteq> Time 0"

definition nextFireInterval :: "timer_id \<Rightarrow> threads \<Rightarrow> real" where
  "nextFireInterval t s =
     (if timer_key s t < Time (clock s) then 0
      else case timer_key s t of Time x \<Rightarrow> x - clock s | MinusInfinity \<Rightarrow> 0)"

definition augmentRepeatInterval :: "timer_id \<Rightarrow> real \<Rightarrow> threads \<Rightarrow> threads" where
  "augmentRepeatInterval t delta s =
     set_timer t (m_repeatInterval_update (\<lambda>i. i + delta)) (setNextFireTime t (add_time (timer_key s t) delta) s)"

section \<open>Firing\<close>

definition maxDurationOfFiringTimers :: real where
  "maxDurationOfFiringTimers = 0.050"

text \<open>The part of an iteration before \<open>fired()\<close>: the first timer leaves the heap and, when it repeats, comes back.\<close>

definition take_due :: "real \<Rightarrow> threads \<Rightarrow> threads" where
  "take_due fireTime s =
     (let t = hd (timerHeap s);
          s1 = heapDeleteMin t (set_timer t (m_nextFireTime_update (\<lambda>_. Time 0)) s);
          interval = m_repeatInterval (timers s1 t)
      in setNextFireTime t (if interval \<noteq> 0 then Time (fireTime + interval) else Time 0) s1)"

text \<open>
  The loop over the due timers. What \<open>fired()\<close> of a timer does is a parameter, which may use any
  operation of this theory and let time pass; it and the loop may not return.
\<close>

partial_function (option) fire_loop ::
  "(timer_id \<Rightarrow> threads \<Rightarrow> threads option) \<Rightarrow> real \<Rightarrow> real \<Rightarrow> threads \<Rightarrow> threads option" where
  "fire_loop fired fireTime timeToQuit s =
     (if timerHeap s \<noteq> [] \<and> timer_key s (hd (timerHeap s)) \<le> Time fireTime
      then Option.bind (fired (hd (timerHeap s)) (take_due fireTime s)) (\<lambda>s'.
             if \<not> m_firingTimers s' \<or> timeToQuit < clock s' then Some s'
             else fire_loop fired fireTime timeToQuit s')
      else Some s)"

definition sharedTimerFired :: "(timer_id \<Rightarrow> threads \<Rightarrow> threads option) \<Rightarrow> threads \<Rightarrow> threads option" where
  "sharedTimerFired fired s =
     (if m_firingTimers s then Some s
      else let fireTime = clock s; timeToQuit = fireTime + maxDurationOfFiringTimers
           in map_option (\<lambda>s'. updateSharedTimer (s'\<lparr>m_firingTimers := False\<rparr>))
                (fire_loop fired fireTime timeToQuit (s\<lparr>m_firingTimers := True\<rparr>)))"

definition fireTimersInNestedEventLoop :: "threads \<Rightarrow> threads" where
  "fireTimersInNestedEventLoop s = updateSharedTimer (s\<lparr>m_firingTimers := False\<rparr>)"

text \<open>The peer's callback when the one-shot timer expires: it is consumed, and the function is called if one is set.\<close>

definition timeout_cb :: "(timer_id \<Rightarrow> threads \<Rightarrow> threads option) \<Rightarrow> threads \<Rightarrow> threads option" where
  "timeout_cb fired s =
     (let s1 = s\<lparr>sharedTimer := (sharedTimer s)\<lparr>st_armed := None\<rparr>\<rparr>
      in if st_function (sharedTimer s1) then sharedTimerFired fired s1 else Some s1)"

end
