(* ===== verification/TimersFacts.thy ===== *)
theory TimersFacts
  imports Timers "HOL-Library.Multiset"
begin

text \<open>
  The timer heap keeps its order and the indices in its timers through every operation, holds
  exactly the active timers, and the shared timer is armed for the soonest of them.
\<close>

section \<open>What the heap algorithms leave alone\<close>

text \<open>Everything but the heap, the heap indices and the shared timer's arming.\<close>

definition reindexed :: "threads \<Rightarrow> threads \<Rightarrow> bool" where
  "reindexed s s' \<longleftrightarrow> (\<exists>g xs. s' = s\<lparr>timers := (\<lambda>t. timers s t\<lparr>m_heapIndex := g t\<rparr>), timerHeap := xs\<rparr>)"

lemma reindexed_refl [intro]: "reindexed s s"
  unfolding reindexed_def by (intro exI [of _ "\<lambda>t. m_heapIndex (timers s t)"] exI [of _ "timerHeap s"]) simp

lemma reindexed_trans: "reindexed s s' \<Longrightarrow> reindexed s' s'' \<Longrightarrow> reindexed s s''"
  unfolding reindexed_def by (elim exE) (simp, blast)

lemma reindexed_heap_write [intro]: "reindexed s (heap_write i t s)"
  unfolding reindexed_def heap_write_def set_timer_def
  by (intro exI [of _ "\<lambda>u. if u = t then int i else m_heapIndex (timers s u)"] exI [of _ "(timerHeap s)[i := t]"])
    (simp add: fun_eq_iff)

lemma reindexedD:
  assumes "reindexed s s'"
  shows "timer_key s' = timer_key s" "m_repeatInterval (timers s' t) = m_repeatInterval (timers s t)"
    "m_firingTimers s' = m_firingTimers s" "m_sharedTimer s' = m_sharedTimer s" "sharedTimer s' = sharedTimer s"
    "clock s' = clock s" "currentHeapInsertionOrder s' = currentHeapInsertionOrder s" "timer_less s' = timer_less s"
  using assms unfolding reindexed_def by (auto simp: timer_less_def fun_eq_iff)

lemma reindexed_key: "reindexed s s' \<Longrightarrow> timer_key s' t = timer_key s t"
  using reindexedD(1) by (rule fun_cong)

lemma heap_write_simps [simp]:
  "timerHeap (heap_write i t s) = (timerHeap s)[i := t]"
  "m_heapIndex (timers (heap_write i t s) u) = (if u = t then int i else m_heapIndex (timers s u))"
  by (simp_all add: heap_write_def set_timer_def)

lemma reindexed_push_up: "reindexed s (push_up hole v s)"
proof (induction hole v s rule: push_up.induct)
  case (1 hole v s)
  then show ?case
    by (subst push_up.simps) (auto intro: reindexed_trans [OF reindexed_heap_write])
qed

lemma reindexed_sink: "reindexed s (snd (sink len hole s))"
proof (induction len hole s rule: sink.induct)
  case (1 len hole s)
  show ?case
  proof (cases "2 * hole + 2 < len")
    case True
    then show ?thesis
      using 1 [OF True] by (subst sink.simps) (auto intro: reindexed_trans [OF reindexed_heap_write])
  next
    case False
    then show ?thesis by (subst sink.simps) auto
  qed
qed

lemma sink_snd: "sink len hole s = (h, s') \<Longrightarrow> reindexed s s'"
  using reindexed_sink [of s len hole] by simp

section \<open>Elements and indices\<close>

text \<open>A heap with a hole, to be filled with a value: no timer is there twice and each knows its place.\<close>

definition holed :: "threads \<Rightarrow> nat \<Rightarrow> timer_id \<Rightarrow> bool" where
  "holed s h v \<longleftrightarrow> h < length (timerHeap s) \<and> distinct ((timerHeap s)[h := v]) \<and>
     (\<forall>i < length (timerHeap s). i \<noteq> h \<longrightarrow> m_heapIndex (timers s (timerHeap s ! i)) = int i)"

definition indexed :: "threads \<Rightarrow> bool" where
  "indexed s \<longleftrightarrow> distinct (timerHeap s) \<and> (\<forall>i < length (timerHeap s). m_heapIndex (timers s (timerHeap s ! i)) = int i)"

lemma indexed_holed: "indexed s \<Longrightarrow> i < length (timerHeap s) \<Longrightarrow> holed s i (timerHeap s ! i)"
  by (simp add: indexed_def holed_def)

text \<open>Moving an element into the hole: the hole is where it was.\<close>

lemma holed_distinct:
  assumes "holed s h v" "i < length (timerHeap s)" "i \<noteq> h"
  shows "timerHeap s ! i \<noteq> v" "j < length (timerHeap s) \<Longrightarrow> j \<noteq> h \<Longrightarrow> timerHeap s ! i = timerHeap s ! j \<Longrightarrow> i = j"
proof -
  have d: "distinct ((timerHeap s)[h := v])" "h < length (timerHeap s)" using assms by (simp_all add: holed_def)
  show "timerHeap s ! i \<noteq> v"
    using nth_eq_iff_index_eq [OF d(1), of i h] assms d(2) by simp
  show "j < length (timerHeap s) \<Longrightarrow> j \<noteq> h \<Longrightarrow> timerHeap s ! i = timerHeap s ! j \<Longrightarrow> i = j"
    using nth_eq_iff_index_eq [OF d(1), of i j] assms d(2) by simp
qed

lemma list_swap_hole:
  assumes "h < length xs" "j < length xs" "j \<noteq> h"
  shows "mset (xs[h := xs ! j, j := v]) = mset (xs[h := v])"
proof -
  have "mset ((xs[h := v])[h := xs[h := v] ! j, j := xs[h := v] ! h]) = mset (xs[h := v])"
    using assms by (intro mset_swap) simp_all
  then show ?thesis using assms by simp
qed

lemma holed_move:
  assumes "holed s h v" "j < length (timerHeap s)" "j \<noteq> h"
  defines "s' \<equiv> heap_write h (timerHeap s ! j) s"
  shows "holed s' j v" "mset ((timerHeap s')[j := v]) = mset ((timerHeap s)[h := v])"
proof -
  show m: "mset ((timerHeap s')[j := v]) = mset ((timerHeap s)[h := v])"
    using assms list_swap_hole [of h "timerHeap s" j v] by (simp add: holed_def)
  have "distinct ((timerHeap s')[j := v])"
    using assms(1) mset_eq_imp_distinct_iff [OF m] by (simp add: holed_def)
  moreover have "i = j" if "i < length (timerHeap s)" "i \<noteq> h" "timerHeap s ! i = timerHeap s ! j" for i
    using holed_distinct(2) [OF assms(1) that(1,2) assms(2,3) that(3)] .
  ultimately show "holed s' j v"
    using assms by (auto simp: holed_def nth_list_update)
qed

lemma indexed_fill: "holed s h v \<Longrightarrow> indexed (heap_write h v s)"
  using holed_distinct(1) [of s h v] by (auto simp: holed_def indexed_def nth_list_update)

lemma push_up_indexed:
  "holed s h v \<Longrightarrow> indexed (push_up h v s) \<and> mset (timerHeap (push_up h v s)) = mset ((timerHeap s)[h := v])
     \<and> (\<forall>t. t \<notin> set ((timerHeap s)[h := v]) \<longrightarrow> m_heapIndex (timers (push_up h v s) t) = m_heapIndex (timers s t))"
proof (induction h v s rule: push_up.induct)
  case (1 h v s)
  let ?p = "(h - 1) div 2"
  show ?case
  proof (cases "h > 0 \<and> timer_less s (timerHeap s ! ?p) v")
    case True
    have p: "?p < length (timerHeap s)" "?p \<noteq> h" using 1(2) True by (auto simp: holed_def)
    note mv = holed_move [OF 1(2) p]
    have e: "set ((timerHeap s)[h := timerHeap s ! ?p, ?p := v]) = set ((timerHeap s)[h := v])"
      using arg_cong [OF mv(2), of set_mset] by simp
    have "timerHeap s ! ?p \<in> set ((timerHeap s)[h := v])"
      using p by (metis length_list_update nth_list_update_neq nth_mem)
    then show ?thesis
      using 1(1) [OF True mv(1)] mv(2) True e by (subst (1 2 3) push_up.simps) auto
  next
    case False
    then show ?thesis
      using indexed_fill [OF 1(2)] 1(2) by (subst (1 2 3) push_up.simps) (auto simp: holed_def set_update_memI)
  qed
qed

lemma larger_child_bounds:
  assumes "2 * hole + 2 < len"
  shows "larger_child s hole < len" "larger_child s hole \<noteq> hole" "hole < larger_child s hole"
    "(larger_child s hole - 1) div 2 = hole"
  using assms by (auto simp: larger_child_def Let_def)

lemma sink_indexed:
  assumes "holed s h v" "len \<le> length (timerHeap s)" "h < len"
  shows "case sink len h s of (h', s') \<Rightarrow> holed s' h' v \<and> h' < len \<and> length (timerHeap s') = length (timerHeap s)
     \<and> mset ((timerHeap s')[h' := v]) = mset ((timerHeap s)[h := v])
     \<and> (\<forall>t. t \<notin> set ((timerHeap s)[h := v]) \<longrightarrow> m_heapIndex (timers s' t) = m_heapIndex (timers s t))
     \<and> (\<forall>i. len \<le> i \<longrightarrow> timerHeap s' ! i = timerHeap s ! i)"
  using assms
proof (induction len h s rule: sink.induct)
  case (1 len h s)
  have mem: "timerHeap s ! c \<in> set ((timerHeap s)[h := v])" if "c < length (timerHeap s)" "c \<noteq> h" for c
    using that by (metis length_list_update nth_list_update_neq nth_mem)
  consider "2 * h + 2 < len" | "2 * h + 2 = len" | "len \<le> 2 * h + 1" by linarith
  then show ?case
  proof cases
    case 1
    let ?c = "larger_child s h"
    have c: "?c < length (timerHeap s)" "?c \<noteq> h" "?c < len" using larger_child_bounds [OF 1, of s] 1(1) "1.prems" by auto
    note mv = holed_move [OF \<open>holed s h v\<close> c(1,2)]
    have e: "set ((timerHeap s)[h := timerHeap s ! ?c, ?c := v]) = set ((timerHeap s)[h := v])"
      using arg_cong [OF mv(2), of set_mset] by simp
    have "case sink len ?c (heap_write h (timerHeap s ! ?c) s) of (h', s') \<Rightarrow> holed s' h' v \<and> h' < len
      \<and> length (timerHeap s') = length (timerHeap s)
      \<and> mset ((timerHeap s')[h' := v]) = mset ((timerHeap s)[h := timerHeap s ! ?c, ?c := v])
      \<and> (\<forall>t. t \<notin> set ((timerHeap s)[h := timerHeap s ! ?c, ?c := v]) \<longrightarrow>
             m_heapIndex (timers s' t) = m_heapIndex (timers (heap_write h (timerHeap s ! ?c) s) t))
      \<and> (\<forall>i. len \<le> i \<longrightarrow> timerHeap s' ! i = (timerHeap s)[h := timerHeap s ! ?c] ! i)"
      using "1.IH" [OF 1] mv(1) "1.prems"(2) c(3) by simp
    then show ?thesis
      using 1 mv(2) e mem [OF c(1,2)] "1.prems"(3) by (subst sink.simps) auto
  next
    case 2
    let ?c = "2 * h + 1"
    have c: "?c < length (timerHeap s)" "?c \<noteq> h" using 2 "1.prems" by auto
    note mv = holed_move [OF \<open>holed s h v\<close> c]
    show ?thesis
      using 2 mv mem [OF c] "1.prems" by (subst sink.simps) auto
  next
    case 3
    then show ?thesis using "1.prems" by (subst sink.simps) auto
  qed
qed

lemma push_up_above: "h < i \<Longrightarrow> timerHeap (push_up h v s) ! i = timerHeap s ! i"
proof (induction h v s rule: push_up.induct)
  case (1 h v s)
  then show ?case
    by (cases "h > 0 \<and> timer_less s (timerHeap s ! ((h - 1) div 2)) v") (subst push_up.simps, simp)+
qed

text \<open>\<open>pop_heap\<close> brings the first timer to the end.\<close>

lemma pop_heap_split:
  assumes "indexed s" "1 < length (timerHeap s)"
  defines "n \<equiv> length (timerHeap s)"
  obtains h s' where "pop_heap n s = push_up h (timerHeap s ! (n - 1)) s'"
    "sink (n - 1) 0 (heap_write (n - 1) (timerHeap s ! 0) s) = (h, s')"
    "holed s' h (timerHeap s ! (n - 1))" "h < n - 1" "length (timerHeap s') = n"
    "mset ((timerHeap s')[h := timerHeap s ! (n - 1)]) = mset (timerHeap s)"
    "\<And>t. t \<notin> set (timerHeap s) \<Longrightarrow> m_heapIndex (timers s' t) = m_heapIndex (timers s t)"
    "timerHeap s' ! (n - 1) = timerHeap s ! 0"
proof -
  let ?v = "timerHeap s ! (n - 1)" and ?s1 = "heap_write (n - 1) (timerHeap s ! 0) s"
  have n: "n - 1 < length (timerHeap s)" "0 < length (timerHeap s)" "0 \<noteq> n - 1" using assms by auto
  note mv = holed_move [OF indexed_holed [OF assms(1) n(1)] n(2,3)]
  have m1: "mset ((timerHeap ?s1)[0 := ?v]) = mset (timerHeap s)" using mv(2) by simp
  then have e1: "set ((timerHeap ?s1)[0 := ?v]) = set (timerHeap s)" by (rule mset_eq_setD)
  obtain h s' where hs: "sink (n - 1) 0 ?s1 = (h, s')" by fastforce
  have k: "holed s' h ?v" "h < n - 1" "length (timerHeap s') = n" "mset ((timerHeap s')[h := ?v]) = mset (timerHeap s)"
    "\<forall>t. t \<notin> set (timerHeap s) \<longrightarrow> m_heapIndex (timers s' t) = m_heapIndex (timers ?s1 t)"
    "timerHeap s' ! (n - 1) = timerHeap s ! 0"
    using sink_indexed [OF mv(1), of "n - 1"] m1 e1 n unfolding hs prod.case by (auto simp: n_def)
  have "pop_heap n s = push_up h ?v s'" using assms hs by (simp add: pop_heap_def n_def)
  moreover have "m_heapIndex (timers s' t) = m_heapIndex (timers s t)" if "t \<notin> set (timerHeap s)" for t
    using k(5) that n by auto
  ultimately show thesis using that hs k by blast
qed

lemma pop_heap_indexed:
  assumes "indexed s" "0 < length (timerHeap s)"
  defines "n \<equiv> length (timerHeap s)"
  shows "indexed (pop_heap n s) \<and> mset (timerHeap (pop_heap n s)) = mset (timerHeap s)
     \<and> timerHeap (pop_heap n s) ! (n - 1) = timerHeap s ! 0
     \<and> (\<forall>t. t \<notin> set (timerHeap s) \<longrightarrow> m_heapIndex (timers (pop_heap n s) t) = m_heapIndex (timers s t))"
proof (cases "1 < length (timerHeap s)")
  case True
  then obtain h s' where r: "pop_heap n s = push_up h (timerHeap s ! (n - 1)) s'"
    "holed s' h (timerHeap s ! (n - 1))" "h < n - 1" "mset ((timerHeap s')[h := timerHeap s ! (n - 1)]) = mset (timerHeap s)"
    "\<And>t. t \<notin> set (timerHeap s) \<Longrightarrow> m_heapIndex (timers s' t) = m_heapIndex (timers s t)"
    "timerHeap s' ! (n - 1) = timerHeap s ! 0"
    using pop_heap_split [OF assms(1) True] unfolding n_def by metis
  have e: "set ((timerHeap s')[h := timerHeap s ! (n - 1)]) = set (timerHeap s)"
    using arg_cong [OF r(4), of set_mset] by simp
  show ?thesis using push_up_indexed [OF r(2)] r push_up_above [OF r(3)] e by auto
qed (use assms in \<open>auto simp: pop_heap_def\<close>)

lemma reindexed_pop_heap: "reindexed s (pop_heap n s)"
proof (cases "n > 1")
  case True
  obtain h s' where hs: "sink (n - 1) 0 (heap_write (n - 1) (timerHeap s ! 0) s) = (h, s')" by fastforce
  then have "reindexed s s'" using sink_snd reindexed_heap_write reindexed_trans by blast
  then show ?thesis using True hs reindexed_trans [OF _ reindexed_push_up] by (simp add: pop_heap_def)
qed (auto simp: pop_heap_def)

section \<open>Order\<close>

text \<open>
  The heap order by fire times alone: whatever the comparison does with equal times, it never puts
  a later timer above an earlier one.
\<close>

lemma timer_lessD:
  "timer_less s a b \<Longrightarrow> timer_key s b \<le> timer_key s a" "\<not> timer_less s a b \<Longrightarrow> timer_key s a \<le> timer_key s b"
  by (auto simp: timer_less_def Let_def split: if_splits)

definition ordered_to :: "threads \<Rightarrow> nat \<Rightarrow> bool" where
  "ordered_to s n \<longleftrightarrow> (\<forall>i. 0 < i \<and> i < n \<longrightarrow> timer_key s (timerHeap s ! ((i - 1) div 2)) \<le> timer_key s (timerHeap s ! i))"

text \<open>Ordered apart from a hole, whose children are not before its parent.\<close>

definition ordered_but :: "threads \<Rightarrow> nat \<Rightarrow> nat \<Rightarrow> bool" where
  "ordered_but s n h \<longleftrightarrow> h < n \<and> n \<le> length (timerHeap s) \<and> (\<forall>i. 0 < i \<and> i < n \<longrightarrow>
     (if (i - 1) div 2 = h then 0 < h \<longrightarrow> timer_key s (timerHeap s ! ((h - 1) div 2)) \<le> timer_key s (timerHeap s ! i)
      else i = h \<or> timer_key s (timerHeap s ! ((i - 1) div 2)) \<le> timer_key s (timerHeap s ! i)))"

definition above_children :: "threads \<Rightarrow> nat \<Rightarrow> nat \<Rightarrow> fire_time \<Rightarrow> bool" where
  "above_children s n h k \<longleftrightarrow> (\<forall>i. 0 < i \<and> i < n \<and> (i - 1) div 2 = h \<longrightarrow> k \<le> timer_key s (timerHeap s ! i))"

lemma heap_write_key [simp]: "timer_key (heap_write i t s) u = timer_key s u"
  using reindexedD(1) [OF reindexed_heap_write [of s i t]] by (simp add: fun_eq_iff)

lemma ordered_but_fill:
  assumes "ordered_but s n h" "above_children s n h (timer_key s v)"
    "h = 0 \<or> timer_key s (timerHeap s ! ((h - 1) div 2)) \<le> timer_key s v"
  shows "ordered_to (heap_write h v s) n"
  using assms unfolding ordered_to_def ordered_but_def above_children_def
  by (auto simp: nth_list_update)

lemma ordered_but_up:
  assumes "ordered_but s n h" "0 < h" "timer_key s v \<le> timer_key s (timerHeap s ! ((h - 1) div 2))"
  defines "s' \<equiv> heap_write h (timerHeap s ! ((h - 1) div 2)) s"
  shows "ordered_but s' n ((h - 1) div 2)" "above_children s' n ((h - 1) div 2) (timer_key s' v)"
proof -
  let ?p = "(h - 1) div 2" and ?f = "\<lambda>i. timer_key s (timerHeap s ! i)"
  have h: "h < n" "n \<le> length (timerHeap s)" and p: "?p < h" using assms by (auto simp: ordered_but_def)
  have f: "timer_key s' (timerHeap s' ! i) = (if i = h then ?f ?p else ?f i)" for i
    using h by (simp add: s'_def nth_list_update)
  have le: "?f ((i - 1) div 2) \<le> ?f i" if "0 < i" "i < n" "i \<noteq> h" "(i - 1) div 2 \<noteq> h" for i
    using assms(1) that by (auto simp: ordered_but_def)
  have up: "?f ?p \<le> ?f i" if "0 < i" "i < n" "(i - 1) div 2 = h" for i
    using assms(1,2) that by (auto simp: ordered_but_def)
  have sib: "?f ?p \<le> ?f i" if "0 < i" "i < n" "(i - 1) div 2 = ?p" "i \<noteq> h" for i
    using le [of i] that p by auto
  have pp: "?f ((?p - 1) div 2) \<le> ?f ?p" if "0 < ?p" using le [of ?p] that p h by auto
  have "(?p - 1) div 2 \<noteq> h" using p by auto
  then show "ordered_but s' n ?p"
    unfolding ordered_but_def f using p h pp sib up le order_trans [OF pp sib] by (auto simp: s'_def)
  show "above_children s' n ?p (timer_key s' v)"
    unfolding above_children_def f using assms(3) order_trans [OF assms(3) sib] by (auto simp: s'_def)
qed

lemma push_up_ordered:
  "ordered_but s n h \<Longrightarrow> above_children s n h (timer_key s v) \<Longrightarrow> ordered_to (push_up h v s) n"
proof (induction h v s rule: push_up.induct)
  case (1 h v s)
  show ?case
  proof (cases "h > 0 \<and> timer_less s (timerHeap s ! ((h - 1) div 2)) v")
    case True
    then show ?thesis
      using 1 ordered_but_up [OF 1(2), of v] timer_lessD(1) by (subst push_up.simps) simp
  next
    case False
    then show ?thesis
      using 1 ordered_but_fill [OF 1(2,3)] timer_lessD(2) by (subst push_up.simps) auto
  qed
qed

lemma ordered_but_down:
  assumes "ordered_but s n h" "0 < c" "c < n" "(c - 1) div 2 = h"
    "\<And>i. 0 < i \<Longrightarrow> i < n \<Longrightarrow> (i - 1) div 2 = h \<Longrightarrow> timer_key s (timerHeap s ! c) \<le> timer_key s (timerHeap s ! i)"
  shows "ordered_but (heap_write h (timerHeap s ! c) s) n c"
proof -
  let ?f = "\<lambda>i. timer_key s (timerHeap s ! i)" and ?s' = "heap_write h (timerHeap s ! c) s"
  have h: "h < n" "n \<le> length (timerHeap s)" and c: "h < c" using assms(1-4) by (auto simp: ordered_but_def)
  have f: "timer_key ?s' (timerHeap ?s' ! i) = (if i = h then ?f c else ?f i)" for i
    using h by (simp add: nth_list_update)
  have le: "?f ((i - 1) div 2) \<le> ?f i" if "0 < i" "i < n" "i \<noteq> h" "(i - 1) div 2 \<noteq> h" for i
    using assms(1) that by (auto simp: ordered_but_def)
  have up: "?f ((h - 1) div 2) \<le> ?f c" if "0 < h"
    using assms(1-4) that by (auto simp: ordered_but_def)
  have under: "?f c \<le> ?f i" if "0 < i" "i < n" "(i - 1) div 2 = c" for i
    using le [of i] that c by auto
  have ph: "(h - 1) div 2 \<noteq> h" if "0 < h" using that by auto
  show ?thesis
    unfolding ordered_but_def f using assms(2-5) c h le up under ph by auto
qed

lemma larger_child_least:
  assumes "2 * h + 2 < len" "0 < i" "(i - 1) div 2 = h"
  shows "timer_key s (timerHeap s ! larger_child s h) \<le> timer_key s (timerHeap s ! i)"
proof -
  have "i = 2 * h + 1 \<or> i = 2 * h + 2" using assms(2,3) by auto
  then show ?thesis using timer_lessD by (auto simp: larger_child_def Let_def)
qed

lemma sink_ordered:
  "ordered_but s len h \<Longrightarrow> sink len h s = (h', s') \<Longrightarrow>
     ordered_but s' len h' \<and> (\<forall>i. 0 < i \<and> i < len \<longrightarrow> (i - 1) div 2 \<noteq> h')"
proof (induction len h s rule: sink.induct)
  case (1 len h s)
  consider "2 * h + 2 < len" | "2 * h + 2 = len" | "len \<le> 2 * h + 1" by linarith
  then show ?case
  proof cases
    case 1
    then have "sink len (larger_child s h) (heap_write h (timerHeap s ! larger_child s h) s) = (h', s')"
      using "1.prems"(2) by (subst (asm) sink.simps) simp
    moreover have "ordered_but (heap_write h (timerHeap s ! larger_child s h) s) len (larger_child s h)"
      using larger_child_bounds [OF 1, of s] larger_child_least [OF 1]
      by (intro ordered_but_down "1.prems"(1)) auto
    ultimately show ?thesis using "1.IH" [OF 1] by blast
  next
    case 2
    have i: "i = 2 * h + 1" if "0 < i" "i < len" "(i - 1) div 2 = h" for i using that 2 by auto
    have "ordered_but (heap_write h (timerHeap s ! (2 * h + 1)) s) len (2 * h + 1)"
      using 2 i by (intro ordered_but_down "1.prems"(1)) auto
    then show ?thesis using "1.prems"(2) 2 by (subst (asm) sink.simps) auto
  next
    case 3
    then show ?thesis using "1.prems" by (subst (asm) sink.simps) auto
  qed
qed

lemma pop_heap_ordered:
  assumes "indexed s" "ordered_but s (length (timerHeap s)) 0"
  shows "ordered_to (pop_heap (length (timerHeap s)) s) (length (timerHeap s) - 1)"
proof (cases "1 < length (timerHeap s)")
  case True
  let ?n = "length (timerHeap s)"
  obtain h s' where r: "pop_heap ?n s = push_up h (timerHeap s ! (?n - 1)) s'"
    "sink (?n - 1) 0 (heap_write (?n - 1) (timerHeap s ! 0) s) = (h, s')"
    using pop_heap_split [OF assms(1) True] by metis
  have "ordered_but (heap_write (?n - 1) (timerHeap s ! 0) s) (?n - 1) 0"
    using assms(2) True by (auto simp: ordered_but_def nth_list_update)
  from sink_ordered [OF this r(2)] show ?thesis
    unfolding r(1) by (intro push_up_ordered) (auto simp: above_children_def)
qed (simp add: pop_heap_def ordered_to_def)

lemma ordered_root: "ordered_to s n \<Longrightarrow> i < n \<Longrightarrow> timer_key s (timerHeap s ! 0) \<le> timer_key s (timerHeap s ! i)"
proof (induction i rule: less_induct)
  case (less i)
  show ?case
  proof (cases "i = 0")
    case False
    then have "timer_key s (timerHeap s ! ((i - 1) div 2)) \<le> timer_key s (timerHeap s ! i)"
      using less.prems by (simp add: ordered_to_def)
    then show ?thesis using less.IH [of "(i - 1) div 2"] less.prems False by fastforce
  qed simp
qed

section \<open>The invariant\<close>

definition heap_ok :: "threads \<Rightarrow> bool" where
  "heap_ok s \<longleftrightarrow> indexed s \<and> (\<forall>t. t \<notin> set (timerHeap s) \<longrightarrow> m_heapIndex (timers s t) = -1) \<and>
     ordered_to s (length (timerHeap s))"

text \<open>The same while the key of one timer of the heap is not yet in its place.\<close>

definition heap_ok_but :: "threads \<Rightarrow> nat \<Rightarrow> bool" where
  "heap_ok_but s j \<longleftrightarrow> indexed s \<and> (\<forall>t. t \<notin> set (timerHeap s) \<longrightarrow> m_heapIndex (timers s t) = -1) \<and>
     ordered_but s (length (timerHeap s)) j"

lemma heap_ok_butD: "heap_ok_but s j \<Longrightarrow> j < length (timerHeap s) \<and> m_heapIndex (timers s (timerHeap s ! j)) = int j"
  by (simp add: heap_ok_but_def ordered_but_def indexed_def)

lemma heapDecreaseKey_ok:
  assumes "heap_ok_but s j" "above_children s (length (timerHeap s)) j (timer_key s (timerHeap s ! j))"
  defines "s' \<equiv> heapDecreaseKey (timerHeap s ! j) s"
  shows "heap_ok s'" "reindexed s s'" "mset (timerHeap s') = mset (timerHeap s)"
proof -
  have j: "j < length (timerHeap s)" "m_heapIndex (timers s (timerHeap s ! j)) = int j"
    using heap_ok_butD [OF assms(1)] by simp_all
  then have e: "s' = push_up j (timerHeap s ! j) s"
    by (simp add: s'_def heapDecreaseKey_def push_heap_def nat_add_distrib)
  have i: "indexed s" using assms(1) by (simp add: heap_ok_but_def)
  note p = push_up_indexed [OF indexed_holed [OF i j(1)]]
  show m: "mset (timerHeap s') = mset (timerHeap s)" using p e by simp
  show "reindexed s s'" unfolding e by (rule reindexed_push_up)
  have "ordered_to s' (length (timerHeap s))"
    unfolding e using assms(1,2) by (intro push_up_ordered) (simp_all add: heap_ok_but_def)
  moreover have "length (timerHeap s') = length (timerHeap s)" "set (timerHeap s') = set (timerHeap s)"
    using mset_eq_length [OF m] mset_eq_setD [OF m] by simp_all
  ultimately show "heap_ok s'" using p assms(1) unfolding heap_ok_def heap_ok_but_def e by simp
qed

text \<open>Changing what is not the heap index of one timer of the heap.\<close>

definition rekeyed :: "timer_id \<Rightarrow> threads \<Rightarrow> threads \<Rightarrow> bool" where
  "rekeyed t s s' \<longleftrightarrow> timerHeap s' = timerHeap s \<and> (\<forall>u. m_heapIndex (timers s' u) = m_heapIndex (timers s u)) \<and>
     (\<forall>u. u \<noteq> t \<longrightarrow> timer_key s' u = timer_key s u)"

lemma rekeyed_set_timer: "(\<And>r. m_heapIndex (f r) = m_heapIndex r) \<Longrightarrow> rekeyed t s (set_timer t f s)"
  by (simp add: rekeyed_def set_timer_def)

lemma rekeyed_indexed: "rekeyed t s s' \<Longrightarrow> indexed s' = indexed s"
  by (simp add: rekeyed_def indexed_def)

lemma rekeyed_order:
  assumes "rekeyed t s s'" "indexed s" "j < length (timerHeap s)" "timerHeap s ! j = t"
  shows "ordered_but s n j \<Longrightarrow> ordered_but s' n j" "n \<le> j \<Longrightarrow> ordered_to s n \<Longrightarrow> ordered_to s' n"
proof -
  have k: "timer_key s' (timerHeap s' ! i) = timer_key s (timerHeap s ! i)" if "i < length (timerHeap s)" "i \<noteq> j" for i
    using assms that by (auto simp: rekeyed_def indexed_def nth_eq_iff_index_eq)
  have p: "(i - 1) div 2 < i" if "0 < i" for i :: nat using that by auto
  show "ordered_but s' n j" if o: "ordered_but s n j"
  proof -
    have l: "length (timerHeap s') = length (timerHeap s)" using assms(1) by (simp add: rekeyed_def)
    show ?thesis
      unfolding ordered_but_def l
    proof (intro conjI allI impI)
      show n: "j < n" "n \<le> length (timerHeap s)" using o by (simp_all add: ordered_but_def)
      fix i assume i: "0 < i \<and> i < n"
      then have b: "i < length (timerHeap s)" "(i - 1) div 2 < length (timerHeap s)" "(j - 1) div 2 < length (timerHeap s)"
        using n p [of i] by auto
      show "if (i - 1) div 2 = j
          then 0 < j \<longrightarrow> timer_key s' (timerHeap s' ! ((j - 1) div 2)) \<le> timer_key s' (timerHeap s' ! i)
          else i = j \<or> timer_key s' (timerHeap s' ! ((i - 1) div 2)) \<le> timer_key s' (timerHeap s' ! i)"
      proof (cases "(i - 1) div 2 = j")
        case True
        then have "i \<noteq> j" "0 < j \<Longrightarrow> (j - 1) div 2 \<noteq> j" using p [of i] p [of j] i by simp_all
        moreover have "0 < j \<longrightarrow> timer_key s (timerHeap s ! ((j - 1) div 2)) \<le> timer_key s (timerHeap s ! i)"
          using o i True unfolding ordered_but_def by presburger
        ultimately show ?thesis using True k [OF b(1)] k [OF b(3)] by simp
      next
        case False
        then have "i = j \<or> timer_key s (timerHeap s ! ((i - 1) div 2)) \<le> timer_key s (timerHeap s ! i)"
          using o i unfolding ordered_but_def by presburger
        then show ?thesis using False k [OF b(1)] k [OF b(2)] by (cases "i = j") simp_all
      qed
    qed
  qed
  show "ordered_to s' n" if o: "ordered_to s n" "n \<le> j"
  proof -
    have "i < length (timerHeap s) \<and> i \<noteq> j \<and> (i - 1) div 2 < length (timerHeap s) \<and> (i - 1) div 2 \<noteq> j" if "i < n" for i
      using that o(2) assms(3) by auto
    then show ?thesis using o(1) unfolding ordered_to_def by (simp add: k)
  qed
qed

lemma ordered_to_but: "ordered_to s n \<Longrightarrow> n \<le> length (timerHeap s) \<Longrightarrow> j < n \<Longrightarrow> ordered_but s n j"
proof -
  assume o: "ordered_to s n" "n \<le> length (timerHeap s)" "j < n"
  have "timer_key s (timerHeap s ! ((j - 1) div 2)) \<le> timer_key s (timerHeap s ! i)"
    if "0 < j" "0 < i" "i < n" "(i - 1) div 2 = j" for i
    using o that by (meson order_trans ordered_to_def)
  then show ?thesis using o by (auto simp: ordered_but_def ordered_to_def)
qed

lemma ordered_to_mono: "ordered_to s n \<Longrightarrow> m \<le> n \<Longrightarrow> ordered_to s m"
  by (simp add: ordered_to_def)

text \<open>A popped timer is last; what is before it is in order.\<close>

definition popped :: "timer_id \<Rightarrow> threads \<Rightarrow> bool" where
  "popped t s \<longleftrightarrow> indexed s \<and> (\<forall>t. t \<notin> set (timerHeap s) \<longrightarrow> m_heapIndex (timers s t) = -1) \<and>
     timerHeap s \<noteq> [] \<and> last (timerHeap s) = t \<and> ordered_to s (length (timerHeap s) - 1)"

lemma heapPopMin_popped:
  assumes "heap_ok_but s 0"
  shows "popped (hd (timerHeap s)) (heapPopMin s)" "reindexed s (heapPopMin s)"
    "mset (timerHeap (heapPopMin s)) = mset (timerHeap s)"
proof -
  have i: "indexed s" "0 < length (timerHeap s)" using assms by (auto simp: heap_ok_but_def ordered_but_def)
  note p = pop_heap_indexed [OF i]
  show m: "mset (timerHeap (heapPopMin s)) = mset (timerHeap s)" using p by (simp add: heapPopMin_def)
  note l = mset_eq_length [OF m] mset_eq_setD [OF m]
  then have "timerHeap (heapPopMin s) \<noteq> []" using i by auto
  moreover have "last (timerHeap (heapPopMin s)) = hd (timerHeap s)"
    using p l i calculation by (simp add: last_conv_nth hd_conv_nth heapPopMin_def)
  moreover have "ordered_to (heapPopMin s) (length (timerHeap (heapPopMin s)) - 1)"
    using pop_heap_ordered [OF i(1)] assms l by (simp add: heapPopMin_def heap_ok_but_def)
  ultimately show "popped (hd (timerHeap s)) (heapPopMin s)"
    using p assms l by (simp add: popped_def heap_ok_but_def heapPopMin_def)
  show "reindexed s (heapPopMin s)" unfolding heapPopMin_def by (rule reindexed_pop_heap)
qed

lemma reindexed_set_key:
  "reindexed (set_timer t (m_nextFireTime_update (\<lambda>_. k)) s) s' \<Longrightarrow>
     reindexed s (set_timer t (m_nextFireTime_update (\<lambda>_. timer_key s t)) s')"
  unfolding reindexed_def set_timer_def
  by (elim exE, rule_tac x = g in exI, rule_tac x = xs in exI) (auto simp: fun_eq_iff)

lemma heapPop_popped:
  assumes "heap_ok_but s j" "\<forall>u. u \<noteq> timerHeap s ! j \<longrightarrow> timer_key s u \<noteq> MinusInfinity"
  defines "t \<equiv> timerHeap s ! j"
  shows "popped t (heapPop t s)" "reindexed s (heapPop t s)" "mset (timerHeap (heapPop t s)) = mset (timerHeap s)"
proof -
  define s1 where "s1 = set_timer t (m_nextFireTime_update (\<lambda>_. MinusInfinity)) s"
  have j: "j < length (timerHeap s)" "timerHeap s ! j = t" using heap_ok_butD [OF assms(1)] by (simp_all add: t_def)
  have r1: "rekeyed t s s1" unfolding s1_def by (rule rekeyed_set_timer) simp
  have h1: "timerHeap s1 = timerHeap s" "timer_key s1 t = MinusInfinity" "timer_key s1 u = (if u = t then MinusInfinity else timer_key s u)" for u
    by (simp_all add: s1_def set_timer_def)
  have i: "indexed s" using assms(1) by (simp add: heap_ok_but_def)
  have "heap_ok_but s1 j"
    using assms(1) rekeyed_order(1) [OF r1 i j] rekeyed_indexed [OF r1] r1 by (simp add: heap_ok_but_def rekeyed_def h1)
  note d = heapDecreaseKey_ok [OF this, unfolded h1(1) j(2)]
  define s2 where "s2 = heapDecreaseKey t s1"
  have s2: "heap_ok s2" "reindexed s1 s2" "mset (timerHeap s2) = mset (timerHeap s)"
    using d by (simp_all add: s2_def h1 above_children_def)
  note l2 = mset_eq_length [OF s2(3)] mset_eq_setD [OF s2(3)]
  have ne: "timerHeap s2 \<noteq> []" using l2 j by auto
  have first: "hd (timerHeap s2) = t"
  proof -
    obtain i where i: "i < length (timerHeap s2)" "timerHeap s2 ! i = t"
      using l2 j by (metis in_set_conv_nth nth_mem)
    then have "timer_key s2 (hd (timerHeap s2)) \<le> MinusInfinity"
      using ordered_root [of s2 "length (timerHeap s2)" i] s2(1) reindexed_key [OF s2(2), of t] h1 ne
      by (simp add: heap_ok_def hd_conv_nth)
    then have "timer_key s1 (hd (timerHeap s2)) = MinusInfinity"
      using reindexed_key [OF s2(2), of "hd (timerHeap s2)"] by (cases "timer_key s1 (hd (timerHeap s2))") simp_all
    then show ?thesis using h1(3) assms(2) by (metis t_def)
  qed
  have "heap_ok_but s2 0"
    using s2(1) ne ordered_to_but [of s2 "length (timerHeap s2)" 0] by (simp add: heap_ok_def heap_ok_but_def)
  note p = heapPopMin_popped [OF this, unfolded first]
  define s3 where "s3 = heapPopMin s2"
  have e: "heapPop t s = set_timer t (m_nextFireTime_update (\<lambda>_. timer_key s t)) s3"
    by (simp add: heapPop_def Let_def s1_def s2_def s3_def)
  have r3: "rekeyed t s3 (heapPop t s)" unfolding e by (rule rekeyed_set_timer) simp
  show "reindexed s (heapPop t s)"
    unfolding e using reindexed_trans [OF s2(2) p(2)] by (intro reindexed_set_key) (simp add: s1_def s3_def)
  show "mset (timerHeap (heapPop t s)) = mset (timerHeap s)" using r3 p(3) s2(3) by (simp add: rekeyed_def s3_def)
  have k: "popped t s3" using p(1) by (simp add: s3_def)
  then have "timerHeap s3 ! (length (timerHeap s3) - 1) = t" "0 < length (timerHeap s3)"
    using last_conv_nth [of "timerHeap s3"] by (auto simp: popped_def)
  then show "popped t (heapPop t s)"
    using k rekeyed_order(2) [OF r3, of "length (timerHeap s3) - 1" "length (timerHeap s3) - 1"] rekeyed_indexed [OF r3] r3
    by (simp add: popped_def rekeyed_def)
qed

section \<open>The operations on the heap\<close>

lemma remove_last_simps [simp]:
  "timerHeap (remove_last t s) = butlast (timerHeap s)"
  "m_heapIndex (timers (remove_last t s) u) = (if u = t then -1 else m_heapIndex (timers s u))"
  "timer_key (remove_last t s) u = timer_key s u"
  by (simp_all add: remove_last_def set_timer_def)

lemma reindexed_remove_last: "reindexed s s' \<Longrightarrow> reindexed s (remove_last t s')"
  unfolding reindexed_def remove_last_def set_timer_def
  by (elim exE, rule_tac x = "g(t := -1)" in exI, rule_tac x = "butlast xs" in exI) (auto simp: fun_eq_iff)

lemma remove_last_ok:
  assumes "popped t s"
  shows "heap_ok (remove_last t s)" "set (timerHeap (remove_last t s)) = set (timerHeap s) - {t}"
proof -
  have s: "timerHeap s = butlast (timerHeap s) @ [t]" "distinct (timerHeap s)"
    using assms append_butlast_last_id [of "timerHeap s"] by (auto simp: popped_def indexed_def)
  then have d: "t \<notin> set (butlast (timerHeap s))" "set (timerHeap s) = insert t (set (butlast (timerHeap s)))"
    by (metis distinct_append distinct.simps(2) insert_iff list.set_intros(1) disjoint_insert(1) empty_set list.simps(15), metis Un_insert_right append_Nil2 list.set(2) set_append)
  show "set (timerHeap (remove_last t s)) = set (timerHeap s) - {t}" using d by auto
  have n: "butlast (timerHeap s) ! i = timerHeap s ! i" "i < length (timerHeap s)" "timerHeap s ! i \<noteq> t"
    if "i < length (timerHeap s) - 1" for i
    using that d nth_mem [of i "butlast (timerHeap s)"] by (auto simp: nth_butlast)
  show "heap_ok (remove_last t s)"
    using assms d n distinct_butlast [OF s(2)] unfolding heap_ok_def popped_def indexed_def ordered_to_def
    by auto
qed

lemma heapDelete_ok:
  assumes "heap_ok_but s j" "\<forall>u. u \<noteq> timerHeap s ! j \<longrightarrow> timer_key s u \<noteq> MinusInfinity"
  defines "s' \<equiv> heapDelete (timerHeap s ! j) s"
  shows "heap_ok s'" "reindexed s s'" "set (timerHeap s') = set (timerHeap s) - {timerHeap s ! j}"
  unfolding s'_def heapDelete_def
  using heapPop_popped [OF assms(1,2)] remove_last_ok reindexed_remove_last mset_eq_setD by (blast, blast, metis)

lemma heapDeleteMin_ok:
  assumes "heap_ok_but s 0"
  defines "s' \<equiv> heapDeleteMin (hd (timerHeap s)) s"
  shows "heap_ok s'" "reindexed s s'" "set (timerHeap s') = set (timerHeap s) - {hd (timerHeap s)}"
  unfolding s'_def heapDeleteMin_def
  using heapPopMin_popped [OF assms(1)] remove_last_ok reindexed_remove_last mset_eq_setD by (blast, blast, metis)

lemma popped_last:
  assumes "popped t s"
  shows "heap_ok_but s (length (timerHeap s) - 1)" "timerHeap s ! (length (timerHeap s) - 1) = t"
    "above_children s (length (timerHeap s)) (length (timerHeap s) - 1) k"
proof -
  have c: "(i - 1) div 2 \<noteq> length (timerHeap s) - 1" if "0 < i" "i < length (timerHeap s)" for i using that by auto
  have "timer_key s (timerHeap s ! ((i - 1) div 2)) \<le> timer_key s (timerHeap s ! i)"
    if "0 < i" "i < length (timerHeap s)" "i \<noteq> length (timerHeap s) - 1" for i
    using assms that by (auto simp: popped_def ordered_to_def)
  then show "heap_ok_but s (length (timerHeap s) - 1)"
    using assms c by (auto simp: heap_ok_but_def popped_def ordered_but_def)
  show "timerHeap s ! (length (timerHeap s) - 1) = t"
    using assms last_conv_nth [of "timerHeap s"] by (auto simp: popped_def)
  show "above_children s (length (timerHeap s)) (length (timerHeap s) - 1) k"
    unfolding above_children_def using c by blast
qed

lemma heapIncreaseKey_ok:
  assumes "heap_ok_but s j" "\<forall>u. u \<noteq> timerHeap s ! j \<longrightarrow> timer_key s u \<noteq> MinusInfinity"
  defines "s' \<equiv> heapIncreaseKey (timerHeap s ! j) s"
  shows "heap_ok s'" "reindexed s s'" "set (timerHeap s') = set (timerHeap s)"
proof -
  note p = heapPop_popped [OF assms(1,2)]
  note l = popped_last [OF p(1)]
  note d = heapDecreaseKey_ok [OF l(1) l(3)]
  have e: "s' = heapDecreaseKey (timerHeap q ! (length (timerHeap q) - 1)) q" if "q = heapPop (timerHeap s ! j) s" for q
    using l(2) by (simp only: that s'_def heapIncreaseKey_def)
  note e = e [OF refl]
  show "heap_ok s'" using d e by simp
  show "reindexed s s'" using reindexed_trans [OF p(2) d(2)] e by simp
  show "set (timerHeap s') = set (timerHeap s)" using mset_eq_setD [OF d(3)] mset_eq_setD [OF p(3)] e by simp
qed

lemma heapInsert_ok:
  assumes "heap_ok s" "t \<notin> set (timerHeap s)"
  defines "s' \<equiv> heapInsert t s"
  shows "heap_ok s'" "reindexed s s'" "set (timerHeap s') = insert t (set (timerHeap s))"
proof -
  let ?n = "length (timerHeap s)"
  define s1 where "s1 = set_timer t (m_heapIndex_update (\<lambda>_. int ?n)) (s\<lparr>timerHeap := timerHeap s @ [t]\<rparr>)"
  have h: "timerHeap s1 = timerHeap s @ [t]" "m_heapIndex (timers s1 u) = (if u = t then int ?n else m_heapIndex (timers s u))"
    "timer_key s1 u = timer_key s u" for u
    by (simp_all add: s1_def set_timer_def)
  have i: "indexed s1"
    using assms nth_mem [of _ "timerHeap s"] by (auto simp: heap_ok_def indexed_def h nth_append less_Suc_eq)
  have c: "(i - 1) div 2 < ?n \<and> i \<noteq> ?n \<longrightarrow> i < ?n" "(i - 1) div 2 < ?n" if "0 < i" "i < Suc ?n" for i
    using that by auto
  have "timer_key s1 (timerHeap s1 ! ((i - 1) div 2)) \<le> timer_key s1 (timerHeap s1 ! i)"
    if "0 < i" "i < Suc ?n" "i \<noteq> ?n" for i
    using assms(1) that c [of i] by (simp add: h heap_ok_def ordered_to_def nth_append)
  moreover have "(i - 1) div 2 \<noteq> ?n" if "0 < i" "i < Suc ?n" for i using c(2) [OF that] by simp
  ultimately have "ordered_but s1 (Suc ?n) ?n" by (auto simp: ordered_but_def h(1))
  then have b: "heap_ok_but s1 ?n" using i assms(1) by (simp add: heap_ok_but_def h heap_ok_def)
  have a: "above_children s1 (length (timerHeap s1)) ?n (timer_key s1 (timerHeap s1 ! ?n))"
    using c(2) unfolding above_children_def h by (metis length_append_singleton nat_neq_iff)
  note d = heapDecreaseKey_ok [OF b a]
  have e: "s' = heapDecreaseKey (timerHeap s1 ! ?n) s1" by (simp add: h) (simp add: s'_def heapInsert_def s1_def Let_def)
  show "heap_ok s'" using d e by simp
  have "reindexed s s1"
    unfolding reindexed_def s1_def set_timer_def
    by (intro exI [of _ "\<lambda>u. if u = t then int ?n else m_heapIndex (timers s u)"] exI [of _ "timerHeap s @ [t]"])
      (auto simp: fun_eq_iff)
  then show "reindexed s s'" using reindexed_trans d(2) e by simp
  show "set (timerHeap s') = insert t (set (timerHeap s))" using mset_eq_setD [OF d(3)] e by (simp add: h)
qed

section \<open>Setting the time of a timer\<close>

definition timers_ok :: "threads \<Rightarrow> bool" where
  "timers_ok s \<longleftrightarrow> heap_ok s \<and> (\<forall>t. (t \<in> set (timerHeap s)) = (timer_key s t \<noteq> Time 0)) \<and> (\<forall>t. timer_key s t \<noteq> MinusInfinity)"

lemma rekeyed_heap_ok:
  assumes "rekeyed t s s'" "heap_ok s"
  shows "t \<notin> set (timerHeap s) \<Longrightarrow> heap_ok s'"
    "j < length (timerHeap s) \<Longrightarrow> timerHeap s ! j = t \<Longrightarrow> heap_ok_but s' j"
    "j < length (timerHeap s) \<Longrightarrow> timerHeap s ! j = t \<Longrightarrow> timer_key s' t \<le> timer_key s t \<Longrightarrow>
       above_children s' (length (timerHeap s)) j (timer_key s' t)"
proof -
  have i: "indexed s'" and h: "timerHeap s' = timerHeap s" "\<And>u. m_heapIndex (timers s' u) = m_heapIndex (timers s u)"
    using rekeyed_indexed [OF assms(1)] assms by (simp_all add: heap_ok_def rekeyed_def)
  show "heap_ok s'" if "t \<notin> set (timerHeap s)"
  proof -
    have "timer_key s' (timerHeap s ! i) = timer_key s (timerHeap s ! i)" if "i < length (timerHeap s)" for i
      using assms(1) nth_mem [OF that] \<open>t \<notin> _\<close> by (auto simp: rekeyed_def)
    then show ?thesis using assms i h by (auto simp: heap_ok_def ordered_to_def)
  qed
  show "heap_ok_but s' j" if "j < length (timerHeap s)" "timerHeap s ! j = t"
    using rekeyed_order(1) [OF assms(1) _ that] ordered_to_but [of s "length (timerHeap s)" j] assms(2) that i h
    by (simp add: heap_ok_def heap_ok_but_def)
  show "above_children s' (length (timerHeap s)) j (timer_key s' t)"
    if j: "j < length (timerHeap s)" "timerHeap s ! j = t" and le: "timer_key s' t \<le> timer_key s t"
  proof -
    have "timer_key s' t \<le> timer_key s' (timerHeap s' ! i)" if c: "0 < i" "i < length (timerHeap s)" "(i - 1) div 2 = j" for i
    proof -
      have "i \<noteq> j" using c by auto
      then have "timerHeap s ! i \<noteq> t" using assms(2) j c by (auto simp: heap_ok_def indexed_def nth_eq_iff_index_eq)
      moreover have "timer_key s (timerHeap s ! j) \<le> timer_key s (timerHeap s ! i)"
        using assms(2) c by (auto simp: heap_ok_def ordered_to_def)
      ultimately show ?thesis using assms(1) le j h(1) by (auto simp: rekeyed_def)
    qed
    then show ?thesis by (simp add: above_children_def)
  qed
qed

text \<open>What an operation that sets one timer's time does to the rest of the state.\<close>

definition retimed :: "timer_id \<Rightarrow> fire_time \<Rightarrow> threads \<Rightarrow> threads \<Rightarrow> bool" where
  "retimed t k s s' \<longleftrightarrow> (\<forall>u. timer_key s' u = (if u = t then k else timer_key s u)) \<and>
     (\<forall>u. m_repeatInterval (timers s' u) = m_repeatInterval (timers s u)) \<and>
     m_firingTimers s' = m_firingTimers s \<and> m_sharedTimer s' = m_sharedTimer s \<and> clock s' = clock s \<and>
     st_peer (sharedTimer s') = st_peer (sharedTimer s) \<and> st_function (sharedTimer s') = st_function (sharedTimer s)"

definition move_timer :: "timer_id \<Rightarrow> fire_time \<Rightarrow> fire_time \<Rightarrow> threads \<Rightarrow> threads" where
  "move_timer t oldTime newTime s =
     (if oldTime = Time 0 then heapInsert t s
      else if newTime = Time 0 then heapDelete t s
      else if newTime < oldTime then heapDecreaseKey t s
      else heapIncreaseKey t s)"

lemma move_timer_ok:
  assumes "timers_ok s" "newTime \<noteq> timer_key s t" "newTime \<noteq> MinusInfinity"
    "rekeyed t s s2" "timer_key s2 t = newTime"
  defines "s3 \<equiv> move_timer t (timer_key s t) newTime s2"
  shows "timers_ok s3" "reindexed s2 s3"
proof -
  have k: "timer_key s2 u = (if u = t then newTime else timer_key s u)" "timerHeap s2 = timerHeap s" for u
    using assms(4,5) by (auto simp: rekeyed_def)
  have h: "heap_ok s" "\<And>u. (u \<in> set (timerHeap s)) = (timer_key s u \<noteq> Time 0)" "\<And>u. timer_key s u \<noteq> MinusInfinity"
    using assms(1) by (simp_all add: timers_ok_def)
  have fin: "\<forall>u. u \<noteq> t \<longrightarrow> timer_key s2 u \<noteq> MinusInfinity" using h(3) k by simp
  have "heap_ok s3 \<and> reindexed s2 s3 \<and> (\<forall>u. (u \<in> set (timerHeap s3)) = (timer_key s2 u \<noteq> Time 0))"
  proof (cases "timer_key s t = Time 0")
    case True
    then have "t \<notin> set (timerHeap s2)" using h(2) k by simp
    then show ?thesis
      using heapInsert_ok [OF rekeyed_heap_ok(1) [OF assms(4) h(1)]] True h(2) k assms(2) by (simp add: s3_def move_timer_def)
  next
    case False
    then obtain j where j: "j < length (timerHeap s)" "timerHeap s ! j = t" using h(2) by (metis in_set_conv_nth)
    have b: "heap_ok_but s2 j" by (rule rekeyed_heap_ok(2) [OF assms(4) h(1) j])
    have j2: "timerHeap s2 ! j = t" using j k by simp
    show ?thesis
    proof (cases "newTime = Time 0")
      case True
      then show ?thesis
        using heapDelete_ok [OF b, unfolded j2, OF fin] False h(2) k by (auto simp: s3_def move_timer_def)
    next
      case nz: False
      show ?thesis
      proof (cases "newTime < timer_key s t")
        case True
        then have "above_children s2 (length (timerHeap s2)) j (timer_key s2 t)"
          using rekeyed_heap_ok(3) [OF assms(4) h(1) j] k by simp
        note d = heapDecreaseKey_ok [OF b, unfolded j2, OF this]
        show ?thesis
          using d mset_eq_setD [OF d(3)] True False nz h(2) k by (simp add: s3_def move_timer_def)
      next
        case ge: False
        then show ?thesis
          using heapIncreaseKey_ok [OF b, unfolded j2, OF fin] False nz h(2) k by (simp add: s3_def move_timer_def)
      qed
    qed
  qed
  then show "timers_ok s3" "reindexed s2 s3"
    using h(3) assms(3) k reindexed_key [of s2 s3] by (simp_all add: timers_ok_def)
qed

section \<open>The shared timer\<close>

definition armed_ok :: "threads \<Rightarrow> bool" where
  "armed_ok s \<longleftrightarrow> (m_sharedTimer s \<longrightarrow> st_function (sharedTimer s)) \<and>
     (m_sharedTimer s \<and> st_peer (sharedTimer s) \<and> \<not> m_firingTimers s \<longrightarrow>
        map_option fst (st_armed (sharedTimer s)) = (if timerHeap s = [] then None else Some (timer_key s (hd (timerHeap s)))))"

lemma updateSharedTimer_simps [simp]:
  "timers (updateSharedTimer s) = timers s" "timerHeap (updateSharedTimer s) = timerHeap s"
  "m_firingTimers (updateSharedTimer s) = m_firingTimers s" "m_sharedTimer (updateSharedTimer s) = m_sharedTimer s"
  "clock (updateSharedTimer s) = clock s" "currentHeapInsertionOrder (updateSharedTimer s) = currentHeapInsertionOrder s"
  "st_peer (sharedTimer (updateSharedTimer s)) = st_peer (sharedTimer s)"
  "st_function (sharedTimer (updateSharedTimer s)) = st_function (sharedTimer s)"
  by (simp_all add: updateSharedTimer_def setSharedTimerFireTime_def stopSharedTimer_def Let_def)

lemma updateSharedTimer_armed:
  "(m_sharedTimer s \<longrightarrow> st_function (sharedTimer s)) \<Longrightarrow> armed_ok (updateSharedTimer s)"
  unfolding armed_ok_def
  by (auto simp: updateSharedTimer_def setSharedTimerFireTime_def stopSharedTimer_def Let_def)

lemma timers_ok_keys:
  "(\<And>t. timer_key s' t = timer_key s t) \<Longrightarrow> (\<And>t. m_heapIndex (timers s' t) = m_heapIndex (timers s t)) \<Longrightarrow>
     timerHeap s' = timerHeap s \<Longrightarrow> timers_ok s' = timers_ok s"
  by (simp add: timers_ok_def heap_ok_def indexed_def ordered_to_def)

lemma timers_ok_cong:
  "timers s' = timers s \<Longrightarrow> timerHeap s' = timerHeap s \<Longrightarrow> timers_ok s' = timers_ok s"
  by (rule timers_ok_keys) simp_all

lemma armed_ok_cong:
  "(\<And>t. timer_key s' t = timer_key s t) \<Longrightarrow> timerHeap s' = timerHeap s \<Longrightarrow> sharedTimer s' = sharedTimer s \<Longrightarrow>
     m_firingTimers s' = m_firingTimers s \<Longrightarrow> m_sharedTimer s' = m_sharedTimer s \<Longrightarrow> armed_ok s' = armed_ok s"
  by (simp add: armed_ok_def)

lemma first_index: "heap_ok s \<Longrightarrow> m_heapIndex (timers s t) = 0 \<longleftrightarrow> timerHeap s \<noteq> [] \<and> hd (timerHeap s) = t"
proof -
  assume h: "heap_ok s"
  show ?thesis
  proof (cases "t \<in> set (timerHeap s)")
    case True
    then obtain i where i: "i < length (timerHeap s)" "timerHeap s ! i = t" by (metis in_set_conv_nth)
    then have "m_heapIndex (timers s t) = int i" using h by (auto simp: heap_ok_def indexed_def)
    moreover have "hd (timerHeap s) = t \<longleftrightarrow> i = 0"
      using h i hd_conv_nth [of "timerHeap s"] nth_eq_iff_index_eq [of "timerHeap s" 0 i]
      by (cases "timerHeap s = []") (auto simp: heap_ok_def indexed_def)
    ultimately show ?thesis using i by auto
  next
    case False
    then have "m_heapIndex (timers s t) = -1" using h by (simp add: heap_ok_def)
    then show ?thesis using False hd_in_set [of "timerHeap s"] by auto
  qed
qed

lemma first_soonest: "timers_ok s \<Longrightarrow> timer_key s t \<noteq> Time 0 \<Longrightarrow>
    timerHeap s \<noteq> [] \<and> timer_key s (hd (timerHeap s)) \<le> timer_key s t"
proof -
  assume s: "timers_ok s" "timer_key s t \<noteq> Time 0"
  then obtain i where "i < length (timerHeap s)" "timerHeap s ! i = t"
    by (metis timers_ok_def in_set_conv_nth)
  moreover have "timerHeap s \<noteq> []" using calculation by auto
  ultimately show ?thesis
    using ordered_root [of s "length (timerHeap s)" i] s hd_conv_nth [of "timerHeap s"] by (auto simp: timers_ok_def heap_ok_def)
qed

section \<open>The invariant of all operations\<close>

definition timers_inv :: "threads \<Rightarrow> bool" where
  "timers_inv s \<longleftrightarrow> timers_ok s \<and> armed_ok s"

lemma setNextFireTime_move:
  "setNextFireTime t newTime s =
     (if timer_key s t = newTime then s
      else let s2 = set_timer t (\<lambda>r. r\<lparr>m_nextFireTime := newTime, m_heapInsertionOrder := currentHeapInsertionOrder s\<rparr>) s
                 \<lparr>currentHeapInsertionOrder := currentHeapInsertionOrder s + 1\<rparr>;
               s3 = move_timer t (timer_key s t) newTime s2
           in if m_heapIndex (timers s t) = 0 \<or> m_heapIndex (timers s3 t) = 0 then updateSharedTimer s3 else s3)"
  unfolding setNextFireTime_def move_timer_def Let_def by (auto simp: set_timer_def)

lemma setNextFireTime_spec:
  assumes "timers_ok s" "newTime \<noteq> MinusInfinity"
  shows "timers_ok (setNextFireTime t newTime s)" "retimed t newTime s (setNextFireTime t newTime s)"
    "armed_ok s \<Longrightarrow> armed_ok (setNextFireTime t newTime s)"
proof -
  let ?s' = "setNextFireTime t newTime s"
  have "timers_ok ?s' \<and> retimed t newTime s ?s' \<and> (armed_ok s \<longrightarrow> armed_ok ?s')"
  proof (cases "timer_key s t = newTime")
    case True
    then show ?thesis using assms by (auto simp: setNextFireTime_move retimed_def)
  next
    case False
    define s2 where "s2 = set_timer t (\<lambda>r. r\<lparr>m_nextFireTime := newTime, m_heapInsertionOrder := currentHeapInsertionOrder s\<rparr>) s
                 \<lparr>currentHeapInsertionOrder := currentHeapInsertionOrder s + 1\<rparr>"
    define s3 where "s3 = move_timer t (timer_key s t) newTime s2"
    have e: "?s' = (if m_heapIndex (timers s t) = 0 \<or> m_heapIndex (timers s3 t) = 0 then updateSharedTimer s3 else s3)"
      using False by (simp add: setNextFireTime_move Let_def s2_def s3_def)
    have r2: "rekeyed t s s2" "timer_key s2 t = newTime" by (simp_all add: s2_def rekeyed_def set_timer_def)
    note m = move_timer_ok [OF assms(1) False [symmetric] assms(2) r2, folded s3_def]
    have "retimed t newTime s s2" by (simp add: s2_def retimed_def set_timer_def)
    then have r: "retimed t newTime s s3"
      using reindexedD [OF m(2)] reindexed_key [OF m(2)] by (simp add: retimed_def)
    have st: "sharedTimer s3 = sharedTimer s" using reindexedD(5) [OF m(2)] by (simp add: s2_def set_timer_def)
    have ok: "timers_ok ?s'" using m(1) timers_ok_cong [of "updateSharedTimer s3" s3] by (simp add: e)
    moreover have "retimed t newTime s ?s'" using r by (simp add: e retimed_def)
    moreover have "armed_ok ?s'" if a: "armed_ok s"
    proof (cases "m_heapIndex (timers s t) = 0 \<or> m_heapIndex (timers s3 t) = 0")
      case True
      then show ?thesis using r a updateSharedTimer_armed [of s3] by (simp add: e retimed_def armed_ok_def)
    next
      case nf: False
      have h: "heap_ok s" "heap_ok s3" using assms(1) m(1) by (simp_all add: timers_ok_def)
      have n: "timerHeap s = [] \<or> hd (timerHeap s) \<noteq> t" "timerHeap s3 = [] \<or> hd (timerHeap s3) \<noteq> t"
        using nf first_index [OF h(1)] first_index [OF h(2)] by blast+
      have same: "timer_key s3 u = timer_key s u" if "u \<noteq> t" for u using r that by (simp add: retimed_def)
      have mem: "(u \<in> set (timerHeap s)) = (u \<in> set (timerHeap s3))" if "u \<noteq> t" for u
        using assms(1) m(1) same [OF that] by (simp add: timers_ok_def)
      have none: "timerHeap s3 = [] \<longleftrightarrow> timerHeap s = []"
        using n mem hd_in_set [of "timerHeap s"] hd_in_set [of "timerHeap s3"] by (metis empty_iff empty_set)
      have "timer_key s3 (hd (timerHeap s3)) = timer_key s (hd (timerHeap s))" if ne: "timerHeap s \<noteq> []"
      proof (rule antisym)
        have i: "hd (timerHeap s) \<in> set (timerHeap s3)" "hd (timerHeap s3) \<in> set (timerHeap s)"
          "hd (timerHeap s) \<noteq> t" "hd (timerHeap s3) \<noteq> t"
          using n mem ne none hd_in_set by metis+
        show "timer_key s3 (hd (timerHeap s3)) \<le> timer_key s (hd (timerHeap s))"
          using first_soonest [OF m(1), of "hd (timerHeap s)"] i m(1) same by (auto simp: timers_ok_def)
        show "timer_key s (hd (timerHeap s)) \<le> timer_key s3 (hd (timerHeap s3))"
          using first_soonest [OF assms(1), of "hd (timerHeap s3)"] i assms(1) same by (auto simp: timers_ok_def)
      qed
      then show ?thesis using a nf none r st by (simp add: e armed_ok_def retimed_def)
    qed
    ultimately show ?thesis by blast
  qed
  then show "timers_ok ?s'" "retimed t newTime s ?s'" "armed_ok s \<Longrightarrow> armed_ok ?s'" by blast+
qed

lemma set_repeat_frame:
  "timers_ok (set_timer t (m_repeatInterval_update f) s) = timers_ok s"
  "armed_ok (set_timer t (m_repeatInterval_update f) s) = armed_ok s"
  by (rule timers_ok_keys; simp add: set_timer_def) (rule armed_ok_cong; simp add: set_timer_def)

lemma timer_operations_inv:
  assumes "timers_inv s"
  shows "timers_inv (timer_start t a b s)" "timers_inv (timer_stop t s)" "timers_inv (augmentRepeatInterval t d s)"
    "timers_inv (setSharedTimer new s)" "timers_inv (fireTimersInNestedEventLoop s)" "timers_inv (s\<lparr>clock := c\<rparr>)"
proof -
  have s: "timers_ok s" "armed_ok s" using assms by (simp_all add: timers_inv_def)
  show "timers_inv (timer_start t a b s)"
    using s setNextFireTime_spec(1,3) [of "set_timer t (m_repeatInterval_update (\<lambda>_. b)) s" "Time (clock s + a)" t]
    by (simp add: timer_start_def timers_inv_def set_repeat_frame)
  show "timers_inv (timer_stop t s)"
    using s setNextFireTime_spec(1,3) [of "set_timer t (m_repeatInterval_update (\<lambda>_. 0)) s" "Time 0" t]
    by (simp add: timer_stop_def timers_inv_def set_repeat_frame)
  have "add_time (timer_key s t) d \<noteq> MinusInfinity"
    using s(1) by (cases "timer_key s t") (auto simp: timers_ok_def)
  then show "timers_inv (augmentRepeatInterval t d s)"
    using s setNextFireTime_spec(1,3) [of s "add_time (timer_key s t) d" t]
    by (simp add: augmentRepeatInterval_def timers_inv_def set_repeat_frame)
  show "timers_inv (fireTimersInNestedEventLoop s)"
    unfolding fireTimersInNestedEventLoop_def timers_inv_def
    using s updateSharedTimer_armed [of "s\<lparr>m_firingTimers := False\<rparr>"]
      timers_ok_cong [of "updateSharedTimer (s\<lparr>m_firingTimers := False\<rparr>)" s] by (simp add: armed_ok_def)
  show "timers_inv (s\<lparr>clock := c\<rparr>)"
    using s timers_ok_cong [of "s\<lparr>clock := c\<rparr>" s] by (simp add: timers_inv_def armed_ok_def)
  have t: "timers (setSharedTimer new s) = timers s" "timerHeap (setSharedTimer new s) = timerHeap s"
    by (simp_all add: setSharedTimer_def Let_def stopSharedTimer_def setSharedTimerFiredFunction_def)
  have "armed_ok (setSharedTimer new s)"
  proof (cases new)
    case True
    then show ?thesis
      unfolding setSharedTimer_def Let_def if_P [OF True]
      by (intro updateSharedTimer_armed) (simp add: setSharedTimerFiredFunction_def)
  next
    case False
    then have "\<not> m_sharedTimer (setSharedTimer new s)" by (simp add: setSharedTimer_def Let_def)
    then show ?thesis by (simp add: armed_ok_def)
  qed
  then show "timers_inv (setSharedTimer new s)" using s timers_ok_cong [OF t] by (simp add: timers_inv_def)
qed

end
