(* ===== verification/TimersFiring.thy ===== *)
theory TimersFiring
  imports TimersFacts
begin

text \<open>
  Firing: what a client of the timers may do while they fire, as a locale; the invariant through
  every run of the operations, nested event loops and expiries of the shared timer included; and
  that the loop over the due timers ends and leaves none behind.
\<close>

section \<open>One iteration\<close>

lemma take_due_spec:
  assumes "timers_inv s" "m_firingTimers s" "timerHeap s \<noteq> []"
  defines "t \<equiv> hd (timerHeap s)"
  shows "timers_inv (take_due fireTime s)"
    "retimed t (if m_repeatInterval (timers s t) \<noteq> 0 then Time (fireTime + m_repeatInterval (timers s t)) else Time 0) s
       (take_due fireTime s)"
proof -
  define s0 where "s0 = set_timer t (m_nextFireTime_update (\<lambda>_. Time 0)) s"
  define s1 where "s1 = heapDeleteMin t s0"
  have ok: "timers_ok s" "armed_ok s" using assms(1) by (simp_all add: timers_inv_def)
  have r0: "rekeyed t s s0" unfolding s0_def by (rule rekeyed_set_timer) simp
  have h0: "timerHeap s0 = timerHeap s" "timer_key s0 u = (if u = t then Time 0 else timer_key s u)"
    "m_repeatInterval (timers s0 u) = m_repeatInterval (timers s u)" for u
    by (simp_all add: s0_def set_timer_def)
  have e: "0 < length (timerHeap s)" "timerHeap s ! 0 = t" using assms(3) by (simp_all add: t_def hd_conv_nth)
  have "heap_ok s" using ok by (simp add: timers_ok_def)
  from rekeyed_heap_ok(2) [OF r0 this e] have b: "heap_ok_but s0 0" .
  have t0: "hd (timerHeap s0) = t" by (simp add: h0 t_def)
  note d = heapDeleteMin_ok [OF b, unfolded t0, folded s1_def]
  have k1: "timer_key s1 u = (if u = t then Time 0 else timer_key s u)" for u
    using reindexed_key [OF d(2)] h0(2) by simp
  have "(u \<in> set (timerHeap s1)) = (timer_key s1 u \<noteq> Time 0)" for u
    using d(3) ok(1) by (simp add: h0 k1 timers_ok_def)
  then have ok1: "timers_ok s1" using d(1) ok(1) k1 by (simp add: timers_ok_def)
  have f1: "m_firingTimers s1 = m_firingTimers s" "m_sharedTimer s1 = m_sharedTimer s" "sharedTimer s1 = sharedTimer s"
    "clock s1 = clock s" "m_repeatInterval (timers s1 u) = m_repeatInterval (timers s u)" for u
    using reindexedD [OF d(2)] h0(3) by (simp_all add: s0_def set_timer_def)
  have a1: "armed_ok s1" using ok(2) assms(2) f1 by (simp add: armed_ok_def)
  let ?k = "if m_repeatInterval (timers s t) \<noteq> 0 then Time (fireTime + m_repeatInterval (timers s t)) else Time 0"
  have td: "take_due fireTime s = setNextFireTime t ?k s1"
    by (simp add: take_due_def Let_def t_def [symmetric] s0_def [symmetric] s1_def [symmetric] f1)
  have "?k \<noteq> MinusInfinity" by simp
  note sp = setNextFireTime_spec [OF ok1 this, of t]
  show "timers_inv (take_due fireTime s)" using sp(1,3) a1 by (simp add: td timers_inv_def)
  show "retimed t ?k s (take_due fireTime s)" using sp(2) k1 f1 unfolding td retimed_def by auto
qed

section \<open>The clients of the timers\<close>

locale timer_client =
  fixes fired :: "timer_id \<Rightarrow> threads \<Rightarrow> threads option"
  assumes fired_inv: "timers_inv s \<Longrightarrow> fired t s = Some s' \<Longrightarrow> timers_inv s'"
begin

lemma fire_loop_inv:
  assumes "fire_loop fired fireTime timeToQuit s = Some s'" "timers_inv s" "m_firingTimers s"
  shows "timers_inv s'"
proof -
  have "fired' = fired \<longrightarrow> timers_inv s \<and> m_firingTimers s \<longrightarrow> timers_inv s'"
    if "fire_loop fired' fireTime timeToQuit s = Some s'" for fired' s s'
    using that
  proof (induction fired' fireTime timeToQuit s s' rule: fire_loop.raw_induct [rotated, consumes 1])
    case (1 loop f ft tq s s')
    show ?case
    proof (intro impI)
      assume f: "f = fired" and s: "timers_inv s \<and> m_firingTimers s"
      show "timers_inv s'"
      proof (cases "timerHeap s \<noteq> [] \<and> timer_key s (hd (timerHeap s)) \<le> Time ft")
        case True
        then obtain s1 where s1: "fired (hd (timerHeap s)) (take_due ft s) = Some s1"
          "(if \<not> m_firingTimers s1 \<or> tq < clock s1 then Some s1 else loop f ft tq s1) = Some s'"
          using 1(2) f by (auto simp: bind_eq_Some_conv)
        have "timers_inv s1" using fired_inv [OF take_due_spec(1) s1(1)] s True by blast
        then show ?thesis using s1(2) 1(1) f by (auto split: if_splits)
      qed (use 1(2) s in auto)
    qed
  qed
  then show ?thesis using assms by blast
qed

lemma sharedTimerFired_inv:
  assumes "sharedTimerFired fired s = Some s'" "timers_ok s" "m_sharedTimer s \<longrightarrow> st_function (sharedTimer s)"
  shows "timers_inv s'"
proof (cases "m_firingTimers s")
  case True
  then show ?thesis using assms by (simp add: sharedTimerFired_def timers_inv_def armed_ok_def)
next
  case False
  let ?s = "s\<lparr>m_firingTimers := True\<rparr>"
  obtain s1 where s1: "fire_loop fired (clock s) (clock s + maxDurationOfFiringTimers) ?s = Some s1"
    "s' = updateSharedTimer (s1\<lparr>m_firingTimers := False\<rparr>)"
    using assms(1) False by (auto simp: sharedTimerFired_def Let_def)
  have "timers_ok ?s" using assms(2) timers_ok_cong [of ?s s] by simp
  then have "timers_inv ?s" using assms(3) by (simp add: timers_inv_def armed_ok_def)
  then have "timers_inv s1" using fire_loop_inv [OF s1(1)] by simp
  then have "timers_inv (fireTimersInNestedEventLoop s1)" by (rule timer_operations_inv(5))
  then show ?thesis by (simp add: s1(2) fireTimersInNestedEventLoop_def)
qed

lemma timeout_cb_inv:
  assumes "timers_inv s" "timeout_cb fired s = Some s'"
  shows "timers_inv s'"
proof -
  let ?s = "s\<lparr>sharedTimer := (sharedTimer s)\<lparr>st_armed := None\<rparr>\<rparr>"
  have s: "timers_ok ?s" "m_sharedTimer ?s \<longrightarrow> st_function (sharedTimer ?s)"
    using assms(1) timers_ok_cong [of ?s s] by (simp_all add: timers_inv_def armed_ok_def)
  show ?thesis
  proof (cases "st_function (sharedTimer ?s)")
    case True
    then show ?thesis using assms(2) sharedTimerFired_inv [OF _ s] by (simp add: timeout_cb_def Let_def)
  next
    case False
    then have "s' = ?s" using assms(2) by (simp add: timeout_cb_def Let_def)
    then show ?thesis using s False by (simp add: timers_inv_def armed_ok_def)
  qed
qed

end

section \<open>Every run\<close>

text \<open>
  A run of the timers of a thread: the operations, time passing, and the peer's timer expiring. What
  the timers do when they fire is a script: for each timer, in each state, a run of its own, in
  which timers may fire again; \<open>fired_by script n\<close> allows it to nest \<open>n\<close> deep.
\<close>

datatype timer_action = Start timer_id real real | Stop timer_id | Augment timer_id real
  | SetSharedTimer bool | NestedEventLoop | Elapse real | Expire

fun perform :: "(threads \<Rightarrow> threads option) \<Rightarrow> timer_action \<Rightarrow> threads \<Rightarrow> threads option" where
  "perform expire (Start t a b) s = Some (timer_start t a b s)"
| "perform expire (Stop t) s = Some (timer_stop t s)"
| "perform expire (Augment t d) s = Some (augmentRepeatInterval t d s)"
| "perform expire (SetSharedTimer new) s = Some (setSharedTimer new s)"
| "perform expire NestedEventLoop s = Some (fireTimersInNestedEventLoop s)"
| "perform expire (Elapse d) s = Some (s\<lparr>clock := clock s + d\<rparr>)"
| "perform expire Expire s = expire s"

fun run_actions :: "(threads \<Rightarrow> threads option) \<Rightarrow> timer_action list \<Rightarrow> threads \<Rightarrow> threads option" where
  "run_actions expire [] s = Some s"
| "run_actions expire (a # as) s = Option.bind (perform expire a s) (run_actions expire as)"

primrec fired_by :: "(timer_id \<Rightarrow> threads \<Rightarrow> timer_action list) \<Rightarrow> nat \<Rightarrow> timer_id \<Rightarrow> threads \<Rightarrow> threads option" where
  "fired_by script 0 t s = None"
| "fired_by script (Suc n) t s = run_actions (timeout_cb (fired_by script n)) (script t s) s"

definition no_timers :: "bool \<Rightarrow> threads" where
  "no_timers peer = \<lparr>timers = (\<lambda>_. TimerBase_new), timerHeap = [], currentHeapInsertionOrder = 0, m_sharedTimer = False,
     m_firingTimers = False, sharedTimer = \<lparr>st_peer = peer, st_function = False, st_armed = None\<rparr>, clock = 0\<rparr>"

lemma no_timers_inv: "timers_inv (no_timers peer)"
  by (simp add: no_timers_def timers_inv_def timers_ok_def heap_ok_def indexed_def ordered_to_def armed_ok_def TimerBase_new_def)

lemma run_actions_inv:
  assumes "\<And>s s'. timers_inv s \<Longrightarrow> expire s = Some s' \<Longrightarrow> timers_inv s'"
  shows "timers_inv s \<Longrightarrow> run_actions expire as s = Some s' \<Longrightarrow> timers_inv s'"
proof (induction as arbitrary: s)
  case (Cons a as)
  then obtain s1 where s1: "perform expire a s = Some s1" "run_actions expire as s1 = Some s'"
    by (auto simp: bind_eq_Some_conv)
  have "timers_inv s1" using s1(1) Cons.prems(1) assms timer_operations_inv by (cases a) auto
  then show ?case using Cons.IH s1(2) by blast
qed simp

lemma fired_by_inv: "timers_inv s \<Longrightarrow> fired_by script n t s = Some s' \<Longrightarrow> timers_inv s'"
proof (induction n arbitrary: t s s')
  case (Suc n)
  have c: "timer_client (fired_by script n)" by unfold_locales (rule Suc.IH)
  have "run_actions (timeout_cb (fired_by script n)) (script t s) s = Some s'" using Suc.prems(2) by simp
  from run_actions_inv [OF timer_client.timeout_cb_inv [OF c] Suc.prems(1) this] show ?case .
qed simp

interpretation scripted: timer_client "fired_by script n" for script n
  by unfold_locales (rule fired_by_inv)

text \<open>C29: Whatever sequence of operations was run on the timers of a thread, with timers firing, restarting,
  stopping and nesting event loops as they like: the heap holds exactly the active timers, each once and each
  knowing its place; the first is one of the soonest; and unless timers are firing, the shared
  timer is armed for the time of the first, or not at all when there is none.\<close>

theorem timers_invariant:
  assumes "run_actions (timeout_cb (fired_by script n)) actions (no_timers peer) = Some s"
  shows "distinct (timerHeap s) \<and> (\<forall>t. isActive t s = (t \<in> set (timerHeap s))) \<and>
    (\<forall>i < length (timerHeap s). m_heapIndex (timers s (timerHeap s ! i)) = int i) \<and>
    (\<forall>t. isActive t s \<longrightarrow> timer_key s (hd (timerHeap s)) \<le> timer_key s t) \<and>
    (m_sharedTimer s \<and> st_peer (sharedTimer s) \<and> \<not> m_firingTimers s \<longrightarrow>
       map_option fst (st_armed (sharedTimer s)) = (if timerHeap s = [] then None else Some (timer_key s (hd (timerHeap s)))))"
proof -
  have "timers_inv s" by (rule run_actions_inv [OF _ no_timers_inv assms]) (rule scripted.timeout_cb_inv)
  then have s: "timers_ok s" "armed_ok s" by (simp_all add: timers_inv_def)
  have "distinct (timerHeap s)" "\<forall>i < length (timerHeap s). m_heapIndex (timers s (timerHeap s ! i)) = int i"
    using s(1) by (simp_all add: timers_ok_def heap_ok_def indexed_def)
  moreover have "\<forall>t. isActive t s = (t \<in> set (timerHeap s))" using s(1) by (simp add: timers_ok_def isActive_def)
  moreover have "\<forall>t. isActive t s \<longrightarrow> timer_key s (hd (timerHeap s)) \<le> timer_key s t"
    using first_soonest [OF s(1)] by (simp add: isActive_def)
  ultimately show ?thesis using s(2) unfolding armed_ok_def by blast
qed

declare fire_loop.simps [code]

theorem timers_invariant_witness:
  "\<exists>s. run_actions (timeout_cb (fired_by (\<lambda>t _. if t = 2 then [Start 3 1 0] else []) 1))
        [SetSharedTimer True, Start 1 5 0, Start 2 3 0, Elapse 4, Expire] (no_timers True) = Some s
     \<and> isActive 3 s \<and> \<not> isActive 2 s"
proof -
  have "map_option timerHeap (run_actions (timeout_cb (fired_by (\<lambda>t _. if t = 2 then [Start 3 1 0] else []) 1))
        [SetSharedTimer True, Start 1 5 0, Start 2 3 0, Elapse 4, Expire] (no_timers True)) = Some [1, 3]"
    by code_simp
  then obtain s where s: "run_actions (timeout_cb (fired_by (\<lambda>t _. if t = 2 then [Start 3 1 0] else []) 1))
        [SetSharedTimer True, Start 1 5 0, Start 2 3 0, Elapse 4, Expire] (no_timers True) = Some s" "timerHeap s = [1, 3]"
    by auto
  then show ?thesis using timers_invariant [OF s(1)] by auto
qed

section \<open>Due timers do fire\<close>

text \<open>
  What is asked of the timers' functions: that they return, keep the invariant, do not reset the guard
  against reentrance, do not turn time back, and start no timer at a time that has passed already.
\<close>

definition returns_ahead :: "real \<Rightarrow> (timer_id \<Rightarrow> threads \<Rightarrow> threads option) \<Rightarrow> bool" where
  "returns_ahead now fired \<longleftrightarrow> (\<forall>t s. timers_inv s \<and> m_firingTimers s \<and> now \<le> clock s \<longrightarrow>
     (\<exists>s'. fired t s = Some s' \<and> timers_inv s' \<and> m_firingTimers s' \<and> now \<le> clock s' \<and>
        (\<forall>u. isActive u s' \<and> timer_key s' u \<le> Time now \<longrightarrow> isActive u s \<and> timer_key s u \<le> Time now) \<and>
        ((\<forall>u. 0 \<le> m_repeatInterval (timers s u)) \<longrightarrow> (\<forall>u. 0 \<le> m_repeatInterval (timers s' u)))))"

definition due :: "real \<Rightarrow> threads \<Rightarrow> timer_id set" where
  "due now s = {u. isActive u s \<and> timer_key s u \<le> Time now}"

lemma finite_due: "timers_inv s \<Longrightarrow> finite (due now s)"
  by (rule finite_subset [of _ "set (timerHeap s)"]) (auto simp: due_def isActive_def timers_inv_def timers_ok_def)

lemma take_due_due:
  assumes "timers_inv s" "m_firingTimers s" "timerHeap s \<noteq> []" "timer_key s (hd (timerHeap s)) \<le> Time now"
    "\<forall>u. 0 \<le> m_repeatInterval (timers s u)"
  shows "due now (take_due now s) = due now s - {hd (timerHeap s)}" "hd (timerHeap s) \<in> due now s"
proof -
  have r: "m_repeatInterval (timers s (hd (timerHeap s))) \<noteq> 0 \<Longrightarrow> 0 < m_repeatInterval (timers s (hd (timerHeap s)))"
    using assms(5) by (simp add: order_less_le)
  show "due now (take_due now s) = due now s - {hd (timerHeap s)}"
    using take_due_spec(2) [OF assms(1-3), of now] r by (auto simp: due_def isActive_def retimed_def split: if_splits)
  show "hd (timerHeap s) \<in> due now s"
    using assms(1,3,4) hd_in_set by (auto simp: due_def isActive_def timers_inv_def timers_ok_def)
qed

lemma fire_loop_ends:
  assumes "returns_ahead now fired"
  shows "timers_inv s \<Longrightarrow> m_firingTimers s \<Longrightarrow> now \<le> clock s \<Longrightarrow> \<forall>u. 0 \<le> m_repeatInterval (timers s u) \<Longrightarrow>
    \<exists>s'. fire_loop fired now timeToQuit s = Some s' \<and> timers_inv s' \<and> (timeToQuit < clock s' \<or> due now s' = {})"
proof (induction "card (due now s)" arbitrary: s rule: less_induct)
  case less
  show ?case
  proof (cases "timerHeap s \<noteq> [] \<and> timer_key s (hd (timerHeap s)) \<le> Time now")
    case True
    let ?t = "hd (timerHeap s)" and ?s = "take_due now s"
    have t: "timers_inv ?s" "m_firingTimers ?s" "now \<le> clock ?s" "\<forall>u. 0 \<le> m_repeatInterval (timers ?s u)"
      using take_due_spec [OF less.prems(1,2), of now] True less.prems by (auto simp: retimed_def)
    obtain s1 where s1: "fired ?t ?s = Some s1" "timers_inv s1" "m_firingTimers s1" "now \<le> clock s1"
      "\<And>u. isActive u s1 \<and> timer_key s1 u \<le> Time now \<longrightarrow> isActive u ?s \<and> timer_key ?s u \<le> Time now"
      "\<forall>u. 0 \<le> m_repeatInterval (timers s1 u)"
      using assms t unfolding returns_ahead_def by blast
    have "due now s1 \<subseteq> due now ?s" using s1(5) by (auto simp: due_def)
    also have "\<dots> \<subset> due now s" using take_due_due [of s now] True less.prems by blast
    finally have smaller: "card (due now s1) < card (due now s)"
      using finite_due [OF less.prems(1)] by (rule psubset_card_mono [rotated])
    have e: "fire_loop fired now timeToQuit s = (if timeToQuit < clock s1 then Some s1 else fire_loop fired now timeToQuit s1)"
      using True s1(1,3) by (subst fire_loop.simps) simp
    show ?thesis
    proof (cases "timeToQuit < clock s1")
      case True
      then show ?thesis using e s1(2) by simp
    next
      case False
      then show ?thesis using e less.hyps [OF smaller s1(2,3,4,6)] by simp
    qed
  next
    case False
    moreover have "due now s = {}"
    proof (rule ccontr)
      assume "due now s \<noteq> {}"
      then obtain u where u: "timer_key s u \<noteq> Time 0" "timer_key s u \<le> Time now" by (auto simp: due_def isActive_def)
      then show False
        using False first_soonest [of s u] less.prems(1) order_trans unfolding timers_inv_def by blast
    qed
    ultimately show ?thesis using less.prems(1) by (subst fire_loop.simps) auto
  qed
qed

text \<open>C30: When the shared timer fires (not from within a firing), no repeat interval is negative, and every timer function returns, runs
  no nested event loop (which would end the firing in progress), does not turn the clock back or set a negative repeat interval,
  and leaves no new timer that was due by then: the loop ends; unless its time slice of 50 ms is over, no active timer is due by
  the time the shared timer fired, and the shared timer is armed for the first of the timers that are left.\<close>

theorem sharedTimerFired_fires_due:
  assumes "timers_inv s" "\<not> m_firingTimers s" "\<forall>u. 0 \<le> m_repeatInterval (timers s u)" "returns_ahead (clock s) fired"
  shows "\<exists>s'. sharedTimerFired fired s = Some s' \<and> timers_inv s' \<and> \<not> m_firingTimers s' \<and>
    (clock s + maxDurationOfFiringTimers < clock s' \<or> (\<forall>t. isActive t s' \<longrightarrow> Time (clock s) < timer_key s' t))"
proof -
  let ?s = "s\<lparr>m_firingTimers := True\<rparr>"
  have "timers_inv ?s" using assms(1) timers_ok_cong [of ?s s] by (simp add: timers_inv_def armed_ok_def)
  then obtain s1 where s1: "fire_loop fired (clock s) (clock s + maxDurationOfFiringTimers) ?s = Some s1" "timers_inv s1"
    "clock s + maxDurationOfFiringTimers < clock s1 \<or> due (clock s) s1 = {}"
    using fire_loop_ends [OF assms(4), of ?s "clock s + maxDurationOfFiringTimers"] assms(3) by auto
  have "timers_inv (fireTimersInNestedEventLoop s1)" using s1(2) by (rule timer_operations_inv(5))
  then show ?thesis
    using s1 assms(2) by (auto simp: sharedTimerFired_def Let_def fireTimersInNestedEventLoop_def due_def isActive_def not_le)
qed

lemma start_ahead: "now \<le> clock s \<Longrightarrow> 0 < a \<Longrightarrow> timers_inv s \<Longrightarrow>
    retimed t (Time (clock s + a)) (set_timer t (m_repeatInterval_update (\<lambda>_. b)) s) (timer_start t a b s)"
  unfolding timer_start_def
  using setNextFireTime_spec(2) [of "set_timer t (m_repeatInterval_update (\<lambda>_. b)) s" "Time (clock s + a)" t]
  by (simp add: timers_inv_def set_repeat_frame)

lemma restarting_returns_ahead: "returns_ahead now (\<lambda>t s. Some (timer_start 7 1 0 s))"
  unfolding returns_ahead_def
proof (intro allI impI exI conjI)
  fix t u s assume s: "timers_inv s \<and> m_firingTimers s \<and> now \<le> clock s"
  then have r: "retimed 7 (Time (clock s + 1)) (set_timer 7 (m_repeatInterval_update (\<lambda>_. 0)) s) (timer_start 7 1 0 s)"
    by (intro start_ahead [of now]) simp_all
  show "timers_inv (timer_start 7 1 0 s)" using s timer_operations_inv(1) by blast
  show "m_firingTimers (timer_start 7 1 0 s)" "now \<le> clock (timer_start 7 1 0 s)"
    using r s by (simp_all add: retimed_def set_timer_def)
  show "isActive u s" "timer_key s u \<le> Time now"
    if "isActive u (timer_start 7 1 0 s) \<and> timer_key (timer_start 7 1 0 s) u \<le> Time now"
    using that r s by (auto simp: retimed_def set_timer_def isActive_def split: if_splits)
  show "0 \<le> m_repeatInterval (timers (timer_start 7 1 0 s) u)" if "\<forall>u. 0 \<le> m_repeatInterval (timers s u)"
    using that r by (simp add: retimed_def set_timer_def)
qed simp

theorem sharedTimerFired_fires_due_witness:
  "\<exists>s'. sharedTimerFired (\<lambda>t s. Some (timer_start 7 1 0 s)) (timer_start 1 0.5 0 (no_timers True)\<lparr>clock := 2\<rparr>) = Some s'"
proof -
  have "timers_inv (timer_start 1 0.5 0 (no_timers True)\<lparr>clock := 2\<rparr>)"
    using timer_operations_inv(1,6) no_timers_inv by blast
  moreover have "retimed 1 (Time 0.5) (set_timer 1 (m_repeatInterval_update (\<lambda>_. 0)) (no_timers True)) (timer_start 1 0.5 0 (no_timers True))"
    using start_ahead [of 0 "no_timers True" "0.5" 1 0] no_timers_inv by (simp add: no_timers_def)
  then have "\<not> m_firingTimers (timer_start 1 0.5 0 (no_timers True)\<lparr>clock := 2\<rparr>)"
    "\<forall>u. 0 \<le> m_repeatInterval (timers (timer_start 1 0.5 0 (no_timers True)\<lparr>clock := 2\<rparr>) u)"
    by (simp_all add: retimed_def set_timer_def no_timers_def TimerBase_new_def)
  ultimately show ?thesis
    using sharedTimerFired_fires_due [of "timer_start 1 0.5 0 (no_timers True)\<lparr>clock := 2\<rparr>" "\<lambda>t s. Some (timer_start 7 1 0 s)"]
      restarting_returns_ahead by blast
qed

end
