(* ===== verification/UserContent.thy ===== *)
theory UserContent
  imports KURLOps StringSplit
begin

text \<open>
  The URL patterns of user scripts and style sheets: src/webkit/WebCore/page/UserContentURLPattern.cpp.
  A pattern is parsed into a scheme, a host and a path with wild cards. The parser reads the first
  component of the host without looking whether there is one; \<open>None\<close> is the access outside the
  vector, which nothing catches.
\<close>

section \<open>Parsing\<close>

record url_pattern =
  up_invalid :: bool
  up_scheme :: ustring
  up_host :: ustring
  up_path :: ustring
  up_matchSubdomains :: bool

definition schemeSeparator :: ustring where
  "schemeSeparator = lit ''://''"

text \<open>The components after the first, put together again.\<close>

fun rejoin :: "ustring list \<Rightarrow> ustring \<Rightarrow> ustring" where
  "rejoin [] m_host = m_host"
| "rejoin (c # cs) m_host = rejoin cs (m_host @ c @ (if cs \<noteq> [] then lit ''.'' else []))"

text \<open>The host between the separator and the first slash: the new host and whether subdomains match.\<close>

definition parse_pattern_host :: "unicode_peer \<Rightarrow> ustring \<Rightarrow> (ustring \<times> bool) option" where
  "parse_pattern_host U m_host =
     Option.bind (String_split U m_host (lit ''.'') False) (\<lambda>hostComponents.
       case hostComponents of
         [] \<Rightarrow> None
       | c # cs \<Rightarrow> if c = lit ''*'' then Some (rejoin cs [], True) else Some (m_host, False))"

definition pattern_parse :: "unicode_peer \<Rightarrow> ustring \<Rightarrow> url_pattern \<Rightarrow> (bool \<times> url_pattern) option" where
  "pattern_parse U pattern p =
     (let schemeEndPos = find_string U pattern schemeSeparator 0 True
      in if schemeEndPos = -1 then Some (False, p)
         else let p1 = p\<lparr>up_scheme := left pattern (nat schemeEndPos)\<rparr>;
                  hostStartPos = schemeEndPos + int (length schemeSeparator)
              in if hostStartPos \<ge> int (length pattern) then Some (False, p1)
                 else if up_scheme p1 = lit ''file''
                 then Some (True, p1\<lparr>up_path := right pattern (length pattern - nat hostStartPos)\<rparr>)
                 else let hostEndPos = find_cstr U pattern (lit ''/'') hostStartPos True
                      in if hostEndPos = -1 then Some (False, p1)
                         else let m_host = substring pattern (nat hostStartPos) (to_unsigned (hostEndPos - hostStartPos))
                              in Option.bind (parse_pattern_host U m_host) (\<lambda>(h, sub).
                                   let p2 = p1\<lparr>up_host := h, up_matchSubdomains := up_matchSubdomains p1 \<or> sub\<rparr>
                                   in if find_cstr U h (lit ''*'') 0 True \<noteq> -1 then Some (False, p2)
                                      else Some (True, p2\<lparr>up_path := right pattern (length pattern - nat hostEndPos)\<rparr>)))"

definition UserContentURLPattern_new :: "unicode_peer \<Rightarrow> ustring \<Rightarrow> url_pattern option" where
  "UserContentURLPattern_new U pattern =
     map_option (\<lambda>(ok, p). p\<lparr>up_invalid := \<not> ok\<rparr>)
       (pattern_parse U pattern
          \<lparr>up_invalid = False, up_scheme = [], up_host = [], up_path = [], up_matchSubdomains = False\<rparr>)"

section \<open>Matching a path\<close>

text \<open>The tester's pattern and test string with their indices.\<close>

function eatWildcard :: "ustring \<Rightarrow> nat \<Rightarrow> nat" where
  "eatWildcard p i = (if i < length p then if p ! i \<noteq> ch CHR ''*'' then i else eatWildcard p (i + 1) else i)"
  by pat_completeness auto
termination
  by (relation "measure (\<lambda>(p, i). length p - i)") auto

function eatSameChars :: "ustring \<Rightarrow> ustring \<Rightarrow> nat \<Rightarrow> nat \<Rightarrow> nat \<times> nat" where
  "eatSameChars p t i j =
     (if i < length p \<and> j < length t
      then if p ! i = ch CHR ''*'' then (i, j)
           else if p ! i \<noteq> t ! j then (i, j)
           else eatSameChars p t (i + 1) (j + 1)
      else (i, j))"
  by pat_completeness auto
termination
  by (relation "measure (\<lambda>(p, t, i, j). length p - i)") auto

declare eatWildcard.simps [simp del] eatSameChars.simps [simp del]

lemma eatSameChars_ge: "eatSameChars p t i j = (i', j') \<Longrightarrow> i \<le> i' \<and> j \<le> j'"
proof (induction p t i j rule: eatSameChars.induct)
  case (1 p t i j)
  from 1(2) show ?case
    by (subst (asm) eatSameChars.simps) (use 1(1) in \<open>fastforce split: if_splits\<close>)
qed

text \<open>
  \<open>test()\<close> and its loop, which tries the rest of the pattern at every place of the string. The loop
  is entered at a wild card only, so its test that the index is within the pattern, made for the
  sake of termination, always holds.
\<close>

function match_test :: "ustring \<Rightarrow> ustring \<Rightarrow> nat \<Rightarrow> nat \<Rightarrow> bool"
  and star_loop :: "ustring \<Rightarrow> ustring \<Rightarrow> nat \<Rightarrow> nat \<Rightarrow> bool" where
  "match_test p t i0 j0 =
     (case eatSameChars p t i0 j0 of (i, j) \<Rightarrow>
        if j \<ge> length t then eatWildcard p i \<ge> length p
        else if i \<ge> length p then False
        else if p ! i \<noteq> ch CHR ''*'' then False
        else star_loop p t i j)"
| "star_loop p t i j =
     (if j < length t \<and> i < length p
      then if match_test p t (i + 1) j then True else star_loop p t i (j + 1)
      else eatWildcard p i \<ge> length p)"
  by pat_completeness auto
termination
  by (relation "measures [\<lambda>x. case x of Inl (p, t, i, j) \<Rightarrow> length p - i | Inr (p, t, i, j) \<Rightarrow> length p - i,
        \<lambda>x. case x of Inl (p, t, i, j) \<Rightarrow> length t - j | Inr (p, t, i, j) \<Rightarrow> length t - j,
        \<lambda>x. case x of Inl _ \<Rightarrow> 1 | Inr _ \<Rightarrow> 0]")
    (auto split: prod.splits dest: eatSameChars_ge)

declare match_test.simps [simp del] star_loop.simps [simp del]

section \<open>Matching a URL\<close>

text \<open>\<open>endsWith\<close> without regard to case.\<close>

definition endsWith_ignoringCase :: "unicode_peer \<Rightarrow> ustring \<Rightarrow> ustring \<Rightarrow> bool" where
  "endsWith_ignoringCase U s suffix =
     (let start = int (length s) - int (length suffix)
      in if start \<ge> 0 then find_string U s suffix start False = start else False)"

definition matchesHost :: "unicode_peer \<Rightarrow> text_encoding \<Rightarrow> url_pattern \<Rightarrow> KURL \<Rightarrow> bool" where
  "matchesHost U E p test =
     (if host E test = up_host p then True
      else if \<not> up_matchSubdomains p then False
      else if length (up_host p) = 0 then True
      else endsWith_ignoringCase U (host E test) (up_host p))"

definition matchesPath :: "text_encoding \<Rightarrow> url_pattern \<Rightarrow> KURL \<Rightarrow> bool" where
  "matchesPath E p test = match_test (up_path p) (path E test) 0 0"

definition pattern_matches :: "unicode_peer \<Rightarrow> text_encoding \<Rightarrow> url_pattern \<Rightarrow> KURL \<Rightarrow> bool" where
  "pattern_matches U E p test =
     (if up_invalid p then False
      else if protocol test \<noteq> up_scheme p then False
      else if \<not> matchesHost U E p test then False
      else matchesPath E p test)"

text \<open>The loop over a list of patterns, which stops at the first that matches.\<close>

fun matches_any :: "unicode_peer \<Rightarrow> text_encoding \<Rightarrow> KURL \<Rightarrow> ustring list \<Rightarrow> bool option" where
  "matches_any U E url [] = Some False"
| "matches_any U E url (s # ss) =
     Option.bind (UserContentURLPattern_new U s) (\<lambda>p.
       if pattern_matches U E p url then Some True else matches_any U E url ss)"

definition matchesPatterns ::
  "unicode_peer \<Rightarrow> text_encoding \<Rightarrow> KURL \<Rightarrow> ustring list option \<Rightarrow> ustring list option \<Rightarrow> bool option" where
  "matchesPatterns U E url whitelist blacklist =
     Option.bind (if whitelist = None \<or> whitelist = Some [] then Some True else matches_any U E url (the whitelist))
       (\<lambda>matchesWhitelist.
          Option.bind (case blacklist of None \<Rightarrow> Some False | Some b \<Rightarrow> matches_any U E url b)
            (\<lambda>matchesBlacklist. Some (matchesWhitelist \<and> \<not> matchesBlacklist)))"

end
