(* ===== verification/UserContentFacts.thy ===== *)
theory UserContentFacts
  imports UserContent StringSearch SecurityOriginFacts
begin

text \<open>
  The tester of user content patterns decides the meaning of a pattern with wild cards, patterns
  are parsed into their parts, and two things the code does that a pattern does not say.
\<close>

section \<open>Wild cards\<close>

text \<open>What a pattern means: a star stands for any characters, every other character for itself.\<close>

fun glob :: "ustring \<Rightarrow> ustring \<Rightarrow> bool" where
  "glob [] t \<longleftrightarrow> t = []"
| "glob (p # ps) t \<longleftrightarrow>
     (if p = ch CHR ''*'' then glob ps t \<or> (case t of [] \<Rightarrow> False | c # cs \<Rightarrow> glob (p # ps) cs)
      else (case t of [] \<Rightarrow> False | c # cs \<Rightarrow> p = c \<and> glob ps cs))"

lemma glob_star: "glob (ch CHR ''*'' # ps) t \<longleftrightarrow> (\<exists>k \<le> length t. glob ps (drop k t))"
proof (induction t)
  case (Cons c t)
  have "(\<exists>k \<le> length (c # t). glob ps (drop k (c # t))) \<longleftrightarrow> glob ps (c # t) \<or> (\<exists>k \<le> length t. glob ps (drop k t))"
    by (metis Suc_le_mono drop0 drop_Suc_Cons le0 length_Cons not0_implies_Suc)
  then show ?case using Cons by simp
qed simp

lemma glob_empty: "glob p [] \<longleftrightarrow> list_all (\<lambda>c. c = ch CHR ''*'') p"
  by (induction p) simp_all

lemma eatWildcard_all: "length p \<le> eatWildcard p i \<longleftrightarrow> list_all (\<lambda>c. c = ch CHR ''*'') (drop i p)"
proof (induction p i rule: eatWildcard.induct)
  case (1 p i)
  show ?case
  proof (cases "i < length p")
    case True
    then have "drop i p = p ! i # drop (i + 1) p" by (simp add: Cons_nth_drop_Suc)
    then show ?thesis using 1 True by (subst eatWildcard.simps) auto
  next
    case False
    then show ?thesis by (subst eatWildcard.simps) simp
  qed
qed

lemma eatSameChars_glob:
  "eatSameChars p t i j = (i', j') \<Longrightarrow> i \<le> length p \<Longrightarrow> j \<le> length t \<Longrightarrow>
     glob (drop i p) (drop j t) = glob (drop i' p) (drop j' t) \<and> i' \<le> length p \<and> j' \<le> length t
     \<and> (i' < length p \<and> j' < length t \<longrightarrow> p ! i' = ch CHR ''*'' \<or> p ! i' \<noteq> t ! j')"
proof (induction p t i j rule: eatSameChars.induct)
  case (1 p t i j)
  show ?case
  proof (cases "i < length p \<and> j < length t \<and> p ! i \<noteq> ch CHR ''*'' \<and> p ! i = t ! j")
    case True
    then have "drop i p = p ! i # drop (i + 1) p" "drop j t = t ! j # drop (j + 1) t"
      using Cons_nth_drop_Suc [of i p] Cons_nth_drop_Suc [of j t] by simp_all
    moreover have "eatSameChars p t (i + 1) (j + 1) = (i', j')" using 1(2) True by (subst (asm) eatSameChars.simps) auto
    moreover have "t ! j \<noteq> ch CHR ''*''" using True by metis
    ultimately show ?thesis using 1 True by simp
  next
    case False
    then have "i' = i \<and> j' = j" using 1(2) by (subst (asm) eatSameChars.simps) (auto split: if_splits)
    then show ?thesis using 1 False by auto
  qed
qed

lemma match_test_glob:
  "i \<le> length p \<Longrightarrow> j \<le> length t \<Longrightarrow> match_test p t i j = glob (drop i p) (drop j t)"
  "i < length p \<Longrightarrow> j \<le> length t \<Longrightarrow> p ! i = ch CHR ''*'' \<Longrightarrow> star_loop p t i j = glob (drop i p) (drop j t)"
proof (induction p t i j and p t i j rule: match_test_star_loop.induct)
  case (1 p t i0 j0)
  obtain i j where e: "eatSameChars p t i0 j0 = (i, j)" by fastforce
  note g = eatSameChars_glob [OF e 1(2,3)]
  consider "j = length t" | "j < length t" "i = length p" | "j < length t" "i < length p" using g by linarith
  then show ?case
  proof cases
    case 1
    then show ?thesis using g eatWildcard_all [of p i] by (subst match_test.simps) (simp add: e glob_empty)
  next
    case 2
    then show ?thesis using g by (subst match_test.simps) (simp add: e)
  next
    case 3
    then have d: "drop i p = p ! i # drop (i + 1) p" "drop j t = t ! j # drop (j + 1) t"
      by (simp_all add: Cons_nth_drop_Suc)
    show ?thesis
    proof (cases "p ! i = ch CHR ''*''")
      case True
      then show ?thesis using g 3 "1.IH" [OF e [symmetric]] by (subst match_test.simps) (simp add: e)
    next
      case False
      then show ?thesis using g 3 d by (subst match_test.simps) (simp add: e)
    qed
  qed
next
  case (2 p t i j)
  have d: "drop i p = ch CHR ''*'' # drop (i + 1) p" using Cons_nth_drop_Suc [of i p] 2(3,5) by simp
  show ?case
  proof (cases "j < length t")
    case True
    then have "drop j t = t ! j # drop (j + 1) t" by (simp add: Cons_nth_drop_Suc)
    then show ?thesis using 2 True d by (subst star_loop.simps) auto
  next
    case False
    then show ?thesis using 2 d eatWildcard_all [of p i] by (subst star_loop.simps) (simp add: glob_empty)
  qed
qed

text \<open>C37: The backtracking tester decides the meaning of a path pattern: it accepts exactly the strings
  that come from the pattern by replacing each star by some characters.\<close>

theorem match_test_is_glob: "match_test p t 0 0 = glob p t"
  using match_test_glob(1) [of 0 p 0 t] by simp

section \<open>The parts of a pattern\<close>

lemma occurs_at_char: "occurs_at s [c] j \<longleftrightarrow> j < length s \<and> s ! j = c"
  by (auto simp: occurs_at_def take_Suc_conv_app_nth)

lemma occurs_at_prefix: "occurs_at (a @ pat @ b) pat (length a)"
  by (simp add: occurs_at_def)

lemma find_scheme_end:
  assumes "ch CHR '':'' \<notin> set scheme" "length (scheme @ schemeSeparator @ r) < 2 ^ 31"
  shows "find_string U (scheme @ schemeSeparator @ r) schemeSeparator 0 True = int (length scheme)"
proof -
  let ?s = "scheme @ schemeSeparator @ r"
  have at_end: "occurs_at ?s schemeSeparator (length scheme)" by (rule occurs_at_prefix)
  have no: "\<not> occurs_at ?s schemeSeparator j" if "j < length scheme" for j
  proof
    assume "occurs_at ?s schemeSeparator j"
    then have "take (length schemeSeparator) (drop j ?s) = schemeSeparator" by (simp only: occurs_at_def)
    then have "hd (take (length schemeSeparator) (drop j ?s)) = hd schemeSeparator" by (simp only:)
    moreover have "0 < length schemeSeparator" "hd schemeSeparator = ch CHR '':''" by (simp_all add: schemeSeparator_def)
    ultimately have "hd (drop j ?s) = ch CHR '':''" by (simp only: hd_take)
    then have "scheme ! j = ch CHR '':''" using that hd_drop_conv_nth [of j ?s] by (simp add: nth_append)
    then show False using assms(1) that nth_mem by metis
  qed
  have z: "(0 :: int) \<le> 0" "(0 :: int) < 2 ^ 31" by simp_all
  from find_string_spec [OF z assms(2), of U schemeSeparator] show ?thesis
  proof (elim disjE exE conjE)
    assume "\<forall>j \<ge> nat 0. \<not> occurs_at ?s schemeSeparator j"
    then show ?thesis using at_end by simp
  next
    fix k assume k: "find_string U ?s schemeSeparator 0 True = int k" "occurs_at ?s schemeSeparator k"
      "\<forall>j. nat 0 \<le> j \<and> j < k \<longrightarrow> \<not> occurs_at ?s schemeSeparator j"
    have "k = length scheme"
      using k(2,3) no at_end by (metis linorder_neqE_nat nat_0 zero_le)
    then show ?thesis using k(1) by simp
  qed
qed

lemma cstr_matches_char: "cstr_matches U True [b] (take (length [b]) (drop k s)) \<longleftrightarrow> k < length s \<and> s ! k = ucast b"
proof (cases "k < length s")
  case True
  then have "take (length [b]) (drop k s) = [s ! k]" by (simp add: take_Suc_conv_app_nth flip: Cons_nth_drop_Suc)
  then show ?thesis using True by (simp add: cstr_matches_def)
qed (simp add: cstr_matches_def)

lemma find_cstr_first:
  assumes "c = ucast b" "i \<le> length a" "c \<notin> set (drop i a)"
  shows "find_cstr U (a @ c # r) [b] (int i) True = int (length a)"
proof -
  let ?s = "a @ c # r"
  have m: "cstr_matches U True [b] (take (length [b]) (drop k ?s)) \<longleftrightarrow> k < length ?s \<and> ?s ! k = c" for k
    by (simp only: assms(1) cstr_matches_char)
  have no: "?s ! k \<noteq> c" if "i \<le> k" "k < length a" for k
    using that assms(2,3) nth_mem [of "k - i" "drop i a"] by (auto simp: nth_append)
  have hit: "length a < length ?s \<and> ?s ! length a = c" by simp
  have ne: "[b] \<noteq> []" by simp
  from find_cstr_spec [OF ne, of U ?s i True] show ?thesis
    unfolding m
  proof (elim disjE exE conjE)
    assume "\<forall>k \<ge> i. \<not> (k < length ?s \<and> ?s ! k = c)"
    then show ?thesis using hit assms(2) by blast
  next
    fix k assume k: "find_cstr U ?s [b] (int i) True = int k" "i \<le> k" "?s ! k = c"
      "\<forall>j. i \<le> j \<and> j < k \<longrightarrow> \<not> (j < length ?s \<and> ?s ! j = c)"
    then have "k = length a" using no hit assms(2) by (metis linorder_neqE_nat)
    then show ?thesis using k(1) by simp
  qed
qed

lemma join_unique:
  assumes "ps \<noteq> []" "qs \<noteq> []" "\<forall>p \<in> set ps. c \<notin> set p" "\<forall>q \<in> set qs. c \<notin> set q" "join [c] ps = join [c] qs"
  shows "ps = qs"
  using assms
proof (induction ps arbitrary: qs)
  case (Cons p ps)
  obtain q qs' where qs: "qs = q # qs'" using Cons.prems(2) by (cases qs) auto
  have split: "join [c] (x # xs) = x @ (if xs = [] then [] else c # join [c] xs)" for x xs
    by (cases xs) simp_all
  have take: "takeWhile (\<lambda>d. d \<noteq> c) (join [c] (x # xs)) = x" "drop (length x) (join [c] (x # xs)) = (if xs = [] then [] else c # join [c] xs)"
    if "c \<notin> set x" for x xs
    using that by (auto simp: split takeWhile_append2 takeWhile_tail)
  have "p = q" using take(1) [of p ps] take(1) [of q qs'] Cons.prems qs by simp
  moreover have "(if ps = [] then [] else c # join [c] ps) = (if qs' = [] then [] else c # join [c] qs')"
    using take(2) [of p ps] take(2) [of q qs'] Cons.prems qs \<open>p = q\<close> by simp
  then have "ps = qs'"
    using Cons.IH [of qs'] Cons.prems(3,4) qs by (auto split: if_splits)
  ultimately show ?case using qs by simp
qed simp

text \<open>Splitting at dots gives the components of a host back.\<close>

lemma split_host:
  assumes "comps \<noteq> []" "\<forall>c \<in> set comps. c \<noteq> [] \<and> ch CHR ''.'' \<notin> set c" "length (join (lit ''.'') comps) < 2 ^ 31"
  shows "String_split U (join (lit ''.'') comps) (lit ''.'') False = Some comps"
proof -
  obtain ps where ps: "join (lit ''.'') ps = join (lit ''.'') comps" "\<forall>q \<in> set ps. \<forall>j. \<not> occurs_at q (lit ''.'') j"
    "String_split U (join (lit ''.'') comps) (lit ''.'') False = Some (filter (\<lambda>q. q \<noteq> []) ps)"
    using split_join [of "lit ''.''" "join (lit ''.'') comps" U] assms(3) by auto
  have "join (lit ''.'') comps \<noteq> []"
    using assms(1,2) by (cases comps; cases "tl comps") auto
  then have "ps \<noteq> []" using ps(1) by auto
  moreover have "\<forall>q \<in> set ps. ch CHR ''.'' \<notin> set q"
    using ps(2) by (auto simp: occurs_at_char in_set_conv_nth)
  ultimately have "ps = comps" using join_unique [of ps comps "ch CHR ''.''"] assms(1,2) ps(1) by simp
  moreover have "filter (\<lambda>q. q \<noteq> []) comps = comps" using assms(2) by (simp add: filter_id_conv)
  ultimately show ?thesis using ps(3) by simp
qed

lemma rejoin_join: "rejoin cs acc = acc @ join (lit ''.'') cs"
  by (induction cs acc rule: rejoin.induct) (auto simp: join_Cons)

lemma right_append: "length (a @ b) < 2 ^ 31 \<Longrightarrow> right (a @ b) (length (a @ b) - length a) = b"
  by (simp add: right_def substring_eq_take_drop to_unsigned_def)

text \<open>The state of the parser when it has found the host.\<close>

lemma pattern_parse_host:
  assumes "ch CHR '':'' \<notin> set scheme" "scheme \<noteq> lit ''file''" "ch CHR ''/'' \<notin> set h"
    "length (scheme @ schemeSeparator @ h @ ch CHR ''/'' # r) < 2 ^ 31"
  shows "pattern_parse U (scheme @ schemeSeparator @ h @ ch CHR ''/'' # r) p =
    Option.bind (parse_pattern_host U h) (\<lambda>(h', sub).
      let p2 = p\<lparr>up_scheme := scheme, up_host := h', up_matchSubdomains := up_matchSubdomains p \<or> sub\<rparr>
      in if find_cstr U h' (lit ''*'') 0 True \<noteq> -1 then Some (False, p2)
         else Some (True, p2\<lparr>up_path := ch CHR ''/'' # r\<rparr>))"
proof -
  let ?s = "scheme @ schemeSeparator @ h @ ch CHR ''/'' # r"
  have f1: "find_string U ?s schemeSeparator 0 True = int (length scheme)"
    by (rule find_scheme_end [OF assms(1,4)])
  have l: "length schemeSeparator = 3" by (simp add: schemeSeparator_def)
  have f2: "find_cstr U ?s (lit ''/'') (int (length scheme) + int (length schemeSeparator)) True = int (length scheme + 3 + length h)"
    using find_cstr_first [of "ch CHR ''/''" "ch CHR ''/''" "length scheme + 3" "scheme @ schemeSeparator @ h" U r] assms(3) l
    by (simp add: lit_def)
  have s1: "left ?s (nat (int (length scheme))) = scheme"
    using assms(4) by (simp add: left_def substring_eq_take_drop)
  have s2: "substring ?s (nat (int (length scheme) + int (length schemeSeparator)))
      (to_unsigned (int (length scheme + 3 + length h) - (int (length scheme) + int (length schemeSeparator)))) = h"
    using assms(4) l by (simp add: substring_eq_take_drop to_unsigned_def nat_add_distrib)
  have s3: "right ?s (length ?s - nat (int (length scheme + 3 + length h))) = ch CHR ''/'' # r"
    using right_append [of "scheme @ schemeSeparator @ h" "ch CHR ''/'' # r"] l assms(4) by (simp add: nat_add_distrib ac_simps)
  have ne: "int (length scheme) \<noteq> -1" "\<not> int (length scheme) + int (length schemeSeparator) \<ge> int (length ?s)"
    "int (length scheme + 3 + length h) \<noteq> -1"
    using l by simp_all
  show ?thesis
    unfolding pattern_parse_def Let_def f1 s1 f2 s2 s3 using ne assms(2) by (simp del: length_append cong: if_cong)
qed

text \<open>The host part: with a star as first component it stands for the components after it.\<close>

definition host_components :: "ustring list \<Rightarrow> bool" where
  "host_components comps \<longleftrightarrow>
     list_all (\<lambda>c. c \<noteq> [] \<and> ch CHR ''.'' \<notin> set c \<and> ch CHR ''*'' \<notin> set c \<and> ch CHR ''/'' \<notin> set c) comps"

lemma set_join: "c \<in> set (join sep ps) \<Longrightarrow> c \<in> set sep \<or> (\<exists>p \<in> set ps. c \<in> set p)"
  by (induction sep ps rule: join.induct) auto

lemma in_join: "p \<in> set ps \<Longrightarrow> c \<in> set p \<Longrightarrow> c \<in> set (join sep ps)"
  by (induction sep ps rule: join.induct) auto

lemma parse_pattern_host_components:
  assumes "host_components comps" "sub \<or> comps \<noteq> []"
    "length (join (lit ''.'') (if sub then lit ''*'' # comps else comps)) < 2 ^ 31"
  shows "parse_pattern_host U (join (lit ''.'') (if sub then lit ''*'' # comps else comps)) = Some (join (lit ''.'') comps, sub)"
proof -
  have "String_split U (join (lit ''.'') (if sub then lit ''*'' # comps else comps)) (lit ''.'') False =
      Some (if sub then lit ''*'' # comps else comps)"
    using assms by (intro split_host) (auto simp: host_components_def list_all_iff)
  moreover have "hd comps \<noteq> lit ''*''" if "comps \<noteq> []"
    using that assms(1) by (cases comps) (auto simp: host_components_def)
  ultimately show ?thesis
    using assms(2) by (cases sub; cases comps) (simp_all add: parse_pattern_host_def rejoin_join)
qed

lemma no_star:
  assumes "host_components comps"
  shows "find_cstr U (join (lit ''.'') comps) (lit ''*'') 0 True = -1" "ch CHR ''/'' \<notin> set (join (lit ''.'') comps)"
proof -
  have n: "ch CHR ''*'' \<notin> set (join (lit ''.'') comps)" "ch CHR ''/'' \<notin> set (join (lit ''.'') comps)"
    using assms set_join [of _ "lit ''.''" comps] by (fastforce simp: host_components_def list_all_iff)+
  then show "ch CHR ''/'' \<notin> set (join (lit ''.'') comps)" by simp
  have ne: "[ch CHR ''*'' :: byte] \<noteq> []" by simp
  have m: "\<not> (k < length (join (lit ''.'') comps) \<and> join (lit ''.'') comps ! k = ucast (ch CHR ''*'' :: byte))" for k
    using n(1) by (auto simp: in_set_conv_nth)
  from find_cstr_spec [OF ne, of U "join (lit ''.'') comps" 0 True]
  show "find_cstr U (join (lit ''.'') comps) (lit ''*'') 0 True = -1"
    unfolding cstr_matches_char using m by (auto simp: lit_def)
qed

lemma pattern_meaning_fact:
  assumes "ch CHR '':'' \<notin> set scheme" "scheme \<noteq> lit ''file''" "host_components comps" "sub \<or> comps \<noteq> []"
    "pattern = scheme @ schemeSeparator @ join (lit ''.'') (if sub then lit ''*'' # comps else comps) @ ch CHR ''/'' # r"
    "length pattern < 2 ^ 31"
  shows "\<exists>p. UserContentURLPattern_new U pattern = Some p \<and>
    pattern_matches U E p url = (protocol url = scheme \<and> glob (ch CHR ''/'' # r) (path E url) \<and>
      (host E url = join (lit ''.'') comps \<or>
       sub \<and> (comps = [] \<or> endsWith_ignoringCase U (host E url) (join (lit ''.'') comps))))"
proof -
  let ?h = "join (lit ''.'') (if sub then lit ''*'' # comps else comps)"
  have hs: "ch CHR ''/'' \<notin> set ?h"
    using no_star(2) [OF assms(3)] by (cases "sub"; cases comps) (simp_all add: join_Cons)
  have len: "length ?h < 2 ^ 31" using assms(5,6) by simp
  have ne: "join (lit ''.'') comps = [] \<longleftrightarrow> comps = []"
    using assms(3) by (cases comps; cases "tl comps") (auto simp: host_components_def)
  let ?p = "\<lparr>up_invalid = False, up_scheme = scheme, up_host = join (lit ''.'') comps, up_path = ch CHR ''/'' # r,
      up_matchSubdomains = sub\<rparr>"
  have "UserContentURLPattern_new U pattern = Some ?p"
    unfolding UserContentURLPattern_new_def assms(5)
      pattern_parse_host [OF assms(1,2) hs assms(6) [unfolded assms(5)]]
      parse_pattern_host_components [OF assms(3,4) len]
    using no_star(1) [OF assms(3), of U] by (simp add: Let_def)
  moreover have "matchesPath E ?p url = glob (ch CHR ''/'' # r) (path E url)"
    using match_test_glob(1) [of 0 "ch CHR ''/'' # r" 0 "path E url"] by (simp add: matchesPath_def)
  moreover have "matchesHost U E ?p url = (host E url = join (lit ''.'') comps \<or>
       sub \<and> (comps = [] \<or> endsWith_ignoringCase U (host E url) (join (lit ''.'') comps)))"
    using ne by (auto simp: matchesHost_def)
  ultimately show ?thesis by (auto simp: pattern_matches_def)
qed


lemma endsWith_append: "length (a @ h) < 2 ^ 31 \<Longrightarrow> endsWith_ignoringCase U (a @ h) h"
proof -
  assume l: "length (a @ h) < 2 ^ 31"
  have "\<not> int (length h) mod 2 ^ 32 > int (length (a @ h))" using l by simp
  moreover have "find_loop toASCIILower (\<lambda>a b. map (peer_foldCase U) a = map (peer_foldCase U) b) h h
      (window_sum toASCIILower h) (window_sum toASCIILower h) 0 0 = Some 0"
    by (subst find_loop.simps) simp
  ultimately show ?thesis by (simp add: endsWith_ignoringCase_def find_string_def Let_def)
qed

text \<open>C38: A pattern, shorter than \<open>2\<^sup>3\<^sup>1\<close>, of a scheme other than file, a host of components that are not empty and have no dot, star or
  slash, with or without a star for the first, and a path: it is valid, and it matches exactly the URLs of that scheme whose path
  the path pattern means and whose host is that host or, with a star, ends with the characters of that host. The comments of
  the source speak of subdomains, but no dot is looked for: a pattern for *.example.com takes evilexample.com as well.\<close>

theorem pattern_meaning:
  assumes "ch CHR '':'' \<notin> set scheme" "scheme \<noteq> lit ''file''" "host_components comps" "sub \<or> comps \<noteq> []"
    "pattern = scheme @ schemeSeparator @ join (lit ''.'') (if sub then lit ''*'' # comps else comps) @ ch CHR ''/'' # r"
    "length pattern < 2 ^ 31"
  shows "\<exists>p. UserContentURLPattern_new U pattern = Some p \<and>
    pattern_matches U E p url = (protocol url = scheme \<and> glob (ch CHR ''/'' # r) (path E url) \<and>
      (host E url = join (lit ''.'') comps \<or>
       sub \<and> (comps = [] \<or> endsWith_ignoringCase U (host E url) (join (lit ''.'') comps))))"
  by (rule pattern_meaning_fact [OF assms])

theorem pattern_meaning_witness:
  "\<forall>E url. \<exists>p. UserContentURLPattern_new ascii_peer (lit ''http://*.example.com/a*'') = Some p \<and>
    pattern_matches ascii_peer E p url = (protocol url = lit ''http'' \<and> glob (lit ''/a*'') (path E url) \<and>
      (host E url = lit ''example.com'' \<or> endsWith_ignoringCase ascii_peer (host E url) (lit ''example.com'')))"
proof (intro allI)
  fix E url
  show "\<exists>p. UserContentURLPattern_new ascii_peer (lit ''http://*.example.com/a*'') = Some p \<and>
    pattern_matches ascii_peer E p url = (protocol url = lit ''http'' \<and> glob (lit ''/a*'') (path E url) \<and>
      (host E url = lit ''example.com'' \<or> endsWith_ignoringCase ascii_peer (host E url) (lit ''example.com'')))"
    using pattern_meaning [of "lit ''http''" "[lit ''example'', lit ''com'']" True "lit ''http://*.example.com/a*''" "lit ''a*''" ascii_peer E url]
    by (simp add: host_components_def schemeSeparator_def)
qed

text \<open>A pattern for the subdomains of a host also matches every other host whose name merely ends in
  the same characters: no dot is looked for before them.\<close>

theorem subdomain_pattern_matches_suffix:
  assumes "host E url = a @ lit ''example.com''" "length a < 2 ^ 30" "protocol url = lit ''http''" "path E url = ch CHR ''/'' # r"
  shows "\<exists>p. UserContentURLPattern_new U (lit ''http://*.example.com/*'') = Some p \<and> pattern_matches U E p url"
proof -
  have "endsWith_ignoringCase U (host E url) (lit ''example.com'')"
    unfolding assms(1) using endsWith_append [of a "lit ''example.com''" U] assms(2) by simp
  moreover have "glob (lit ''/*'') (path E url)"
    using glob_star [of "[]" r] by (simp add: assms(4)) (metis drop_all order_refl)
  ultimately show ?thesis
    using pattern_meaning_fact [of "lit ''http''" "[lit ''example'', lit ''com'']" True "lit ''http://*.example.com/*''" "lit ''*''" U E url] assms
    by (auto simp: host_components_def schemeSeparator_def)
qed

theorem subdomain_pattern_matches_suffix_witness:
  "\<exists>p. UserContentURLPattern_new ascii_peer (lit ''http://*.example.com/*'') = Some p \<and>
     pattern_matches ascii_peer \<lparr>enc_name = ''UTF-8'', enc_isValid = True, enc_decode = map ucast, enc_encode = map ucast\<rparr> p
       \<lparr>m_string = lit ''http://evilexample.com/'', m_isValid = True, m_protocolInHTTPFamily = True, m_schemeEnd = 4,
        m_userStart = 7, m_userEnd = 7, m_passwordEnd = 7, m_hostEnd = 22, m_portEnd = 22, m_pathAfterLastSlash = 23,
        m_pathEnd = 23, m_queryEnd = 23, m_fragmentEnd = 23\<rparr>"
  by (rule subdomain_pattern_matches_suffix [where a = "lit ''evil''" and r = "[]"])
    (simp_all add: host_def hostStart_def protocol_def path_def left_def substring_def decode_no_escape)

text \<open>A pattern whose host is empty or made of dots only has no first component, and the parser reads
  the first element of an empty vector.\<close>

theorem pattern_without_host_reads_outside:
  assumes "ch CHR '':'' \<notin> set scheme" "scheme \<noteq> lit ''file''" "n < 2 ^ 30" "length scheme + length r < 2 ^ 30 - 4"
  shows "UserContentURLPattern_new U (scheme @ schemeSeparator @ replicate n (ch CHR ''.'') @ ch CHR ''/'' # r) = None"
proof -
  let ?h = "replicate n (ch CHR ''.'')"
  have l: "length (scheme @ schemeSeparator @ ?h @ ch CHR ''/'' # r) < 2 ^ 31"
    using assms(3,4) by (simp add: schemeSeparator_def)
  obtain ps where ps: "join (lit ''.'') ps = ?h" "\<forall>q \<in> set ps. \<forall>j. \<not> occurs_at q (lit ''.'') j"
    "String_split U ?h (lit ''.'') False = Some (filter (\<lambda>q. q \<noteq> []) ps)"
    using split_join [of "lit ''.''" ?h U] assms(3) by auto
  have "q = []" if q: "q \<in> set ps" for q
  proof (rule ccontr)
    assume "q \<noteq> []"
    have "q ! 0 \<in> set (join (lit ''.'') ps)" using \<open>q \<noteq> []\<close> by (intro in_join [OF q nth_mem]) simp
    then have "occurs_at q (lit ''.'') 0" using \<open>q \<noteq> []\<close> ps(1) by (simp add: occurs_at_char)
    then show False using ps(2) q by blast
  qed
  then have "filter (\<lambda>q. q \<noteq> []) ps = []" by (simp add: filter_empty_conv)
  then have "parse_pattern_host U ?h = None" using ps(3) by (simp add: parse_pattern_host_def)
  then show ?thesis
    unfolding UserContentURLPattern_new_def using pattern_parse_host [OF assms(1,2) _ l] by simp
qed

theorem pattern_without_host_reads_outside_witness:
  "UserContentURLPattern_new ascii_peer (lit ''http:///'') = None"
  using pattern_without_host_reads_outside [of "lit ''http''" 0 "[]" ascii_peer] by (simp add: schemeSeparator_def)

end
