(* ===== verification/ManifestParser.thy ===== *)
theory ManifestParser
  imports SecurityOrigin
begin

text \<open>
  The parser of application cache manifests: src/webkit/WebCore/loader/appcache/ManifestParser.cpp.
  The text is the one the decoder gives for the data; pointers into it are indices. The set of
  explicit entries is a list without repetitions, in the order of insertion.
\<close>

section \<open>Manifests\<close>

datatype manifest_mode = ExplicitMode | FallbackMode | OnlineWhitelistMode | UnknownMode

record manifest =
  onlineWhitelistedURLs :: "KURL list"
  explicitURLs :: "ustring list"
  fallbackURLs :: "(KURL \<times> KURL) list"
  allowAllNetworkRequests :: bool

definition set_add :: "'a \<Rightarrow> 'a list \<Rightarrow> 'a list" where
  "set_add x xs = (if x \<in> set xs then xs else xs @ [x])"

definition isEndOfLine :: "uchar \<Rightarrow> bool" where
  "isEndOfLine c \<longleftrightarrow> c = 13 \<or> c = 10"

definition isBlank :: "uchar \<Rightarrow> bool" where
  "isBlank c \<longleftrightarrow> c = ch CHR '' '' \<or> c = 9"

text \<open>\<open>startsWith\<close> is a backward search from index 0, which compares the sums of the characters first.\<close>

definition startsWith :: "ustring \<Rightarrow> ustring \<Rightarrow> bool" where
  "startsWith s str \<longleftrightarrow>
     (if length s < length str then False
      else window_sum (\<lambda>c. c) (take (length str) s) = window_sum (\<lambda>c. c) str \<and> take (length str) s = str)"

section \<open>One line\<close>

definition withoutFragment :: "KURL \<Rightarrow> KURL" where
  "withoutFragment url = (if hasFragmentIdentifier url then removeFragmentIdentifier url else url)"

text \<open>A line of the explicit or the online section: the text up to the first white space.\<close>

definition manifest_url_line :: "url_library \<Rightarrow> KURL \<Rightarrow> manifest_mode \<Rightarrow> ustring \<Rightarrow> manifest \<Rightarrow> manifest" where
  "manifest_url_line L manifestURL mode line m =
     (let p = scan_while (\<lambda>c. c \<noteq> 9 \<and> c \<noteq> ch CHR '' '') line 0
      in if mode = OnlineWhitelistMode \<and> p = 1 \<and> line ! 0 = ch CHR ''*''
         then m\<lparr>allowAllNetworkRequests := True\<rparr>
         else let url0 = KURL_relative L manifestURL (take p line)
              in if \<not> m_isValid url0 then m
                 else let url = withoutFragment url0
                      in if \<not> equalIgnoringCase (lib_peer L) (protocol url) (protocol manifestURL) then m
                         else if mode = ExplicitMode
                         then m\<lparr>explicitURLs := set_add (m_string url) (explicitURLs m)\<rparr>
                         else m\<lparr>onlineWhitelistedURLs := onlineWhitelistedURLs m @ [url]\<rparr>)"

text \<open>A line of the fallback section: a namespace, white space, and a URL.\<close>

definition manifest_fallback_line :: "url_library \<Rightarrow> KURL \<Rightarrow> ustring \<Rightarrow> manifest \<Rightarrow> manifest" where
  "manifest_fallback_line L manifestURL line m =
     (let p = scan_while (\<lambda>c. c \<noteq> 9 \<and> c \<noteq> ch CHR '' '') line 0
      in if p = length line then m
         else let namespace0 = KURL_relative L manifestURL (take p line)
              in if \<not> m_isValid namespace0 then m
                 else let namespaceURL = withoutFragment namespace0
                      in if \<not> protocolHostAndPortAreEqual (lib_peer L) manifestURL namespaceURL then m
                         else let fallbackStart = scan_while (\<lambda>c. c = 9 \<or> c = ch CHR '' '') line p;
                                  p2 = scan_while (\<lambda>c. c \<noteq> 9 \<and> c \<noteq> ch CHR '' '') line fallbackStart;
                                  fallback0 = KURL_relative L manifestURL (segment line fallbackStart p2)
                              in if \<not> m_isValid fallback0 then m
                                 else let fallbackURL = withoutFragment fallback0
                                      in if \<not> protocolHostAndPortAreEqual (lib_peer L) manifestURL fallbackURL then m
                                         else m\<lparr>fallbackURLs := fallbackURLs m @ [(namespaceURL, fallbackURL)]\<rparr>)"

definition manifest_line ::
  "url_library \<Rightarrow> KURL \<Rightarrow> ustring \<Rightarrow> manifest_mode \<times> manifest \<Rightarrow> manifest_mode \<times> manifest" where
  "manifest_line L manifestURL line state =
     (case state of (mode, m) \<Rightarrow>
        if line = lit ''CACHE:'' then (ExplicitMode, m)
        else if line = lit ''FALLBACK:'' then (FallbackMode, m)
        else if line = lit ''NETWORK:'' then (OnlineWhitelistMode, m)
        else if endsWith (lib_peer L) line (lit '':'') then (UnknownMode, m)
        else if mode = UnknownMode then (mode, m)
        else if mode = ExplicitMode \<or> mode = OnlineWhitelistMode then (mode, manifest_url_line L manifestURL mode line m)
        else (mode, manifest_fallback_line L manifestURL line m))"

section \<open>The loop over the lines\<close>

text \<open>The line from its start to its end, less trailing white space; its first character is kept.\<close>

definition manifest_trim :: "ustring \<Rightarrow> ustring" where
  "manifest_trim l = take (skip_back isBlank l (length l - 1) + 1) l"

function manifest_lines ::
  "url_library \<Rightarrow> KURL \<Rightarrow> ustring \<Rightarrow> nat \<Rightarrow> manifest_mode \<times> manifest \<Rightarrow> manifest_mode \<times> manifest" where
  "manifest_lines L manifestURL s p state =
     (let lineStart = scan_while (\<lambda>c. isEndOfLine c \<or> isBlank c) s p
      in if lineStart \<ge> length s then state
         else let lineEnd = scan_while (\<lambda>c. \<not> isEndOfLine c) s lineStart
              in if s ! lineStart = ch CHR ''#'' then manifest_lines L manifestURL s lineEnd state
                 else manifest_lines L manifestURL s lineEnd
                        (manifest_line L manifestURL (manifest_trim (segment s lineStart lineEnd)) state))"
  by pat_completeness auto

lemma line_progress:
  assumes "scan_while (\<lambda>c. isEndOfLine c \<or> isBlank c) s p < length s"
  shows "length s - scan_while (\<lambda>c. \<not> isEndOfLine c) s (scan_while (\<lambda>c. isEndOfLine c \<or> isBlank c) s p) < length s - p"
proof -
  let ?l = "scan_while (\<lambda>c. isEndOfLine c \<or> isBlank c) s p"
  have "\<not> isEndOfLine (s ! ?l)" using scan_while_stop [OF assms] by blast
  then have "Suc ?l \<le> scan_while (\<lambda>c. \<not> isEndOfLine c) s ?l"
    using assms by (subst scan_while.simps) simp
  moreover have "p \<le> ?l" by simp
  ultimately show ?thesis using assms by linarith
qed

termination manifest_lines
proof (relation "measure (\<lambda>(L, manifestURL, s, p, state). length s - p)", goal_cases)
  case 1
  then show ?case by simp
next
  case (2 L manifestURL s p state lineStart lineEnd)
  then show ?case using line_progress [of s p] by (simp add: not_le)
next
  case (3 L manifestURL s p state lineStart lineEnd)
  then show ?case using line_progress [of s p] by (simp add: not_le)
qed

declare manifest_lines.simps [simp del]

definition emptyManifest :: manifest where
  "emptyManifest = \<lparr>onlineWhitelistedURLs = [], explicitURLs = [], fallbackURLs = [], allowAllNetworkRequests = False\<rparr>"

definition parseManifest :: "url_library \<Rightarrow> KURL \<Rightarrow> ustring \<Rightarrow> manifest option" where
  "parseManifest L manifestURL s =
     (if \<not> startsWith s (lit ''CACHE MANIFEST'') then None
      else if 14 < length s \<and> s ! 14 \<noteq> ch CHR '' '' \<and> s ! 14 \<noteq> 9 \<and> s ! 14 \<noteq> 10 \<and> s ! 14 \<noteq> 13 then None
      else Some (snd (manifest_lines L manifestURL s (scan_while (\<lambda>c. \<not> isEndOfLine c) s 14) (ExplicitMode, emptyManifest))))"

end
