(* ===== verification/ManifestParserFacts.thy ===== *)
theory ManifestParserFacts
  imports ManifestParser StringNumber
begin

text \<open>
  The manifest parser is a fold over the lines of the text, and every entry of a manifest it accepts
  has passed the origin checks.
\<close>

section \<open>Lines\<close>

text \<open>The text cut at carriage returns and line feeds; each line without the white space around it.\<close>

fun eol_lines :: "ustring \<Rightarrow> ustring list" where
  "eol_lines [] = [[]]"
| "eol_lines (c # cs) = (if isEndOfLine c then [] # eol_lines cs else (c # hd (eol_lines cs)) # tl (eol_lines cs))"

definition trim_blanks :: "ustring \<Rightarrow> ustring" where
  "trim_blanks l = rev (dropWhile isBlank (rev (dropWhile isBlank l)))"

definition manifest_records :: "ustring \<Rightarrow> ustring list" where
  "manifest_records t = filter (\<lambda>l. l \<noteq> [] \<and> hd l \<noteq> ch CHR ''#'') (map trim_blanks (eol_lines t))"

lemma eol_lines_ne [simp]: "eol_lines t \<noteq> []"
  by (cases t) auto

lemma trim_blanks_Nil [simp]: "trim_blanks [] = []"
  by (simp add: trim_blanks_def)

lemma records_skip: "isEndOfLine c \<or> isBlank c \<Longrightarrow> manifest_records (c # t) = manifest_records t"
proof (cases "isEndOfLine c")
  case False
  assume "isEndOfLine c \<or> isBlank c"
  with False have "trim_blanks (c # l) = trim_blanks l" for l by (simp add: trim_blanks_def)
  moreover obtain l ls where "eol_lines t = l # ls" using eol_lines_ne [of t] by (cases "eol_lines t") blast+
  ultimately show ?thesis using False by (simp add: manifest_records_def)
qed (simp add: manifest_records_def)

lemma records_skip_all: "\<forall>c \<in> set w. isEndOfLine c \<or> isBlank c \<Longrightarrow> manifest_records (w @ t) = manifest_records t"
  by (induction w) (simp_all add: records_skip)

lemma eol_lines_append:
  "\<forall>c \<in> set l. \<not> isEndOfLine c \<Longrightarrow> r = [] \<or> isEndOfLine (hd r) \<Longrightarrow> eol_lines (l @ r) = l # (if r = [] then [] else eol_lines (tl r))"
proof (induction l)
  case Nil
  then show ?case by (cases r) auto
next
  case (Cons c l)
  then have "eol_lines (l @ r) = l # (if r = [] then [] else eol_lines (tl r))" by simp
  then show ?case using Cons.prems(1) by simp
qed

lemma records_line:
  assumes "\<forall>c \<in> set l. \<not> isEndOfLine c" "r = [] \<or> isEndOfLine (hd r)" "l \<noteq> []" "\<not> isBlank (hd l)"
  shows "manifest_records (l @ r) = (if hd l = ch CHR ''#'' then [] else [trim_blanks l]) @ manifest_records r"
proof -
  have d: "dropWhile isBlank l = l" using assms(3,4) by (cases l) auto
  have "\<exists>z. trim_blanks l = hd l # z"
  proof -
    obtain a z where l: "l = a # z" using assms(3) by (cases l) auto
    have "dropWhile isBlank (rev z @ [a]) = dropWhile isBlank (rev z) @ [a]"
      using assms(4) l by (simp add: dropWhile_append3)
    then show ?thesis using d l by (simp add: trim_blanks_def)
  qed
  then obtain z where t: "trim_blanks l = hd l # z" ..
  have "manifest_records r = filter (\<lambda>l. l \<noteq> [] \<and> hd l \<noteq> ch CHR ''#'') (map trim_blanks (if r = [] then [] else eol_lines (tl r)))"
    using assms(2) by (cases r) (auto simp: manifest_records_def)
  then show ?thesis using t unfolding manifest_records_def eol_lines_append [OF assms(1,2)] by simp
qed

lemma manifest_trim_blanks:
  assumes "l \<noteq> []" "\<not> isBlank (hd l)"
  shows "manifest_trim l = trim_blanks l"
proof -
  let ?k = "skip_back isBlank l (length l - 1)"
  note sk = skip_back_spec [of isBlank l "length l - 1"]
  have k: "?k < length l" using sk assms(1) by (cases l) auto
  have nb: "\<not> isBlank (l ! ?k)" using sk assms by (metis hd_conv_nth)
  have "drop (?k + 1) l = segment l (?k + 1) (length l)" by (simp add: segment_def)
  have bl: "\<forall>c \<in> set (drop (?k + 1) l). isBlank c"
  proof
    fix c assume "c \<in> set (drop (?k + 1) l)"
    then obtain i where "i < length l - (?k + 1)" "l ! (?k + 1 + i) = c" by (auto simp: in_set_conv_nth)
    moreover from this(1) have "?k < ?k + 1 + i \<and> ?k + 1 + i \<le> length l - 1" by linarith
    ultimately show "isBlank c" using sk by blast
  qed
  have d: "dropWhile isBlank l = l" using assms by (cases l) auto
  have t: "take (?k + 1) l = take ?k l @ [l ! ?k]" using k by (simp add: take_Suc_conv_app_nth)
  have "rev l = rev (drop (?k + 1) l) @ l ! ?k # rev (take ?k l)"
    using append_take_drop_id [of "?k + 1" l] t by (metis rev.simps(2) rev_append rev_rev_ident append_Cons append_Nil append_assoc)
  then have "dropWhile isBlank (rev l) = dropWhile isBlank (rev (drop (?k + 1) l) @ l ! ?k # rev (take ?k l))" by (rule arg_cong)
  also have "\<dots> = dropWhile isBlank (l ! ?k # rev (take ?k l))" using bl by (intro dropWhile_append2) simp
  finally have "dropWhile isBlank (rev l) = l ! ?k # rev (take ?k l)" using nb by simp
  then show ?thesis using d t by (simp add: manifest_trim_def trim_blanks_def)
qed

lemma manifest_lines_fold:
  "p \<le> length s \<Longrightarrow> manifest_lines L manifestURL s p state = fold (manifest_line L manifestURL) (manifest_records (drop p s)) state"
proof (induction "length s - p" arbitrary: p state rule: less_induct)
  case less
  define b where "b = scan_while (\<lambda>c. isEndOfLine c \<or> isBlank c) s p"
  define e where "e = scan_while (\<lambda>c. \<not> isEndOfLine c) s b"
  have pb: "p \<le> b" "b \<le> length s" using less.prems by (simp_all add: b_def)
  have skip: "manifest_records (drop p s) = manifest_records (drop b s)"
  proof -
    have "drop p s = segment s p b @ drop b s"
      using pb append_take_drop_id [of "b - p" "drop p s"] by (simp add: segment_def)
    moreover have "\<forall>c \<in> set (segment s p b). isEndOfLine c \<or> isBlank c"
    proof
      fix c assume "c \<in> set (segment s p b)"
      then obtain i where "i < b - p" "s ! (p + i) = c" using pb by (auto simp: in_set_conv_nth segment_def)
      then show "isEndOfLine c \<or> isBlank c"
        using scan_while_all [of p "p + i" "\<lambda>c. isEndOfLine c \<or> isBlank c" s] by (simp add: b_def)
    qed
    ultimately show ?thesis using records_skip_all by simp
  qed
  show ?case
  proof (cases "b < length s")
    case False
    then have "drop b s = []" by simp
    moreover have "manifest_lines L manifestURL s p state = state"
      using False by (subst manifest_lines.simps) (simp add: b_def [symmetric] Let_def)
    ultimately show ?thesis unfolding skip by (simp add: manifest_records_def)
  next
    case True
    have nb: "\<not> isEndOfLine (s ! b)" "\<not> isBlank (s ! b)"
      using scan_while_stop [of "\<lambda>c. isEndOfLine c \<or> isBlank c" s p] True by (simp_all add: b_def)
    have "e = scan_while (\<lambda>c. \<not> isEndOfLine c) s (Suc b)"
      using True nb unfolding e_def by (subst scan_while.simps) simp
    then have be: "b < e" "e \<le> length s"
      using scan_while_ge [of "Suc b" "\<lambda>c. \<not> isEndOfLine c" s] scan_while_le [of "Suc b" s "\<lambda>c. \<not> isEndOfLine c"] True
      by linarith+
    let ?l = "segment s b e"
    have l: "drop b s = ?l @ drop e s" "?l \<noteq> []" "hd ?l = s ! b"
      using be append_take_drop_id [of "e - b" "drop b s"] True
      by (simp_all add: segment_def hd_drop_conv_nth) 
    have ne: "\<forall>c \<in> set ?l. \<not> isEndOfLine c"
    proof
      fix c assume "c \<in> set ?l"
      then obtain i where "i < e - b" "s ! (b + i) = c" using be by (auto simp: in_set_conv_nth segment_def)
      then show "\<not> isEndOfLine c"
        using scan_while_all [of b "b + i" "\<lambda>c. \<not> isEndOfLine c" s] by (simp add: e_def)
    qed
    have r: "drop e s = [] \<or> isEndOfLine (hd (drop e s))"
      using scan_while_stop [of "\<lambda>c. \<not> isEndOfLine c" s b] be by (cases "e < length s") (auto simp: e_def hd_drop_conv_nth)
    have dec: "length s - e < length s - p" using be pb True by linarith
    note IH = less.hyps [OF dec be(2)]
    have rec: "manifest_records (drop b s) = (if s ! b = ch CHR ''#'' then [] else [trim_blanks ?l]) @ manifest_records (drop e s)"
      using records_line [OF ne r l(2)] nb(2) l by simp
    have "manifest_lines L manifestURL s p state =
        (if s ! b = ch CHR ''#'' then manifest_lines L manifestURL s e state
         else manifest_lines L manifestURL s e (manifest_line L manifestURL (manifest_trim ?l) state))"
      using True by (subst manifest_lines.simps) (simp add: b_def [symmetric] e_def [symmetric] Let_def)
    then show ?thesis
      unfolding skip rec using IH manifest_trim_blanks [OF l(2)] nb(2) l(3) by simp
  qed
qed

section \<open>What a manifest grants\<close>

text \<open>The URLs a manifest can name: what a reference resolves to against the manifest, less its fragment.\<close>

definition named_by :: "url_library \<Rightarrow> KURL \<Rightarrow> KURL \<Rightarrow> bool" where
  "named_by L manifestURL url \<longleftrightarrow>
     (\<exists>rel. m_isValid (KURL_relative L manifestURL rel) \<and> url = withoutFragment (KURL_relative L manifestURL rel))"

definition manifest_ok :: "url_library \<Rightarrow> KURL \<Rightarrow> manifest \<Rightarrow> bool" where
  "manifest_ok L M m \<longleftrightarrow> distinct (explicitURLs m) \<and>
     (\<forall>s \<in> set (explicitURLs m). \<exists>url. s = m_string url \<and> named_by L M url \<and> equalIgnoringCase (lib_peer L) (protocol url) (protocol M)) \<and>
     (\<forall>url \<in> set (onlineWhitelistedURLs m). named_by L M url \<and> equalIgnoringCase (lib_peer L) (protocol url) (protocol M)) \<and>
     (\<forall>(n, f) \<in> set (fallbackURLs m). named_by L M n \<and> named_by L M f \<and>
        protocolHostAndPortAreEqual (lib_peer L) M n \<and> protocolHostAndPortAreEqual (lib_peer L) M f)"

lemma manifest_url_line_ok: "manifest_ok L M m \<Longrightarrow> manifest_ok L M (manifest_url_line L M mode line m)"
  unfolding manifest_ok_def manifest_url_line_def named_by_def Let_def set_add_def by auto

lemma manifest_fallback_line_ok: "manifest_ok L M m \<Longrightarrow> manifest_ok L M (manifest_fallback_line L M line m)"
  unfolding manifest_ok_def manifest_fallback_line_def named_by_def Let_def by auto

lemma manifest_line_ok: "manifest_ok L M (snd state) \<Longrightarrow> manifest_ok L M (snd (manifest_line L M line state))"
  by (cases state) (simp add: manifest_line_def manifest_url_line_ok manifest_fallback_line_ok)

lemma manifest_fold_ok: "manifest_ok L M (snd state) \<Longrightarrow> manifest_ok L M (snd (fold (manifest_line L M) ls state))"
  by (induction ls arbitrary: state) (simp_all add: manifest_line_ok)

lemma startsWith_iff: "startsWith s str \<longleftrightarrow> take (length str) s = str"
  unfolding startsWith_def by (metis length_take min.absorb_iff2 linorder_not_le)

lemma signature: "startsWith s (lit ''CACHE MANIFEST'') \<longleftrightarrow> take 14 s = lit ''CACHE MANIFEST''"
proof -
  have "length (lit ''CACHE MANIFEST'' :: ustring) = 14" by simp
  then show ?thesis using startsWith_iff [of s "lit ''CACHE MANIFEST''"] by (simp only:)
qed

lemma parseManifest_lines_fact:
  "parseManifest L M s =
     (if take 14 s = lit ''CACHE MANIFEST'' \<and> (length s = 14 \<or> isBlank (s ! 14) \<or> isEndOfLine (s ! 14))
      then Some (snd (fold (manifest_line L M) (manifest_records (dropWhile (\<lambda>c. \<not> isEndOfLine c) (drop 14 s)))
                       (ExplicitMode, emptyManifest)))
      else None)"
proof (cases "take 14 s = lit ''CACHE MANIFEST''")
  case True
  then have "length (take 14 s) = 14" by simp
  then have l: "14 \<le> length s" by simp
  let ?e = "scan_while (\<lambda>c. \<not> isEndOfLine c) s 14"
  have e: "?e \<le> length s" using l by simp
  have "drop ?e s = dropWhile (\<lambda>c. \<not> isEndOfLine c) (drop 14 s)"
    using scan_while_takeWhile [OF l, of "\<lambda>c. \<not> isEndOfLine c"]
    by (metis add.commute drop_drop dropWhile_eq_drop)
  moreover have "startsWith s (lit ''CACHE MANIFEST'')" using True by (simp only: signature)
  moreover have "14 < length s \<and> s ! 14 \<noteq> ch CHR '' '' \<and> s ! 14 \<noteq> 9 \<and> s ! 14 \<noteq> 10 \<and> s ! 14 \<noteq> 13 \<longleftrightarrow>
      \<not> (length s = 14 \<or> isBlank (s ! 14) \<or> isEndOfLine (s ! 14))"
    using l by (auto simp: isBlank_def isEndOfLine_def)
  ultimately show ?thesis
    using True unfolding parseManifest_def manifest_lines_fold [OF e] by (simp del: scan_while_le)
next
  case False
  then have "\<not> startsWith s (lit ''CACHE MANIFEST'')" using signature by blast
  then show ?thesis using False by (simp add: parseManifest_def)
qed

text \<open>A text with the signature parses to the fold, over its lines, of what each line adds: the lines
  are what stands between line ends after the first, stripped of white space, without the empty
  ones and the comments. A text without the signature is refused.\<close>

theorem parseManifest_lines:
  "parseManifest L M s =
     (if take 14 s = lit ''CACHE MANIFEST'' \<and> (length s = 14 \<or> isBlank (s ! 14) \<or> isEndOfLine (s ! 14))
      then Some (snd (fold (manifest_line L M) (manifest_records (dropWhile (\<lambda>c. \<not> isEndOfLine c) (drop 14 s)))
                       (ExplicitMode, emptyManifest)))
      else None)"
  by (rule parseManifest_lines_fact)

text \<open>C39: Every entry of an accepted manifest was named relative to it by a valid URL; explicit and online
  entries have its scheme, and both URLs of a fallback pass the comparison with its scheme, host
  and port; no explicit entry is there twice.\<close>

theorem parseManifest_entries:
  assumes "parseManifest L M s = Some m"
  shows "manifest_ok L M m"
proof -
  have "manifest_ok L M emptyManifest" by (simp add: manifest_ok_def emptyManifest_def)
  then show ?thesis
    using assms manifest_fold_ok [of L M "(ExplicitMode, emptyManifest)"]
    unfolding parseManifest_lines_fact by (auto split: if_splits)
qed

definition sample_library :: url_library where
  "sample_library = \<lparr>lib_peer = ascii_peer, lib_idn = Some, lib_memory = (\<lambda>_. 0),
     lib_utf8 = \<lparr>enc_name = ''UTF-8'', enc_isValid = True, enc_decode = map ucast, enc_encode = map ucast\<rparr>\<rparr>"

definition sample_manifest :: ustring where
  "sample_manifest = lit ''CACHE MANIFEST'' @ [10] @ lit ''/a'' @ [10] @ lit ''http://k/b#c'' @ [10] @ lit ''/a'' @ [10]
     @ lit ''FALLBACK:'' @ [10] @ lit ''/x /y'' @ [10] @ lit ''NETWORK:'' @ [10] @ lit ''  *''"

theorem parseManifest_entries_witness:
  "\<exists>m. explicitURLs m = [lit ''http://h/a'', lit ''http://k/b''] \<and> length (fallbackURLs m) = 1
     \<and> manifest_ok sample_library (parse (lit ''http://h/m'') None) m"
proof -
  let ?m = "parseManifest sample_library (parse (lit ''http://h/m'') None) sample_manifest"
  have "map_option (\<lambda>m. (explicitURLs m, length (fallbackURLs m))) ?m = Some ([lit ''http://h/a'', lit ''http://k/b''], 1)"
    by code_simp
  then obtain m where "?m = Some m" "explicitURLs m = [lit ''http://h/a'', lit ''http://k/b'']" "length (fallbackURLs m) = 1"
    by (cases ?m) (simp_all del: lit_Cons)
  with parseManifest_entries show ?thesis by blast
qed

end
