(* ===== verification/BinaryPropertyList.thy ===== *)
theory BinaryPropertyList
  imports PlatformString
begin

text \<open>
  The writer of binary property lists: src/WKC/WebCore/platform/cf/WKC/BinaryPropertyList.cpp.
  A client describes its list by calls on an object stream, twice: the plan counts bytes and
  references and gives every shared object its number, the serializer writes into a buffer of
  exactly that size. \<open>size_t\<close> has 32 bits here; pointers into the buffer are indices, and a
  write outside the buffer has the value None. A hash map is a function to option; the keys are
  those the tables can hold (an integer is not negative, an integer array not empty). The assertions of the source, which only
  a debug build checks, are not modelled; among them is that no array and no dictionary is empty.
\<close>

unbundle bit_operations_syntax

section \<open>The object stream\<close>

record 's object_stream =
  writeBooleanTrue :: "'s \<Rightarrow> 's option"
  writeInteger :: "u32 \<Rightarrow> 's \<Rightarrow> 's option"
  writeString :: "ustring \<Rightarrow> 's \<Rightarrow> 's option"
  writeIntegerArray :: "u32 list \<Rightarrow> 's \<Rightarrow> 's option"
  writeUniqueString :: "ustring \<Rightarrow> 's \<Rightarrow> 's option"
  writeUniqueCString :: "byte list \<Rightarrow> 's \<Rightarrow> 's option"
  writeArrayStart :: "'s \<Rightarrow> u32 \<times> 's"
  writeArrayEnd :: "u32 \<Rightarrow> 's \<Rightarrow> 's option"
  writeDictionaryStart :: "'s \<Rightarrow> u32 \<times> 's"
  writeDictionaryEnd :: "u32 \<Rightarrow> 's \<Rightarrow> 's option"

section \<open>Sizes\<close>

definition headerSize :: u32 where "headerSize = 8"
definition trailerSize :: u32 where "trailerSize = 32"
definition maxLengthInMarkerByte :: u32 where "maxLengthInMarkerByte = 0xE"

definition invalidObjectReference :: u32 where
  "invalidObjectReference = 0xFFFFFFFF"

definition integerByteCount :: "u32 \<Rightarrow> u32" where
  "integerByteCount integer = (if integer \<le> 0xFF then 2 else if integer \<le> 0xFFFF then 3 else 5)"

definition markerPlusLengthByteCount :: "u32 \<Rightarrow> u32" where
  "markerPlusLengthByteCount l = (if l \<le> maxLengthInMarkerByte then 1 else 1 + integerByteCount l)"

text \<open>
  \<open>for (mask = max << 8; count & mask; mask <<= 8) ++bytesNeeded\<close>: before every round the mask
  is the largest value shifted by eight bits for each byte already needed.
\<close>

function bytes_needed_loop :: "u32 \<Rightarrow> nat \<Rightarrow> nat" where
  "bytes_needed_loop count n = (if count AND push_bit (8 * n) (-1) \<noteq> 0 then bytes_needed_loop count (n + 1) else n)"
  by pat_completeness auto
termination bytes_needed_loop
proof (relation "measure (\<lambda>(count, n). 4 - n)", goal_cases)
  case (2 count n)
  have "push_bit k (-1 :: u32) = 0" if "32 \<le> k" for k
    using that by (intro bit_word_eqI) (simp add: bit_simps)
  then have "8 * n < 32" using 2 by (metis and_zero_eq not_le)
  then show ?case by simp
qed simp

declare bytes_needed_loop.simps [simp del]

definition bytesNeeded :: "u32 \<Rightarrow> nat" where
  "bytesNeeded count = bytes_needed_loop count 1"

section \<open>The plan\<close>

record plist_plan =
  pl_booleanTrueObjectReference :: u32
  pl_integerZeroObjectReference :: u32
  pl_integers :: "u32 \<Rightarrow> u32 option"
  pl_strings :: "ustring \<Rightarrow> u32 option"
  pl_integerArrays :: "u32 list \<Rightarrow> u32 option"
  pl_currentObjectReference :: u32
  pl_currentAggregateSize :: u32
  pl_byteCount :: u32
  pl_objectReferenceCount :: u32

definition plan_init :: plist_plan where
  "plan_init = \<lparr>pl_booleanTrueObjectReference = invalidObjectReference,
     pl_integerZeroObjectReference = invalidObjectReference, pl_integers = Map.empty, pl_strings = Map.empty,
     pl_integerArrays = Map.empty, pl_currentObjectReference = 0, pl_currentAggregateSize = 0,
     pl_byteCount = 0, pl_objectReferenceCount = 0\<rparr>"

definition count_element :: "plist_plan \<Rightarrow> plist_plan" where
  "count_element p = p\<lparr>pl_currentAggregateSize := pl_currentAggregateSize p + 1\<rparr>"

definition count_object :: "plist_plan \<Rightarrow> plist_plan" where
  "count_object p = p\<lparr>pl_currentObjectReference := pl_currentObjectReference p + 1\<rparr>"

definition count_bytes :: "u32 \<Rightarrow> plist_plan \<Rightarrow> plist_plan" where
  "count_bytes n p = p\<lparr>pl_byteCount := pl_byteCount p + n\<rparr>"

definition plan_writeBooleanTrue :: "plist_plan \<Rightarrow> plist_plan" where
  "plan_writeBooleanTrue p0 =
     (let p = count_element p0
      in if pl_booleanTrueObjectReference p \<noteq> invalidObjectReference then p
         else count_bytes 1 (count_object (p\<lparr>pl_booleanTrueObjectReference := pl_currentObjectReference p\<rparr>)))"

definition plan_writeInteger :: "u32 \<Rightarrow> plist_plan \<Rightarrow> plist_plan" where
  "plan_writeInteger integer p0 =
     (let p = count_element p0
      in if integer = 0
         then if pl_integerZeroObjectReference p \<noteq> invalidObjectReference then p
              else count_bytes (integerByteCount integer)
                     (count_object (p\<lparr>pl_integerZeroObjectReference := pl_currentObjectReference p\<rparr>))
         else if pl_integers p integer \<noteq> None then p
              else count_bytes (integerByteCount integer)
                     (count_object (p\<lparr>pl_integers := (pl_integers p)(integer \<mapsto> pl_currentObjectReference p)\<rparr>)))"

definition plan_writeStringObject :: "ustring \<Rightarrow> plist_plan \<Rightarrow> plist_plan" where
  "plan_writeStringObject s p =
     (let l = of_nat (length s);
          p1 = count_bytes (markerPlusLengthByteCount l + l) p
      in if \<not> charactersAreAllASCII s then count_bytes l p1 else p1)"

definition plan_writeCStringObject :: "byte list \<Rightarrow> plist_plan \<Rightarrow> plist_plan" where
  "plan_writeCStringObject s p =
     (let l = of_nat (length s) in count_bytes (markerPlusLengthByteCount l + l) p)"

definition plan_writeArrayObject :: "u32 \<Rightarrow> plist_plan \<Rightarrow> plist_plan" where
  "plan_writeArrayObject n p =
     (let p1 = count_bytes (markerPlusLengthByteCount n) p
      in p1\<lparr>pl_objectReferenceCount := pl_objectReferenceCount p1 + n\<rparr>)"

definition plan_writeDictionaryObject :: "u32 \<Rightarrow> plist_plan \<Rightarrow> plist_plan" where
  "plan_writeDictionaryObject n p =
     (let p1 = count_bytes (markerPlusLengthByteCount (n div 2)) p
      in p1\<lparr>pl_objectReferenceCount := pl_objectReferenceCount p1 + n\<rparr>)"

definition plan_writeString :: "ustring \<Rightarrow> plist_plan \<Rightarrow> plist_plan" where
  "plan_writeString s p0 =
     (let p = count_element p0
      in if pl_strings p s \<noteq> None then p
         else plan_writeStringObject s
                (count_object (p\<lparr>pl_strings := (pl_strings p)(s \<mapsto> pl_currentObjectReference p)\<rparr>)))"

text \<open>The entry is added with the value 0 and given its number when the integers have theirs.\<close>

definition plan_writeIntegerArray :: "u32 list \<Rightarrow> plist_plan \<Rightarrow> plist_plan" where
  "plan_writeIntegerArray integers p0 =
     (let p = count_element p0; savedAggregateSize = pl_currentAggregateSize p
      in if pl_integerArrays p integers \<noteq> None then p
         else let p1 = p\<lparr>pl_integerArrays := (pl_integerArrays p)(integers \<mapsto> 0)\<rparr>;
                  p2 = fold plan_writeInteger integers p1;
                  p3 = count_object (p2\<lparr>pl_integerArrays :=
                         (pl_integerArrays p2)(integers \<mapsto> pl_currentObjectReference p2)\<rparr>);
                  p4 = plan_writeArrayObject (of_nat (length integers)) p3
              in p4\<lparr>pl_currentAggregateSize := savedAggregateSize\<rparr>)"

definition plan_writeUniqueString :: "ustring \<Rightarrow> plist_plan \<Rightarrow> plist_plan" where
  "plan_writeUniqueString s p = plan_writeStringObject s (count_object (count_element p))"

definition plan_writeUniqueCString :: "byte list \<Rightarrow> plist_plan \<Rightarrow> plist_plan" where
  "plan_writeUniqueCString s p = plan_writeCStringObject s (count_object (count_element p))"

text \<open>\<open>writeArrayStart\<close> and \<open>writeDictionaryStart\<close> have the same body.\<close>

definition plan_writeStart :: "plist_plan \<Rightarrow> u32 \<times> plist_plan" where
  "plan_writeStart p = (pl_currentAggregateSize p, p\<lparr>pl_currentAggregateSize := 0\<rparr>)"

definition plan_writeArrayEnd :: "u32 \<Rightarrow> plist_plan \<Rightarrow> plist_plan" where
  "plan_writeArrayEnd savedAggregateSize p =
     (plan_writeArrayObject (pl_currentAggregateSize p) (count_object p))
       \<lparr>pl_currentAggregateSize := savedAggregateSize + 1\<rparr>"

definition plan_writeDictionaryEnd :: "u32 \<Rightarrow> plist_plan \<Rightarrow> plist_plan" where
  "plan_writeDictionaryEnd savedAggregateSize p =
     (plan_writeDictionaryObject (pl_currentAggregateSize p) (count_object p))
       \<lparr>pl_currentAggregateSize := savedAggregateSize + 1\<rparr>"

definition plan_stream :: "plist_plan object_stream" where
  "plan_stream = \<lparr>writeBooleanTrue = Some \<circ> plan_writeBooleanTrue, writeInteger = (\<lambda>i. Some \<circ> plan_writeInteger i),
     writeString = (\<lambda>s. Some \<circ> plan_writeString s), writeIntegerArray = (\<lambda>is. Some \<circ> plan_writeIntegerArray is),
     writeUniqueString = (\<lambda>s. Some \<circ> plan_writeUniqueString s),
     writeUniqueCString = (\<lambda>s. Some \<circ> plan_writeUniqueCString s),
     writeArrayStart = plan_writeStart, writeArrayEnd = (\<lambda>v. Some \<circ> plan_writeArrayEnd v),
     writeDictionaryStart = plan_writeStart, writeDictionaryEnd = (\<lambda>v. Some \<circ> plan_writeDictionaryEnd v)\<rparr>"

text \<open>\<open>HashMap::get\<close> has the value 0 for a key that is not there.\<close>

definition hash_get :: "('k \<Rightarrow> u32 option) \<Rightarrow> 'k \<Rightarrow> u32" where
  "hash_get m k = (case m k of None \<Rightarrow> 0 | Some v \<Rightarrow> v)"

definition integerObjectReference :: "plist_plan \<Rightarrow> u32 \<Rightarrow> u32" where
  "integerObjectReference p integer =
     (if integer = 0 then pl_integerZeroObjectReference p else hash_get (pl_integers p) integer)"

section \<open>The buffer\<close>

definition poke :: "nat \<Rightarrow> byte \<Rightarrow> byte list \<Rightarrow> byte list option" where
  "poke i b buf = (if i < length buf then Some (buf[i := b]) else None)"

fun pokes :: "nat \<Rightarrow> byte list \<Rightarrow> byte list \<Rightarrow> byte list option" where
  "pokes i [] buf = Some buf"
| "pokes i (b # bs) buf = Option.bind (poke i b buf) (pokes (i + 1) bs)"

text \<open>The low \<open>n\<close> bytes of a number, the highest first: the shifts by 24, 16, 8 and 0.\<close>

fun high_to_low :: "nat \<Rightarrow> u32 \<Rightarrow> byte list" where
  "high_to_low 0 r = []"
| "high_to_low (Suc n) r = ucast (drop_bit (8 * n) r) # high_to_low n r"

text \<open>The switch over a size with its fall-through cases 4 to 1.\<close>

definition switch_bytes :: "nat \<Rightarrow> u32 \<Rightarrow> byte list" where
  "switch_bytes n r = (if 1 \<le> n \<and> n \<le> 4 then high_to_low n r else [])"

definition storeLength :: "nat \<Rightarrow> u32 \<Rightarrow> byte list \<Rightarrow> byte list option" where
  "storeLength destination l = pokes destination ([0, 0, 0, 0] @ high_to_low 4 l)"

text \<open>\<open>while (end - start > 1) std::swap(*start++, *--end);\<close>\<close>

function reverse_loop :: "nat \<Rightarrow> nat \<Rightarrow> byte list \<Rightarrow> byte list" where
  "reverse_loop start end buf =
     (if end - start > 1
      then reverse_loop (start + 1) (end - 1) (buf[start := buf ! (end - 1), end - 1 := buf ! start])
      else buf)"
  by pat_completeness auto
termination reverse_loop
  by (relation "measure (\<lambda>(start, end, _). end - start)") auto

declare reverse_loop.simps [simp del]

definition moveAndReverseBytes :: "nat \<Rightarrow> nat \<Rightarrow> nat \<Rightarrow> byte list \<Rightarrow> byte list option" where
  "moveAndReverseBytes destination source l buf =
     (if source + l \<le> length buf
      then map_option (reverse_loop destination (destination + l)) (pokes destination (take l (drop source buf)) buf)
      else None)"

section \<open>The serializer\<close>

record plist_serializer =
  ser_plan :: plist_plan
  ser_objectReferenceSize :: nat
  ser_offsetTableStart :: u32
  ser_offsetSize :: nat
  ser_buffer :: "byte list"
  ser_currentByte :: nat
  ser_currentObjectReference :: u32
  ser_currentAggregateBufferByte :: nat

definition appendByte :: "byte \<Rightarrow> plist_serializer \<Rightarrow> plist_serializer option" where
  "appendByte b s = map_option (\<lambda>buf. s\<lparr>ser_buffer := buf, ser_currentByte := ser_currentByte s + 1\<rparr>)
     (poke (ser_currentByte s) b (ser_buffer s))"

text \<open>A sequence of calls of \<open>appendByte\<close>.\<close>

fun appendBytes :: "byte list \<Rightarrow> plist_serializer \<Rightarrow> plist_serializer option" where
  "appendBytes [] s = Some s"
| "appendBytes (b # bs) s = Option.bind (appendByte b s) (appendBytes bs)"

definition integer_bytes :: "u32 \<Rightarrow> byte list" where
  "integer_bytes integer =
     (if integer \<le> 0xFF then [0x10, ucast integer]
      else if integer \<le> 0xFFFF then [0x11, ucast (drop_bit 8 integer), ucast integer]
      else [0x12, ucast (drop_bit 24 integer), ucast (drop_bit 16 integer), ucast (drop_bit 8 integer), ucast integer])"

definition appendInteger :: "u32 \<Rightarrow> plist_serializer \<Rightarrow> plist_serializer option" where
  "appendInteger integer = appendBytes (integer_bytes integer)"

text \<open>The marker of a string or an aggregate, with the length in its low bits or behind it.\<close>

definition appendMarker :: "byte \<Rightarrow> byte \<Rightarrow> u32 \<Rightarrow> plist_serializer \<Rightarrow> plist_serializer option" where
  "appendMarker markerByte withSeparateLength l s =
     (if l \<le> maxLengthInMarkerByte then appendByte (markerByte OR ucast l) s
      else Option.bind (appendByte withSeparateLength s) (appendInteger l))"

definition appendObjectReference :: "u32 \<Rightarrow> plist_serializer \<Rightarrow> plist_serializer option" where
  "appendObjectReference reference s = appendBytes (switch_bytes (ser_objectReferenceSize s) reference) s"

text \<open>The entry of the table that ends at \<open>offsetTableEntry\<close>; then the number of the next object.\<close>

definition startObject :: "plist_serializer \<Rightarrow> plist_serializer option" where
  "startObject s =
     (let reference = ser_currentObjectReference s;
          offset = of_nat (ser_currentByte s);
          entry = unat (ser_offsetTableStart s + reference * of_nat (ser_offsetSize s) + of_nat (ser_offsetSize s))
      in map_option (\<lambda>buf. s\<lparr>ser_buffer := buf, ser_currentObjectReference := reference + 1\<rparr>)
           (pokes (entry - ser_offsetSize s) (switch_bytes (ser_offsetSize s) offset) (ser_buffer s)))"

text \<open>\<open>*--m_currentAggregateBufferByte = byte\<close>, for a sequence of bytes.\<close>

fun pushBytes :: "byte list \<Rightarrow> plist_serializer \<Rightarrow> plist_serializer option" where
  "pushBytes [] s = Some s"
| "pushBytes (b # bs) s =
     (if ser_currentAggregateBufferByte s = 0 then None
      else let p = ser_currentAggregateBufferByte s - 1
           in Option.bind (poke p b (ser_buffer s))
                (\<lambda>buf. pushBytes bs (s\<lparr>ser_buffer := buf, ser_currentAggregateBufferByte := p\<rparr>)))"

definition addAggregateObjectReference :: "u32 \<Rightarrow> plist_serializer \<Rightarrow> plist_serializer option" where
  "addAggregateObjectReference reference s = pushBytes (switch_bytes (ser_objectReferenceSize s) reference) s"

definition ser_writeBooleanTrue :: "plist_serializer \<Rightarrow> plist_serializer option" where
  "ser_writeBooleanTrue s =
     (let reference = pl_booleanTrueObjectReference (ser_plan s)
      in Option.bind (if ser_currentObjectReference s \<noteq> reference then Some s
                      else Option.bind (startObject s) (appendByte 0x09))
           (addAggregateObjectReference reference))"

definition appendIntegerObject :: "u32 \<Rightarrow> plist_serializer \<Rightarrow> plist_serializer option" where
  "appendIntegerObject integer s = Option.bind (startObject s) (appendInteger integer)"

definition writeIntegerWithoutAddingAggregateObjectReference :: "u32 \<Rightarrow> plist_serializer \<Rightarrow> plist_serializer option" where
  "writeIntegerWithoutAddingAggregateObjectReference integer s =
     (if ser_currentObjectReference s \<noteq> integerObjectReference (ser_plan s) integer then Some s
      else appendIntegerObject integer s)"

definition ser_writeInteger :: "u32 \<Rightarrow> plist_serializer \<Rightarrow> plist_serializer option" where
  "ser_writeInteger integer s =
     Option.bind (writeIntegerWithoutAddingAggregateObjectReference integer s)
       (addAggregateObjectReference (integerObjectReference (ser_plan s) integer))"

definition appendStringObject :: "ustring \<Rightarrow> plist_serializer \<Rightarrow> plist_serializer option" where
  "appendStringObject str s =
     Option.bind (startObject s) (\<lambda>s1.
       if charactersAreAllASCII str
       then Option.bind (appendMarker 0x50 0x5F (of_nat (length str)) s1) (appendBytes (map ucast str))
       else Option.bind (appendMarker 0x60 0x6F (of_nat (length str)) s1)
              (appendBytes (concat (map (\<lambda>c. [ucast (drop_bit 8 c), ucast c]) str))))"

definition appendCStringObject :: "byte list \<Rightarrow> plist_serializer \<Rightarrow> plist_serializer option" where
  "appendCStringObject str s =
     Option.bind (startObject s) (\<lambda>s1.
       Option.bind (appendMarker 0x50 0x5F (of_nat (length str)) s1) (appendBytes str))"

definition ser_writeString :: "ustring \<Rightarrow> plist_serializer \<Rightarrow> plist_serializer option" where
  "ser_writeString str s =
     (let reference = hash_get (pl_strings (ser_plan s)) str
      in Option.bind (if ser_currentObjectReference s \<noteq> reference then Some s else appendStringObject str s)
           (addAggregateObjectReference reference))"

text \<open>A loop of fallible steps over a list.\<close>

fun each :: "('a \<Rightarrow> 's \<Rightarrow> 's option) \<Rightarrow> 'a list \<Rightarrow> 's \<Rightarrow> 's option" where
  "each f [] s = Some s"
| "each f (x # xs) s = Option.bind (f x s) (each f xs)"

definition appendIntegerArrayObject :: "u32 list \<Rightarrow> plist_serializer \<Rightarrow> plist_serializer option" where
  "appendIntegerArrayObject integers s =
     Option.bind (startObject s) (\<lambda>s1.
       Option.bind (appendMarker 0xA0 0xAF (of_nat (length integers)) s1)
         (each (\<lambda>i. appendObjectReference (integerObjectReference (ser_plan s) i)) integers))"

definition ser_writeIntegerArray :: "u32 list \<Rightarrow> plist_serializer \<Rightarrow> plist_serializer option" where
  "ser_writeIntegerArray integers s =
     (let reference = hash_get (pl_integerArrays (ser_plan s)) integers
      in Option.bind (each writeIntegerWithoutAddingAggregateObjectReference integers s) (\<lambda>s1.
           Option.bind (if ser_currentObjectReference s1 \<noteq> reference then Some s1
                        else appendIntegerArrayObject integers s1)
             (addAggregateObjectReference reference)))"

definition ser_writeUniqueString :: "ustring \<Rightarrow> plist_serializer \<Rightarrow> plist_serializer option" where
  "ser_writeUniqueString str s =
     Option.bind (addAggregateObjectReference (ser_currentObjectReference s) s) (appendStringObject str)"

definition ser_writeUniqueCString :: "byte list \<Rightarrow> plist_serializer \<Rightarrow> plist_serializer option" where
  "ser_writeUniqueCString str s =
     Option.bind (addAggregateObjectReference (ser_currentObjectReference s) s) (appendCStringObject str)"

definition ser_writeStart :: "plist_serializer \<Rightarrow> u32 \<times> plist_serializer" where
  "ser_writeStart s = (of_nat (ser_currentAggregateBufferByte s), s)"

text \<open>
  The two ends differ in the marker and in what a reference counts for: one entry of an array,
  half an entry of a dictionary.
\<close>

definition ser_finish_aggregate :: "u32 \<Rightarrow> u32 \<Rightarrow> plist_serializer \<Rightarrow> plist_serializer option" where
  "ser_finish_aggregate saved count s =
     (let start = ser_currentByte s
      in map_option (\<lambda>buf. s\<lparr>ser_buffer := buf, ser_currentByte := start + unat count,
                             ser_currentAggregateBufferByte := unat saved\<rparr>)
           (moveAndReverseBytes start (unat saved - unat count) (unat count) (ser_buffer s)))"

definition ser_writeArrayEnd :: "u32 \<Rightarrow> plist_serializer \<Rightarrow> plist_serializer option" where
  "ser_writeArrayEnd saved s =
     (let reference = ser_currentObjectReference s;
          count = saved - of_nat (ser_currentAggregateBufferByte s)
      in Option.bind (startObject s) (\<lambda>s1.
         Option.bind (appendMarker 0xA0 0xAF (count div of_nat (ser_objectReferenceSize s)) s1) (\<lambda>s2.
         Option.bind (ser_finish_aggregate saved count s2) (\<lambda>s3.
           if ser_currentObjectReference s3 < pl_currentObjectReference (ser_plan s)
           then addAggregateObjectReference reference s3 else Some s3))))"

definition ser_writeDictionaryEnd :: "u32 \<Rightarrow> plist_serializer \<Rightarrow> plist_serializer option" where
  "ser_writeDictionaryEnd saved s =
     (let reference = ser_currentObjectReference s;
          count = saved - of_nat (ser_currentAggregateBufferByte s)
      in Option.bind (startObject s) (\<lambda>s1.
         Option.bind (appendMarker 0xD0 0xDF (count div (of_nat (ser_objectReferenceSize s) * 2)) s1) (\<lambda>s2.
         Option.bind (ser_finish_aggregate saved count s2) (\<lambda>s3.
           if ser_currentObjectReference s3 \<noteq> pl_currentObjectReference (ser_plan s)
           then addAggregateObjectReference reference s3 else Some s3))))"

definition serializer_stream :: "plist_serializer object_stream" where
  "serializer_stream = \<lparr>writeBooleanTrue = ser_writeBooleanTrue, writeInteger = ser_writeInteger,
     writeString = ser_writeString, writeIntegerArray = ser_writeIntegerArray,
     writeUniqueString = ser_writeUniqueString, writeUniqueCString = ser_writeUniqueCString,
     writeArrayStart = ser_writeStart, writeArrayEnd = ser_writeArrayEnd,
     writeDictionaryStart = ser_writeStart, writeDictionaryEnd = ser_writeDictionaryEnd\<rparr>"

section \<open>Writing a list\<close>

definition serializer_init :: "plist_plan \<Rightarrow> plist_serializer" where
  "serializer_init plan =
     (let objectReferenceSize = bytesNeeded (pl_currentObjectReference plan);
          offsetTableStart = headerSize + pl_byteCount plan + pl_objectReferenceCount plan * of_nat objectReferenceSize
      in \<lparr>ser_plan = plan, ser_objectReferenceSize = objectReferenceSize, ser_offsetTableStart = offsetTableStart,
          ser_offsetSize = bytesNeeded offsetTableStart, ser_buffer = [], ser_currentByte = unat headerSize,
          ser_currentObjectReference = 0, ser_currentAggregateBufferByte = unat offsetTableStart\<rparr>)"

definition ser_bufferSize :: "plist_serializer \<Rightarrow> u32" where
  "ser_bufferSize s = ser_offsetTableStart s
     + pl_currentObjectReference (ser_plan s) * of_nat (ser_offsetSize s) + trailerSize"

definition write_trailer :: "plist_serializer \<Rightarrow> byte list \<Rightarrow> byte list option" where
  "write_trailer s buf =
     (let trailer = unat (ser_bufferSize s - trailerSize);
          objectCount = pl_currentObjectReference (ser_plan s)
      in Option.bind (pokes trailer [0, 0, 0, 0, 0, 0] buf) (\<lambda>buf.
         Option.bind (poke (trailer + 6) (of_nat (ser_offsetSize s)) buf) (\<lambda>buf.
         Option.bind (poke (trailer + 7) (of_nat (ser_objectReferenceSize s)) buf) (\<lambda>buf.
         Option.bind (storeLength (trailer + 8) objectCount buf) (\<lambda>buf.
         Option.bind (storeLength (trailer + 16) (objectCount - 1) buf)
           (storeLength (trailer + 24) (ser_offsetTableStart s)))))))"

text \<open>
  The client's \<open>writeObjects\<close> on either stream and its \<open>buffer\<close>, which returns the memory it has
  for a size, or none. The value is the content of the buffer.
\<close>

definition writePropertyList ::
  "(plist_plan \<Rightarrow> plist_plan option) \<Rightarrow> (plist_serializer \<Rightarrow> plist_serializer option)
   \<Rightarrow> (u32 \<Rightarrow> byte list option) \<Rightarrow> byte list option option" where
  "writePropertyList planObjects writeObjects buffer =
     Option.bind (planObjects plan_init) (\<lambda>plan.
       let s = serializer_init plan
       in case buffer (ser_bufferSize s) of
            None \<Rightarrow> Some None
          | Some memory \<Rightarrow>
              Option.bind (writeObjects (s\<lparr>ser_buffer := memory\<rparr>)) (\<lambda>s'.
                map_option Some (Option.bind (pokes 0 (lit ''bplist00'') (ser_buffer s')) (write_trailer s'))))"

end
