(* ===== verification/PropertyListTable.thy ===== *)
theory PropertyListTable
  imports BinaryPropertyList
begin

text \<open>
  What a client of the object stream means: the table of the objects its list consists of, each
  with the references it holds. The plan and the serializer are two implementations of this
  table; the locale says what an implementation has to show for one call of the stream, and
  gives the whole client in return.
\<close>

section \<open>Clients\<close>

datatype plist =
    PBooleanTrue
  | PInteger u32
  | PString ustring
  | PIntegerArray "u32 list"
  | PUniqueString ustring
  | PUniqueCString "byte list"
  | PArray "plist list"
  | PDictionary "plist list"

text \<open>The calls that write one value; a dictionary has all its keys before all its values.\<close>

fun play :: "'s object_stream \<Rightarrow> plist \<Rightarrow> 's \<Rightarrow> 's option"
  and play_all :: "'s object_stream \<Rightarrow> plist list \<Rightarrow> 's \<Rightarrow> 's option" where
  "play S PBooleanTrue s = writeBooleanTrue S s"
| "play S (PInteger i) s = writeInteger S i s"
| "play S (PString str) s = writeString S str s"
| "play S (PIntegerArray is) s = writeIntegerArray S is s"
| "play S (PUniqueString str) s = writeUniqueString S str s"
| "play S (PUniqueCString str) s = writeUniqueCString S str s"
| "play S (PArray ts) s =
     Option.bind (play_all S ts (snd (writeArrayStart S s))) (writeArrayEnd S (fst (writeArrayStart S s)))"
| "play S (PDictionary ts) s =
     Option.bind (play_all S ts (snd (writeDictionaryStart S s)))
       (writeDictionaryEnd S (fst (writeDictionaryStart S s)))"
| "play_all S [] s = Some s"
| "play_all S (t # ts) s = Option.bind (play S t s) (play_all S ts)"

section \<open>The table\<close>

datatype plist_object =
    TrueObject
  | IntegerObject u32
  | StringObject ustring
  | CStringObject "byte list"
  | ArrayObject "nat list"
  | DictionaryObject "nat list"

record object_table =
  tb_objects :: "plist_object list"
  tb_true :: "nat option"
  tb_ints :: "u32 \<Rightarrow> nat option"
  tb_strings :: "ustring \<Rightarrow> nat option"
  tb_arrays :: "u32 list \<Rightarrow> nat option"
  tb_pending :: "nat list"
  tb_outer :: "nat list list"

definition no_objects :: object_table where
  "no_objects = \<lparr>tb_objects = [], tb_true = None, tb_ints = Map.empty, tb_strings = Map.empty,
     tb_arrays = Map.empty, tb_pending = [], tb_outer = []\<rparr>"

definition next_ref :: "object_table \<Rightarrow> nat" where
  "next_ref a = length (tb_objects a)"

definition new_object :: "plist_object \<Rightarrow> object_table \<Rightarrow> object_table" where
  "new_object ob a = a\<lparr>tb_objects := tb_objects a @ [ob]\<rparr>"

definition refer :: "nat \<Rightarrow> object_table \<Rightarrow> object_table" where
  "refer r a = a\<lparr>tb_pending := tb_pending a @ [r]\<rparr>"

text \<open>A shared object is made once.\<close>

definition true_object :: "object_table \<Rightarrow> object_table" where
  "true_object a = (if tb_true a \<noteq> None then a else (new_object TrueObject a)\<lparr>tb_true := Some (next_ref a)\<rparr>)"

definition integer_object :: "u32 \<Rightarrow> object_table \<Rightarrow> object_table" where
  "integer_object i a =
     (if tb_ints a i \<noteq> None then a
      else (new_object (IntegerObject i) a)\<lparr>tb_ints := (tb_ints a)(i \<mapsto> next_ref a)\<rparr>)"

definition string_object :: "ustring \<Rightarrow> object_table \<Rightarrow> object_table" where
  "string_object s a =
     (if tb_strings a s \<noteq> None then a
      else (new_object (StringObject s) a)\<lparr>tb_strings := (tb_strings a)(s \<mapsto> next_ref a)\<rparr>)"

definition array_object :: "u32 list \<Rightarrow> object_table \<Rightarrow> object_table" where
  "array_object is a =
     (if tb_arrays a is \<noteq> None then a
      else let b = fold integer_object is a
           in (new_object (ArrayObject (map (\<lambda>i. the (tb_ints b i)) is)) b)
                \<lparr>tb_arrays := (tb_arrays b)(is \<mapsto> next_ref b)\<rparr>)"

definition table_true :: "object_table \<Rightarrow> object_table" where
  "table_true a = refer (the (tb_true (true_object a))) (true_object a)"

definition table_integer :: "u32 \<Rightarrow> object_table \<Rightarrow> object_table" where
  "table_integer i a = refer (the (tb_ints (integer_object i a) i)) (integer_object i a)"

definition table_string :: "ustring \<Rightarrow> object_table \<Rightarrow> object_table" where
  "table_string s a = refer (the (tb_strings (string_object s a) s)) (string_object s a)"

definition table_array :: "u32 list \<Rightarrow> object_table \<Rightarrow> object_table" where
  "table_array is a = refer (the (tb_arrays (array_object is a) is)) (array_object is a)"

definition table_unique :: "plist_object \<Rightarrow> object_table \<Rightarrow> object_table" where
  "table_unique ob a = refer (next_ref a) (new_object ob a)"

definition table_start :: "object_table \<Rightarrow> object_table" where
  "table_start a = a\<lparr>tb_pending := [], tb_outer := tb_pending a # tb_outer a\<rparr>"

definition table_end :: "(nat list \<Rightarrow> plist_object) \<Rightarrow> object_table \<Rightarrow> object_table" where
  "table_end mk a = (new_object (mk (tb_pending a)) a)
     \<lparr>tb_pending := hd (tb_outer a) @ [next_ref a], tb_outer := tl (tb_outer a)\<rparr>"

fun table_play :: "plist \<Rightarrow> object_table \<Rightarrow> object_table"
  and table_play_all :: "plist list \<Rightarrow> object_table \<Rightarrow> object_table" where
  "table_play PBooleanTrue a = table_true a"
| "table_play (PInteger i) a = table_integer i a"
| "table_play (PString s) a = table_string s a"
| "table_play (PIntegerArray is) a = table_array is a"
| "table_play (PUniqueString s) a = table_unique (StringObject s) a"
| "table_play (PUniqueCString s) a = table_unique (CStringObject s) a"
| "table_play (PArray ts) a = table_end ArrayObject (table_play_all ts (table_start a))"
| "table_play (PDictionary ts) a = table_end DictionaryObject (table_play_all ts (table_start a))"
| "table_play_all [] a = a"
| "table_play_all (t # ts) a = table_play_all ts (table_play t a)"

lemmas table_ops = table_true_def table_integer_def table_string_def table_array_def table_unique_def
  table_start_def table_end_def
lemmas object_ops = true_object_def integer_object_def string_object_def new_object_def

section \<open>Sizes\<close>

definition int_count :: "nat \<Rightarrow> nat" where
  "int_count n = (if n \<le> 0xFF then 2 else if n \<le> 0xFFFF then 3 else 5)"

definition marker_count :: "nat \<Rightarrow> nat" where
  "marker_count n = (if n \<le> 14 then 1 else 1 + int_count n)"

primrec object_refs :: "plist_object \<Rightarrow> nat list" where
  "object_refs TrueObject = []"
| "object_refs (IntegerObject i) = []"
| "object_refs (StringObject s) = []"
| "object_refs (CStringObject s) = []"
| "object_refs (ArrayObject rs) = rs"
| "object_refs (DictionaryObject rs) = rs"

primrec object_bytes :: "plist_object \<Rightarrow> nat" where
  "object_bytes TrueObject = 1"
| "object_bytes (IntegerObject i) = int_count (unat i)"
| "object_bytes (StringObject s) =
     marker_count (length s) + (if charactersAreAllASCII s then length s else 2 * length s)"
| "object_bytes (CStringObject s) = marker_count (length s) + length s"
| "object_bytes (ArrayObject rs) = marker_count (length rs)"
| "object_bytes (DictionaryObject rs) = marker_count (length rs div 2)"

definition table_bytes :: "object_table \<Rightarrow> nat" where
  "table_bytes a = sum_list (map object_bytes (tb_objects a))"

definition table_refs :: "object_table \<Rightarrow> nat" where
  "table_refs a = sum_list (map (\<lambda>ob. length (object_refs ob)) (tb_objects a))"

definition all_pending :: "object_table \<Rightarrow> nat list" where
  "all_pending a = concat (rev (tb_outer a)) @ tb_pending a"

lemma object_bytes_pos: "0 < object_bytes ob"
  by (cases ob) (auto simp: int_count_def marker_count_def)

lemma table_objects_bytes: "length (tb_objects a) \<le> table_bytes a"
proof -
  have "length xs \<le> sum_list (map object_bytes xs)" for xs
  proof (induction xs)
    case (Cons x xs)
    then show ?case using object_bytes_pos [of x] by simp
  qed simp
  then show ?thesis by (simp add: table_bytes_def)
qed

section \<open>Growth\<close>

text \<open>Objects and the entries of the maps stay, and no reference is forgotten.\<close>

definition grows :: "object_table \<Rightarrow> object_table \<Rightarrow> bool" where
  "grows a b \<longleftrightarrow> (\<exists>os. tb_objects b = tb_objects a @ os) \<and> (\<forall>r. tb_true a = Some r \<longrightarrow> tb_true b = Some r)
     \<and> tb_ints a \<subseteq>\<^sub>m tb_ints b \<and> tb_strings a \<subseteq>\<^sub>m tb_strings b \<and> tb_arrays a \<subseteq>\<^sub>m tb_arrays b
     \<and> table_refs a + length (all_pending a) \<le> table_refs b + length (all_pending b)"

lemma grows_refl [simp]: "grows a a"
  by (simp add: grows_def)

lemma grows_trans [trans]: "grows a b \<Longrightarrow> grows b c \<Longrightarrow> grows a c"
  unfolding grows_def by (fastforce intro: map_le_trans)

lemma grows_bytes: "grows a b \<Longrightarrow> table_bytes a \<le> table_bytes b"
  by (auto simp: grows_def table_bytes_def)

lemma grows_refs: "grows a b \<Longrightarrow> table_refs a + length (all_pending a) \<le> table_refs b + length (all_pending b)"
  by (simp add: grows_def)

lemma grows_refer: "grows a (refer r a)"
  by (simp add: grows_def refer_def table_refs_def all_pending_def)

lemma map_le_upd_new: "m k = None \<Longrightarrow> m \<subseteq>\<^sub>m m(k \<mapsto> v)"
  by (auto simp: map_le_def)

lemma grows_objects:
  "grows a (true_object a)" "grows a (integer_object i a)" "grows a (string_object s a)"
  by (auto simp: grows_def object_ops table_refs_def all_pending_def map_le_upd_new)

lemma fold_integer_object_frame:
  "tb_pending (fold integer_object is a) = tb_pending a" "tb_outer (fold integer_object is a) = tb_outer a"
  "tb_arrays (fold integer_object is a) = tb_arrays a" "tb_strings (fold integer_object is a) = tb_strings a"
  "tb_true (fold integer_object is a) = tb_true a"
  by (induction "is" arbitrary: a) (simp_all add: integer_object_def new_object_def)

lemma grows_fold_integers: "grows a (fold integer_object is a)"
  by (induction "is" arbitrary: a) (auto intro: grows_trans grows_objects)

lemma grows_new_array:
  "tb_arrays b is = None \<Longrightarrow> grows b ((new_object (ArrayObject rs) b)\<lparr>tb_arrays := (tb_arrays b)(is \<mapsto> n)\<rparr>)"
  by (auto simp: grows_def new_object_def table_refs_def all_pending_def map_le_upd_new)

lemma grows_array_object: "grows a (array_object is a)"
proof (cases "tb_arrays a is")
  case None
  then have "tb_arrays (fold integer_object is a) is = None" by (simp add: fold_integer_object_frame)
  from grows_trans [OF grows_fold_integers grows_new_array [OF this]] None
  show ?thesis by (simp add: array_object_def Let_def)
qed (simp add: array_object_def)

lemma grows_start: "grows a (table_start a)"
  by (simp add: grows_def table_start_def table_refs_def all_pending_def)

lemma grows_end:
  "tb_outer a \<noteq> [] \<Longrightarrow> mk = ArrayObject \<or> mk = DictionaryObject \<Longrightarrow> grows a (table_end mk a)"
  by (cases "tb_outer a") (auto simp: grows_def table_end_def new_object_def table_refs_def all_pending_def)

lemma grows_calls:
  "grows a (table_true a)" "grows a (table_integer i a)" "grows a (table_string s a)" "grows a (table_array is a)"
  "object_refs ob = [] \<Longrightarrow> grows a (table_unique ob a)"
  unfolding table_ops
  by (auto intro!: grows_trans [OF _ grows_refer] grows_objects grows_array_object)
    (simp add: grows_def new_object_def table_refs_def all_pending_def)

text \<open>Outside, a client leaves the stack of the open aggregates alone.\<close>

lemma call_frame:
  "tb_outer (table_true a) = tb_outer a" "tb_outer (table_integer i a) = tb_outer a"
  "tb_outer (table_string s a) = tb_outer a" "tb_outer (table_array is a) = tb_outer a"
  "tb_outer (table_unique ob a) = tb_outer a"
  by (simp_all add: table_ops refer_def object_ops array_object_def Let_def fold_integer_object_frame)

lemma table_play_outer:
  "tb_outer (table_play t a) = tb_outer a"
  "tb_outer (table_play_all ts a) = tb_outer a"
  by (induction t a and ts a rule: table_play_table_play_all.induct)
    (simp_all add: call_frame, simp_all add: table_start_def table_end_def)

lemma grows_aggregate:
  "grows (table_start a) b \<Longrightarrow> tb_outer b \<noteq> [] \<Longrightarrow> mk = ArrayObject \<or> mk = DictionaryObject \<Longrightarrow> grows a (table_end mk b)"
  using grows_trans [OF grows_trans [OF grows_start] grows_end] by blast

lemma outer_inside: "tb_outer (table_play_all ts (table_start a)) = tb_pending a # tb_outer a"
  by (simp add: table_play_outer) (simp add: table_start_def)

lemma grows_play: "grows a (table_play t a)" "grows a (table_play_all ts a)"
proof (induction t a and ts a rule: table_play_table_play_all.induct)
  case (7 ts a)
  then show ?case by (simp add: grows_aggregate outer_inside)
next
  case (8 ts a)
  then show ?case by (simp add: grows_aggregate outer_inside)
next
  case (10 t ts a)
  then show ?case by (simp add: grows_trans [OF 10])
qed (simp_all add: grows_calls)

section \<open>Well-formed tables\<close>

text \<open>
  Every shared object is where its map says, an object only refers to objects before it, and so
  do the references that wait for their aggregate.
\<close>

definition table_ok :: "object_table \<Rightarrow> bool" where
  "table_ok a \<longleftrightarrow>
     (\<forall>r. tb_true a = Some r \<longrightarrow> r < next_ref a \<and> tb_objects a ! r = TrueObject)
   \<and> (\<forall>i r. tb_ints a i = Some r \<longrightarrow> r < next_ref a \<and> tb_objects a ! r = IntegerObject i)
   \<and> (\<forall>s r. tb_strings a s = Some r \<longrightarrow> r < next_ref a \<and> tb_objects a ! r = StringObject s)
   \<and> (\<forall>is r. tb_arrays a is = Some r \<longrightarrow> r < next_ref a
        \<and> (\<forall>i\<in>set is. tb_ints a i \<noteq> None)
        \<and> tb_objects a ! r = ArrayObject (map (\<lambda>i. the (tb_ints a i)) is))
   \<and> (\<forall>k<next_ref a. \<forall>r\<in>set (object_refs (tb_objects a ! k)). r < k)
   \<and> (\<forall>r\<in>set (all_pending a). r < next_ref a)"

lemma no_objects_ok: "table_ok no_objects"
  by (simp add: table_ok_def no_objects_def next_ref_def all_pending_def)

lemma table_ok_new:
  assumes "table_ok a" "\<forall>r\<in>set (object_refs ob). r < next_ref a"
  shows "table_ok (new_object ob a)"
  using assms unfolding table_ok_def
  by (simp add: new_object_def next_ref_def all_pending_def nth_append less_Suc_eq)

lemma new_object_at [simp]:
  "tb_objects (new_object ob a) ! next_ref a = ob" "next_ref (new_object ob a) = Suc (next_ref a)"
  by (simp_all add: new_object_def next_ref_def)

lemma new_object_fields [simp]:
  "tb_true (new_object ob a) = tb_true a" "tb_ints (new_object ob a) = tb_ints a"
  "tb_strings (new_object ob a) = tb_strings a" "tb_arrays (new_object ob a) = tb_arrays a"
  "tb_pending (new_object ob a) = tb_pending a" "tb_outer (new_object ob a) = tb_outer a"
  by (simp_all add: new_object_def)

lemma table_ok_fields:
  assumes "table_ok a"
  shows "tb_true a = Some r \<Longrightarrow> r < next_ref a" "tb_true a = Some r \<Longrightarrow> tb_objects a ! r = TrueObject"
    "tb_ints a i = Some r \<Longrightarrow> r < next_ref a" "tb_ints a i = Some r \<Longrightarrow> tb_objects a ! r = IntegerObject i"
    "tb_strings a s = Some r \<Longrightarrow> r < next_ref a" "tb_strings a s = Some r \<Longrightarrow> tb_objects a ! r = StringObject s"
    "tb_arrays a is = Some r \<Longrightarrow> r < next_ref a"
    "tb_arrays a is = Some r \<Longrightarrow> i \<in> set is \<Longrightarrow> tb_ints a i \<noteq> None"
    "tb_arrays a is = Some r \<Longrightarrow> tb_objects a ! r = ArrayObject (map (\<lambda>i. the (tb_ints a i)) is)"
  using assms by (simp_all add: table_ok_def)

lemma table_ok_refer: "table_ok a \<Longrightarrow> r < next_ref a \<Longrightarrow> table_ok (refer r a)"
  unfolding table_ok_def refer_def all_pending_def next_ref_def by auto

lemma true_object_ok:
  assumes "table_ok a"
  shows "table_ok (true_object a)" "\<exists>r<next_ref (true_object a). tb_true (true_object a) = Some r"
proof -
  have "table_ok (new_object TrueObject a)" using assms by (simp add: table_ok_new)
  then have "table_ok ((new_object TrueObject a)\<lparr>tb_true := Some (next_ref a)\<rparr>)" if "tb_true a = None"
    unfolding table_ok_def by (simp add: all_pending_def next_ref_def new_object_def)
  then show "table_ok (true_object a)" using assms by (simp add: true_object_def)
  show "\<exists>r<next_ref (true_object a). tb_true (true_object a) = Some r"
    using assms table_ok_fields(1) [OF assms]
    by (cases "tb_true a") (auto simp: true_object_def next_ref_def new_object_def)
qed

lemma map_upd_old: "i \<notin> set is \<Longrightarrow> map (\<lambda>j. the (if j = i then x else m j)) is = map (\<lambda>j. the (m j)) is"
  by auto

lemma integer_object_ok:
  assumes "table_ok a"
  shows "table_ok (integer_object i a)" "\<exists>r<next_ref (integer_object i a). tb_ints (integer_object i a) i = Some r"
proof -
  have "table_ok (integer_object i a)" if none: "tb_ints a i = None"
  proof -
    have new: "table_ok (new_object (IntegerObject i) a)" using assms by (simp add: table_ok_new)
    have old: "i \<notin> set is" if "tb_arrays a is = Some r" for "is" r
      using table_ok_fields(8) [OF assms that] none by blast
    have eq: "integer_object i a = (new_object (IntegerObject i) a)\<lparr>tb_ints := (tb_ints a)(i \<mapsto> next_ref a)\<rparr>"
      using none by (simp add: integer_object_def)
    have fields: "tb_objects (integer_object i a) = tb_objects (new_object (IntegerObject i) a)"
      "tb_true (integer_object i a) = tb_true a" "tb_strings (integer_object i a) = tb_strings a"
      "tb_arrays (integer_object i a) = tb_arrays a" "all_pending (integer_object i a) = all_pending (new_object (IntegerObject i) a)"
      "tb_ints (integer_object i a) = (tb_ints a)(i \<mapsto> next_ref a)"
      "next_ref (integer_object i a) = next_ref (new_object (IntegerObject i) a)"
      unfolding eq by (simp_all add: all_pending_def next_ref_def)
    have known: "\<forall>j\<in>set is. j \<noteq> i" if "tb_arrays a is = Some r" for "is" r
      using old [OF that] by blast
    show ?thesis
      using new unfolding table_ok_def fields new_object_fields
      by (elim conjE, intro conjI) (blast | auto simp: map_upd_old dest: old known)+
  qed
  then show "table_ok (integer_object i a)" using assms by (simp add: integer_object_def)
  show "\<exists>r<next_ref (integer_object i a). tb_ints (integer_object i a) i = Some r"
    using assms table_ok_fields(3) [OF assms, of i]
    by (cases "tb_ints a i") (auto simp: integer_object_def next_ref_def new_object_def)
qed

lemma string_object_ok:
  assumes "table_ok a"
  shows "table_ok (string_object s a)" "\<exists>r<next_ref (string_object s a). tb_strings (string_object s a) s = Some r"
proof -
  have "table_ok (new_object (StringObject s) a)" using assms by (simp add: table_ok_new)
  then have "table_ok ((new_object (StringObject s) a)\<lparr>tb_strings := (tb_strings a)(s \<mapsto> next_ref a)\<rparr>)" if "tb_strings a s = None"
    unfolding table_ok_def by (simp add: all_pending_def next_ref_def new_object_def)
  then show "table_ok (string_object s a)" using assms by (simp add: string_object_def)
  show "\<exists>r<next_ref (string_object s a). tb_strings (string_object s a) s = Some r"
    using assms table_ok_fields(5) [OF assms, of s]
    by (cases "tb_strings a s") (auto simp: string_object_def next_ref_def new_object_def)
qed

lemma fold_integers_ok: "table_ok a \<Longrightarrow> table_ok (fold integer_object is a)"
  by (induction "is" arbitrary: a) (simp_all add: integer_object_ok)

lemma fold_integers_known:
  assumes "i \<in> set is" "table_ok a"
  shows "\<exists>r<next_ref (fold integer_object is a). tb_ints (fold integer_object is a) i = Some r"
  using assms
proof (induction "is" arbitrary: a)
  case (Cons j js)
  have ok: "table_ok (integer_object j a)" by (rule integer_object_ok(1)) (rule Cons.prems(2))
  show ?case
  proof (cases "i = j")
    case True
    obtain r where "tb_ints (integer_object j a) j = Some r"
      using integer_object_ok(2) [OF Cons.prems(2), of j] by blast
    moreover have "tb_ints (integer_object j a) \<subseteq>\<^sub>m tb_ints (fold integer_object js (integer_object j a))"
      using grows_fold_integers by (simp add: grows_def)
    ultimately have "tb_ints (fold integer_object (j # js) a) i = Some r"
      using True by (auto simp: map_le_def dom_def) 
    then show ?thesis using table_ok_fields(3) [OF fold_integers_ok [OF Cons.prems(2)]] by blast
  next
    case False
    then show ?thesis using Cons.IH [OF _ ok] Cons.prems(1) by simp
  qed
qed simp

lemma array_object_ok:
  assumes "table_ok a"
  shows "table_ok (array_object is a)" "\<exists>r<next_ref (array_object is a). tb_arrays (array_object is a) is = Some r"
proof -
  let ?b = "fold integer_object is a"
  let ?ob = "ArrayObject (map (\<lambda>i. the (tb_ints ?b i)) is)"
  have b: "table_ok ?b" using assms by (rule fold_integers_ok)
  have refs: "\<forall>r\<in>set (object_refs ?ob). r < next_ref ?b"
    using fold_integers_known [OF _ assms] by fastforce
  have new: "table_ok (new_object ?ob ?b)" using b refs by (rule table_ok_new)
  have known: "\<forall>i\<in>set is. \<exists>r. tb_ints ?b i = Some r" using fold_integers_known [OF _ assms] by blast
  have "table_ok ((new_object ?ob ?b)\<lparr>tb_arrays := (tb_arrays ?b)(is \<mapsto> next_ref ?b)\<rparr>)"
    using new known unfolding table_ok_def by (simp add: all_pending_def next_ref_def new_object_def)
  then show "table_ok (array_object is a)" using assms by (simp add: array_object_def Let_def)
  show "\<exists>r<next_ref (array_object is a). tb_arrays (array_object is a) is = Some r"
    using table_ok_fields(7) [OF assms, of "is"]
    by (cases "tb_arrays a is") (auto simp: array_object_def Let_def next_ref_def new_object_def)
qed

lemma calls_ok:
  assumes "table_ok a"
  shows "table_ok (table_true a)" "table_ok (table_integer i a)" "table_ok (table_string s a)" "table_ok (table_array is a)"
    "object_refs ob = [] \<Longrightarrow> table_ok (table_unique ob a)" "table_ok (table_start a)"
proof -
  show "table_ok (table_true a)"
    using true_object_ok [OF assms] by (auto simp: table_true_def intro: table_ok_refer)
  show "table_ok (table_integer i a)"
    using integer_object_ok [OF assms, of i] by (auto simp: table_integer_def intro: table_ok_refer)
  show "table_ok (table_string s a)"
    using string_object_ok [OF assms, of s] by (auto simp: table_string_def intro: table_ok_refer)
  show "table_ok (table_array is a)"
    using array_object_ok [OF assms, of "is"] by (auto simp: table_array_def intro: table_ok_refer)
  show "table_ok (table_unique ob a)" if "object_refs ob = []"
    using that assms by (simp add: table_unique_def table_ok_refer table_ok_new)
  show "table_ok (table_start a)"
    using assms by (simp add: table_ok_def table_start_def next_ref_def all_pending_def)
qed

lemma end_ok:
  assumes "table_ok a" "tb_outer a \<noteq> []" "\<And>rs. object_refs (mk rs) = rs"
  shows "table_ok (table_end mk a)"
proof -
  have pending: "\<forall>r\<in>set (all_pending a). r < next_ref a" using assms(1) by (simp add: table_ok_def)
  then have "table_ok (new_object (mk (tb_pending a)) a)"
    by (intro table_ok_new [OF assms(1)]) (auto simp: assms(3) all_pending_def)
  moreover obtain p ps where "tb_outer a = p # ps" using assms(2) by (cases "tb_outer a") auto
  moreover from this have "\<forall>r\<in>set (concat (rev ps) @ p @ [next_ref a]). r < Suc (next_ref a)"
    using pending by (auto simp: all_pending_def less_Suc_eq)
  ultimately show ?thesis
    unfolding table_ok_def table_end_def
    by (simp add: all_pending_def next_ref_def new_object_def)
qed

lemma table_play_ok:
  "table_ok a \<Longrightarrow> table_ok (table_play t a)"
  "table_ok a \<Longrightarrow> table_ok (table_play_all ts a)"
  by (induction t a and ts a rule: table_play_table_play_all.induct)
    (simp_all add: calls_ok end_ok outer_inside)

section \<open>Implementations of the table\<close>

text \<open>
  A stream \<open>S\<close> implements the table when every call keeps the relation \<open>R\<close>, as long as the table
  reached is within the limits \<open>fits\<close>; \<open>saved\<close> is what the start of an aggregate returns for the
  references that wait outside of it.
\<close>

locale table_stream =
  fixes S :: "'s object_stream"
    and R :: "'s \<Rightarrow> object_table \<Rightarrow> bool"
    and saved :: "nat list list \<Rightarrow> u32"
    and fits :: "object_table \<Rightarrow> bool"
  assumes fits_mono: "grows a b \<Longrightarrow> fits b \<Longrightarrow> fits a"
    and boolean: "R s a \<Longrightarrow> table_ok a \<Longrightarrow> fits (table_true a) \<Longrightarrow>
      \<exists>s'. writeBooleanTrue S s = Some s' \<and> R s' (table_true a)"
    and integer: "R s a \<Longrightarrow> table_ok a \<Longrightarrow> fits (table_integer i a) \<Longrightarrow>
      \<exists>s'. writeInteger S i s = Some s' \<and> R s' (table_integer i a)"
    and string: "R s a \<Longrightarrow> table_ok a \<Longrightarrow> fits (table_string str a) \<Longrightarrow>
      \<exists>s'. writeString S str s = Some s' \<and> R s' (table_string str a)"
    and integer_array: "R s a \<Longrightarrow> table_ok a \<Longrightarrow> fits (table_array is a) \<Longrightarrow>
      \<exists>s'. writeIntegerArray S is s = Some s' \<and> R s' (table_array is a)"
    and unique_string: "R s a \<Longrightarrow> table_ok a \<Longrightarrow> fits (table_unique (StringObject str) a) \<Longrightarrow>
      \<exists>s'. writeUniqueString S str s = Some s' \<and> R s' (table_unique (StringObject str) a)"
    and unique_cstring: "R s a \<Longrightarrow> table_ok a \<Longrightarrow> fits (table_unique (CStringObject cs) a) \<Longrightarrow>
      \<exists>s'. writeUniqueCString S cs s = Some s' \<and> R s' (table_unique (CStringObject cs) a)"
    and array_start: "R s a \<Longrightarrow> table_ok a \<Longrightarrow> fits a \<Longrightarrow>
      \<exists>s'. writeArrayStart S s = (saved (tb_pending a # tb_outer a), s') \<and> R s' (table_start a)"
    and array_end: "R s a \<Longrightarrow> table_ok a \<Longrightarrow> tb_outer a \<noteq> [] \<Longrightarrow> fits (table_end ArrayObject a) \<Longrightarrow>
      \<exists>s'. writeArrayEnd S (saved (tb_outer a)) s = Some s' \<and> R s' (table_end ArrayObject a)"
    and dictionary_start: "R s a \<Longrightarrow> table_ok a \<Longrightarrow> fits a \<Longrightarrow>
      \<exists>s'. writeDictionaryStart S s = (saved (tb_pending a # tb_outer a), s') \<and> R s' (table_start a)"
    and dictionary_end: "R s a \<Longrightarrow> table_ok a \<Longrightarrow> tb_outer a \<noteq> [] \<Longrightarrow> fits (table_end DictionaryObject a) \<Longrightarrow>
      \<exists>s'. writeDictionaryEnd S (saved (tb_outer a)) s = Some s' \<and> R s' (table_end DictionaryObject a)"
begin

lemma client_implements_table:
  "R s a \<Longrightarrow> table_ok a \<Longrightarrow> fits (table_play t a) \<Longrightarrow> \<exists>s'. play S t s = Some s' \<and> R s' (table_play t a)"
  "R s a \<Longrightarrow> table_ok a \<Longrightarrow> fits (table_play_all ts a) \<Longrightarrow>
     \<exists>s'. play_all S ts s = Some s' \<and> R s' (table_play_all ts a)"
proof (induction t a and ts a arbitrary: s and s rule: table_play_table_play_all.induct)
  case (7 ts a)
  let ?b = "table_play_all ts (table_start a)"
  have fits: "fits a" "fits ?b"
    using fits_mono [OF grows_play(1) 7(4)] fits_mono [OF grows_end [of ?b ArrayObject]] 7(4)
    by (simp_all add: outer_inside)
  obtain s1 where s1: "writeArrayStart S s = (saved (tb_pending a # tb_outer a), s1)" "R s1 (table_start a)"
    using array_start [OF 7(2,3) fits(1)] by blast
  obtain s2 where "play_all S ts s1 = Some s2" "R s2 ?b"
    using 7(1) [OF s1(2) calls_ok(6) [OF 7(3)] fits(2)] by blast
  then show ?case
    using array_end [of s2 ?b] table_play_ok(2) [OF calls_ok(6) [OF 7(3)]] 7(4) s1(1) by (simp add: outer_inside)
next
  case (8 ts a)
  let ?b = "table_play_all ts (table_start a)"
  have fits: "fits a" "fits ?b"
    using fits_mono [OF grows_play(1) 8(4)] fits_mono [OF grows_end [of ?b DictionaryObject]] 8(4)
    by (simp_all add: outer_inside)
  obtain s1 where s1: "writeDictionaryStart S s = (saved (tb_pending a # tb_outer a), s1)" "R s1 (table_start a)"
    using dictionary_start [OF 8(2,3) fits(1)] by blast
  obtain s2 where "play_all S ts s1 = Some s2" "R s2 ?b"
    using 8(1) [OF s1(2) calls_ok(6) [OF 8(3)] fits(2)] by blast
  then show ?case
    using dictionary_end [of s2 ?b] table_play_ok(2) [OF calls_ok(6) [OF 8(3)]] 8(4) s1(1) by (simp add: outer_inside)
next
  case (10 t ts a)
  have "fits (table_play t a)" using fits_mono [OF grows_play(2)] 10(5) by simp
  then obtain s1 where "play S t s = Some s1" "R s1 (table_play t a)" using 10(1,3,4) by blast
  then show ?case using 10(2) [of s1] 10(4,5) table_play_ok(1) by simp
qed (simp_all add: boolean integer string integer_array unique_string unique_cstring)

end

end
