(* ===== verification/PropertyListPlan.thy ===== *)
theory PropertyListPlan
  imports PropertyListTable
begin

text \<open>
  The plan implements the table of objects: for every client whose list fits into 32 bits it
  has the number of the objects, of their bytes and of their references, and the number every
  shared object has.
\<close>

section \<open>Numbers\<close>

lemma unat_size [simp]: "n < 2 ^ 32 \<Longrightarrow> unat (of_nat n :: u32) = n"
  by (simp add: unsigned_of_nat take_bit_nat_eq_self)

lemma of_nat_size_le: "n < 2 ^ 32 \<Longrightarrow> m < 2 ^ 32 \<Longrightarrow> (of_nat n :: u32) \<le> of_nat m \<longleftrightarrow> n \<le> m"
  by (simp add: word_le_nat_alt)

lemma integerByteCount_nat: "integerByteCount i = of_nat (int_count (unat i))"
  by (simp add: integerByteCount_def int_count_def word_le_nat_alt)

lemma marker_nat: "n < 2 ^ 32 \<Longrightarrow> markerPlusLengthByteCount (of_nat n) = of_nat (marker_count n)"
  by (simp add: markerPlusLengthByteCount_def marker_count_def maxLengthInMarkerByte_def word_le_nat_alt
      integerByteCount_nat)

section \<open>The plan of a table\<close>

definition plan_of :: "object_table \<Rightarrow> plist_plan" where
  "plan_of a = \<lparr>
     pl_booleanTrueObjectReference = (case tb_true a of None \<Rightarrow> invalidObjectReference | Some r \<Rightarrow> of_nat r),
     pl_integerZeroObjectReference = (case tb_ints a 0 of None \<Rightarrow> invalidObjectReference | Some r \<Rightarrow> of_nat r),
     pl_integers = (\<lambda>i. if i = 0 then None else map_option of_nat (tb_ints a i)),
     pl_strings = (\<lambda>s. map_option of_nat (tb_strings a s)),
     pl_integerArrays = (\<lambda>is. map_option of_nat (tb_arrays a is)),
     pl_currentObjectReference = of_nat (next_ref a),
     pl_currentAggregateSize = of_nat (length (tb_pending a)),
     pl_byteCount = of_nat (table_bytes a),
     pl_objectReferenceCount = of_nat (table_refs a)\<rparr>"

definition plan_fits :: "object_table \<Rightarrow> bool" where
  "plan_fits a \<longleftrightarrow> table_bytes a + table_refs a + length (all_pending a) < 2 ^ 32 - 1"

lemma plan_fits_mono: "grows a b \<Longrightarrow> plan_fits b \<Longrightarrow> plan_fits a"
  using grows_bytes [of a b] grows_refs [of a b] by (simp add: plan_fits_def)

lemma plan_fits_refs: "plan_fits a \<Longrightarrow> next_ref a < 2 ^ 32 - 1"
  using table_objects_bytes [of a] by (simp add: plan_fits_def next_ref_def)

lemma valid_ref: "r < 2 ^ 32 - 1 \<Longrightarrow> (of_nat r :: u32) \<noteq> invalidObjectReference"
proof
  assume r: "r < 2 ^ 32 - 1" and "(of_nat r :: u32) = invalidObjectReference"
  then have "unat (of_nat r :: u32) = unat invalidObjectReference" by simp
  then show False using r by (simp add: invalidObjectReference_def)
qed

lemma table_counts_new:
  "table_bytes (new_object ob a) = table_bytes a + object_bytes ob"
  "table_refs (new_object ob a) = table_refs a + length (object_refs ob)"
  "all_pending (new_object ob a) = all_pending a"
  by (simp_all add: table_bytes_def table_refs_def all_pending_def new_object_def)

lemmas plan_steps = count_element_def count_object_def count_bytes_def

section \<open>Every call\<close>

lemma plan_boolean:
  assumes "table_ok a" "plan_fits (table_true a)"
  shows "plan_writeBooleanTrue (plan_of a) = plan_of (table_true a)"
proof (cases "tb_true a")
  case None
  then show ?thesis
    by (simp add: plan_writeBooleanTrue_def plan_of_def table_true_def true_object_def plan_steps Let_def refer_def
        table_bytes_def table_refs_def new_object_def next_ref_def cong: if_cong)
next
  case (Some r)
  have "plan_fits a" by (rule plan_fits_mono [OF grows_calls(1) assms(2)])
  then have "(of_nat r :: u32) \<noteq> invalidObjectReference"
    using table_ok_fields(1) [OF assms(1) Some] plan_fits_refs [of a] valid_ref by simp
  with Some show ?thesis
    by (simp add: plan_writeBooleanTrue_def plan_of_def table_true_def true_object_def plan_steps Let_def refer_def
        table_bytes_def table_refs_def next_ref_def cong: if_cong)
qed

text \<open>An integer within an integer array: whatever the open aggregate counts, and the entry of the array.\<close>

lemma plan_integer_object:
  assumes "table_ok a" "plan_fits (integer_object i a)"
  shows "plan_writeInteger i ((plan_of a)\<lparr>pl_currentAggregateSize := x, pl_integerArrays := y\<rparr>)
    = (plan_of (integer_object i a))\<lparr>pl_currentAggregateSize := x + 1, pl_integerArrays := y\<rparr>"
proof (cases "tb_ints a i")
  case None
  then show ?thesis
    by (auto simp: plan_writeInteger_def plan_of_def integer_object_def plan_steps Let_def fun_eq_iff
        table_bytes_def table_refs_def new_object_def next_ref_def integerByteCount_nat)
next
  case (Some r)
  have "plan_fits a" by (rule plan_fits_mono [OF grows_objects(2) assms(2)])
  then have "(of_nat r :: u32) \<noteq> invalidObjectReference"
    using table_ok_fields(3) [OF assms(1) Some] plan_fits_refs [of a] valid_ref by simp
  with Some show ?thesis
    by (cases "i = 0") (simp_all add: plan_writeInteger_def plan_of_def integer_object_def plan_steps Let_def)
qed

lemma plan_of_refer:
  "plan_of (refer r a) = (plan_of a)\<lparr>pl_currentAggregateSize := pl_currentAggregateSize (plan_of a) + 1\<rparr>"
  by (simp add: plan_of_def refer_def table_bytes_def table_refs_def next_ref_def cong: if_cong)

lemma plan_of_same:
  "(plan_of a)\<lparr>pl_currentAggregateSize := pl_currentAggregateSize (plan_of a), pl_integerArrays := pl_integerArrays (plan_of a)\<rparr>
    = plan_of a"
  by simp

lemma integer_object_frame:
  "tb_pending (integer_object i a) = tb_pending a" "tb_arrays (integer_object i a) = tb_arrays a"
  by (simp_all add: integer_object_def new_object_def)

lemma plan_integer:
  assumes "table_ok a" "plan_fits (table_integer i a)"
  shows "plan_writeInteger i (plan_of a) = plan_of (table_integer i a)"
proof -
  have "plan_fits (integer_object i a)"
    using assms(2) plan_fits_mono [OF grows_refer] by (simp add: table_integer_def)
  from plan_integer_object [OF assms(1) this, where x = "pl_currentAggregateSize (plan_of a)" and y = "pl_integerArrays (plan_of a)"]
  show ?thesis
    unfolding table_integer_def plan_of_refer by (simp add: plan_of_def integer_object_frame)
qed

lemma plan_string_object:
  assumes "plan_fits (new_object (StringObject s) a)"
  shows "plan_writeStringObject s ((plan_of a)\<lparr>pl_currentObjectReference := r, pl_strings := y\<rparr>)
    = (plan_of (new_object (StringObject s) a))\<lparr>pl_currentObjectReference := r, pl_strings := y\<rparr>"
proof -
  have "length s < 2 ^ 32"
    using assms by (simp add: plan_fits_def table_counts_new split: if_splits)
  then show ?thesis
    by (simp add: plan_writeStringObject_def plan_of_def plan_steps Let_def table_counts_new marker_nat next_ref_def
        cong: if_cong)
qed

lemma plan_string:
  assumes "plan_fits (table_string s a)"
  shows "plan_writeString s (plan_of a) = plan_of (table_string s a)"
proof (cases "tb_strings a s")
  case None
  let ?b = "new_object (StringObject s) a"
  have b: "string_object s a = ?b\<lparr>tb_strings := (tb_strings a)(s \<mapsto> next_ref a)\<rparr>"
    using None by (simp add: string_object_def)
  have "plan_fits (string_object s a)"
    using assms plan_fits_mono [OF grows_refer] by (simp add: table_string_def)
  then have "plan_fits ?b" unfolding b by (simp add: plan_fits_def table_bytes_def table_refs_def all_pending_def)
  then have len: "length s < 2 ^ 32" by (simp add: plan_fits_def table_counts_new split: if_splits)
  have "plan_of (string_object s a) = (plan_of ?b)\<lparr>pl_strings := (pl_strings (plan_of a))(s \<mapsto> of_nat (next_ref a))\<rparr>"
    unfolding b by (simp add: plan_of_def table_bytes_def table_refs_def next_ref_def fun_eq_iff cong: if_cong)
  then show ?thesis
    unfolding table_string_def plan_of_refer using None len
    by (simp add: plan_writeString_def plan_writeStringObject_def plan_of_def plan_steps Let_def table_counts_new
        marker_nat cong: if_cong)
next
  case (Some r)
  then show ?thesis
    unfolding table_string_def plan_of_refer
    by (simp add: plan_writeString_def string_object_def plan_of_def plan_steps Let_def)
qed

lemma plan_integers:
  assumes "table_ok a" "plan_fits (fold integer_object is a)"
  shows "\<exists>x'. fold plan_writeInteger is ((plan_of a)\<lparr>pl_currentAggregateSize := x, pl_integerArrays := y\<rparr>)
    = (plan_of (fold integer_object is a))\<lparr>pl_currentAggregateSize := x', pl_integerArrays := y\<rparr>"
  using assms
proof (induction "is" arbitrary: a x)
  case Nil
  show ?case by (rule exI [of _ x]) simp
next
  case (Cons i "is")
  have "plan_fits (integer_object i a)"
    using plan_fits_mono [OF grows_fold_integers] Cons.prems(2) by simp
  then show ?case
    using plan_integer_object [OF Cons.prems(1), where i = i and x = x and y = y] Cons.IH [OF integer_object_ok(1) [OF Cons.prems(1)]]
      Cons.prems(2) by simp
qed

lemma plan_array:
  assumes "table_ok a" "plan_fits (table_array is a)"
  shows "plan_writeIntegerArray is (plan_of a) = plan_of (table_array is a)"
proof (cases "tb_arrays a is")
  case None
  let ?b = "fold integer_object is a"
  let ?ob = "ArrayObject (map (\<lambda>i. the (tb_ints ?b i)) is)"
  have new: "array_object is a = (new_object ?ob ?b)\<lparr>tb_arrays := (tb_arrays a)(is \<mapsto> next_ref ?b)\<rparr>"
    using None by (simp add: array_object_def fold_integer_object_frame Let_def)
  have fits: "plan_fits (array_object is a)"
    using assms(2) plan_fits_mono [OF grows_refer] by (simp add: table_array_def)
  then have "plan_fits (new_object ?ob ?b)"
    unfolding new by (simp add: plan_fits_def table_bytes_def table_refs_def all_pending_def)
  then have len: "length is < 2 ^ 32" and fb: "plan_fits ?b"
    by (simp_all add: plan_fits_def table_counts_new)
  obtain x where fold: "fold plan_writeInteger is ((plan_of a)\<lparr>pl_currentAggregateSize := pl_currentAggregateSize (plan_of a) + 1,
      pl_integerArrays := (pl_integerArrays (plan_of a))(is \<mapsto> 0)\<rparr>)
    = (plan_of ?b)\<lparr>pl_currentAggregateSize := x, pl_integerArrays := (pl_integerArrays (plan_of a))(is \<mapsto> 0)\<rparr>"
    using plan_integers [OF assms(1) fb] by blast
  have "plan_of (array_object is a) = (plan_of (new_object ?ob ?b))
      \<lparr>pl_integerArrays := (pl_integerArrays (plan_of a))(is \<mapsto> of_nat (next_ref ?b))\<rparr>"
    unfolding new by (simp add: plan_of_def table_bytes_def table_refs_def next_ref_def fun_eq_iff fold_integer_object_frame cong: if_cong)
  moreover have "pl_integerArrays (plan_of a) is = None" using None by (simp add: plan_of_def)
  ultimately show ?thesis
    unfolding table_array_def plan_of_refer
    using fold len
    by (simp add: plan_writeIntegerArray_def plan_writeArrayObject_def plan_steps Let_def)
      (simp add: plan_of_def table_counts_new marker_nat fold_integer_object_frame cong: if_cong)
next
  case (Some r)
  then show ?thesis
    unfolding table_array_def plan_of_refer
    by (simp add: plan_writeIntegerArray_def array_object_def plan_of_def plan_steps Let_def)
qed

lemma plan_unique:
  assumes "plan_fits (table_unique ob a)"
  shows "ob = StringObject s \<Longrightarrow> plan_writeUniqueString s (plan_of a) = plan_of (table_unique ob a)"
    "ob = CStringObject cs \<Longrightarrow> plan_writeUniqueCString cs (plan_of a) = plan_of (table_unique ob a)"
proof -
  have fits: "plan_fits (new_object ob a)"
    using assms plan_fits_mono [OF grows_refer] by (simp add: table_unique_def)
  show "plan_writeUniqueString s (plan_of a) = plan_of (table_unique ob a)" if ob: "ob = StringObject s"
  proof -
    have "length s < 2 ^ 32" using fits ob by (simp add: plan_fits_def table_counts_new split: if_splits)
    then show ?thesis
      unfolding table_unique_def plan_of_refer using ob
      by (simp add: plan_writeUniqueString_def plan_writeStringObject_def plan_of_def plan_steps Let_def
          table_counts_new marker_nat cong: if_cong)
  qed
  show "plan_writeUniqueCString cs (plan_of a) = plan_of (table_unique ob a)" if ob: "ob = CStringObject cs"
  proof -
    have "length cs < 2 ^ 32" using fits ob by (simp add: plan_fits_def table_counts_new)
    then show ?thesis
      unfolding table_unique_def plan_of_refer using ob
      by (simp add: plan_writeUniqueCString_def plan_writeCStringObject_def plan_of_def plan_steps Let_def
          table_counts_new marker_nat cong: if_cong)
  qed
qed

definition plan_saved :: "nat list list \<Rightarrow> u32" where
  "plan_saved outer = of_nat (length (hd outer))"

lemma plan_start: "plan_writeStart (plan_of a) = (plan_saved (tb_pending a # tb_outer a), plan_of (table_start a))"
  by (simp add: plan_writeStart_def plan_of_def plan_saved_def table_start_def table_bytes_def table_refs_def
      next_ref_def cong: if_cong)

lemma table_end_counts:
  "table_bytes (table_end mk a) = table_bytes a + object_bytes (mk (tb_pending a))"
  "table_refs (table_end mk a) = table_refs a + length (object_refs (mk (tb_pending a)))"
  "next_ref (table_end mk a) = Suc (next_ref a)"
  "tb_pending (table_end mk a) = hd (tb_outer a) @ [next_ref a]"
  "tb_true (table_end mk a) = tb_true a" "tb_ints (table_end mk a) = tb_ints a"
  "tb_strings (table_end mk a) = tb_strings a" "tb_arrays (table_end mk a) = tb_arrays a"
  by (simp_all add: table_end_def table_bytes_def table_refs_def new_object_def next_ref_def)

lemma half_size: "n < 2 ^ 32 \<Longrightarrow> (of_nat n :: u32) div 2 = of_nat (n div 2)"
  by (rule word_unat_eq_iff [THEN iffD2]) (simp add: unat_div)

lemma plan_array_end:
  assumes "plan_fits (table_end ArrayObject a)" 
  shows "plan_writeArrayEnd (plan_saved (tb_outer a)) (plan_of a) = plan_of (table_end ArrayObject a)"
proof -
  have "length (tb_pending a) < 2 ^ 32" using assms by (simp add: plan_fits_def table_end_counts)
  then show ?thesis
    by (simp add: plan_writeArrayEnd_def plan_writeArrayObject_def plan_steps plan_of_def table_end_counts plan_saved_def
        marker_nat Let_def cong: if_cong)
qed

lemma plan_dictionary_end:
  assumes "plan_fits (table_end DictionaryObject a)" 
  shows "plan_writeDictionaryEnd (plan_saved (tb_outer a)) (plan_of a) = plan_of (table_end DictionaryObject a)"
proof -
  have "length (tb_pending a) < 2 ^ 32" using assms by (simp add: plan_fits_def table_end_counts)
  moreover from this have "length (tb_pending a) div 2 < 2 ^ 32" by simp
  ultimately show ?thesis
    by (simp add: plan_writeDictionaryEnd_def plan_writeDictionaryObject_def plan_steps plan_of_def table_end_counts
        plan_saved_def half_size marker_nat Let_def cong: if_cong)
qed

interpretation plan: table_stream plan_stream "\<lambda>p a. p = plan_of a" plan_saved plan_fits
  by unfold_locales
    (simp_all add: plan_stream_def plan_fits_mono plan_boolean plan_integer plan_string plan_array plan_unique
      plan_start plan_array_end plan_dictionary_end)

lemma plan_of_no_objects: "plan_of no_objects = plan_init"
  by (simp add: plan_of_def no_objects_def plan_init_def table_bytes_def table_refs_def next_ref_def fun_eq_iff)

lemma plan_of_client:
  "plan_fits (table_play t no_objects) \<Longrightarrow> play plan_stream t plan_init = Some (plan_of (table_play t no_objects))"
  using plan.client_implements_table(1) [OF refl no_objects_ok] by (simp add: plan_of_no_objects)

end
