(* ===== verification/PropertyListBuffer.thy ===== *)
theory PropertyListBuffer
  imports PropertyListPlan
begin

text \<open>
  The buffer of the serializer: what writes to a part of it change, the sizes of numbers and
  objects, the layout a table stands for, and each primitive step of the serializer
  (\<open>appendByte\<close>, \<open>startObject\<close>, \<open>addAggregateObjectReference\<close>, the end of an aggregate) as a step
  from one such layout to the next.
\<close>

section \<open>Parts of a buffer\<close>

definition bytes_at :: "byte list \<Rightarrow> nat \<Rightarrow> nat \<Rightarrow> byte list" where
  "bytes_at buf p n = take n (drop p buf)"

definition put :: "nat \<Rightarrow> byte list \<Rightarrow> byte list \<Rightarrow> byte list" where
  "put p w buf = take p buf @ w @ drop (p + length w) buf"

lemma length_put [simp]: "p + length w \<le> length buf \<Longrightarrow> length (put p w buf) = length buf"
  by (simp add: put_def)

lemma put_Nil [simp]: "put p [] buf = buf"
  by (simp add: put_def)

lemma nth_put:
  "p + length w \<le> length buf \<Longrightarrow> i < length buf \<Longrightarrow>
   put p w buf ! i = (if i < p then buf ! i else if i < p + length w then w ! (i - p) else buf ! i)"
  by (auto simp: put_def nth_append min_def)

lemma put_Cons:
  assumes "p + Suc (length w) \<le> length buf"
  shows "put (p + 1) w (buf[p := b]) = put p (b # w) buf"
  using assms by (intro nth_equalityI) (auto simp: nth_put nth_Cons' nth_list_update)

lemma put_snoc:
  assumes "p + Suc (length w) \<le> length buf"
  shows "put p w (buf[p + length w := b]) = put p (w @ [b]) buf"
  using assms by (intro nth_equalityI) (auto simp: nth_put nth_append nth_list_update)

lemma put_put:
  "p + length w \<le> length buf \<Longrightarrow> length v = length w \<Longrightarrow> put p v (put p w buf) = put p v buf"
  by (intro nth_equalityI) (auto simp: nth_put)

lemma bytes_at_put_same: "p + length w \<le> length buf \<Longrightarrow> n = length w \<Longrightarrow> bytes_at (put p w buf) p n = w"
  by (simp add: bytes_at_def put_def)

lemma bytes_at_put_other:
  assumes "p + length w \<le> length buf" "q + n \<le> p \<or> p + length w \<le> q"
  shows "bytes_at (put p w buf) q n = bytes_at buf q n"
proof (rule nth_equalityI)
  show "length (bytes_at (put p w buf) q n) = length (bytes_at buf q n)"
    using assms(1) by (simp add: bytes_at_def)
  fix i assume "i < length (bytes_at (put p w buf) q n)"
  then show "bytes_at (put p w buf) q n ! i = bytes_at buf q n ! i"
    using assms by (auto simp: bytes_at_def nth_put)
qed

lemma bytes_at_add: "bytes_at buf p (n + m) = bytes_at buf p n @ bytes_at buf (p + n) m"
  unfolding bytes_at_def take_add by (simp add: add.commute)

lemma length_bytes_at [simp]: "p + n \<le> length buf \<Longrightarrow> length (bytes_at buf p n) = n"
  by (simp add: bytes_at_def)

lemma pokes_put: "p + length w \<le> length buf \<Longrightarrow> pokes p w buf = Some (put p w buf)"
proof (induction w arbitrary: p buf)
  case (Cons b w)
  then have "put (p + 1) w (buf[p := b]) = put p (b # w) buf" by (intro put_Cons) simp
  with Cons show ?case by (simp add: poke_def)
qed simp

lemma reverse_loop_nth:
  "length (reverse_loop a b buf) = length buf \<and>
   (b \<le> length buf \<longrightarrow> i < length buf \<longrightarrow>
     reverse_loop a b buf ! i = (if a \<le> i \<and> i < b then buf ! (a + b - 1 - i) else buf ! i))"
proof (induction a b buf rule: reverse_loop.induct)
  case (1 a b buf)
  show ?case
  proof (cases "b - a > 1")
    case True
    let ?buf = "buf[a := buf ! (b - 1), b - 1 := buf ! a]"
    have step: "reverse_loop a b buf = reverse_loop (a + 1) (b - 1) ?buf"
      using True by (subst reverse_loop.simps) simp
    have swap: "?buf ! j = (if j = b - 1 then buf ! a else if j = a then buf ! (b - 1) else buf ! j)"
      if "b \<le> length buf" "j < length buf" for j
      using that True by (simp add: nth_list_update)
    have len: "length (reverse_loop (a + 1) (b - 1) ?buf) = length buf" using 1 [OF True] by simp
    have "reverse_loop (a + 1) (b - 1) ?buf ! i = (if a \<le> i \<and> i < b then buf ! (a + b - 1 - i) else buf ! i)"
      if i: "b \<le> length buf" "i < length buf"
    proof -
      have "a + 1 + (b - 1) - 1 - i = a + b - 1 - i" using True by simp
      then have inner: "reverse_loop (a + 1) (b - 1) ?buf ! i
          = (if a + 1 \<le> i \<and> i < b - 1 then ?buf ! (a + b - 1 - i) else ?buf ! i)"
        using 1 [OF True] i by (simp only: length_list_update)
      have "a < b - 1" "b - 1 < b" using True by auto
      then have bounds: "\<not> (a + 1 \<le> a \<and> a < b - 1)" "\<not> (a + 1 \<le> b - 1 \<and> b - 1 < b - 1)" "a \<noteq> b - 1"
        "a + b - 1 - a = b - 1" "a + b - 1 - (b - 1) = a" "a \<le> a \<and> a < b" "a \<le> b - 1 \<and> b - 1 < b"
        by auto
      consider "i = a" | "i = b - 1" | "a + 1 \<le> i \<and> i < b - 1" | "\<not> (a \<le> i \<and> i < b)"
        using True by linarith
      then show ?thesis
      proof cases
        case 1
        show ?thesis using inner swap [OF i] unfolding 1 by (simp only: bounds if_True if_False simp_thms)
      next
        case 2
        show ?thesis using inner swap [OF i] unfolding 2 by (simp only: bounds if_True if_False simp_thms)
      next
        case 3
        then have "a + b - 1 - i < length buf" "a + b - 1 - i \<noteq> b - 1" "a + b - 1 - i \<noteq> a" "a \<le> i \<and> i < b"
          using i by auto
        then show ?thesis using inner swap [OF i(1), of "a + b - 1 - i"] 3 by (simp only: if_True if_False simp_thms)
      next
        case 4
        then have "i \<noteq> a" "i \<noteq> b - 1" "\<not> (a + 1 \<le> i \<and> i < b - 1)" using True by auto
        then show ?thesis using inner swap [OF i] 4 by (simp only: if_False)
      qed
    qed
    with len show ?thesis unfolding step by blast
  next
    case False
    then have "a + b - 1 - i = i" if "a \<le> i" "i < b" using that by simp
    with False show ?thesis by (subst (1 2) reverse_loop.simps) simp
  qed
qed

lemma moveAndReverseBytes_put:
  assumes "source + n \<le> length buf" "dest + n \<le> length buf"
  shows "moveAndReverseBytes dest source n buf = Some (put dest (rev (bytes_at buf source n)) buf)"
proof -
  let ?w = "bytes_at buf source n"
  have w: "length ?w = n" using assms(1) by simp
  have "reverse_loop dest (dest + n) (put dest ?w buf) = put dest (rev ?w) buf"
    using assms(2) w reverse_loop_nth [of dest "dest + n" "put dest ?w buf"]
    by (intro nth_equalityI) (auto simp: nth_put rev_nth add.commute)
  then show ?thesis
    using assms w by (simp add: moveAndReverseBytes_def pokes_put flip: bytes_at_def)
qed

section \<open>Sizes of numbers\<close>

lemma mask_high: "c AND push_bit (8 * n) (-1) = 0 \<longleftrightarrow> unat c < 256 ^ n" for c :: u32
proof -
  have "c AND push_bit (8 * n) (-1) = 0 \<longleftrightarrow> drop_bit (8 * n) c = 0"
  proof
    assume *: "c AND push_bit (8 * n) (-1) = 0"
    show "drop_bit (8 * n) c = 0"
    proof (rule bit_word_eqI)
      fix m
      have "\<not> bit (c AND push_bit (8 * n) (-1)) (8 * n + m)" by (simp only: *) simp
      then show "bit (drop_bit (8 * n) c) m = bit 0 m" by (auto simp: bit_simps dest: bit_imp_le_length)
    qed
  next
    assume *: "drop_bit (8 * n) c = 0"
    show "c AND push_bit (8 * n) (-1) = 0"
    proof (rule bit_word_eqI)
      fix m
      have "\<not> bit (drop_bit (8 * n) c) (m - 8 * n)" by (simp only: *) simp
      then show "bit (c AND push_bit (8 * n) (-1)) m = bit 0 m"
        by (cases "8 * n \<le> m") (auto simp: bit_simps)
    qed
  qed
  also have "\<dots> \<longleftrightarrow> unat c div 256 ^ n = 0"
    by (simp add: word_unat_eq_iff unat_drop_bit_eq) (simp add: drop_bit_eq_div power_mult)
  also have "\<dots> \<longleftrightarrow> unat c < 256 ^ n" by (simp add: div_eq_0_iff)
  finally show ?thesis .
qed

lemma bytes_needed_loop_spec:
  "n \<le> 4 \<Longrightarrow> n \<le> bytes_needed_loop c n \<and> bytes_needed_loop c n \<le> 4 \<and> unat c < 256 ^ bytes_needed_loop c n"
proof (induction c n rule: bytes_needed_loop.induct)
  case (1 c n)
  show ?case
  proof (cases "unat c < 256 ^ n")
    case True
    then have "bytes_needed_loop c n = n"
      by (subst bytes_needed_loop.simps) (simp only: mask_high not_True_eq_False simp_thms if_False)
    then show ?thesis using 1(2) True by simp
  next
    case False
    have "unat c < 256 ^ 4" using unsigned_less [of c] by simp
    then have "n \<noteq> 4" using False by auto
    then have "n + 1 \<le> 4" using 1(2) by simp
    moreover have "bytes_needed_loop c n = bytes_needed_loop c (n + 1)"
      using False by (subst bytes_needed_loop.simps) (simp only: mask_high not_False_eq_True if_True)
    ultimately show ?thesis using 1(1) False by (simp only: mask_high) simp
  qed
qed

lemma bytesNeeded_spec: "1 \<le> bytesNeeded c" "bytesNeeded c \<le> 4" "unat c < 256 ^ bytesNeeded c"
  using bytes_needed_loop_spec [of 1 c] by (simp_all add: bytesNeeded_def)

section \<open>The bytes of the objects\<close>

definition marker_bytes :: "byte \<Rightarrow> byte \<Rightarrow> u32 \<Rightarrow> byte list" where
  "marker_bytes markerByte withSeparateLength l =
     (if l \<le> maxLengthInMarkerByte then [markerByte OR ucast l] else withSeparateLength # integer_bytes l)"

definition refs_bytes :: "nat \<Rightarrow> nat list \<Rightarrow> byte list" where
  "refs_bytes k rs = concat (map (\<lambda>r. high_to_low k (of_nat r)) rs)"

primrec encode :: "nat \<Rightarrow> plist_object \<Rightarrow> byte list" where
  "encode k TrueObject = [0x09]"
| "encode k (IntegerObject i) = integer_bytes i"
| "encode k (StringObject s) =
     (if charactersAreAllASCII s then marker_bytes 0x50 0x5F (of_nat (length s)) @ map ucast s
      else marker_bytes 0x60 0x6F (of_nat (length s)) @ concat (map (\<lambda>c. [ucast (drop_bit 8 c), ucast c]) s))"
| "encode k (CStringObject s) = marker_bytes 0x50 0x5F (of_nat (length s)) @ s"
| "encode k (ArrayObject rs) = marker_bytes 0xA0 0xAF (of_nat (length rs)) @ refs_bytes k rs"
| "encode k (DictionaryObject rs) = marker_bytes 0xD0 0xDF (of_nat (length rs div 2)) @ refs_bytes k rs"

definition encoded :: "nat \<Rightarrow> plist_object list \<Rightarrow> byte list" where
  "encoded k objs = concat (map (encode k) objs)"

text \<open>Where the objects start.\<close>

fun offsets :: "nat \<Rightarrow> nat \<Rightarrow> plist_object list \<Rightarrow> nat list" where
  "offsets k p [] = []"
| "offsets k p (ob # objs) = p # offsets k (p + length (encode k ob)) objs"

lemma length_high_to_low [simp]: "length (high_to_low n r) = n"
  by (induction n) simp_all

lemma switch_bytes_high: "1 \<le> n \<Longrightarrow> n \<le> 4 \<Longrightarrow> switch_bytes n r = high_to_low n r"
  by (simp add: switch_bytes_def)

lemma length_refs_bytes [simp]: "length (refs_bytes k rs) = k * length rs"
  by (induction rs) (simp_all add: refs_bytes_def)

lemma refs_bytes_append [simp]: "refs_bytes k (rs @ qs) = refs_bytes k rs @ refs_bytes k qs"
  by (simp add: refs_bytes_def)

lemma length_integer_bytes: "length (integer_bytes i) = int_count (unat i)"
  by (simp add: integer_bytes_def int_count_def word_le_nat_alt)

lemma length_marker_bytes: "n < 2 ^ 32 \<Longrightarrow> length (marker_bytes m m' (of_nat n)) = marker_count n"
  by (simp add: marker_bytes_def marker_count_def maxLengthInMarkerByte_def word_le_nat_alt length_integer_bytes)

lemma length_encode:
  assumes "object_bytes ob + length (object_refs ob) < 2 ^ 32"
  shows "length (encode k ob) = object_bytes ob + k * length (object_refs ob)"
proof -
  have pairs: "length (concat (map (\<lambda>c. [f c, g c]) s)) = 2 * length s" for f g and s :: ustring
    by (induction s) simp_all
  show ?thesis
    using assms
    by (cases ob) (simp_all add: length_integer_bytes length_marker_bytes pairs split: if_splits)
qed

lemma length_encoded:
  "sum_list (map object_bytes objs) + sum_list (map (\<lambda>ob. length (object_refs ob)) objs) < 2 ^ 32 \<Longrightarrow>
   length (encoded k objs) = sum_list (map object_bytes objs) + k * sum_list (map (\<lambda>ob. length (object_refs ob)) objs)"
  by (induction objs) (simp_all add: encoded_def length_encode algebra_simps)

lemma encoded_snoc: "encoded k (objs @ [ob]) = encoded k objs @ encode k ob"
  by (simp add: encoded_def)

lemma offsets_snoc: "offsets k p (objs @ [ob]) = offsets k p objs @ [p + length (encoded k objs)]"
  by (induction objs arbitrary: p) (simp_all add: encoded_def add.assoc)

lemma length_offsets [simp]: "length (offsets k p objs) = length objs"
  by (induction objs arbitrary: p) simp_all

section \<open>The layout of the buffer\<close>

definition ref_size :: "object_table \<Rightarrow> nat" where
  "ref_size w = bytesNeeded (of_nat (next_ref w))"

definition table_at :: "object_table \<Rightarrow> nat" where
  "table_at w = 8 + table_bytes w + table_refs w * ref_size w"

definition offset_size :: "object_table \<Rightarrow> nat" where
  "offset_size w = bytesNeeded (of_nat (table_at w))"

definition plist_size :: "object_table \<Rightarrow> nat" where
  "plist_size w = table_at w + next_ref w * offset_size w + 32"

lemma layout_sizes: "1 \<le> ref_size w" "ref_size w \<le> 4" "1 \<le> offset_size w" "offset_size w \<le> 4"
  unfolding ref_size_def offset_size_def by (rule bytesNeeded_spec)+

text \<open>The state after the objects \<open>objs\<close>, with the references \<open>pend\<close> waiting, of a list that ends as \<open>w\<close>.\<close>

definition ser_at :: "object_table \<Rightarrow> plist_object list \<Rightarrow> nat list \<Rightarrow> plist_serializer \<Rightarrow> bool" where
  "ser_at w objs pend s \<longleftrightarrow>
     plist_size w < 2 ^ 32
   \<and> ser_plan s = plan_of w \<and> ser_objectReferenceSize s = ref_size w
   \<and> ser_offsetTableStart s = of_nat (table_at w) \<and> ser_offsetSize s = offset_size w
   \<and> length (ser_buffer s) = plist_size w
   \<and> 8 + length (encoded (ref_size w) objs) + ref_size w * length pend \<le> table_at w
   \<and> length objs \<le> next_ref w
   \<and> ser_currentByte s = 8 + length (encoded (ref_size w) objs)
   \<and> ser_currentObjectReference s = of_nat (length objs)
   \<and> ser_currentAggregateBufferByte s = table_at w - ref_size w * length pend
   \<and> bytes_at (ser_buffer s) 8 (length (encoded (ref_size w) objs)) = encoded (ref_size w) objs
   \<and> bytes_at (ser_buffer s) (table_at w - ref_size w * length pend) (ref_size w * length pend)
       = rev (refs_bytes (ref_size w) pend)
   \<and> bytes_at (ser_buffer s) (table_at w) (offset_size w * length objs)
       = refs_bytes (offset_size w) (offsets (ref_size w) 8 objs)"

lemma appendBytes_put:
  "ser_currentByte s + length bs \<le> length (ser_buffer s) \<Longrightarrow>
   appendBytes bs s = Some (s\<lparr>ser_buffer := put (ser_currentByte s) bs (ser_buffer s),
                              ser_currentByte := ser_currentByte s + length bs\<rparr>)"
proof (induction bs arbitrary: s)
  case (Cons b bs)
  have "put (ser_currentByte s + 1) bs ((ser_buffer s)[ser_currentByte s := b]) = put (ser_currentByte s) (b # bs) (ser_buffer s)"
    using Cons.prems by (intro put_Cons) simp
  with Cons show ?case by (simp add: appendByte_def poke_def)
qed simp

lemma appendBytes_append: "appendBytes (bs @ cs) s = Option.bind (appendBytes bs s) (appendBytes cs)"
  by (induction bs arbitrary: s) (auto split: Option.bind_split)

lemma appendMarker_bytes: "appendMarker m m' l s = appendBytes (marker_bytes m m' l) s"
proof -
  have "(\<lambda>s. appendBytes (integer_bytes l) s) = appendInteger l" by (simp add: appendInteger_def fun_eq_iff)
  then show ?thesis by (cases "appendByte (m OR ucast l) s") (simp_all add: appendMarker_def marker_bytes_def)
qed

lemma pushBytes_put:
  "length bs \<le> ser_currentAggregateBufferByte s \<Longrightarrow> ser_currentAggregateBufferByte s \<le> length (ser_buffer s) \<Longrightarrow>
   pushBytes bs s = Some (s\<lparr>ser_buffer := put (ser_currentAggregateBufferByte s - length bs) (rev bs) (ser_buffer s),
                            ser_currentAggregateBufferByte := ser_currentAggregateBufferByte s - length bs\<rparr>)"
proof (induction bs arbitrary: s)
  case (Cons b bs)
  let ?p = "ser_currentAggregateBufferByte s - 1"
  have "put (?p - length bs) (rev bs) ((ser_buffer s)[?p := b]) = put (?p - length bs) (rev (b # bs)) (ser_buffer s)"
    using put_snoc [of "?p - length bs" "rev bs" "ser_buffer s" b] Cons.prems by simp
  with Cons show ?case by (simp add: poke_def Let_def)
qed simp

section \<open>Steps\<close>

lemma put_append:
  "p + length v + length w \<le> length buf \<Longrightarrow> put (p + length v) w (put p v buf) = put p (v @ w) buf"
  by (intro nth_equalityI) (auto simp: nth_put nth_append)

definition started :: "object_table \<Rightarrow> nat \<Rightarrow> plist_serializer \<Rightarrow> plist_serializer" where
  "started w n s = s\<lparr>ser_buffer := put (table_at w + n * offset_size w)
      (high_to_low (offset_size w) (of_nat (ser_currentByte s))) (ser_buffer s),
    ser_currentObjectReference := of_nat (Suc n)\<rparr>"

lemma table_entry_room:
  assumes "n < next_ref w" "plist_size w < 2 ^ 32"
  shows "table_at w + n * offset_size w + offset_size w \<le> plist_size w"
    "unat (of_nat (table_at w) + of_nat n * of_nat (offset_size w) + of_nat (offset_size w) :: u32)
      = table_at w + n * offset_size w + offset_size w"
proof -
  have "Suc n * offset_size w \<le> next_ref w * offset_size w" using assms(1) by (intro mult_le_mono1) simp
  then show room: "table_at w + n * offset_size w + offset_size w \<le> plist_size w" by (simp add: plist_size_def)
  have "(of_nat (table_at w) + of_nat n * of_nat (offset_size w) + of_nat (offset_size w) :: u32)
      = of_nat (table_at w + n * offset_size w + offset_size w)" by simp
  then show "unat (of_nat (table_at w) + of_nat n * of_nat (offset_size w) + of_nat (offset_size w) :: u32)
      = table_at w + n * offset_size w + offset_size w"
    using room assms(2) by (simp only: unat_size)
qed

lemma startObject_started:
  assumes "ser_at w objs pend s" "length objs < next_ref w"
  shows "startObject s = Some (started w (length objs) s)"
proof -
  have size: "plist_size w < 2 ^ 32" "length (ser_buffer s) = plist_size w"
    and fields: "ser_offsetTableStart s = of_nat (table_at w)" "ser_offsetSize s = offset_size w"
      "ser_currentObjectReference s = of_nat (length objs)"
    using assms(1) by (simp_all add: ser_at_def)
  note room = table_entry_room [OF assms(2) size(1)]
  have "pokes (table_at w + length objs * offset_size w) (high_to_low (offset_size w) (of_nat (ser_currentByte s))) (ser_buffer s)
      = Some (put (table_at w + length objs * offset_size w) (high_to_low (offset_size w) (of_nat (ser_currentByte s))) (ser_buffer s))"
    using room(1) size(2) by (intro pokes_put) simp
  moreover have "of_nat (length objs) + 1 = (of_nat (Suc (length objs)) :: u32)" by simp
  moreover have "table_at w + length objs * offset_size w + offset_size w - offset_size w = table_at w + length objs * offset_size w"
    by simp
  ultimately show ?thesis
    unfolding startObject_def Let_def fields room(2) switch_bytes_high [OF layout_sizes(3,4)]
    by (simp only: started_def option.map)
qed

lemma ser_at_emit:
  assumes at: "ser_at w objs (pend @ inner) s" and more: "length objs < next_ref w"
    and room: "8 + length (encoded (ref_size w) (objs @ [ob])) + ref_size w * length pend \<le> table_at w"
  shows "ser_at w (objs @ [ob]) pend ((started w (length objs) s)
    \<lparr>ser_buffer := put (ser_currentByte s) (encode (ref_size w) ob) (ser_buffer (started w (length objs) s)),
     ser_currentByte := ser_currentByte s + length (encode (ref_size w) ob),
     ser_currentAggregateBufferByte := table_at w - ref_size w * length pend\<rparr>)"
proof -
  let ?k = "ref_size w" and ?o = "offset_size w" and ?T = "table_at w" and ?n = "length objs" and ?buf = "ser_buffer s"
  let ?L = "length (encoded ?k objs)" and ?e = "encode ?k ob"
  define h where "h = (high_to_low ?o (of_nat (8 + ?L)) :: byte list)"
  define buf1 where "buf1 = put (?T + ?n * ?o) h ?buf"
  define buf2 where "buf2 = put (8 + ?L) ?e buf1"
  have size: "plist_size w < 2 ^ 32" "length ?buf = plist_size w" and cur: "ser_currentByte s = 8 + ?L"
    and enc: "bytes_at ?buf 8 ?L = encoded ?k objs"
    and wait: "bytes_at ?buf (?T - ?k * length (pend @ inner)) (?k * length (pend @ inner)) = rev (refs_bytes ?k (pend @ inner))"
    and table: "bytes_at ?buf ?T (?o * ?n) = refs_bytes ?o (offsets ?k 8 objs)"
    and low: "8 + ?L + ?k * length (pend @ inner) \<le> ?T"
    using at by (simp_all add: ser_at_def)
  have h: "length h = ?o" by (simp add: h_def)
  note entry = table_entry_room [OF more size(1)]
  have r1: "?T + ?n * ?o + length h \<le> length ?buf" using entry(1) size(2) h by simp
  then have l1: "length buf1 = plist_size w" using size(2) by (simp add: buf1_def)
  have T: "?T \<le> plist_size w" by (simp add: plist_size_def)
  have e: "8 + ?L + length ?e + ?k * length pend \<le> ?T" using room by (simp add: encoded_snoc)
  then have r2: "8 + ?L + length ?e \<le> length buf1" using T l1 by simp
  have l2: "length buf2 = plist_size w" using r2 l1 by (simp add: buf2_def)
  have "bytes_at buf2 8 (?L + length ?e) = bytes_at buf1 8 ?L @ ?e"
    unfolding bytes_at_add buf2_def using r2 by (simp add: bytes_at_put_same bytes_at_put_other)
  also have "bytes_at buf1 8 ?L = encoded ?k objs"
    unfolding buf1_def using r1 low by (subst bytes_at_put_other) (auto simp: enc)
  finally have enc': "bytes_at buf2 8 (length (encoded ?k (objs @ [ob]))) = encoded ?k (objs @ [ob])"
    by (simp add: encoded_snoc)
  have "?k * length pend \<le> ?k * length (pend @ inner)" by simp
  then have split: "?T - ?k * length (pend @ inner) + ?k * length inner = ?T - ?k * length pend"
    using low by (simp add: algebra_simps)
  have "bytes_at ?buf (?T - ?k * length (pend @ inner)) (?k * length inner + ?k * length pend)
      = bytes_at ?buf (?T - ?k * length (pend @ inner)) (?k * length inner) @ bytes_at ?buf (?T - ?k * length pend) (?k * length pend)"
    unfolding bytes_at_add split ..
  moreover have "?k * length inner + ?k * length pend = ?k * length (pend @ inner)" by (simp add: algebra_simps)
  moreover have "length (bytes_at ?buf (?T - ?k * length (pend @ inner)) (?k * length inner)) = ?k * length inner"
    using low T size(2) by (intro length_bytes_at) (simp add: algebra_simps)
  ultimately have "bytes_at ?buf (?T - ?k * length pend) (?k * length pend) = rev (refs_bytes ?k pend)"
    using wait by (simp add: append_eq_append_conv)
  moreover have "bytes_at buf2 (?T - ?k * length pend) (?k * length pend) = bytes_at buf1 (?T - ?k * length pend) (?k * length pend)"
    unfolding buf2_def using r2 e by (intro bytes_at_put_other) auto
  moreover have "bytes_at buf1 (?T - ?k * length pend) (?k * length pend) = bytes_at ?buf (?T - ?k * length pend) (?k * length pend)"
    unfolding buf1_def using r1 e by (intro bytes_at_put_other) auto
  ultimately have wait': "bytes_at buf2 (?T - ?k * length pend) (?k * length pend) = rev (refs_bytes ?k pend)"
    by simp
  have "bytes_at buf2 ?T (?o * ?n + ?o) = bytes_at buf1 ?T (?o * ?n + ?o)"
    unfolding buf2_def using r2 e by (intro bytes_at_put_other) auto
  also have "\<dots> = bytes_at ?buf ?T (?o * ?n) @ h"
    unfolding bytes_at_add buf1_def using r1 h
    by (simp add: bytes_at_put_same bytes_at_put_other mult.commute)
  finally have table': "bytes_at buf2 ?T (?o * length (objs @ [ob])) = refs_bytes ?o (offsets ?k 8 (objs @ [ob]))"
    by (simp add: offsets_snoc table h_def refs_bytes_def add.commute)
  show ?thesis
    using at more room l2 enc' wait' table' unfolding buf2_def buf1_def h_def
    by (simp add: ser_at_def started_def cur encoded_snoc)
qed

lemma ser_at_append:
  assumes at: "ser_at w objs pend s" and more: "length objs < next_ref w"
    and room: "8 + length (encoded (ref_size w) (objs @ [ob])) + ref_size w * length pend \<le> table_at w"
  shows "\<exists>s'. Option.bind (startObject s) (appendBytes (encode (ref_size w) ob)) = Some s' \<and> ser_at w (objs @ [ob]) pend s'"
proof -
  let ?s1 = "started w (length objs) s" and ?e = "encode (ref_size w) ob"
  have start: "startObject s = Some ?s1" using at more by (rule startObject_started)
  have at': "ser_at w objs (pend @ []) s" using at by simp
  have "ser_currentByte ?s1 = ser_currentByte s" by (simp add: started_def)
  moreover have "ser_currentAggregateBufferByte s = table_at w - ref_size w * length pend"
    "ser_currentByte s + length ?e \<le> plist_size w" "length (ser_buffer s) = plist_size w" "plist_size w < 2 ^ 32"
    using at room by (simp_all add: ser_at_def encoded_snoc plist_size_def)
  moreover from this have "length (ser_buffer ?s1) = plist_size w"
    using table_entry_room(1) [OF more] by (simp add: started_def)
  ultimately have "appendBytes ?e ?s1 = Some (?s1\<lparr>ser_buffer := put (ser_currentByte s) ?e (ser_buffer ?s1),
      ser_currentByte := ser_currentByte s + length ?e,
      ser_currentAggregateBufferByte := table_at w - ref_size w * length pend\<rparr>)"
    by (simp add: appendBytes_put) (simp add: started_def)
  then show ?thesis using ser_at_emit [OF at' more room] start by simp
qed

lemma ser_at_refer:
  assumes at: "ser_at w objs pend s"
    and room: "8 + length (encoded (ref_size w) objs) + ref_size w * Suc (length pend) \<le> table_at w"
  shows "\<exists>s'. addAggregateObjectReference (of_nat r) s = Some s' \<and> ser_at w objs (pend @ [r]) s'"
proof -
  let ?k = "ref_size w" and ?o = "offset_size w" and ?T = "table_at w" and ?buf = "ser_buffer s"
  let ?L = "length (encoded ?k objs)" and ?A = "table_at w - ref_size w * length pend"
  define h where "h = (high_to_low ?k (of_nat r) :: byte list)"
  define buf where "buf = put (?A - ?k) (rev h) ?buf"
  have fields: "length ?buf = plist_size w" "ser_objectReferenceSize s = ?k" "ser_currentAggregateBufferByte s = ?A"
    and enc: "bytes_at ?buf 8 ?L = encoded ?k objs"
    and wait: "bytes_at ?buf ?A (?k * length pend) = rev (refs_bytes ?k pend)"
    and table: "bytes_at ?buf ?T (?o * length objs) = refs_bytes ?o (offsets ?k 8 objs)"
    using at by (simp_all add: ser_at_def)
  have h: "length h = ?k" by (simp add: h_def)
  have T: "?T \<le> plist_size w" by (simp add: plist_size_def)
  have A: "?A - ?k + ?k = ?A" "?A - ?k = ?T - ?k * length (pend @ [r])" "8 + ?L \<le> ?A - ?k" "?k \<le> ?A" "?A \<le> ?T"
    using room by auto
  have w: "?A - ?k + length (rev h) \<le> length ?buf" using A h T fields(1) by simp
  have "addAggregateObjectReference (of_nat r) s = Some (s\<lparr>ser_buffer := buf, ser_currentAggregateBufferByte := ?A - ?k\<rparr>)"
    unfolding addAggregateObjectReference_def fields(2) switch_bytes_high [OF layout_sizes(1,2)] h_def [symmetric] buf_def
    using pushBytes_put [of h s] A h T fields by simp
  moreover have "bytes_at buf (?A - ?k) (?k + ?k * length pend) = rev h @ bytes_at ?buf ?A (?k * length pend)"
    unfolding bytes_at_add A(1) buf_def using w h A(1) by (simp add: bytes_at_put_same bytes_at_put_other)
  then have "bytes_at buf (?A - ?k) (?k * length (pend @ [r])) = rev (refs_bytes ?k (pend @ [r]))"
    by (simp add: wait refs_bytes_def h_def)
  moreover have "bytes_at buf 8 ?L = encoded ?k objs"
    unfolding buf_def using w A by (subst bytes_at_put_other) (simp_all add: enc)
  moreover have "bytes_at buf ?T (?o * length objs) = refs_bytes ?o (offsets ?k 8 objs)"
    unfolding buf_def using w A h by (subst bytes_at_put_other) (simp_all add: table)
  moreover have "length buf = plist_size w" unfolding buf_def using w fields(1) by simp
  ultimately show ?thesis
    using at room A(2) by (simp add: ser_at_def)
qed

text \<open>The end of an aggregate: the waiting references of the aggregate become its body.\<close>

lemma ser_at_aggregate:
  assumes at: "ser_at w objs (pend @ inner) s" and more: "length objs < next_ref w"
    and room: "8 + length (encoded (ref_size w) (objs @ [ob])) + ref_size w * length pend \<le> table_at w"
    and ob: "encode (ref_size w) ob = marker_bytes m m' l @ refs_bytes (ref_size w) inner"
  shows "\<exists>s'. Option.bind (startObject s) (\<lambda>s1. Option.bind (appendMarker m m' l s1)
      (ser_finish_aggregate (of_nat (table_at w - ref_size w * length pend)) (of_nat (ref_size w * length inner)))) = Some s'
    \<and> ser_at w (objs @ [ob]) pend s'"
proof -
  let ?k = "ref_size w" and ?T = "table_at w" and ?s1 = "started w (length objs) s"
  let ?m = "marker_bytes m m' l" and ?c = "ser_currentByte s" and ?P = "table_at w - ref_size w * length pend"
  let ?A = "table_at w - ref_size w * length (pend @ inner)"
  define buf1 where "buf1 = ser_buffer ?s1"
  have fields: "?c = 8 + length (encoded ?k objs)" "length (ser_buffer s) = plist_size w" "plist_size w < 2 ^ 32"
    and low: "8 + length (encoded ?k objs) + ?k * length (pend @ inner) \<le> ?T"
    and wait: "bytes_at (ser_buffer s) ?A (?k * length (pend @ inner)) = rev (refs_bytes ?k (pend @ inner))"
    using at by (simp_all add: ser_at_def)
  have l1: "length buf1 = plist_size w"
    using table_entry_room(1) [OF more fields(3)] fields(2) by (simp add: buf1_def started_def)
  have T: "?T \<le> plist_size w" by (simp add: plist_size_def)
  have r: "?c + length ?m + ?k * length inner + ?k * length pend \<le> ?T"
    using room fields(1) by (simp add: encoded_snoc ob)
  have A: "?A = ?P - ?k * length inner" by (simp add: algebra_simps)
  have rA: "?c + length ?m \<le> ?A" using r by (simp add: algebra_simps)
  have mk: "appendBytes ?m ?s1 = Some (?s1\<lparr>ser_buffer := put ?c ?m buf1, ser_currentByte := ?c + length ?m\<rparr>)"
    using r T l1 by (subst appendBytes_put) (simp_all add: buf1_def, simp_all add: started_def)
  have "bytes_at (put ?c ?m buf1) ?A (?k * length inner) = bytes_at buf1 ?A (?k * length inner)"
    using r T l1 rA by (intro bytes_at_put_other) simp_all
  also have "\<dots> = bytes_at (ser_buffer s) ?A (?k * length inner)"
    unfolding buf1_def started_def using r low table_entry_room(1) [OF more fields(3)] fields(2)
    by (simp, intro bytes_at_put_other) (auto simp: algebra_simps)
  also have "\<dots> = rev (refs_bytes ?k inner)"
  proof -
    have "?k * length (pend @ inner) = ?k * length inner + ?k * length pend" by (simp add: algebra_simps)
    then have "bytes_at (ser_buffer s) ?A (?k * length inner) @ bytes_at (ser_buffer s) (?A + ?k * length inner) (?k * length pend)
        = rev (refs_bytes ?k inner) @ rev (refs_bytes ?k pend)"
      using wait by (simp add: bytes_at_add)
    moreover have "length (bytes_at (ser_buffer s) ?A (?k * length inner)) = ?k * length inner"
      using low T fields(2) by (intro length_bytes_at) (simp add: algebra_simps)
    ultimately show ?thesis by (simp add: append_eq_append_conv)
  qed
  finally have body: "bytes_at (put ?c ?m buf1) ?A (?k * length inner) = rev (refs_bytes ?k inner)" .
  have "moveAndReverseBytes (?c + length ?m) ?A (?k * length inner) (put ?c ?m buf1)
      = Some (put (?c + length ?m) (refs_bytes ?k inner) (put ?c ?m buf1))"
  proof -
    have "?A + ?k * length inner \<le> length (put ?c ?m buf1)" "?c + length ?m + ?k * length inner \<le> length (put ?c ?m buf1)"
      using r T l1 by (simp_all add: algebra_simps)
    from moveAndReverseBytes_put [OF this] show ?thesis unfolding body by simp
  qed
  also have "put (?c + length ?m) (refs_bytes ?k inner) (put ?c ?m buf1) = put ?c (encode ?k ob) buf1"
    using r T l1 by (simp add: put_append ob)
  finally have move: "moveAndReverseBytes (?c + length ?m) ?A (?k * length inner) (put ?c ?m buf1)
      = Some (put ?c (encode ?k ob) buf1)" .
  have sizes: "unat (of_nat ?P :: u32) = ?P" "unat (of_nat (?k * length inner) :: u32) = ?k * length inner"
    using T fields(3) r by (simp_all add: unat_size del: of_nat_mult of_nat_diff)
  show ?thesis
    using ser_at_emit [OF at more room] startObject_started [OF at more] mk move [unfolded A]
    by (simp add: appendMarker_bytes ser_finish_aggregate_def sizes buf1_def ob Let_def add.assoc
        del: of_nat_mult of_nat_diff)
qed

end
