(* ===== verification/PropertyListSerializer.thy ===== *)
theory PropertyListSerializer
  imports PropertyListBuffer
begin

text \<open>
  The serializer implements the object table: an interpretation of \<open>table_stream\<close> on its
  operations, and from it the bytes that a whole run leaves in the buffer.
\<close>

section \<open>The calls\<close>

definition ser_fits :: "object_table \<Rightarrow> (nat list \<Rightarrow> plist_object) \<Rightarrow> object_table \<Rightarrow> bool" where
  "ser_fits fin mk a \<longleftrightarrow> grows a fin \<and> tb_outer fin = [[]] \<and> (mk = ArrayObject \<or> mk = DictionaryObject)"

definition ser_rel :: "object_table \<Rightarrow> (nat list \<Rightarrow> plist_object) \<Rightarrow> plist_serializer \<Rightarrow> object_table \<Rightarrow> bool" where
  "ser_rel fin mk s a \<longleftrightarrow> ser_at (table_end mk fin) (tb_objects a) (all_pending a) s"

definition ser_saved :: "object_table \<Rightarrow> nat list list \<Rightarrow> u32" where
  "ser_saved w outer = of_nat (table_at w - ref_size w * length (concat (rev outer)))"

lemma ser_fits_mono: "grows a b \<Longrightarrow> ser_fits fin mk b \<Longrightarrow> ser_fits fin mk a"
  by (auto simp: ser_fits_def intro: grows_trans)

lemma ser_room:
  assumes "ser_fits fin mk a" "plist_size (table_end mk fin) < 2 ^ 32"
  shows "8 + length (encoded (ref_size (table_end mk fin)) (tb_objects a))
      + ref_size (table_end mk fin) * length (all_pending a) \<le> table_at (table_end mk fin)"
    "length (tb_objects a) < next_ref (table_end mk fin)"
proof -
  let ?w = "table_end mk fin"
  let ?k = "ref_size ?w"
  have w: "table_refs ?w = table_refs fin + length (tb_pending fin)" "table_bytes fin \<le> table_bytes ?w"
    "all_pending fin = tb_pending fin" "next_ref ?w = Suc (next_ref fin)"
    using assms(1) by (auto simp: ser_fits_def table_end_counts all_pending_def)
  have g: "table_bytes a \<le> table_bytes fin" "table_refs a + length (all_pending a) \<le> table_refs fin + length (tb_pending fin)"
    using grows_bytes [of a fin] grows_refs [of a fin] assms(1) w(3) by (auto simp: ser_fits_def)
  have "table_refs ?w \<le> table_refs ?w * ?k"
    using mult_le_mono2 [OF layout_sizes(1), of "table_refs ?w" ?w] by (simp only: mult_1_right)
  then have "table_bytes ?w + table_refs ?w < 2 ^ 32"
    using assms(2) unfolding plist_size_def table_at_def by linarith
  then have "table_bytes a + table_refs a < 2 ^ 32" using g w by simp
  then have "length (encoded ?k (tb_objects a)) = table_bytes a + ?k * table_refs a"
    unfolding table_bytes_def table_refs_def by (rule length_encoded)
  moreover have "?k * (table_refs a + length (all_pending a)) \<le> ?k * table_refs ?w"
    using g(2) w(1) by (intro mult_le_mono2) simp
  ultimately show "8 + length (encoded ?k (tb_objects a)) + ?k * length (all_pending a) \<le> table_at ?w"
    using g(1) w(2) by (simp add: table_at_def algebra_simps)
  show "length (tb_objects a) < next_ref ?w"
    using assms(1) w(4) by (auto simp: ser_fits_def grows_def next_ref_def)
qed

lemma ser_rel_room:
  assumes "ser_rel fin mk s a" "ser_fits fin mk b"
  shows "8 + length (encoded (ref_size (table_end mk fin)) (tb_objects b))
      + ref_size (table_end mk fin) * length (all_pending b) \<le> table_at (table_end mk fin)"
    "length (tb_objects b) < next_ref (table_end mk fin)"
  using assms ser_room [of fin mk b] by (simp_all add: ser_rel_def ser_at_def)

lemma ser_refer:
  assumes "ser_rel fin mk s a" "ser_fits fin mk (refer r a)"
  shows "\<exists>s'. addAggregateObjectReference (of_nat r) s = Some s' \<and> ser_rel fin mk s' (refer r a)"
  using ser_at_refer [of "table_end mk fin" "tb_objects a" "all_pending a" s r] ser_rel_room(1) [OF assms] assms(1)
  by (simp add: ser_rel_def all_pending_def refer_def)

lemma ser_append:
  assumes "ser_rel fin mk s a" "ser_fits fin mk b" "tb_objects b = tb_objects a @ [ob]" "all_pending b = all_pending a"
  shows "\<exists>s'. Option.bind (startObject s) (appendBytes (encode (ref_size (table_end mk fin)) ob)) = Some s' \<and> ser_rel fin mk s' b"
  using ser_at_append [of "table_end mk fin" "tb_objects a" "all_pending a" s ob] ser_rel_room [OF assms(1,2)] assms
  by (simp add: ser_rel_def)

lemma layout_refs: "plist_size w < 2 ^ 32 \<Longrightarrow> next_ref w < 2 ^ 32"
  using mult_le_mono2 [OF layout_sizes(3), of "next_ref w" w] unfolding plist_size_def mult_1_right by linarith

lemma references_differ: "r < n \<Longrightarrow> n < 2 ^ 32 \<Longrightarrow> (of_nat n :: u32) \<noteq> of_nat r"
  by (metis less_irrefl order.strict_trans unat_size)

lemma ser_rel_fields:
  assumes "ser_rel fin mk s a" "ser_fits fin mk b"
  shows "ser_plan s = plan_of (table_end mk fin)" "ser_currentObjectReference s = of_nat (next_ref a)"
    "next_ref b < 2 ^ 32"
proof -
  show "ser_plan s = plan_of (table_end mk fin)" "ser_currentObjectReference s = of_nat (next_ref a)"
    using assms(1) by (simp_all add: ser_rel_def ser_at_def next_ref_def)
  have "plist_size (table_end mk fin) < 2 ^ 32" using assms(1) by (simp add: ser_rel_def ser_at_def)
  from layout_refs [OF this] show "next_ref b < 2 ^ 32"
    using ser_rel_room(2) [OF assms] by (simp add: next_ref_def)
qed

text \<open>What the finished plan says of a key the table already has.\<close>

lemma plan_lookups:
  assumes "ser_fits fin mk a"
  shows "tb_true a = Some r \<Longrightarrow> pl_booleanTrueObjectReference (plan_of (table_end mk fin)) = of_nat r"
    "tb_ints a i = Some r \<Longrightarrow> integerObjectReference (plan_of (table_end mk fin)) i = of_nat r"
    "tb_strings a str = Some r \<Longrightarrow> hash_get (pl_strings (plan_of (table_end mk fin))) str = of_nat r"
    "tb_arrays a is = Some r \<Longrightarrow> hash_get (pl_integerArrays (plan_of (table_end mk fin))) is = of_nat r"
proof -
  have g: "grows a fin" using assms by (simp add: ser_fits_def)
  have le: "m k = Some r \<Longrightarrow> m \<subseteq>\<^sub>m m' \<Longrightarrow> m' k = Some r" for m m' :: "'k \<Rightarrow> nat option" and k r
    by (metis domI map_le_def)
  show "tb_true a = Some r \<Longrightarrow> pl_booleanTrueObjectReference (plan_of (table_end mk fin)) = of_nat r"
    using g by (simp add: plan_of_def table_end_counts grows_def)
  show "tb_ints a i = Some r \<Longrightarrow> integerObjectReference (plan_of (table_end mk fin)) i = of_nat r"
    using g le [of "tb_ints a" i r "tb_ints fin"]
    by (cases "i = 0") (simp_all add: integerObjectReference_def plan_of_def table_end_counts hash_get_def grows_def)
  show "tb_strings a str = Some r \<Longrightarrow> hash_get (pl_strings (plan_of (table_end mk fin))) str = of_nat r"
    using g le [of "tb_strings a" str r "tb_strings fin"]
    by (simp add: plan_of_def table_end_counts hash_get_def grows_def)
  show "tb_arrays a is = Some r \<Longrightarrow> hash_get (pl_integerArrays (plan_of (table_end mk fin))) is = of_nat r"
    using g le [of "tb_arrays a" "is" r "tb_arrays fin"]
    by (simp add: plan_of_def table_end_counts hash_get_def grows_def)
qed

text \<open>A shared object is written when its number is the next, that is, the first time.\<close>

lemma ser_true_object:
  assumes "ser_rel fin mk s a" "table_ok a" "ser_fits fin mk (true_object a)"
  shows "\<exists>s'. (if ser_currentObjectReference s \<noteq> pl_booleanTrueObjectReference (ser_plan s) then Some s
      else Option.bind (startObject s) (appendByte 0x09)) = Some s' \<and> ser_rel fin mk s' (true_object a)"
proof (cases "tb_true a")
  case None
  then have b: "tb_true (true_object a) = Some (next_ref a)" "tb_objects (true_object a) = tb_objects a @ [TrueObject]"
    "all_pending (true_object a) = all_pending a"
    by (simp_all add: true_object_def new_object_def all_pending_def)
  have one: "appendByte 0x09 = appendBytes [0x09]"
  proof
    fix t show "appendByte 0x09 t = appendBytes [0x09] t" by (cases "appendByte 0x09 t") simp_all
  qed
  show ?thesis
    using ser_append [OF assms(1,3) b(2,3)] plan_lookups(1) [OF assms(3) b(1)] ser_rel_fields(1,2) [OF assms(1,3)]
    by (simp add: one)
next
  case (Some r)
  then have b: "true_object a = a" by (simp add: true_object_def)
  have "(of_nat (next_ref a) :: u32) \<noteq> of_nat r"
    using table_ok_fields(1) [OF assms(2) Some] ser_rel_fields(3) [OF assms(1,3)] b by (intro references_differ) simp_all
  then show ?thesis
    using plan_lookups(1) [OF assms(3), of r] ser_rel_fields(1,2) [OF assms(1,3)] Some assms(1) by (simp add: b)
qed

lemma ser_integer_object:
  assumes "ser_rel fin mk s a" "table_ok a" "ser_fits fin mk (integer_object i a)"
  shows "\<exists>s'. writeIntegerWithoutAddingAggregateObjectReference i s = Some s' \<and> ser_rel fin mk s' (integer_object i a)"
proof (cases "tb_ints a i")
  case None
  then have b: "tb_ints (integer_object i a) i = Some (next_ref a)"
    "tb_objects (integer_object i a) = tb_objects a @ [IntegerObject i]" "all_pending (integer_object i a) = all_pending a"
    by (simp_all add: integer_object_def new_object_def all_pending_def)
  show ?thesis
    using ser_append [OF assms(1,3) b(2,3)] plan_lookups(2) [OF assms(3) b(1)] ser_rel_fields(1,2) [OF assms(1,3)]
    by (simp add: writeIntegerWithoutAddingAggregateObjectReference_def appendIntegerObject_def appendInteger_def [abs_def])
next
  case (Some r)
  then have b: "integer_object i a = a" by (simp add: integer_object_def)
  have "(of_nat (next_ref a) :: u32) \<noteq> of_nat r"
    using table_ok_fields(3) [OF assms(2) Some] ser_rel_fields(3) [OF assms(1,3)] b by (intro references_differ) simp_all
  then show ?thesis
    using plan_lookups(2) [OF assms(3), of i r] ser_rel_fields(1,2) [OF assms(1,3)] Some assms(1)
    by (simp add: b writeIntegerWithoutAddingAggregateObjectReference_def)
qed

lemma appendStringObject_encode:
  "appendStringObject str s = Option.bind (startObject s) (appendBytes (encode k (StringObject str)))"
  "appendCStringObject cs s = Option.bind (startObject s) (appendBytes (encode k (CStringObject cs)))"
  by (cases "startObject s"; simp add: appendStringObject_def appendCStringObject_def appendMarker_bytes appendBytes_append)+

lemma ser_string_object:
  assumes "ser_rel fin mk s a" "table_ok a" "ser_fits fin mk (string_object str a)"
  shows "\<exists>s'. (if ser_currentObjectReference s \<noteq> hash_get (pl_strings (ser_plan s)) str then Some s
      else appendStringObject str s) = Some s' \<and> ser_rel fin mk s' (string_object str a)"
proof (cases "tb_strings a str")
  case None
  then have b: "tb_strings (string_object str a) str = Some (next_ref a)"
    "tb_objects (string_object str a) = tb_objects a @ [StringObject str]" "all_pending (string_object str a) = all_pending a"
    by (simp_all add: string_object_def new_object_def all_pending_def)
  show ?thesis
    using ser_append [OF assms(1,3) b(2,3)] plan_lookups(3) [OF assms(3) b(1)] ser_rel_fields(1,2) [OF assms(1,3)]
    unfolding appendStringObject_encode(1) [of str s "ref_size (table_end mk fin)"] by (simp only: simp_thms if_False)
next
  case (Some r)
  then have b: "string_object str a = a" by (simp add: string_object_def)
  have "(of_nat (next_ref a) :: u32) \<noteq> of_nat r"
    using table_ok_fields(5) [OF assms(2) Some] ser_rel_fields(3) [OF assms(1,3)] b by (intro references_differ) simp_all
  then show ?thesis
    using plan_lookups(3) [OF assms(3), of str r] ser_rel_fields(1,2) [OF assms(1,3)] Some assms(1) by (simp add: b)
qed

lemma appendBytes_frame:
  "appendBytes bs s = Some s' \<Longrightarrow> ser_objectReferenceSize s' = ser_objectReferenceSize s"
proof (induction bs arbitrary: s)
  case (Cons b bs)
  then obtain s1 where "appendByte b s = Some s1" "appendBytes bs s1 = Some s'" by (auto simp: bind_eq_Some_conv)
  moreover from this have "ser_objectReferenceSize s1 = ser_objectReferenceSize s" by (auto simp: appendByte_def)
  ultimately show ?case using Cons.IH by simp
qed simp

lemma each_reference:
  "each (\<lambda>i. appendObjectReference (f i)) is s
    = appendBytes (concat (map (\<lambda>i. switch_bytes (ser_objectReferenceSize s) (f i)) is)) s"
proof (induction "is" arbitrary: s)
  case (Cons i "is")
  show ?case
    using appendBytes_frame [of "switch_bytes (ser_objectReferenceSize s) (f i)" s]
    by (cases "appendBytes (switch_bytes (ser_objectReferenceSize s) (f i)) s")
      (simp_all add: Cons.IH appendBytes_append appendObjectReference_def [of "f i" s])
qed simp

lemma appendIntegerArrayObject_encode:
  assumes "ser_rel fin mk s b" "next_ref b < next_ref (table_end mk fin)" and f: "ser_fits fin mk b"
    and "\<forall>i\<in>set is. \<exists>r. tb_ints b i = Some r"
  shows "appendIntegerArrayObject is s = Option.bind (startObject s)
    (appendBytes (encode (ref_size (table_end mk fin)) (ArrayObject (map (\<lambda>i. the (tb_ints b i)) is))))"
proof -
  let ?k = "ref_size (table_end mk fin)"
  have at: "ser_at (table_end mk fin) (tb_objects b) (all_pending b) s" using assms(1) by (simp add: ser_rel_def)
  have start: "startObject s = Some (started (table_end mk fin) (next_ref b) s)"
    using startObject_started [OF at] assms(2) by (simp add: next_ref_def)
  have k: "ser_objectReferenceSize (started (table_end mk fin) (next_ref b) s) = ?k"
    using at by (simp add: started_def ser_at_def)
  have refs: "concat (map (\<lambda>i. switch_bytes ?k (integerObjectReference (ser_plan s) i)) is)
      = refs_bytes ?k (map (\<lambda>i. the (tb_ints b i)) is)"
  proof -
    have "switch_bytes ?k (integerObjectReference (ser_plan s) i) = high_to_low ?k (of_nat (the (tb_ints b i)))"
      if "i \<in> set is" for i
      using that assms(4) plan_lookups(2) [OF f, of i] ser_rel_fields(1) [OF assms(1) f]
      by (auto simp: switch_bytes_high [OF layout_sizes(1,2)])
    then show ?thesis unfolding refs_bytes_def by (intro arg_cong [where f = concat]) simp
  qed
  show ?thesis
  proof (cases "appendBytes (marker_bytes 0xA0 0xAF (of_nat (length is))) (started (table_end mk fin) (next_ref b) s)")
    case None
    then show ?thesis
      by (simp add: appendIntegerArrayObject_def start appendMarker_bytes appendBytes_append)
  next
    case (Some s2)
    then show ?thesis
      using appendBytes_frame [OF Some]
      by (simp add: appendIntegerArrayObject_def start appendMarker_bytes appendBytes_append each_reference k refs)
  qed
qed

lemma ser_integers:
  "ser_rel fin mk s a \<Longrightarrow> table_ok a \<Longrightarrow> ser_fits fin mk (fold integer_object is a) \<Longrightarrow>
   \<exists>s'. each writeIntegerWithoutAddingAggregateObjectReference is s = Some s' \<and> ser_rel fin mk s' (fold integer_object is a)"
proof (induction "is" arbitrary: s a)
  case (Cons i "is")
  have "ser_fits fin mk (integer_object i a)"
    using ser_fits_mono [OF grows_fold_integers] Cons.prems(3) by simp
  then obtain s1 where "writeIntegerWithoutAddingAggregateObjectReference i s = Some s1" "ser_rel fin mk s1 (integer_object i a)"
    using ser_integer_object [OF Cons.prems(1,2)] by blast
  then show ?case using Cons.IH [of s1 "integer_object i a"] integer_object_ok(1) [OF Cons.prems(2)] Cons.prems(3) by simp
qed simp

lemma fold_integers_again:
  "(\<forall>i\<in>set is. tb_ints a i \<noteq> None) \<Longrightarrow> fold integer_object is a = a"
  by (induction "is") (simp_all add: integer_object_def)

lemma ser_array_object:
  assumes "ser_rel fin mk s a" "table_ok a" "ser_fits fin mk (array_object is a)"
  shows "\<exists>s'. Option.bind (each writeIntegerWithoutAddingAggregateObjectReference is s) (\<lambda>s1.
      if ser_currentObjectReference s1 \<noteq> hash_get (pl_integerArrays (ser_plan s)) is then Some s1
      else appendIntegerArrayObject is s1) = Some s' \<and> ser_rel fin mk s' (array_object is a)"
proof (cases "tb_arrays a is")
  case None
  let ?b = "fold integer_object is a"
  let ?ob = "ArrayObject (map (\<lambda>i. the (tb_ints ?b i)) is)"
  have new: "array_object is a = (new_object ?ob ?b)\<lparr>tb_arrays := (tb_arrays a)(is \<mapsto> next_ref ?b)\<rparr>"
    using None by (simp add: array_object_def fold_integer_object_frame Let_def)
  then have b: "tb_arrays (array_object is a) is = Some (next_ref ?b)"
    "tb_objects (array_object is a) = tb_objects ?b @ [?ob]" "all_pending (array_object is a) = all_pending ?b"
    by (simp_all add: new_object_def all_pending_def)
  have "grows ?b (array_object is a)"
    unfolding new using grows_new_array [of ?b "is"] None by (simp add: fold_integer_object_frame)
  then have fits: "ser_fits fin mk ?b" using assms(3) by (rule ser_fits_mono)
  obtain s1 where s1: "each writeIntegerWithoutAddingAggregateObjectReference is s = Some s1" "ser_rel fin mk s1 ?b"
    using ser_integers [OF assms(1,2) fits] by blast
  have known: "\<forall>i\<in>set is. \<exists>r. tb_ints ?b i = Some r" using fold_integers_known [OF _ assms(2)] by blast
  have "next_ref ?b < next_ref (table_end mk fin)" using ser_rel_room(2) [OF s1(2) fits] by (simp add: next_ref_def)
  note enc = appendIntegerArrayObject_encode [OF s1(2) this fits known]
  show ?thesis
    using ser_append [OF s1(2) assms(3) b(2,3)] plan_lookups(4) [OF assms(3) b(1)] ser_rel_fields(1,2) [OF s1(2) fits]
      ser_rel_fields(1) [OF assms(1) fits]
    unfolding s1(1) bind.bind_lunit enc by (simp only: simp_thms if_False)
next
  case (Some r)
  then have b: "array_object is a = a" by (simp add: array_object_def)
  then have fits: "ser_fits fin mk a" using assms(3) by simp
  have "fold integer_object is a = a"
    using table_ok_fields(8) [OF assms(2) Some] by (intro fold_integers_again) blast
  then obtain s1 where s1: "each writeIntegerWithoutAddingAggregateObjectReference is s = Some s1" "ser_rel fin mk s1 a"
    using ser_integers [OF assms(1,2), of "is"] fits by auto
  have "(of_nat (next_ref a) :: u32) \<noteq> of_nat r"
    using table_ok_fields(7) [OF assms(2) Some] ser_rel_fields(3) [OF assms(1) fits] by (intro references_differ) simp_all
  then show ?thesis
    using plan_lookups(4) [OF fits Some] ser_rel_fields(1,2) [OF s1(2) fits] ser_rel_fields(1) [OF assms(1) fits] s1
    by (simp add: b)
qed

section \<open>The serializer implements the table\<close>

lemma ser_boolean:
  assumes "ser_rel fin mk s a" "table_ok a" "ser_fits fin mk (table_true a)"
  shows "\<exists>s'. ser_writeBooleanTrue s = Some s' \<and> ser_rel fin mk s' (table_true a)"
proof -
  have fits: "ser_fits fin mk (true_object a)" using assms(3) ser_fits_mono [OF grows_refer] by (simp add: table_true_def)
  obtain r where r: "tb_true (true_object a) = Some r" using true_object_ok(2) [OF assms(2)] by blast
  obtain s1 where s1: "(if ser_currentObjectReference s \<noteq> pl_booleanTrueObjectReference (ser_plan s) then Some s
      else Option.bind (startObject s) (appendByte 0x09)) = Some s1" "ser_rel fin mk s1 (true_object a)"
    using ser_true_object [OF assms(1,2) fits] by blast
  show ?thesis
    using ser_refer [OF s1(2), of r] assms(3) r plan_lookups(1) [OF fits r] ser_rel_fields(1) [OF assms(1) fits]
    unfolding ser_writeBooleanTrue_def Let_def s1(1) by (simp add: table_true_def)
qed

lemma ser_integer:
  assumes "ser_rel fin mk s a" "table_ok a" "ser_fits fin mk (table_integer i a)"
  shows "\<exists>s'. ser_writeInteger i s = Some s' \<and> ser_rel fin mk s' (table_integer i a)"
proof -
  have fits: "ser_fits fin mk (integer_object i a)"
    using assms(3) ser_fits_mono [OF grows_refer] by (simp add: table_integer_def)
  obtain r where r: "tb_ints (integer_object i a) i = Some r" using integer_object_ok(2) [OF assms(2)] by blast
  obtain s1 where s1: "writeIntegerWithoutAddingAggregateObjectReference i s = Some s1" "ser_rel fin mk s1 (integer_object i a)"
    using ser_integer_object [OF assms(1,2) fits] by blast
  show ?thesis
    using ser_refer [OF s1(2), of r] assms(3) r plan_lookups(2) [OF fits r] ser_rel_fields(1) [OF assms(1) fits]
    by (simp add: ser_writeInteger_def s1(1) table_integer_def)
qed

lemma ser_string:
  assumes "ser_rel fin mk s a" "table_ok a" "ser_fits fin mk (table_string str a)"
  shows "\<exists>s'. ser_writeString str s = Some s' \<and> ser_rel fin mk s' (table_string str a)"
proof -
  have fits: "ser_fits fin mk (string_object str a)"
    using assms(3) ser_fits_mono [OF grows_refer] by (simp add: table_string_def)
  obtain r where r: "tb_strings (string_object str a) str = Some r" using string_object_ok(2) [OF assms(2)] by blast
  obtain s1 where s1: "(if ser_currentObjectReference s \<noteq> hash_get (pl_strings (ser_plan s)) str then Some s
      else appendStringObject str s) = Some s1" "ser_rel fin mk s1 (string_object str a)"
    using ser_string_object [OF assms(1,2) fits] by blast
  show ?thesis
    using ser_refer [OF s1(2), of r] assms(3) r plan_lookups(3) [OF fits r] ser_rel_fields(1) [OF assms(1) fits]
    unfolding ser_writeString_def Let_def s1(1) by (simp add: table_string_def)
qed

lemma ser_integer_array:
  assumes "ser_rel fin mk s a" "table_ok a" "ser_fits fin mk (table_array is a)"
  shows "\<exists>s'. ser_writeIntegerArray is s = Some s' \<and> ser_rel fin mk s' (table_array is a)"
proof -
  have fits: "ser_fits fin mk (array_object is a)"
    using assms(3) ser_fits_mono [OF grows_refer] by (simp add: table_array_def)
  obtain r where r: "tb_arrays (array_object is a) is = Some r" using array_object_ok(2) [OF assms(2)] by blast
  obtain s1 where s1: "Option.bind (each writeIntegerWithoutAddingAggregateObjectReference is s) (\<lambda>s1.
      if ser_currentObjectReference s1 \<noteq> hash_get (pl_integerArrays (ser_plan s)) is then Some s1
      else appendIntegerArrayObject is s1) = Some s1" "ser_rel fin mk s1 (array_object is a)"
    using ser_array_object [OF assms(1,2) fits] by blast
  show ?thesis
    using ser_refer [OF s1(2), of r] assms(3) r plan_lookups(4) [OF fits r] ser_rel_fields(1) [OF assms(1) fits]
    unfolding ser_writeIntegerArray_def Let_def bind_assoc [symmetric] s1(1) by (simp add: table_array_def)
qed

lemma ser_unique:
  assumes "ser_rel fin mk s a" "ser_fits fin mk (table_unique ob a)" "object_refs ob = []"
  shows "\<exists>s'. Option.bind (addAggregateObjectReference (ser_currentObjectReference s) s)
      (\<lambda>s1. Option.bind (startObject s1) (appendBytes (encode (ref_size (table_end mk fin)) ob))) = Some s'
    \<and> ser_rel fin mk s' (table_unique ob a)"
proof -
  let ?w = "table_end mk fin"
  let ?k = "ref_size ?w"
  have b: "tb_objects (table_unique ob a) = tb_objects a @ [ob]" "all_pending (table_unique ob a) = all_pending a @ [next_ref a]"
    by (simp_all add: table_unique_def refer_def new_object_def all_pending_def)
  have "ser_fits fin mk a" using grows_calls(5) [OF assms(3)] assms(2) by (rule ser_fits_mono)
  have room: "8 + length (encoded ?k (tb_objects a @ [ob])) + ?k * length (all_pending a @ [next_ref a]) \<le> table_at ?w"
    "length (tb_objects a @ [ob]) < next_ref ?w"
    using ser_rel_room [OF assms(1,2)] unfolding b .
  have at: "ser_at ?w (tb_objects a) (all_pending a) s" using assms(1) by (simp add: ser_rel_def)
  have "8 + length (encoded ?k (tb_objects a)) + ?k * Suc (length (all_pending a)) \<le> table_at ?w"
    using room(1) by (simp add: encoded_snoc)
  from ser_at_refer [OF at this, of "next_ref a"] obtain s1 where
    s1: "addAggregateObjectReference (of_nat (next_ref a)) s = Some s1" "ser_at ?w (tb_objects a) (all_pending a @ [next_ref a]) s1"
    by blast
  have "length (tb_objects a) < next_ref ?w" using room(2) by simp
  from ser_at_append [OF s1(2) this room(1)] s1(1) show ?thesis
    using ser_rel_fields(2) [OF assms(1,2)] by (simp add: ser_rel_def b)
qed

lemma ser_start:
  assumes "ser_rel fin mk s a" 
  shows "ser_writeStart s = (ser_saved (table_end mk fin) (tb_pending a # tb_outer a), s)" "ser_rel fin mk s (table_start a)"
proof -
  have "all_pending (table_start a) = all_pending a" "tb_objects (table_start a) = tb_objects a"
    by (simp_all add: table_start_def all_pending_def)
  then show "ser_rel fin mk s (table_start a)" using assms by (simp add: ser_rel_def)
  show "ser_writeStart s = (ser_saved (table_end mk fin) (tb_pending a # tb_outer a), s)"
    using assms by (simp add: ser_writeStart_def ser_saved_def ser_rel_def ser_at_def all_pending_def)
qed

lemma of_nat_div_u32: "a < 2 ^ 32 \<Longrightarrow> b < 2 ^ 32 \<Longrightarrow> (of_nat a :: u32) div of_nat b = of_nat (a div b)"
  by (rule word_unat_eq_iff [THEN iffD2]) (simp add: unat_div div_le_dividend [THEN le_less_trans])

lemma aggregate_count:
  assumes at: "ser_at w objs (pend @ inner) s"
  defines "count \<equiv> of_nat (table_at w - ref_size w * length pend) - (of_nat (ser_currentAggregateBufferByte s) :: u32)"
  shows "count = of_nat (ref_size w * length inner)"
    "count div of_nat (ser_objectReferenceSize s) = of_nat (length inner)"
    "count div (of_nat (ser_objectReferenceSize s) * 2) = of_nat (length inner div 2)"
proof -
  let ?k = "ref_size w" and ?T = "table_at w"
  have fields: "ser_currentAggregateBufferByte s = ?T - ?k * length (pend @ inner)" "ser_objectReferenceSize s = ?k"
    and low: "?k * length (pend @ inner) \<le> ?T" and T: "?T < 2 ^ 32"
    using at by (simp_all add: ser_at_def plist_size_def)
  have "?T - ?k * length pend = (?T - ?k * length (pend @ inner)) + ?k * length inner"
    using low by (simp add: algebra_simps)
  then have "of_nat (?T - ?k * length pend) = (of_nat (?T - ?k * length (pend @ inner)) + of_nat (?k * length inner) :: u32)"
    by (simp only: of_nat_add)
  then show c: "count = of_nat (?k * length inner)" unfolding count_def fields by simp
  have k: "?k * length inner < 2 ^ 32" "1 \<le> ?k" "?k \<le> 4" using low T layout_sizes(1,2) [of w] by (simp_all add: algebra_simps)
  then show "count div of_nat (ser_objectReferenceSize s) = of_nat (length inner)"
    unfolding c fields by (subst of_nat_div_u32) simp_all
  have "(of_nat ?k * 2 :: u32) = of_nat (?k * 2)" by simp
  moreover have "?k * length inner div (?k * 2) = length inner div 2" using k by simp
  ultimately show "count div (of_nat (ser_objectReferenceSize s) * 2) = of_nat (length inner div 2)"
    unfolding c fields using k of_nat_div_u32 [of "?k * length inner" "?k * 2"] by simp
qed

text \<open>Everything an end does before the reference to the new aggregate is added.\<close>

definition ser_close :: "byte \<Rightarrow> byte \<Rightarrow> u32 \<Rightarrow> u32 \<Rightarrow> plist_serializer \<Rightarrow> plist_serializer option" where
  "ser_close m m' unit_size saved s =
     (let count = saved - of_nat (ser_currentAggregateBufferByte s)
      in Option.bind (startObject s) (\<lambda>s1.
         Option.bind (appendMarker m m' (count div unit_size) s1) (ser_finish_aggregate saved count)))"

lemma ser_close_aggregate:
  assumes at: "ser_at w objs (pend @ inner) s" and more: "length objs < next_ref w"
    and room: "\<And>ob. ob \<in> {ArrayObject inner, DictionaryObject inner} \<Longrightarrow> mk inner = ob \<Longrightarrow>
      8 + length (encoded (ref_size w) (objs @ [ob])) + ref_size w * length pend \<le> table_at w"
  shows "mk = ArrayObject \<Longrightarrow> \<exists>s'. ser_close 0xA0 0xAF (of_nat (ser_objectReferenceSize s))
        (of_nat (table_at w - ref_size w * length pend)) s = Some s' \<and> ser_at w (objs @ [mk inner]) pend s'"
    "mk = DictionaryObject \<Longrightarrow> \<exists>s'. ser_close 0xD0 0xDF (of_nat (ser_objectReferenceSize s) * 2)
        (of_nat (table_at w - ref_size w * length pend)) s = Some s' \<and> ser_at w (objs @ [mk inner]) pend s'"
proof -
  show "\<exists>s'. ser_close 0xA0 0xAF (of_nat (ser_objectReferenceSize s))
        (of_nat (table_at w - ref_size w * length pend)) s = Some s' \<and> ser_at w (objs @ [mk inner]) pend s'"
    if mk: "mk = ArrayObject"
    unfolding ser_close_def Let_def aggregate_count(2) [OF at] unfolding aggregate_count(1) [OF at] mk
    using mk by (intro ser_at_aggregate [OF at more room]) simp_all
  show "\<exists>s'. ser_close 0xD0 0xDF (of_nat (ser_objectReferenceSize s) * 2)
        (of_nat (table_at w - ref_size w * length pend)) s = Some s' \<and> ser_at w (objs @ [mk inner]) pend s'"
    if mk: "mk = DictionaryObject"
    unfolding ser_close_def Let_def aggregate_count(3) [OF at] unfolding aggregate_count(1) [OF at] mk
    using mk by (intro ser_at_aggregate [OF at more room]) simp_all
qed

lemma ser_ends_close:
  "ser_writeArrayEnd saved s = Option.bind (ser_close 0xA0 0xAF (of_nat (ser_objectReferenceSize s)) saved s) (\<lambda>s3.
     if ser_currentObjectReference s3 < pl_currentObjectReference (ser_plan s)
     then addAggregateObjectReference (ser_currentObjectReference s) s3 else Some s3)"
  "ser_writeDictionaryEnd saved s = Option.bind (ser_close 0xD0 0xDF (of_nat (ser_objectReferenceSize s) * 2) saved s) (\<lambda>s3.
     if ser_currentObjectReference s3 \<noteq> pl_currentObjectReference (ser_plan s)
     then addAggregateObjectReference (ser_currentObjectReference s) s3 else Some s3)"
  by (simp_all add: ser_writeArrayEnd_def ser_writeDictionaryEnd_def ser_close_def Let_def)

text \<open>Inside the list there is an aggregate to refer to the new one; the root has none.\<close>

lemma ser_end:
  assumes rel: "ser_rel fin mk s a" and outer: "tb_outer a \<noteq> []" and fits: "ser_fits fin mk (table_end mk' a)"
    and mk': "mk' = ArrayObject \<or> mk' = DictionaryObject"
    and fin': "fin' = (if mk' = ArrayObject then ser_writeArrayEnd else ser_writeDictionaryEnd)"
  shows "\<exists>s'. fin' (ser_saved (table_end mk fin) (tb_outer a)) s = Some s' \<and> ser_rel fin mk s' (table_end mk' a)"
proof -
  let ?w = "table_end mk fin"
  let ?k = "ref_size ?w"
  let ?pend = "concat (rev (tb_outer a))" and ?inner = "tb_pending a"
  obtain p ps where ps: "tb_outer a = p # ps" using outer by (cases "tb_outer a") auto
  have b: "tb_objects (table_end mk' a) = tb_objects a @ [mk' ?inner]" "all_pending (table_end mk' a) = ?pend @ [next_ref a]"
    by (simp_all add: table_end_def new_object_def all_pending_def ps)
  have at: "ser_at ?w (tb_objects a) (?pend @ ?inner) s" using rel by (simp add: ser_rel_def all_pending_def)
  have room: "8 + length (encoded ?k (tb_objects a @ [mk' ?inner])) + ?k * length (?pend @ [next_ref a]) \<le> table_at ?w"
    and more: "length (tb_objects a @ [mk' ?inner]) < next_ref ?w"
    using ser_rel_room [OF rel fits] unfolding b .
  have room': "8 + length (encoded ?k (tb_objects a @ [mk' ?inner])) + ?k * length ?pend \<le> table_at ?w" using room by simp
  have more': "length (tb_objects a) < next_ref ?w" using more by simp
  note close = ser_close_aggregate [OF at more', of mk']
  have distinct: "(DictionaryObject :: nat list \<Rightarrow> plist_object) \<noteq> ArrayObject" by (auto simp: fun_eq_iff)
  have continue: "\<exists>s'. addAggregateObjectReference (of_nat (next_ref a)) s3 = Some s' \<and> ser_rel fin mk s' (table_end mk' a)"
    "ser_currentObjectReference s3 < pl_currentObjectReference (ser_plan s)"
    if s3: "ser_at ?w (tb_objects a @ [mk' ?inner]) ?pend s3" for s3
  proof -
    show "\<exists>s'. addAggregateObjectReference (of_nat (next_ref a)) s3 = Some s' \<and> ser_rel fin mk s' (table_end mk' a)"
      using ser_at_refer [OF s3, of "next_ref a"] room by (simp add: ser_rel_def b)
    have "ser_currentObjectReference s3 = of_nat (Suc (next_ref a))" "next_ref ?w < 2 ^ 32"
      using s3 layout_refs [of ?w] by (simp_all add: ser_at_def next_ref_def)
    moreover have "pl_currentObjectReference (ser_plan s) = of_nat (next_ref ?w)"
      using ser_rel_fields(1) [OF rel fits] by (simp add: plan_of_def)
    ultimately show "ser_currentObjectReference s3 < pl_currentObjectReference (ser_plan s)"
      using more by (simp add: word_less_nat_alt next_ref_def del: of_nat_Suc)
  qed
  show ?thesis
    using mk'
  proof
    assume m: "mk' = ArrayObject"
    obtain s3 where s3: "ser_close 0xA0 0xAF (of_nat (ser_objectReferenceSize s)) (ser_saved ?w (tb_outer a)) s = Some s3"
      "ser_at ?w (tb_objects a @ [mk' ?inner]) ?pend s3"
      using close(1) room' m by (auto simp: ser_saved_def)
    show ?thesis
      using continue [OF s3(2)] ser_rel_fields(2) [OF rel fits] s3(1) m fin' by (simp add: ser_ends_close)
  next
    assume m: "mk' = DictionaryObject"
    obtain s3 where s3: "ser_close 0xD0 0xDF (of_nat (ser_objectReferenceSize s) * 2) (ser_saved ?w (tb_outer a)) s = Some s3"
      "ser_at ?w (tb_objects a @ [mk' ?inner]) ?pend s3"
      using close(2) room' m by (auto simp: ser_saved_def)
    show ?thesis
      using continue [OF s3(2)] ser_rel_fields(2) [OF rel fits] s3(1) m fin' distinct by (simp add: ser_ends_close less_le)
  qed
qed

interpretation serializer: table_stream serializer_stream "ser_rel fin mk" "ser_saved (table_end mk fin)" "ser_fits fin mk"
  for fin :: object_table and mk :: "nat list \<Rightarrow> plist_object"
proof (unfold_locales, goal_cases)
  case 1
  then show ?case by (rule ser_fits_mono)
next
  case 2
  then show ?case using ser_boolean by (simp add: serializer_stream_def)
next
  case 3
  then show ?case using ser_integer by (simp add: serializer_stream_def)
next
  case 4
  then show ?case using ser_string by (simp add: serializer_stream_def)
next
  case 5
  then show ?case using ser_integer_array by (simp add: serializer_stream_def)
next
  case (6 s a str)
  then show ?case
    using ser_unique [of fin mk s a "StringObject str"]
    by (simp add: serializer_stream_def ser_writeUniqueString_def appendStringObject_encode(1) [of str _ "ref_size (table_end mk fin)", abs_def])
next
  case (7 s a cs)
  then show ?case
    using ser_unique [of fin mk s a "CStringObject cs"]
    by (simp add: serializer_stream_def ser_writeUniqueCString_def appendStringObject_encode(2) [of cs _ "ref_size (table_end mk fin)", abs_def])
next
  case 8
  then show ?case using ser_start by (simp add: serializer_stream_def)
next
  case 9
  then show ?case using ser_end [OF 9(1,3,4), of ser_writeArrayEnd] by (simp add: serializer_stream_def)
next
  case 10
  then show ?case using ser_start by (simp add: serializer_stream_def)
next
  case 11
  have "(DictionaryObject :: nat list \<Rightarrow> plist_object) \<noteq> ArrayObject" by (auto simp: fun_eq_iff)
  then show ?case using ser_end [OF 11(1,3,4), of ser_writeDictionaryEnd] by (simp add: serializer_stream_def)
qed

section \<open>The whole list\<close>

text \<open>The file the table stands for.\<close>

definition length_bytes :: "nat \<Rightarrow> byte list" where
  "length_bytes n = [0, 0, 0, 0] @ high_to_low 4 (of_nat n)"

definition trailer_bytes :: "object_table \<Rightarrow> byte list" where
  "trailer_bytes w = [0, 0, 0, 0, 0, 0, of_nat (offset_size w), of_nat (ref_size w)]
     @ length_bytes (next_ref w) @ length_bytes (next_ref w - 1) @ length_bytes (table_at w)"

definition plist_bytes :: "object_table \<Rightarrow> byte list" where
  "plist_bytes w = lit ''bplist00'' @ encoded (ref_size w) (tb_objects w)
     @ refs_bytes (offset_size w) (offsets (ref_size w) 8 (tb_objects w)) @ trailer_bytes w"

lemma plist_fits_plan:
  assumes "plist_size w < 2 ^ 32" "length (all_pending w) \<le> 1"
  shows "plan_fits w" "length (encoded (ref_size w) (tb_objects w)) = table_bytes w + ref_size w * table_refs w"
proof -
  have le: "table_refs w \<le> table_refs w * ref_size w"
    using mult_le_mono2 [OF layout_sizes(1), of "table_refs w" w] by (simp only: mult_1_right)
  then show "plan_fits w" using assms unfolding plan_fits_def plist_size_def table_at_def by linarith
  have "table_bytes w + table_refs w < 2 ^ 32" using assms(1) le unfolding plist_size_def table_at_def by linarith
  then show "length (encoded (ref_size w) (tb_objects w)) = table_bytes w + ref_size w * table_refs w"
    unfolding table_bytes_def table_refs_def by (rule length_encoded)
qed

lemma serializer_init_layout:
  "ser_plan (serializer_init (plan_of w)) = plan_of w" "ser_objectReferenceSize (serializer_init (plan_of w)) = ref_size w"
  "ser_offsetTableStart (serializer_init (plan_of w)) = of_nat (table_at w)"
  "ser_offsetSize (serializer_init (plan_of w)) = offset_size w"
  "ser_currentByte (serializer_init (plan_of w)) = 8" "ser_currentObjectReference (serializer_init (plan_of w)) = 0"
  "ser_bufferSize (serializer_init (plan_of w)) = of_nat (plist_size w)"
  by (simp_all add: serializer_init_def Let_def plan_of_def ref_size_def table_at_def offset_size_def headerSize_def
      ser_bufferSize_def trailerSize_def plist_size_def)

lemma ser_at_init:
  assumes "plist_size w < 2 ^ 32" "length memory = plist_size w"
  shows "ser_at w [] [] ((serializer_init (plan_of w))\<lparr>ser_buffer := memory\<rparr>)"
proof -
  have "table_at w < 2 ^ 32" using assms(1) by (simp add: plist_size_def)
  moreover have "8 \<le> table_at w" by (simp add: table_at_def)
  moreover have "ser_currentAggregateBufferByte (serializer_init (plan_of w)) = unat (of_nat (table_at w) :: u32)"
    by (simp add: serializer_init_def Let_def plan_of_def table_at_def ref_size_def headerSize_def)
  ultimately show ?thesis
    using assms by (simp add: ser_at_def serializer_init_layout encoded_def refs_bytes_def bytes_at_def)
qed

definition is_root :: "plist \<Rightarrow> bool" where
  "is_root t \<longleftrightarrow> (case t of PArray _ \<Rightarrow> True | PDictionary _ \<Rightarrow> True | _ \<Rightarrow> False)"

abbreviation table_of :: "plist \<Rightarrow> object_table" where
  "table_of t \<equiv> table_play t no_objects"

lemma root_end:
  assumes rel: "ser_rel fin mk s fin" and fits: "ser_fits fin mk fin"
    and fin': "fin' = (if mk = ArrayObject then ser_writeArrayEnd else ser_writeDictionaryEnd)"
  shows "\<exists>s'. fin' (ser_saved (table_end mk fin) [[]]) s = Some s' \<and> ser_at (table_end mk fin) (tb_objects (table_end mk fin)) [] s'"
proof -
  let ?w = "table_end mk fin"
  let ?k = "ref_size ?w"
  have outer: "tb_outer fin = [[]]" and mk: "mk = ArrayObject \<or> mk = DictionaryObject" using fits by (simp_all add: ser_fits_def)
  have w: "tb_objects ?w = tb_objects fin @ [mk (tb_pending fin)]" "all_pending ?w = [next_ref fin]"
    by (simp_all add: table_end_def new_object_def all_pending_def outer)
  have at: "ser_at ?w (tb_objects fin) ([] @ tb_pending fin) s" using rel outer by (simp add: ser_rel_def all_pending_def)
  have size: "plist_size ?w < 2 ^ 32" using at by (simp add: ser_at_def)
  have more: "length (tb_objects fin) < next_ref ?w" by (simp add: next_ref_def w)
  have "length (encoded ?k (tb_objects fin @ [mk (tb_pending fin)])) = table_bytes ?w + ?k * table_refs ?w"
    using plist_fits_plan(2) [OF size] by (simp add: w)
  then have room: "8 + length (encoded ?k (tb_objects fin @ [mk (tb_pending fin)])) + ?k * length [] \<le> table_at ?w"
    by (simp add: table_at_def)
  note close = ser_close_aggregate [OF at more, of mk]
  have distinct: "(DictionaryObject :: nat list \<Rightarrow> plist_object) \<noteq> ArrayObject" by (auto simp: fun_eq_iff)
  have last: "ser_currentObjectReference s3 = pl_currentObjectReference (ser_plan s)"
    if "ser_at ?w (tb_objects fin @ [mk (tb_pending fin)]) [] s3" for s3
    using that ser_rel_fields(1) [OF rel fits] by (simp add: ser_at_def plan_of_def next_ref_def w)
  show ?thesis
    using mk
  proof
    assume m: "mk = ArrayObject"
    obtain s3 where s3: "ser_close 0xA0 0xAF (of_nat (ser_objectReferenceSize s)) (ser_saved ?w [[]]) s = Some s3"
      "ser_at ?w (tb_objects fin @ [mk (tb_pending fin)]) [] s3"
      using close(1) room m by (auto simp: ser_saved_def)
    show ?thesis using last [OF s3(2)] s3 m fin' by (simp add: ser_ends_close w(1) [unfolded m])
  next
    assume m: "mk = DictionaryObject"
    obtain s3 where s3: "ser_close 0xD0 0xDF (of_nat (ser_objectReferenceSize s) * 2) (ser_saved ?w [[]]) s = Some s3"
      "ser_at ?w (tb_objects fin @ [mk (tb_pending fin)]) [] s3"
      using close(2) room m by (auto simp: ser_saved_def)
    show ?thesis using last [OF s3(2)] s3 m fin' distinct by (simp add: ser_ends_close w(1) [unfolded m])
  qed
qed

lemma root_play:
  assumes root: "is_root t" and size: "plist_size (table_of t) < 2 ^ 32" and mem: "length memory = plist_size (table_of t)"
  shows "\<exists>s'. play serializer_stream t ((serializer_init (plan_of (table_of t)))\<lparr>ser_buffer := memory\<rparr>) = Some s'
    \<and> ser_at (table_of t) (tb_objects (table_of t)) [] s'"
proof -
  obtain ts mk where t: "(t = PArray ts \<and> mk = ArrayObject) \<or> (t = PDictionary ts \<and> mk = DictionaryObject)"
    using root unfolding is_root_def by (cases t) auto
  define fin where "fin = table_play_all ts (table_start no_objects)"
  define s0 where "s0 = (serializer_init (plan_of (table_end mk fin)))\<lparr>ser_buffer := memory\<rparr>"
  have w: "table_of t = table_end mk fin" using t by (auto simp: fin_def)
  have fits: "ser_fits fin mk fin"
    using t outer_inside [of ts no_objects] by (auto simp: ser_fits_def fin_def no_objects_def)
  have "ser_rel fin mk s0 no_objects"
    using ser_at_init [OF size mem] unfolding w s0_def by (simp add: ser_rel_def no_objects_def all_pending_def)
  then have start: "ser_rel fin mk s0 (table_start no_objects)"
    "ser_writeStart s0 = (ser_saved (table_end mk fin) [[]], s0)"
    using ser_start [of fin mk s0 no_objects] by (simp_all add: no_objects_def)
  obtain s1 where s1: "play_all serializer_stream ts s0 = Some s1" "ser_rel fin mk s1 fin"
    using serializer.client_implements_table(2) [OF start(1) calls_ok(6) [OF no_objects_ok]] fits by (auto simp: fin_def)
  have "\<exists>s'. (if mk = ArrayObject then ser_writeArrayEnd else ser_writeDictionaryEnd) (ser_saved (table_end mk fin) [[]]) s1 = Some s'
      \<and> ser_at (table_end mk fin) (tb_objects (table_end mk fin)) [] s'"
    by (rule root_end [OF s1(2) fits refl])
  moreover have "(DictionaryObject :: nat list \<Rightarrow> plist_object) \<noteq> ArrayObject" by (auto simp: fun_eq_iff)
  ultimately show ?thesis
    unfolding w s0_def [symmetric] using t s1(1) start(2) by (auto simp: serializer_stream_def)
qed

lemma pokes_append: "Option.bind (pokes p v buf) (pokes (p + length v) w) = pokes p (v @ w) buf"
proof (induction v arbitrary: p buf)
  case (Cons b v)
  then show ?case using Cons.IH [of "p + 1"] by (cases "poke p b buf") simp_all
qed simp

lemma pokes_append_at: "q = p + length v \<Longrightarrow> Option.bind (pokes p v buf) (pokes q w) = pokes p (v @ w) buf"
  by (simp add: pokes_append)

lemma poke_pokes: "poke p b = pokes p [b]"
proof
  fix buf show "poke p b buf = pokes p [b] buf" by (cases "poke p b buf") simp_all
qed

lemma storeLength_pokes: "storeLength p (of_nat n) = pokes p (length_bytes n)"
  by (simp add: storeLength_def [abs_def] length_bytes_def)

lemma length_length_bytes: "length (length_bytes n) = 8"
  by (simp add: length_bytes_def)

lemma write_trailer_pokes:
  assumes "ser_at w objs [] s" "0 < next_ref w"
  shows "write_trailer s buf = pokes (table_at w + next_ref w * offset_size w) (trailer_bytes w) buf"
proof -
  let ?t = "table_at w + next_ref w * offset_size w"
  have size: "plist_size w < 2 ^ 32" using assms(1) by (simp add: ser_at_def)
  have "ser_bufferSize s - trailerSize = of_nat ?t"
    using assms(1) by (simp add: ser_bufferSize_def ser_at_def plan_of_def trailerSize_def)
  moreover have "?t < 2 ^ 32" using size by (simp add: plist_size_def)
  ultimately have t: "unat (ser_bufferSize s - trailerSize) = ?t" by (simp only: unat_size)
  have n: "pl_currentObjectReference (ser_plan s) = of_nat (next_ref w)" "ser_offsetSize s = offset_size w"
    "ser_objectReferenceSize s = ref_size w" "ser_offsetTableStart s = of_nat (table_at w)"
    using assms(1) by (simp_all add: ser_at_def plan_of_def)
  have n1: "of_nat (next_ref w) - (1 :: u32) = of_nat (next_ref w - 1)" using assms(2) by (simp add: of_nat_diff)
  show ?thesis
    unfolding write_trailer_def Let_def t n n1 poke_pokes storeLength_pokes trailer_bytes_def
    by (simp add: pokes_append_at length_length_bytes del: pokes.simps)
qed

text \<open>The buffer is full: header, objects, offset table and trailer, and nothing else.\<close>

lemma whole_buffer:
  assumes at: "ser_at w (tb_objects w) [] s" and "0 < next_ref w" and "length (all_pending w) \<le> 1"
  shows "Option.bind (pokes 0 (lit ''bplist00'') (ser_buffer s)) (write_trailer s) = Some (plist_bytes w)"
proof -
  let ?k = "ref_size w" and ?o = "offset_size w" and ?T = "table_at w"
  let ?h = "lit ''bplist00'' :: byte list" and ?buf = "ser_buffer s"
  let ?t = "?T + next_ref w * ?o"
  define L where "L = length (encoded ?k (tb_objects w))"
  have size: "plist_size w < 2 ^ 32" "length ?buf = plist_size w" and enc: "bytes_at ?buf 8 L = encoded ?k (tb_objects w)"
    and table: "bytes_at ?buf ?T (?o * next_ref w) = refs_bytes ?o (offsets ?k 8 (tb_objects w))"
    using at by (simp_all add: ser_at_def next_ref_def L_def)
  have T: "?T = 8 + L" using plist_fits_plan(2) [OF size(1) assms(3)] by (simp add: table_at_def L_def)
  have len: "length (trailer_bytes w) = 32" by (simp add: trailer_bytes_def length_length_bytes)
  have h: "length ?h = 8" by simp
  define buf1 where "buf1 = put 0 ?h ?buf"
  define buf2 where "buf2 = put ?t (trailer_bytes w) buf1"
  have r: "0 + length ?h \<le> length ?buf" "?t + length (trailer_bytes w) \<le> length ?buf"
    using size(2) len T by (simp_all add: plist_size_def)
  have l1: "length buf1 = length ?buf" unfolding buf1_def using r(1) by (rule length_put)
  have r2: "?t + length (trailer_bytes w) \<le> length buf1" using r(2) l1 by simp
  have "pokes 0 ?h ?buf = Some buf1" unfolding buf1_def using r(1) by (rule pokes_put)
  moreover have "write_trailer s buf1 = Some buf2"
    unfolding write_trailer_pokes [OF at assms(2)] buf2_def using r2 by (rule pokes_put)
  ultimately have result: "Option.bind (pokes 0 ?h ?buf) (write_trailer s) = Some buf2" by simp
  have l2: "length buf2 = 8 + L + ?o * next_ref w + 32"
  proof -
    have "length buf2 = length buf1" unfolding buf2_def using r2 by (rule length_put)
    then show ?thesis using l1 size(2) by (simp add: plist_size_def T mult.commute)
  qed
  have "bytes_at buf2 0 (8 + L + ?o * next_ref w + 32) = buf2" using l2 by (simp add: bytes_at_def)
  then have "buf2 = bytes_at buf2 0 8 @ bytes_at buf2 8 L @ bytes_at buf2 ?T (?o * next_ref w) @ bytes_at buf2 ?t 32"
    unfolding bytes_at_add T by (simp add: mult.commute)
  also have "bytes_at buf2 0 8 = ?h"
  proof -
    have "bytes_at buf2 0 8 = bytes_at buf1 0 8" unfolding buf2_def using r2 T by (intro bytes_at_put_other) simp_all
    also have "\<dots> = ?h" unfolding buf1_def by (rule bytes_at_put_same [OF r(1)]) simp
    finally show ?thesis .
  qed
  also have "bytes_at buf2 8 L = encoded ?k (tb_objects w)"
    unfolding buf2_def using r2 T r(1) by (subst bytes_at_put_other) (simp_all add: buf1_def bytes_at_put_other enc)
  also have "bytes_at buf2 ?T (?o * next_ref w) = refs_bytes ?o (offsets ?k 8 (tb_objects w))"
    unfolding buf2_def using r2 T r(1) by (subst bytes_at_put_other) (simp_all add: buf1_def bytes_at_put_other table [unfolded T] mult.commute)
  also have "bytes_at buf2 ?t 32 = trailer_bytes w"
    unfolding buf2_def using r2 len by (intro bytes_at_put_same) simp_all
  finally show ?thesis unfolding result by (simp add: plist_bytes_def)
qed

lemma root_pending: "is_root t \<Longrightarrow> all_pending (table_of t) = [next_ref (table_of t) - 1] \<and> 0 < next_ref (table_of t)"
  by (cases t) (auto simp: is_root_def table_end_def new_object_def all_pending_def next_ref_def outer_inside no_objects_def)

lemma writePropertyList_bytes:
  assumes "is_root t" "plist_size (table_of t) < 2 ^ 32"
    and "buffer (of_nat (plist_size (table_of t))) = Some memory" "length memory = plist_size (table_of t)"
  shows "writePropertyList (play plan_stream t) (play serializer_stream t) buffer = Some (Some (plist_bytes (table_of t)))"
proof -
  have pending: "length (all_pending (table_of t)) \<le> 1" "0 < next_ref (table_of t)" using root_pending [OF assms(1)] by auto
  have plan: "play plan_stream t plan_init = Some (plan_of (table_of t))"
    using plan_of_client plist_fits_plan(1) [OF assms(2) pending(1)] by blast
  obtain s' where s': "play serializer_stream t ((serializer_init (plan_of (table_of t)))\<lparr>ser_buffer := memory\<rparr>) = Some s'"
    "ser_at (table_of t) (tb_objects (table_of t)) [] s'"
    using root_play [OF assms(1,2,4)] by blast
  show ?thesis
    unfolding writePropertyList_def plan bind.bind_lunit Let_def serializer_init_layout assms(3) option.case s'(1)
      whole_buffer [OF s'(2) pending(2,1)] by simp
qed

end
