(* ===== verification/PropertyListFacts.thy ===== *)
theory PropertyListFacts
  imports PropertyListSerializer StringSearch
begin

text \<open>
  What a reader of the format finds in the file: the value the client described. The reader
  follows the documented layout of binary property lists (header, objects, offset table,
  trailer); the repository has none of its own.
\<close>

section \<open>A reader of binary property lists\<close>

datatype plist_value =
    TrueValue
  | IntegerValue nat
  | StringValue ustring
  | ArrayValue "plist_value list"
  | DictionaryValue "(plist_value \<times> plist_value) list"

datatype plist_node =
    TrueNode
  | IntegerNode nat
  | StringNode ustring
  | ArrayNode "nat list"
  | DictionaryNode "nat list"

definition read_number :: "byte list \<Rightarrow> nat" where
  "read_number bs = foldl (\<lambda>n b. n * 256 + unat b) 0 bs"

fun read_units :: "byte list \<Rightarrow> ustring" where
  "read_units (h # l # bs) = (push_bit 8 (ucast h) OR ucast l) # read_units bs"
| "read_units _ = []"

fun read_refs :: "nat \<Rightarrow> nat \<Rightarrow> byte list \<Rightarrow> nat list" where
  "read_refs k 0 bs = []"
| "read_refs k (Suc n) bs = read_number (take k bs) # read_refs k n (drop k bs)"

definition read_length :: "byte \<Rightarrow> byte list \<Rightarrow> nat \<times> byte list" where
  "read_length m bs =
     (if m AND 0xF = 0xF
      then let c = 2 ^ unat (hd bs AND 0xF) in (read_number (take c (tl bs)), drop c (tl bs))
      else (unat (m AND 0xF), bs))"

definition read_node :: "nat \<Rightarrow> byte list \<Rightarrow> plist_node option" where
  "read_node k bs =
     (case bs of
        [] \<Rightarrow> None
      | m # ms \<Rightarrow>
          if m = 0x09 then Some TrueNode
          else if m AND 0xF0 = 0x10 then Some (IntegerNode (read_number (take (2 ^ unat (m AND 0xF)) ms)))
          else let (n, body) = read_length m ms
               in if m AND 0xF0 = 0x50 then Some (StringNode (map ucast (take n body)))
                  else if m AND 0xF0 = 0x60 then Some (StringNode (read_units (take (2 * n) body)))
                  else if m AND 0xF0 = 0xA0 then Some (ArrayNode (read_refs k n body))
                  else if m AND 0xF0 = 0xD0 then Some (DictionaryNode (read_refs k (2 * n) body))
                  else None)"

text \<open>A dictionary has all its keys before all its values.\<close>

definition pair_up :: "plist_value list \<Rightarrow> (plist_value \<times> plist_value) list" where
  "pair_up vs = zip (take (length vs div 2) vs) (drop (length vs div 2) vs)"

fun node_value :: "nat \<Rightarrow> (nat \<Rightarrow> plist_node option) \<Rightarrow> nat \<Rightarrow> plist_value option" where
  "node_value 0 L r = None"
| "node_value (Suc f) L r =
     (case L r of
        None \<Rightarrow> None
      | Some TrueNode \<Rightarrow> Some TrueValue
      | Some (IntegerNode n) \<Rightarrow> Some (IntegerValue n)
      | Some (StringNode s) \<Rightarrow> Some (StringValue s)
      | Some (ArrayNode rs) \<Rightarrow> map_option ArrayValue (those (map (node_value f L) rs))
      | Some (DictionaryNode rs) \<Rightarrow> map_option (\<lambda>vs. DictionaryValue (pair_up vs)) (those (map (node_value f L) rs)))"

text \<open>The object with a number starts where the offset table says; the depth is at most the number of objects.\<close>

definition read_plist :: "byte list \<Rightarrow> plist_value option" where
  "read_plist bs =
     (if length bs < 40 \<or> take 8 bs \<noteq> lit ''bplist00'' then None
      else let trailer = drop (length bs - 32) bs;
               offsetSize = unat (trailer ! 6);
               refSize = unat (trailer ! 7);
               count = read_number (take 8 (drop 8 trailer));
               top = read_number (take 8 (drop 16 trailer));
               tableStart = read_number (take 8 (drop 24 trailer));
               offset = (\<lambda>r. read_number (take offsetSize (drop (tableStart + r * offsetSize) bs)))
           in node_value count (\<lambda>r. if r < count then read_node refSize (drop (offset r) bs) else None) top)"

section \<open>Numbers and markers\<close>

lemma read_number_high_to_low: "read_number (high_to_low n r) = unat r mod 256 ^ n"
proof -
  have "foldl (\<lambda>n b. n * 256 + unat b) a (high_to_low n r) = a * 256 ^ n + unat r mod 256 ^ n" for a
  proof (induction n arbitrary: a)
    case (Suc n)
    have "unat (ucast (drop_bit (8 * n) r) :: byte) = unat r div 256 ^ n mod 256"
      by (simp add: unsigned_ucast_eq take_bit_eq_mod unat_drop_bit_eq) (simp add: drop_bit_eq_div power_mult)
    moreover have "unat r mod 256 ^ Suc n = 256 ^ n * (unat r div 256 ^ n mod 256) + unat r mod 256 ^ n"
      using mod_mult2_eq [of "unat r" "256 ^ n" 256] by (simp add: mult.commute)
    ultimately show ?case using Suc by (simp add: algebra_simps)
  qed simp
  from this [of 0] show ?thesis by (simp add: read_number_def)
qed

lemma read_number_ref: "k \<le> 4 \<Longrightarrow> r < 256 ^ k \<Longrightarrow> read_number (high_to_low k (of_nat r)) = r"
proof -
  assume k: "k \<le> 4" and r: "r < 256 ^ k"
  have "(256 :: nat) ^ k \<le> 256 ^ 4" using k by (intro power_increasing) simp_all
  then have "r < 2 ^ 32" using r by simp
  then show ?thesis using r by (simp add: read_number_high_to_low)
qed

lemma high_to_low_2: "high_to_low 2 r = [ucast (drop_bit 8 r), ucast r]"
  by (simp add: numeral_2_eq_2)

lemma high_to_low_4: "high_to_low 4 r = [ucast (drop_bit 24 r), ucast (drop_bit 16 r), ucast (drop_bit 8 r), ucast r]"
  by (simp add: eval_nat_numeral)

lemma integer_bytes_high_to_low:
  "\<exists>n c. integer_bytes i = n # high_to_low c i \<and> n AND 0xF0 = 0x10 \<and> c = 2 ^ unat (n AND 0xF) \<and> unat i < 256 ^ c \<and> n \<noteq> 0x09"
proof -
  consider "unat i \<le> 0xFF" | "\<not> unat i \<le> 0xFF" "unat i \<le> 0xFFFF" | "\<not> unat i \<le> 0xFF" "\<not> unat i \<le> 0xFFFF" by linarith
  then show ?thesis
  proof cases
    case 1
    then show ?thesis
      by (intro exI [of _ "0x10"] exI [of _ 1]) (simp add: integer_bytes_def word_le_nat_alt)
  next
    case 2
    then show ?thesis
      by (intro exI [of _ "0x11"] exI [of _ 2]) (simp add: integer_bytes_def word_le_nat_alt high_to_low_2)
  next
    case 3
    have "unat i < 2 ^ 32" using unsigned_less [of i] by simp
    with 3 show ?thesis
      by (intro exI [of _ "0x12"] exI [of _ 4]) (simp add: integer_bytes_def word_le_nat_alt high_to_low_4)
  qed
qed

lemma small_nibble:
  assumes "n \<le> 14"
  shows "(of_nat n :: byte) AND 0xF0 = 0" "(of_nat n :: byte) AND 0xF = of_nat n" "(of_nat n :: byte) \<noteq> 0xF"
    "unat (of_nat n :: byte) = n"
proof -
  have "n \<in> {..<15}" using assms by simp
  also have "{..<15} = {0,1,2,3,4,5,6,7,8,9,10,11,12,13,14 :: nat}"
    by (simp only: lessThan_nat_numeral lessThan_Suc pred_numeral_simps eval_nat_numeral BitM.simps) auto
  finally show "(of_nat n :: byte) AND 0xF0 = 0" "(of_nat n :: byte) AND 0xF = of_nat n" "(of_nat n :: byte) \<noteq> 0xF"
    "unat (of_nat n :: byte) = n"
    by auto
qed

lemma small_marker:
  assumes n: "n \<le> 14" and m: "m \<in> {0x50, 0x60, 0xA0, 0xD0 :: byte}"
  shows "(m OR of_nat n) AND 0xF0 = m" "(m OR of_nat n) AND 0xF = of_nat n" "m OR of_nat n \<noteq> 0x09"
proof -
  have "m AND 0xF0 = m" "m AND 0xF = 0" using m by auto
  then show "(m OR of_nat n) AND 0xF0 = m" "(m OR of_nat n) AND 0xF = of_nat n"
    by (simp_all add: bit.conj_disj_distrib2 small_nibble [OF n])
  then show "m OR of_nat n \<noteq> 0x09" using m by auto
qed

lemma read_marker:
  assumes "n < 2 ^ 32" and m: "(m, m') \<in> {(0x50, 0x5F), (0x60, 0x6F), (0xA0, 0xAF), (0xD0, 0xDF)}"
  shows "\<exists>b ms. marker_bytes m m' (of_nat n) = b # ms \<and> b AND 0xF0 = m \<and> b \<noteq> 0x09 \<and> read_length b (ms @ body) = (n, body)"
proof (cases "n \<le> 14")
  case True
  have "m \<in> {0x50, 0x60, 0xA0, 0xD0}" using m by auto
  note small = small_marker [OF True this]
  have "marker_bytes m m' (of_nat n) = [m OR of_nat n]"
  proof -
    have "ucast (of_nat n :: u32) = (of_nat n :: byte)"
      using True small_nibble(4) [OF True]
      by (intro word_unat_eq_iff [THEN iffD2]) (simp add: unsigned_ucast_eq take_bit_nat_eq_self)
    then show ?thesis
      using True assms(1) by (simp add: marker_bytes_def maxLengthInMarkerByte_def word_le_nat_alt)
  qed
  then show ?thesis
    using small small_nibble(3,4) [OF True] by (simp add: read_length_def)
next
  case False
  obtain c k where b: "integer_bytes (of_nat n) = c # high_to_low k (of_nat n)" "k = 2 ^ unat (c AND 0xF)" "n < 256 ^ k"
    using integer_bytes_high_to_low [of "of_nat n"] assms(1) by auto
  have "read_number (high_to_low k (of_nat n)) = n"
    using assms(1) b(3) by (simp add: read_number_high_to_low)
  moreover have "\<not> (of_nat n :: u32) \<le> maxLengthInMarkerByte"
    using False assms(1) by (simp add: maxLengthInMarkerByte_def word_le_nat_alt)
  ultimately show ?thesis using m b by (auto simp: marker_bytes_def read_length_def Let_def)
qed

section \<open>Reading an object back\<close>

lemma read_unit: "push_bit 8 (ucast (ucast (drop_bit 8 c) :: byte)) OR ucast (ucast c :: byte) = (c :: uchar)"
  by (intro bit_word_eqI) (auto simp: bit_simps)

lemma read_units_bytes: "read_units (concat (map (\<lambda>c. [ucast (drop_bit 8 c), ucast c]) s)) = s"
  by (induction s) (simp_all add: read_unit)

lemma ascii_bytes:
  assumes "charactersAreAllASCII s"
  shows "map ucast (map ucast s :: byte list) = s"
proof -
  have "ucast (ucast c :: byte) = c" if "c \<in> set s" for c
  proof -
    have "unat c \<le> 127" using that assms by (auto simp: charactersAreAllASCII_iff word_le_nat_alt)
    then show ?thesis
      by (intro word_unat_eq_iff [THEN iffD2]) (simp add: unsigned_ucast_eq unsigned_take_bit_eq take_bit_nat_eq_self)
  qed
  then show ?thesis by (simp add: map_idI)
qed

lemma read_refs_bytes:
  "k \<le> 4 \<Longrightarrow> \<forall>r\<in>set rs. r < 256 ^ k \<Longrightarrow> read_refs k (length rs) (refs_bytes k rs @ rest) = rs"
  by (induction rs) (simp_all add: refs_bytes_def read_number_ref)

text \<open>An object as a reader sees it: the kind of a string is not recorded.\<close>

primrec node_of :: "plist_object \<Rightarrow> plist_node" where
  "node_of TrueObject = TrueNode"
| "node_of (IntegerObject i) = IntegerNode (unat i)"
| "node_of (StringObject s) = StringNode s"
| "node_of (CStringObject s) = StringNode (map ucast s)"
| "node_of (ArrayObject rs) = ArrayNode rs"
| "node_of (DictionaryObject rs) = DictionaryNode rs"

lemma read_node_marker:
  assumes "n < 2 ^ 32" "(m, m') \<in> {(0x50, 0x5F), (0x60, 0x6F), (0xA0, 0xAF), (0xD0, 0xDF)}"
  shows "read_node k (marker_bytes m m' (of_nat n) @ body) =
    (if m = 0x50 then Some (StringNode (map ucast (take n body)))
     else if m = 0x60 then Some (StringNode (read_units (take (2 * n) body)))
     else if m = 0xA0 then Some (ArrayNode (read_refs k n body))
     else Some (DictionaryNode (read_refs k (2 * n) body)))"
proof -
  obtain b ms where b: "marker_bytes m m' (of_nat n) = b # ms" "b AND 0xF0 = m" "b \<noteq> 0x09" "read_length b (ms @ body) = (n, body)"
    using read_marker [OF assms] by blast
  show ?thesis using assms(2) b by (auto simp: read_node_def)
qed

lemma read_node_encode:
  assumes k: "k \<le> 4" and refs: "\<forall>r\<in>set (object_refs ob). r < 256 ^ k"
    and size: "object_bytes ob + length (object_refs ob) < 2 ^ 32"
    and even: "\<And>rs. ob = DictionaryObject rs \<Longrightarrow> even (length rs)"
  shows "read_node k (encode k ob @ rest) = Some (node_of ob)"
proof (cases ob)
  case TrueObject
  then show ?thesis by (simp add: read_node_def)
next
  case (IntegerObject i)
  obtain n c where "integer_bytes i = n # high_to_low c i" "n AND 0xF0 = 0x10" "c = 2 ^ unat (n AND 0xF)"
    "unat i < 256 ^ c" "n \<noteq> 0x09"
    using integer_bytes_high_to_low by blast
  then show ?thesis using IntegerObject by (simp add: read_node_def read_number_high_to_low)
next
  case (StringObject s)
  have "length (concat (map (\<lambda>c. [ucast (drop_bit 8 c), ucast c :: byte]) s)) = 2 * length s" by (induction s) simp_all
  then show ?thesis
    using StringObject size ascii_bytes [of s] read_node_marker [of "length s" "0x50" "0x5F"] read_node_marker [of "length s" "0x60" "0x6F"]
    by (simp add: read_units_bytes split: if_splits)
next
  case (CStringObject s)
  then show ?thesis using size read_node_marker [of "length s" "0x50" "0x5F"] by simp
next
  case (ArrayObject rs)
  then show ?thesis using size read_node_marker [of "length rs" "0xA0" "0xAF"] read_refs_bytes [OF k, of rs] refs by simp
next
  case (DictionaryObject rs)
  then show ?thesis
    using size read_node_marker [of "length rs div 2" "0xD0" "0xDF"] read_refs_bytes [OF k, of rs] refs even by simp
qed

section \<open>The value of a table\<close>

fun meaning :: "plist \<Rightarrow> plist_value" where
  "meaning PBooleanTrue = TrueValue"
| "meaning (PInteger i) = IntegerValue (unat i)"
| "meaning (PString s) = StringValue s"
| "meaning (PIntegerArray is) = ArrayValue (map (\<lambda>i. IntegerValue (unat i)) is)"
| "meaning (PUniqueString s) = StringValue s"
| "meaning (PUniqueCString s) = StringValue (map ucast s)"
| "meaning (PArray ts) = ArrayValue (map meaning ts)"
| "meaning (PDictionary ts) = DictionaryValue (pair_up (map meaning ts))"

text \<open>
  What the code asserts of its client's calls: a dictionary has as many values as keys, no
  integer is negative, no integer array empty; and no zero byte stands in a C string.
\<close>

fun balanced :: "plist \<Rightarrow> bool" where
  "balanced (PArray ts) = list_all balanced ts"
| "balanced (PDictionary ts) = (even (length ts) \<and> list_all balanced ts)"
| "balanced (PInteger i) = (i < 0x80000000)"
| "balanced (PIntegerArray is) = (is \<noteq> [] \<and> list_all (\<lambda>i. i < 0x80000000) is)"
| "balanced (PUniqueCString cs) = (0 \<notin> set cs)"
| "balanced _ = True"

lemma those_Cons: "those (x # xs) = Some vs \<longleftrightarrow> (\<exists>v vs'. x = Some v \<and> those xs = Some vs' \<and> vs = v # vs')"
  by (cases x) auto

lemma those_mono:
  "\<forall>r\<in>set rs. \<forall>v. f r = Some v \<longrightarrow> g r = Some v \<Longrightarrow> those (map f rs) = Some vs \<Longrightarrow> those (map g rs) = Some vs"
proof (induction rs arbitrary: vs)
  case (Cons r rs)
  obtain v vs' where "f r = Some v" "those (map f rs) = Some vs'" "vs = v # vs'"
    using Cons.prems(2) unfolding list.map(2) those_Cons by blast
  moreover from this have "those (map g rs) = Some vs'" "g r = Some v"
    using Cons.prems(1) Cons.IH [of vs'] by simp_all
  ultimately show ?case by simp
qed simp

lemma those_all2: "list_all2 (\<lambda>r v. f r = Some v) rs vs \<Longrightarrow> those (map f rs) = Some vs"
  by (induction rule: list_all2_induct) simp_all

lemma node_value_mono: "node_value f L r = Some v \<Longrightarrow> f \<le> g \<Longrightarrow> node_value g L r = Some v"
proof (induction f arbitrary: r v g)
  case (Suc f)
  obtain g' where g: "g = Suc g'" "f \<le> g'" using Suc.prems(2) by (cases g) auto
  have deep: "those (map (node_value f L) rs) = Some vs \<Longrightarrow> those (map (node_value g' L) rs) = Some vs" for rs vs
    by (rule those_mono [of rs "node_value f L" "node_value g' L" vs]) (blast intro: Suc.IH g(2))
  show ?case
  proof (cases "L r")
    case None
    then show ?thesis using Suc.prems(1) by simp
  next
    case (Some node)
    then show ?thesis
      using Suc.prems(1) deep unfolding g(1)
      by (cases node) (auto simp del: those.simps)
  qed
qed simp

definition sees :: "(nat \<Rightarrow> plist_node option) \<Rightarrow> nat \<Rightarrow> plist_value \<Rightarrow> bool" where
  "sees L r v \<longleftrightarrow> node_value (Suc r) L r = Some v"

lemma sees_deep:
  assumes "list_all2 (sees L) rs vs" "\<forall>r\<in>set rs. r < n"
  shows "those (map (node_value n L) rs) = Some vs"
proof (rule those_all2)
  show "list_all2 (\<lambda>r v. node_value n L r = Some v) rs vs"
    using assms(1)
  proof (rule list.rel_mono_strong)
    fix r v assume "r \<in> set rs" "sees L r v"
    then show "node_value n L r = Some v"
      using assms(2) node_value_mono [of "Suc r" L r v n] by (simp only: sees_def Suc_le_eq)
  qed
qed

lemma sees_aggregate:
  assumes "list_all2 (sees L) rs vs" "\<forall>r\<in>set rs. r < n"
  shows "L n = Some (ArrayNode rs) \<Longrightarrow> sees L n (ArrayValue vs)"
    "L n = Some (DictionaryNode rs) \<Longrightarrow> sees L n (DictionaryValue (pair_up vs))"
  using sees_deep [OF assms] by (simp_all add: sees_def)

lemma sees_leaf:
  "L r = Some TrueNode \<Longrightarrow> sees L r TrueValue"
  "L r = Some (IntegerNode n) \<Longrightarrow> sees L r (IntegerValue n)"
  "L r = Some (StringNode s) \<Longrightarrow> sees L r (StringValue s)"
  by (simp_all add: sees_def)

definition shows_table :: "(nat \<Rightarrow> plist_node option) \<Rightarrow> object_table \<Rightarrow> bool" where
  "shows_table L w \<longleftrightarrow> (\<forall>r<next_ref w. L r = Some (node_of (tb_objects w ! r)))"

lemma shows_earlier:
  assumes "shows_table L w" "grows b w"
  shows "shows_table L b"
proof -
  obtain os where "tb_objects w = tb_objects b @ os" using assms(2) by (auto simp: grows_def)
  then show ?thesis using assms(1) by (auto simp: shows_table_def next_ref_def nth_append)
qed

lemma new_object_pending:
  "tb_pending (integer_object i a) = tb_pending a" "tb_pending (string_object s a) = tb_pending a"
  "tb_pending (true_object a) = tb_pending a" "tb_pending (array_object is a) = tb_pending a"
  by (simp_all add: object_ops array_object_def Let_def fold_integer_object_frame)

text \<open>Every call leaves one more reference waiting, to an object with the meaning of what was written.\<close>

definition leaves :: "(nat \<Rightarrow> plist_node option) \<Rightarrow> object_table \<Rightarrow> object_table \<Rightarrow> plist_value list \<Rightarrow> bool" where
  "leaves L a b vs \<longleftrightarrow> (\<exists>rs. tb_pending b = tb_pending a @ rs \<and> list_all2 (sees L) rs vs)"

lemma leavesI: "tb_pending b = tb_pending a @ [r] \<Longrightarrow> sees L r v \<Longrightarrow> leaves L a b [v]"
  unfolding leaves_def by (rule exI [of _ "[r]"]) simp

lemma leaves_shared:
  assumes "table_ok a"
  shows "shows_table L (table_true a) \<Longrightarrow> leaves L a (table_true a) [TrueValue]"
    "shows_table L (table_integer i a) \<Longrightarrow> leaves L a (table_integer i a) [IntegerValue (unat i)]"
    "shows_table L (table_string s a) \<Longrightarrow> leaves L a (table_string s a) [StringValue s]"
proof -
  show "leaves L a (table_true a) [TrueValue]" if "shows_table L (table_true a)"
  proof -
    obtain r where r: "r < next_ref (true_object a)" "tb_true (true_object a) = Some r"
      using true_object_ok(2) [OF assms] by blast
    have "shows_table L (true_object a)"
      using that unfolding table_true_def by (rule shows_earlier) (rule grows_refer)
    then have "L r = Some TrueNode"
      using r table_ok_fields(2) [OF true_object_ok(1) [OF assms] r(2)] by (simp add: shows_table_def)
    then show ?thesis
      using r by (intro leavesI [of _ _ r] sees_leaf) (simp_all add: table_true_def refer_def new_object_pending)
  qed
  show "leaves L a (table_integer i a) [IntegerValue (unat i)]" if "shows_table L (table_integer i a)"
  proof -
    obtain r where r: "r < next_ref (integer_object i a)" "tb_ints (integer_object i a) i = Some r"
      using integer_object_ok(2) [OF assms] by blast
    have "shows_table L (integer_object i a)"
      using that unfolding table_integer_def by (rule shows_earlier) (rule grows_refer)
    then have "L r = Some (IntegerNode (unat i))"
      using r table_ok_fields(4) [OF integer_object_ok(1) [OF assms] r(2)] by (simp add: shows_table_def)
    then show ?thesis
      using r by (intro leavesI [of _ _ r] sees_leaf) (simp_all add: table_integer_def refer_def new_object_pending)
  qed
  show "leaves L a (table_string s a) [StringValue s]" if "shows_table L (table_string s a)"
  proof -
    obtain r where r: "r < next_ref (string_object s a)" "tb_strings (string_object s a) s = Some r"
      using string_object_ok(2) [OF assms] by blast
    have "shows_table L (string_object s a)"
      using that unfolding table_string_def by (rule shows_earlier) (rule grows_refer)
    then have "L r = Some (StringNode s)"
      using r table_ok_fields(6) [OF string_object_ok(1) [OF assms] r(2)] by (simp add: shows_table_def)
    then show ?thesis
      using r by (intro leavesI [of _ _ r] sees_leaf) (simp_all add: table_string_def refer_def new_object_pending)
  qed
qed

lemma leaves_array:
  assumes "table_ok a" "shows_table L (table_array is a)"
  shows "leaves L a (table_array is a) [ArrayValue (map (\<lambda>i. IntegerValue (unat i)) is)]"
proof -
  let ?b = "array_object is a"
  have ok: "table_ok ?b" by (rule array_object_ok(1)) (rule assms(1))
  obtain r where r: "r < next_ref ?b" "tb_arrays ?b is = Some r" using array_object_ok(2) [OF assms(1)] by blast
  have L: "shows_table L ?b" using assms(2) unfolding table_array_def by (rule shows_earlier) (rule grows_refer)
  let ?rs = "map (\<lambda>i. the (tb_ints ?b i)) is"
  have ob: "tb_objects ?b ! r = ArrayObject ?rs" using table_ok_fields(9) [OF ok r(2)] .
  have ints: "the (tb_ints ?b i) < next_ref ?b" "tb_objects ?b ! the (tb_ints ?b i) = IntegerObject i" if "i \<in> set is" for i
    using table_ok_fields(8) [OF ok r(2) that] table_ok_fields(3,4) [OF ok] by auto
  then have "sees L (the (tb_ints ?b i)) (IntegerValue (unat i))" if "i \<in> set is" for i
    using that L by (intro sees_leaf) (simp add: shows_table_def)
  then have "list_all2 (sees L) ?rs (map (\<lambda>i. IntegerValue (unat i)) is)"
    by (simp add: list_all2_map1 list_all2_map2 list_all2_same)
  moreover have "\<forall>q\<in>set (object_refs (tb_objects ?b ! r)). q < r"
    using ok r(1) unfolding table_ok_def by blast
  then have "\<forall>q\<in>set ?rs. q < r" unfolding ob by simp
  moreover have "L r = Some (ArrayNode ?rs)" using L r(1) ob by (simp add: shows_table_def)
  ultimately have "sees L r (ArrayValue (map (\<lambda>i. IntegerValue (unat i)) is))" by (rule sees_aggregate(1))
  then show ?thesis using r by (intro leavesI [of _ _ r]) (simp_all add: table_array_def refer_def new_object_pending)
qed

lemma leaves_unique:
  assumes "shows_table L (table_unique ob a)"
  shows "ob = StringObject s \<Longrightarrow> leaves L a (table_unique ob a) [StringValue s]"
    "ob = CStringObject cs \<Longrightarrow> leaves L a (table_unique ob a) [StringValue (map ucast cs)]"
proof -
  have "L (next_ref a) = Some (node_of ob)"
    using assms by (simp add: shows_table_def table_unique_def refer_def next_ref_def new_object_def)
  then show "ob = StringObject s \<Longrightarrow> leaves L a (table_unique ob a) [StringValue s]"
    "ob = CStringObject cs \<Longrightarrow> leaves L a (table_unique ob a) [StringValue (map ucast cs)]"
    by (auto intro!: leavesI [of _ _ "next_ref a"] sees_leaf simp: table_unique_def refer_def)
qed

lemma leaves_end:
  assumes ok: "table_ok b" and L: "shows_table L (table_end mk b)" and outer: "tb_outer b = tb_pending a # tb_outer a"
    and inside: "leaves L (table_start a) b vs"
  shows "mk = ArrayObject \<Longrightarrow> leaves L a (table_end mk b) [ArrayValue vs]"
    "mk = DictionaryObject \<Longrightarrow> leaves L a (table_end mk b) [DictionaryValue (pair_up vs)]"
proof -
  have rs: "list_all2 (sees L) (tb_pending b) vs" using inside by (auto simp: leaves_def table_start_def)
  have small: "\<forall>r\<in>set (tb_pending b). r < next_ref b" using ok by (auto simp: table_ok_def all_pending_def)
  have node: "L (next_ref b) = Some (node_of (mk (tb_pending b)))"
    using L by (simp add: shows_table_def table_end_def next_ref_def new_object_def)
  have pending: "tb_pending (table_end mk b) = tb_pending a @ [next_ref b]" by (simp add: table_end_def outer)
  show "leaves L a (table_end mk b) [ArrayValue vs]" if "mk = ArrayObject"
    using pending sees_aggregate(1) [OF rs small] node that by (intro leavesI [of _ _ "next_ref b"]) simp_all
  show "leaves L a (table_end mk b) [DictionaryValue (pair_up vs)]" if "mk = DictionaryObject"
    using pending sees_aggregate(2) [OF rs small] node that by (intro leavesI [of _ _ "next_ref b"]) simp_all
qed

lemma leaves_append:
  assumes "leaves L a b vs" "leaves L b c ws"
  shows "leaves L a c (vs @ ws)"
proof -
  obtain rs qs where "tb_pending b = tb_pending a @ rs" "list_all2 (sees L) rs vs" "tb_pending c = tb_pending b @ qs"
    "list_all2 (sees L) qs ws"
    using assms unfolding leaves_def by blast
  then show ?thesis unfolding leaves_def by (intro exI [of _ "rs @ qs"]) (simp add: list_all2_appendI)
qed

lemma leaves_play:
  "table_ok a \<Longrightarrow> shows_table L (table_play t a) \<Longrightarrow> leaves L a (table_play t a) [meaning t]"
  "table_ok a \<Longrightarrow> shows_table L (table_play_all ts a) \<Longrightarrow> leaves L a (table_play_all ts a) (map meaning ts)"
proof (induction t a and ts a rule: table_play_table_play_all.induct)
  case (7 ts a)
  let ?b = "table_play_all ts (table_start a)"
  have "shows_table L ?b"
    using 7(3) by (rule shows_earlier) (simp add: grows_end outer_inside)
  then show ?case
    using leaves_end(1) [OF table_play_ok(2) [OF calls_ok(6) [OF 7(2)]] _ outer_inside] 7 calls_ok(6) [OF 7(2)] by simp
next
  case (8 ts a)
  let ?b = "table_play_all ts (table_start a)"
  have "shows_table L ?b"
    using 8(3) by (rule shows_earlier) (simp add: grows_end outer_inside)
  then show ?case
    using leaves_end(2) [OF table_play_ok(2) [OF calls_ok(6) [OF 8(2)]] _ outer_inside] 8 calls_ok(6) [OF 8(2)] by simp
next
  case (9 a)
  show ?case by (simp add: leaves_def)
next
  case (10 t ts a)
  have "shows_table L (table_play t a)" using 10(4) grows_play(2) by (auto intro: shows_earlier)
  then have "leaves L a (table_play t a) [meaning t]"
    "leaves L (table_play t a) (table_play_all ts (table_play t a)) (map meaning ts)"
    using 10 table_play_ok(1) by simp_all
  from leaves_append [OF this] show ?case by simp
qed (simp_all add: leaves_shared leaves_array leaves_unique)

section \<open>Dictionaries stay even\<close>

definition dicts_even :: "object_table \<Rightarrow> bool" where
  "dicts_even a \<longleftrightarrow> (\<forall>rs. DictionaryObject rs \<in> set (tb_objects a) \<longrightarrow> even (length rs))"

lemma pending_length:
  "length (tb_pending (table_play t a)) = Suc (length (tb_pending a))"
  "length (tb_pending (table_play_all ts a)) = length (tb_pending a) + length ts"
proof (induction t a and ts a rule: table_play_table_play_all.induct)
  case (7 ts a)
  show ?case using outer_inside [of ts a] by (simp add: table_end_def)
next
  case (8 ts a)
  show ?case using outer_inside [of ts a] by (simp add: table_end_def)
qed (simp_all add: table_true_def table_integer_def table_string_def table_array_def table_unique_def refer_def new_object_pending)

lemma fold_integers_even: "dicts_even a \<Longrightarrow> dicts_even (fold integer_object is a)"
proof (induction "is" arbitrary: a)
  case (Cons i "is")
  have "dicts_even (integer_object i a)"
    using Cons.prems by (simp add: dicts_even_def integer_object_def new_object_def)
  then show ?case by (simp add: Cons.IH)
qed simp

lemma array_object_even: "dicts_even a \<Longrightarrow> dicts_even (array_object is a)"
  using fold_integers_even [of a "is"] by (simp add: array_object_def Let_def dicts_even_def new_object_def)

lemma calls_even:
  assumes "dicts_even a"
  shows "dicts_even (table_true a)" "dicts_even (table_integer i a)" "dicts_even (table_string s a)"
    "dicts_even (table_array is a)" "object_refs ob = [] \<Longrightarrow> dicts_even (table_unique ob a)"
proof -
  show "dicts_even (table_array is a)"
    using array_object_even [OF assms, of "is"] by (simp add: table_array_def refer_def dicts_even_def)
qed (use assms in \<open>auto simp: dicts_even_def table_true_def table_integer_def table_string_def table_unique_def refer_def object_ops\<close>)

lemma play_even:
  "balanced t \<Longrightarrow> dicts_even a \<Longrightarrow> dicts_even (table_play t a)"
  "list_all balanced ts \<Longrightarrow> dicts_even a \<Longrightarrow> dicts_even (table_play_all ts a)"
proof (induction t a and ts a rule: table_play_table_play_all.induct)
  case (7 ts a)
  then have "dicts_even (table_play_all ts (table_start a))" by (simp add: dicts_even_def table_start_def)
  then show ?case by (simp add: dicts_even_def table_end_def new_object_def)
next
  case (8 ts a)
  then have "dicts_even (table_play_all ts (table_start a))" by (simp add: dicts_even_def table_start_def)
  moreover have "even (length (tb_pending (table_play_all ts (table_start a))))"
    using 8(2) unfolding pending_length by (simp add: table_start_def)
  ultimately show ?case by (simp add: dicts_even_def table_end_def new_object_def)
qed (simp_all add: calls_even)

section \<open>The file reads back\<close>

lemma refs_bytes_at:
  "r < length rs \<Longrightarrow> take k (drop (r * k) (refs_bytes k rs @ rest)) = high_to_low k (of_nat (rs ! r))"
proof (induction rs arbitrary: r)
  case (Cons q rs)
  then show ?case by (cases r) (simp_all add: refs_bytes_def)
qed simp

lemma offsets_nth: "r < length objs \<Longrightarrow> offsets k p objs ! r = p + length (encoded k (take r objs))"
proof (induction objs arbitrary: r p)
  case (Cons ob objs)
  then show ?case by (cases r) (simp_all add: encoded_def)
qed simp

lemma encoded_at:
  assumes "r < length objs"
  shows "encoded k objs = encoded k (take r objs) @ encode k (objs ! r) @ encoded k (drop (Suc r) objs)"
proof -
  have "encoded k objs = encoded k (take r objs @ objs ! r # drop (Suc r) objs)"
    using assms by (simp add: id_take_nth_drop [symmetric])
  then show ?thesis by (simp add: encoded_def)
qed

definition file_node :: "object_table \<Rightarrow> nat \<Rightarrow> plist_node option" where
  "file_node w r =
     (if r < next_ref w
      then read_node (ref_size w) (drop (read_number (take (offset_size w)
             (drop (table_at w + r * offset_size w) (plist_bytes w)))) (plist_bytes w))
      else None)"

lemma read_length_bytes: "n < 2 ^ 32 \<Longrightarrow> read_number (length_bytes n) = n"
  using read_number_ref [of 4 n] by (simp add: length_bytes_def read_number_def)

lemma read_plist_file:
  assumes "plist_size w < 2 ^ 32"
  shows "read_plist (plist_bytes w) = node_value (next_ref w) (file_node w) (next_ref w - 1)"
proof -
  let ?f = "plist_bytes w"
  have len: "length (trailer_bytes w) = 32" by (simp add: trailer_bytes_def length_length_bytes)
  have f: "\<exists>b. ?f = lit ''bplist00'' @ b @ trailer_bytes w" by (auto simp: plist_bytes_def)
  then have long: "\<not> length ?f < 40" and head: "take 8 ?f = lit ''bplist00''" and tail: "drop (length ?f - 32) ?f = trailer_bytes w"
    using len by (auto simp del: lit_Cons)
  have n: "next_ref w < 2 ^ 32" "table_at w < 2 ^ 32" "next_ref w - 1 < 2 ^ 32"
    using layout_refs [OF assms] assms by (simp_all add: plist_size_def)
  have small: "unat (of_nat k :: byte) = k" if "k \<le> 4" for k using that small_nibble(4) [of k] by simp
  have l: "length (length_bytes k) = 8" for k by (rule length_length_bytes)
  have parts: "trailer_bytes w ! 6 = of_nat (offset_size w)" "trailer_bytes w ! 7 = of_nat (ref_size w)"
    "take 8 (drop 8 (trailer_bytes w)) = length_bytes (next_ref w)"
    "take 8 (drop 16 (trailer_bytes w)) = length_bytes (next_ref w - 1)"
    "take 8 (drop 24 (trailer_bytes w)) = length_bytes (table_at w)"
    by (simp_all add: trailer_bytes_def l)
  show ?thesis
    unfolding read_plist_def Let_def tail parts read_length_bytes [OF n(1)] read_length_bytes [OF n(2)]
      read_length_bytes [OF n(3)] small [OF layout_sizes(2)] small [OF layout_sizes(4)] file_node_def [abs_def] head
    using long by (simp only: simp_thms if_False)
qed

lemma file_shows_table:
  assumes size: "plist_size w < 2 ^ 32" and pending: "length (all_pending w) \<le> 1" and ok: "table_ok w" and even: "dicts_even w"
  shows "shows_table (file_node w) w"
  unfolding shows_table_def
proof (intro allI impI)
  fix r assume r: "r < next_ref w"
  let ?k = "ref_size w" and ?o = "offset_size w" and ?objs = "tb_objects w"
  let ?offs = "offsets ?k 8 ?objs"
  have rl: "r < length ?objs" using r by (simp add: next_ref_def)
  define ob where "ob = ?objs ! r"
  note el = plist_fits_plan(2) [OF size pending]
  have T: "table_at w = 8 + length (encoded ?k ?objs)" by (simp add: table_at_def el)
  have "drop (table_at w) (plist_bytes w) = refs_bytes ?o ?offs @ trailer_bytes w"
    by (simp add: plist_bytes_def T del: lit_Cons)
  then have "drop (table_at w + r * ?o) (plist_bytes w) = drop (r * ?o) (refs_bytes ?o ?offs @ trailer_bytes w)"
    by (metis add.commute drop_drop)
  then have entry: "take ?o (drop (table_at w + r * ?o) (plist_bytes w)) = high_to_low ?o (of_nat (?offs ! r))"
    using refs_bytes_at [of r ?offs ?o "trailer_bytes w"] rl by (simp only: length_offsets)
  have parted: "encoded ?k ?objs = encoded ?k (take r ?objs) @ encode ?k ob @ encoded ?k (drop (Suc r) ?objs)"
    unfolding ob_def using rl by (rule encoded_at)
  have off: "?offs ! r = 8 + length (encoded ?k (take r ?objs))" using rl by (rule offsets_nth)
  have "?offs ! r \<le> table_at w" unfolding off T parted by simp
  moreover have "table_at w < 256 ^ ?o"
    using bytesNeeded_spec(3) [of "of_nat (table_at w)"] size by (simp add: offset_size_def plist_size_def)
  ultimately have "read_number (high_to_low ?o (of_nat (?offs ! r))) = ?offs ! r"
    using layout_sizes(4) by (intro read_number_ref) simp_all
  moreover have "drop (?offs ! r) (plist_bytes w)
      = encode ?k ob @ encoded ?k (drop (Suc r) ?objs) @ refs_bytes ?o ?offs @ trailer_bytes w"
    unfolding off plist_bytes_def by (simp add: parted del: lit_Cons)
  moreover have "\<forall>q\<in>set (object_refs ob). q < 256 ^ ?k"
  proof -
    have "next_ref w < 256 ^ ?k"
      using bytesNeeded_spec(3) [of "of_nat (next_ref w)"] layout_refs [OF size] by (simp add: ref_size_def)
    moreover have "\<forall>q\<in>set (object_refs ob). q < r" using ok r unfolding table_ok_def ob_def by blast
    ultimately show ?thesis using r by auto
  qed
  moreover have "object_bytes ob + length (object_refs ob) < 2 ^ 32"
  proof -
    have "ob \<in> set ?objs" using rl by (simp add: ob_def)
    then have "object_bytes ob \<le> table_bytes w" "length (object_refs ob) \<le> table_refs w"
      by (auto simp: table_bytes_def table_refs_def intro!: member_le_sum_list)
    then show ?thesis using plist_fits_plan(1) [OF size pending] by (simp add: plan_fits_def)
  qed
  moreover have "even (length rs)" if "ob = DictionaryObject rs" for rs
    using even that rl unfolding dicts_even_def ob_def by (metis nth_mem)
  ultimately show "file_node w r = Some (node_of (?objs ! r))"
    using r layout_sizes(2) [of w] read_node_encode [of ?k ob] by (simp add: file_node_def entry ob_def [symmetric])
qed

lemma plist_file_reads_back:
  assumes "is_root t" "balanced t" "plist_size (table_of t) < 2 ^ 32"
  shows "read_plist (plist_bytes (table_of t)) = Some (meaning t)"
proof -
  let ?w = "table_of t"
  have pending: "all_pending ?w = [next_ref ?w - 1]" "0 < next_ref ?w" using root_pending [OF assms(1)] by auto
  have ok: "table_ok ?w" by (rule table_play_ok(1)) (rule no_objects_ok)
  have "dicts_even ?w" using assms(2) by (intro play_even) (simp_all add: dicts_even_def no_objects_def)
  then have "shows_table (file_node ?w) ?w" using file_shows_table [OF assms(3) _ ok] pending by simp
  then have "leaves (file_node ?w) no_objects ?w [meaning t]" by (rule leaves_play(1) [OF no_objects_ok])
  moreover have "tb_outer ?w = []" "tb_pending no_objects = []" by (simp_all add: table_play_outer no_objects_def)
  ultimately have "sees (file_node ?w) (next_ref ?w - 1) (meaning t)"
    using pending(1) by (auto simp: leaves_def all_pending_def list_all2_Cons1)
  then show ?thesis using pending(2) unfolding read_plist_file [OF assms(3)] by (simp only: sees_def Suc_diff_1)
qed

section \<open>The properties\<close>

text \<open>C10: The plan and the serializer agree: for a list whose planned size fits in 32 bits, given a buffer of that size, no write
  leaves the buffer, and at the end it holds the header, every object of the client's table once, the offsets of the objects and
  the trailer, in that order, up to the last byte.\<close>

theorem writePropertyList_fills_buffer:
  assumes "is_root t" "balanced t" "plist_size (table_of t) < 2 ^ 32"
    and "buffer (of_nat (plist_size (table_of t))) = Some memory" "length memory = plist_size (table_of t)"
  shows "writePropertyList (play plan_stream t) (play serializer_stream t) buffer = Some (Some (plist_bytes (table_of t)))"
  using assms(1,3-5) by (rule writePropertyList_bytes)

definition sample_plist :: plist where
  "sample_plist = PDictionary [PString (lit ''n''), PString (lit ''a''), PInteger 300, PIntegerArray [1, 300]]"

text \<open>A list is small when its table is.\<close>

lemma plist_size_bound: "plist_size w \<le> 40 + table_bytes w + 4 * table_refs w + 4 * next_ref w"
proof -
  have "table_refs w * ref_size w \<le> table_refs w * 4" "next_ref w * offset_size w \<le> next_ref w * 4"
    by (intro mult_le_mono2 layout_sizes)+
  then show ?thesis unfolding plist_size_def table_at_def by linarith
qed

lemmas table_eval = table_ops object_ops refer_def array_object_def Let_def no_objects_def next_ref_def
  table_bytes_def table_refs_def int_count_def marker_count_def charactersAreAllASCII_def

lemma sample_size: "plist_size (table_of sample_plist) < 2 ^ 32"
  using plist_size_bound [of "table_of sample_plist"] by (simp add: sample_plist_def table_eval)

theorem writePropertyList_fills_buffer_witness:
  "writePropertyList (play plan_stream sample_plist) (play serializer_stream sample_plist) (\<lambda>n. Some (replicate (unat n) 0))
    = Some (Some (plist_bytes (table_of sample_plist)))"
proof (rule writePropertyList_fills_buffer [where memory = "replicate (unat (of_nat (plist_size (table_of sample_plist)) :: u32)) 0"])
  show "plist_size (table_of sample_plist) < 2 ^ 32" by (rule sample_size)
  then show "length (replicate (unat (of_nat (plist_size (table_of sample_plist)) :: u32)) (0 :: byte)) = plist_size (table_of sample_plist)"
    by simp
qed (simp_all add: is_root_def sample_plist_def)

text \<open>C15: For a list whose planned size fits in 32 bits, what the writer puts into the buffer reads back, by the published format of
  binary property lists, as the value its client described: shared objects are found again by their references, lengths and
  numbers at every width.\<close>

theorem property_list_roundtrip:
  assumes "is_root t" "balanced t" "plist_size (table_of t) < 2 ^ 32"
    and "\<forall>n. \<exists>memory. buffer n = Some memory \<and> length memory = unat n"
  shows "\<exists>file. writePropertyList (play plan_stream t) (play serializer_stream t) buffer = Some (Some file)
    \<and> read_plist file = Some (meaning t)"
proof -
  obtain memory where "buffer (of_nat (plist_size (table_of t))) = Some memory"
    "length memory = unat (of_nat (plist_size (table_of t)) :: u32)" using assms(4) by blast
  then show ?thesis
    using writePropertyList_bytes [OF assms(1,3)] plist_file_reads_back [OF assms(1-3)] assms(3) by auto
qed

theorem property_list_roundtrip_witness:
  "\<exists>file. writePropertyList (play plan_stream sample_plist) (play serializer_stream sample_plist)
      (\<lambda>n. Some (replicate (unat n) 0)) = Some (Some file)
    \<and> read_plist file = Some (DictionaryValue [(StringValue (lit ''n''), IntegerValue 300),
        (StringValue (lit ''a''), ArrayValue [IntegerValue 1, IntegerValue 300])])"
proof -
  have size: "plist_size (table_of sample_plist) < 2 ^ 32" by (rule sample_size)
  have "meaning sample_plist = DictionaryValue [(StringValue (lit ''n''), IntegerValue 300),
      (StringValue (lit ''a''), ArrayValue [IntegerValue 1, IntegerValue 300])]"
    by code_simp
  then show ?thesis
    using property_list_roundtrip [of sample_plist "\<lambda>n. Some (replicate (unat n) 0)"] size
    by (simp add: is_root_def sample_plist_def)
qed

end
