(* ===== verification/HistoryPropertyList.thy ===== *)
theory HistoryPropertyList
  imports PropertyListFacts Complex_Main
begin

text \<open>
  The client of the property list writer that saves the browsing history:
  src/WKC/WebCore/history/cf/WKC/HistoryPropertyList.cpp. The fields of a history item are those
  the writer reads; the rendering of a date, \<open>snprintf(buffer, 32, "%.1lf", date)\<close>, is a
  parameter. Which items are written, a pure virtual function, is their list.
\<close>

section \<open>The writer\<close>

record saved_item =
  it_urlString :: ustring
  it_title :: ustring
  it_alternateTitle :: ustring
  it_lastVisitedTime :: real
  it_visitCount :: u32
  it_lastVisitWasFailure :: bool
  it_lastVisitWasHTTPNonGet :: bool
  it_redirectURLs :: "ustring list option"
  it_dailyVisitCounts :: "u32 list"
  it_weeklyVisitCounts :: "u32 list"

definition currentFileVersion :: u32 where
  "currentFileVersion = 1"

text \<open>Statements in sequence, and a statement under an \<open>if\<close>.\<close>

fun steps :: "('s \<Rightarrow> 's option) list \<Rightarrow> 's \<Rightarrow> 's option" where
  "steps [] s = Some s"
| "steps (f # fs) s = Option.bind (f s) (steps fs)"

definition on :: "bool \<Rightarrow> ('s \<Rightarrow> 's option) \<Rightarrow> 's \<Rightarrow> 's option" where
  "on b f s = (if b then f s else Some s)"

definition write_redirects :: "'s object_stream \<Rightarrow> ustring list \<Rightarrow> 's \<Rightarrow> 's option" where
  "write_redirects S urls s =
     (let (start, s1) = writeArrayStart S s
      in Option.bind (each (writeUniqueString S) urls s1) (writeArrayEnd S start))"

definition writeHistoryItem :: "(real \<Rightarrow> byte list) \<Rightarrow> 's object_stream \<Rightarrow> saved_item \<Rightarrow> 's \<Rightarrow> 's option" where
  "writeHistoryItem date S item s =
     (let (start, s1) = writeDictionaryStart S s
      in Option.bind (steps [
           writeString S (lit ''''),
           on (it_title item \<noteq> []) (writeString S (lit ''title'')),
           on (it_alternateTitle item \<noteq> []) (writeString S (lit ''displayTitle'')),
           on (it_lastVisitedTime item \<noteq> 0) (writeString S (lit ''lastVisitedDate'')),
           on (it_visitCount item \<noteq> 0) (writeString S (lit ''visitCount'')),
           on (it_lastVisitWasFailure item) (writeString S (lit ''lastVisitWasFailure'')),
           on (it_lastVisitWasHTTPNonGet item) (writeString S (lit ''lastVisitWasHTTPNonGet'')),
           on (it_redirectURLs item \<noteq> None) (writeString S (lit ''redirectURLs'')),
           on (it_dailyVisitCounts item \<noteq> []) (writeString S (lit ''D'')),
           on (it_weeklyVisitCounts item \<noteq> []) (writeString S (lit ''W'')),
           writeUniqueString S (it_urlString item),
           on (it_title item \<noteq> []) (writeString S (it_title item)),
           on (it_alternateTitle item \<noteq> []) (writeString S (it_alternateTitle item)),
           on (it_lastVisitedTime item \<noteq> 0) (writeUniqueCString S (date (it_lastVisitedTime item))),
           on (it_visitCount item \<noteq> 0) (writeInteger S (it_visitCount item)),
           on (it_lastVisitWasFailure item) (writeBooleanTrue S),
           on (it_lastVisitWasHTTPNonGet item) (writeBooleanTrue S),
           (case it_redirectURLs item of None \<Rightarrow> Some | Some urls \<Rightarrow> write_redirects S urls),
           on (it_dailyVisitCounts item \<noteq> []) (writeIntegerArray S (it_dailyVisitCounts item)),
           on (it_weeklyVisitCounts item \<noteq> []) (writeIntegerArray S (it_weeklyVisitCounts item))] s1)
           (writeDictionaryEnd S start))"

definition writeObjects :: "(real \<Rightarrow> byte list) \<Rightarrow> 's object_stream \<Rightarrow> saved_item list \<Rightarrow> 's \<Rightarrow> 's option" where
  "writeObjects date S items s =
     (let (outer, s1) = writeDictionaryStart S s
      in Option.bind (steps [writeString S (lit ''WebHistoryFileVersion''), writeString S (lit ''WebHistoryDates''),
             writeInteger S currentFileVersion] s1) (\<lambda>s2.
         let (dates, s3) = writeArrayStart S s2
         in Option.bind (each (writeHistoryItem date S) items s3) (\<lambda>s4.
            Option.bind (writeArrayEnd S dates s4) (writeDictionaryEnd S outer))))"

section \<open>What the calls describe\<close>

definition under :: "bool \<Rightarrow> plist \<Rightarrow> plist list" where
  "under b t = (if b then [t] else [])"

definition item_keys :: "saved_item \<Rightarrow> plist list" where
  "item_keys item = PString (lit '''') # under (it_title item \<noteq> []) (PString (lit ''title''))
     @ under (it_alternateTitle item \<noteq> []) (PString (lit ''displayTitle''))
     @ under (it_lastVisitedTime item \<noteq> 0) (PString (lit ''lastVisitedDate''))
     @ under (it_visitCount item \<noteq> 0) (PString (lit ''visitCount''))
     @ under (it_lastVisitWasFailure item) (PString (lit ''lastVisitWasFailure''))
     @ under (it_lastVisitWasHTTPNonGet item) (PString (lit ''lastVisitWasHTTPNonGet''))
     @ under (it_redirectURLs item \<noteq> None) (PString (lit ''redirectURLs''))
     @ under (it_dailyVisitCounts item \<noteq> []) (PString (lit ''D''))
     @ under (it_weeklyVisitCounts item \<noteq> []) (PString (lit ''W''))"

definition item_values :: "(real \<Rightarrow> byte list) \<Rightarrow> saved_item \<Rightarrow> plist list" where
  "item_values date item = PUniqueString (it_urlString item) # under (it_title item \<noteq> []) (PString (it_title item))
     @ under (it_alternateTitle item \<noteq> []) (PString (it_alternateTitle item))
     @ under (it_lastVisitedTime item \<noteq> 0) (PUniqueCString (date (it_lastVisitedTime item)))
     @ under (it_visitCount item \<noteq> 0) (PInteger (it_visitCount item))
     @ under (it_lastVisitWasFailure item) PBooleanTrue
     @ under (it_lastVisitWasHTTPNonGet item) PBooleanTrue
     @ under (it_redirectURLs item \<noteq> None) (PArray (map PUniqueString (the (it_redirectURLs item))))
     @ under (it_dailyVisitCounts item \<noteq> []) (PIntegerArray (it_dailyVisitCounts item))
     @ under (it_weeklyVisitCounts item \<noteq> []) (PIntegerArray (it_weeklyVisitCounts item))"

definition item_plist :: "(real \<Rightarrow> byte list) \<Rightarrow> saved_item \<Rightarrow> plist" where
  "item_plist date item = PDictionary (item_keys item @ item_values date item)"

definition history_plist :: "(real \<Rightarrow> byte list) \<Rightarrow> saved_item list \<Rightarrow> plist" where
  "history_plist date items = PDictionary [PString (lit ''WebHistoryFileVersion''), PString (lit ''WebHistoryDates''),
     PInteger currentFileVersion, PArray (map (item_plist date) items)]"

lemma play_all_append: "play_all S (ts @ us) s = Option.bind (play_all S ts s) (play_all S us)"
  by (induction ts arbitrary: s) (auto split: Option.bind_split)

lemma play_calls:
  "play S (PString str) = writeString S str" "play S (PUniqueString str) = writeUniqueString S str"
  "play S (PUniqueCString cs) = writeUniqueCString S cs" "play S (PInteger i) = writeInteger S i"
  "play S PBooleanTrue = writeBooleanTrue S" "play S (PIntegerArray is) = writeIntegerArray S is"
  by (simp_all add: fun_eq_iff)

lemma play_all_one: "play_all S [t] = play S t"
proof
  fix s show "play_all S [t] s = play S t s" by (cases "play S t s") simp_all
qed

lemma play_all_under: "play_all S (under b t) = on b (play S t)"
proof
  fix s show "play_all S (under b t) s = on b (play S t) s" by (cases "play S t s") (simp_all add: under_def on_def)
qed

lemma steps_play: "steps (map (play_all S) tss) s = play_all S (concat tss) s"
  by (induction tss arbitrary: s) (auto simp: play_all_append split: Option.bind_split)

lemma each_play: "each (\<lambda>x. play S (f x)) xs s = play_all S (map f xs) s"
  by (induction xs arbitrary: s) (auto split: Option.bind_split)

lemma write_redirects_plays: "write_redirects S urls s = play S (PArray (map PUniqueString urls)) s"
  using each_play [of S PUniqueString urls] by (simp add: write_redirects_def case_prod_beta Let_def play_calls)

lemma writeHistoryItem_plays: "writeHistoryItem date S item s = play S (item_plist date item) s"
proof -
  have redirects: "(case it_redirectURLs item of None \<Rightarrow> Some | Some urls \<Rightarrow> write_redirects S urls)
      = on (it_redirectURLs item \<noteq> None) (play S (PArray (map PUniqueString (the (it_redirectURLs item)))))"
    by (cases "it_redirectURLs item") (simp_all add: on_def fun_eq_iff write_redirects_plays)
  define tss where "tss = [[PString (lit '''')], under (it_title item \<noteq> []) (PString (lit ''title'')),
    under (it_alternateTitle item \<noteq> []) (PString (lit ''displayTitle'')),
    under (it_lastVisitedTime item \<noteq> 0) (PString (lit ''lastVisitedDate'')),
    under (it_visitCount item \<noteq> 0) (PString (lit ''visitCount'')),
    under (it_lastVisitWasFailure item) (PString (lit ''lastVisitWasFailure'')),
    under (it_lastVisitWasHTTPNonGet item) (PString (lit ''lastVisitWasHTTPNonGet'')),
    under (it_redirectURLs item \<noteq> None) (PString (lit ''redirectURLs'')),
    under (it_dailyVisitCounts item \<noteq> []) (PString (lit ''D'')),
    under (it_weeklyVisitCounts item \<noteq> []) (PString (lit ''W'')),
    [PUniqueString (it_urlString item)], under (it_title item \<noteq> []) (PString (it_title item)),
    under (it_alternateTitle item \<noteq> []) (PString (it_alternateTitle item)),
    under (it_lastVisitedTime item \<noteq> 0) (PUniqueCString (date (it_lastVisitedTime item))),
    under (it_visitCount item \<noteq> 0) (PInteger (it_visitCount item)),
    under (it_lastVisitWasFailure item) PBooleanTrue, under (it_lastVisitWasHTTPNonGet item) PBooleanTrue,
    under (it_redirectURLs item \<noteq> None) (PArray (map PUniqueString (the (it_redirectURLs item)))),
    under (it_dailyVisitCounts item \<noteq> []) (PIntegerArray (it_dailyVisitCounts item)),
    under (it_weeklyVisitCounts item \<noteq> []) (PIntegerArray (it_weeklyVisitCounts item))]"
  have "item_keys item @ item_values date item = concat tss"
    by (simp add: tss_def item_keys_def item_values_def)
  then have body: "play_all S (item_keys item @ item_values date item) = steps (map (play_all S) tss)"
    by (simp add: fun_eq_iff steps_play)
  show ?thesis
    unfolding writeHistoryItem_def item_plist_def case_prod_beta Let_def redirects play.simps(8) body
    by (simp only: tss_def list.map play_all_one play_all_under play_calls)
qed

lemma writeObjects_plays: "writeObjects date S items s = play S (history_plist date items) s"
proof -
  have "each (writeHistoryItem date S) items t = play_all S (map (item_plist date) items) t" for t
    using each_play [of S "item_plist date"] by (simp add: writeHistoryItem_plays [abs_def])
  then show ?thesis
    unfolding writeObjects_def history_plist_def case_prod_beta Let_def
    by (auto split: Option.bind_split)
qed

section \<open>The saved history\<close>

definition history_item_value :: "(real \<Rightarrow> byte list) \<Rightarrow> saved_item \<Rightarrow> plist_value" where
  "history_item_value date item = DictionaryValue (map (\<lambda>(k, v). (StringValue k, v))
     ((lit '''', StringValue (it_urlString item))
      # (if it_title item \<noteq> [] then [(lit ''title'', StringValue (it_title item))] else [])
      @ (if it_alternateTitle item \<noteq> [] then [(lit ''displayTitle'', StringValue (it_alternateTitle item))] else [])
      @ (if it_lastVisitedTime item \<noteq> 0
         then [(lit ''lastVisitedDate'', StringValue (map ucast (date (it_lastVisitedTime item))))] else [])
      @ (if it_visitCount item \<noteq> 0 then [(lit ''visitCount'', IntegerValue (unat (it_visitCount item)))] else [])
      @ (if it_lastVisitWasFailure item then [(lit ''lastVisitWasFailure'', TrueValue)] else [])
      @ (if it_lastVisitWasHTTPNonGet item then [(lit ''lastVisitWasHTTPNonGet'', TrueValue)] else [])
      @ (case it_redirectURLs item of None \<Rightarrow> [] | Some urls \<Rightarrow> [(lit ''redirectURLs'', ArrayValue (map StringValue urls))])
      @ (if it_dailyVisitCounts item \<noteq> []
         then [(lit ''D'', ArrayValue (map (\<lambda>n. IntegerValue (unat n)) (it_dailyVisitCounts item)))] else [])
      @ (if it_weeklyVisitCounts item \<noteq> []
         then [(lit ''W'', ArrayValue (map (\<lambda>n. IntegerValue (unat n)) (it_weeklyVisitCounts item)))] else [])))"

definition history_value :: "(real \<Rightarrow> byte list) \<Rightarrow> saved_item list \<Rightarrow> plist_value" where
  "history_value date items = DictionaryValue
     [(StringValue (lit ''WebHistoryFileVersion''), IntegerValue 1),
      (StringValue (lit ''WebHistoryDates''), ArrayValue (map (history_item_value date) items))]"

lemma pair_up_equal: "length ks = length vs \<Longrightarrow> pair_up (ks @ vs) = zip ks vs"
  by (simp add: pair_up_def)

lemma keys_values: "length (item_keys item) = length (item_values date item)"
  by (simp add: item_keys_def item_values_def under_def)

lemma zip_under:
  "zip (map meaning (under b k) @ ks) (map meaning (under b v) @ vs)
    = (if b then [(meaning k, meaning v)] else []) @ zip ks vs"
  by (simp add: under_def)

lemma zip_under_last:
  "zip (map meaning (under b k)) (map meaning (under b v)) = (if b then [(meaning k, meaning v)] else [])"
  by (simp add: under_def)

lemma meaning_item: "meaning (item_plist date item) = history_item_value date item"
proof -
  have "meaning (item_plist date item) = DictionaryValue (zip (map meaning (item_keys item)) (map meaning (item_values date item)))"
    using keys_values [of item date] by (simp add: item_plist_def pair_up_equal)
  also have "\<dots> = history_item_value date item"
    unfolding item_keys_def item_values_def history_item_value_def map_append list.map zip_Cons_Cons zip_under zip_under_last
    by (cases "it_redirectURLs item") (simp_all add: o_def)
  finally show ?thesis .
qed

lemma meaning_history: "meaning (history_plist date items) = history_value date items"
proof -
  have "map (meaning \<circ> item_plist date) items = map (history_item_value date) items" by (simp add: meaning_item)
  then show ?thesis
    by (simp add: history_plist_def history_value_def pair_up_def currentFileVersion_def)
qed

text \<open>Counts are not negative, and a rendered date has no zero byte before its end.\<close>

definition item_ok :: "(real \<Rightarrow> byte list) \<Rightarrow> saved_item \<Rightarrow> bool" where
  "item_ok date item \<longleftrightarrow> it_visitCount item < 0x80000000 \<and> 0 \<notin> set (date (it_lastVisitedTime item))
     \<and> list_all (\<lambda>n. n < 0x80000000) (it_dailyVisitCounts item @ it_weeklyVisitCounts item)"

lemma balanced_item:
  assumes "item_ok date item"
  shows "balanced (item_plist date item)"
proof -
  have under: "list_all balanced (under b t) \<longleftrightarrow> (b \<longrightarrow> balanced t)" for b t by (simp add: under_def)
  have "even (length (item_keys item @ item_values date item))" using keys_values [of item date] by simp
  moreover have "list_all balanced (item_keys item @ item_values date item)"
    using assms by (simp add: item_ok_def item_keys_def item_values_def under list.pred_map o_def list.pred_True)
  ultimately show ?thesis by (simp add: item_plist_def)
qed

lemma balanced_history:
  "list_all (item_ok date) items \<Longrightarrow> balanced (history_plist date items)" "is_root (history_plist date items)"
  by (auto simp: history_plist_def list_all_iff balanced_item currentFileVersion_def is_root_def)

text \<open>C33: When it fits in 32 bits, no count of an item is negative and no date has a NUL, the file the history is saved to reads back as
  the version and the list of the items, every item with just the fields it has.\<close>

theorem history_file_reads_back:
  assumes "list_all (item_ok date) items" "plist_size (table_of (history_plist date items)) < 2 ^ 32"
    and "\<forall>n. \<exists>memory. buffer n = Some memory \<and> length memory = unat n"
  shows "\<exists>file. writePropertyList (writeObjects date plan_stream items) (writeObjects date serializer_stream items) buffer
      = Some (Some file) \<and> read_plist file = Some (history_value date items)"
proof -
  let ?t = "history_plist date items"
  have plays: "writeObjects date S items = play S ?t" for S :: "'s object_stream"
    by (simp add: fun_eq_iff writeObjects_plays)
  obtain memory where "buffer (of_nat (plist_size (table_of ?t))) = Some memory"
    "length memory = unat (of_nat (plist_size (table_of ?t)) :: u32)" using assms(3) by blast
  then show ?thesis
    unfolding plays
    using writePropertyList_bytes [OF balanced_history(2) assms(2)]
      plist_file_reads_back [OF balanced_history(2,1) assms(2)] assms(1,2) meaning_history by auto
qed

definition sample_item :: saved_item where
  "sample_item = \<lparr>it_urlString = lit ''http://a/'', it_title = lit ''a'', it_alternateTitle = [], it_lastVisitedTime = 1,
     it_visitCount = 2, it_lastVisitWasFailure = True, it_lastVisitWasHTTPNonGet = False,
     it_redirectURLs = Some [lit ''http://b/''], it_dailyVisitCounts = [2, 300], it_weeklyVisitCounts = []\<rparr>"

theorem history_file_reads_back_witness:
  "\<exists>file. writePropertyList (writeObjects (\<lambda>_. lit ''1.0'') plan_stream [sample_item])
      (writeObjects (\<lambda>_. lit ''1.0'') serializer_stream [sample_item]) (\<lambda>n. Some (replicate (unat n) 0)) = Some (Some file)
    \<and> read_plist file = Some (history_value (\<lambda>_. lit ''1.0'') [sample_item])"
proof -
  have "plist_size (table_of (history_plist (\<lambda>_. lit ''1.0'') [sample_item])) < 2 ^ 32"
    using plist_size_bound [of "table_of (history_plist (\<lambda>_. lit ''1.0'') [sample_item])"]
    by (simp add: history_plist_def item_plist_def item_keys_def item_values_def under_def sample_item_def
        currentFileVersion_def table_eval)
  then show ?thesis
    using history_file_reads_back [of "\<lambda>_. lit ''1.0''" "[sample_item]" "\<lambda>n. Some (replicate (unat n) 0)"]
    by (simp add: item_ok_def sample_item_def)
qed

end
