(* ===== verification/ThreadableLoader.thy ===== *)
theory ThreadableLoader
  imports CrossOriginFacts
begin

text \<open>
  Loads on behalf of scripts: src/webkit/WebCore/loader/DocumentThreadableLoader.cpp, with the
  options of ThreadableLoader.h. The loader is a state machine between three parties: its client,
  which is called back and may cancel the loader in a callback; the subresource loader below it,
  whose calls are events; and the shared cache of preflight results. What happens is recorded in
  a trace, the newest action first.
\<close>

section \<open>Requests and responses\<close>

datatype cross_origin_policy = DenyCrossOriginRequests | UseAccessControl | AllowCrossOriginRequests

record threadable_options =
  opt_sendLoadCallbacks :: bool
  opt_sniffContent :: bool
  opt_allowCredentials :: bool
  opt_forcePreflight :: bool
  opt_crossOriginRequestPolicy :: cross_origin_policy

record resource_request =
  rq_url :: KURL
  rq_httpMethod :: ustring
  rq_httpHeaderFields :: header_map
  rq_allowCookies :: bool

record resource_response =
  rs_url :: KURL
  rs_httpStatusCode :: int
  rs_httpHeaderFields :: header_map

text \<open>A new request is a GET without header fields that allows cookies.\<close>

definition ResourceRequest_new :: "KURL \<Rightarrow> resource_request" where
  "ResourceRequest_new url = \<lparr>rq_url = url, rq_httpMethod = lit ''GET'', rq_httpHeaderFields = [], rq_allowCookies = True\<rparr>"

text \<open>The names of header fields fold case; a field that is set again keeps its name.\<close>

fun header_set :: "unicode_peer \<Rightarrow> ustring \<Rightarrow> ustring \<Rightarrow> header_map \<Rightarrow> header_map" where
  "header_set U name value [] = [(name, value)]"
| "header_set U name value ((k, v) # rest) =
     (if equalIgnoringCase U k name then (k, value) # rest else (k, v) # header_set U name value rest)"

definition setHTTPHeaderField :: "unicode_peer \<Rightarrow> byte list \<Rightarrow> ustring \<Rightarrow> resource_request \<Rightarrow> resource_request" where
  "setHTTPHeaderField U name value rq =
     rq\<lparr>rq_httpHeaderFields := header_set U (latin1 name) value (rq_httpHeaderFields rq)\<rparr>"

definition setHTTPOrigin :: "unicode_peer \<Rightarrow> ustring \<Rightarrow> resource_request \<Rightarrow> resource_request" where
  "setHTTPOrigin U origin = setHTTPHeaderField U (lit ''Origin'') origin"

definition removeCredentials :: "resource_request \<Rightarrow> resource_request" where
  "removeCredentials rq = rq\<lparr>rq_url := setPass [] (setUser [] (rq_url rq))\<rparr>"

section \<open>The loader\<close>

datatype security_check = DoSecurityCheck | SkipSecurityCheck

datatype loader_action =
    Requested resource_request security_check
  | ClientDidSendData nat nat
  | ClientDidReceiveResponse resource_response
  | ClientDidReceiveData "byte list"
  | ClientDidFinishLoading
  | ClientDidFail
  | ClientDidFailByCancellation
  | ClientDidFailRedirectCheck
  | ClientDidReceiveAuthenticationCancellation

text \<open>
  What the code takes from elsewhere: the document's origin with the static registries, the
  reaction of the client to a callback (whether it cancels the loader, given the trace up to and
  with the callback), the outcome of \<open>SubresourceLoader::create\<close> (a loader, none, or none with the
  failure reported first), and the answer of the network to a synchronous load.
\<close>

datatype create_outcome = Created | NotCreated | FailedInCreate

record sync_answer =
  sa_error :: bool
  sa_response :: resource_response
  sa_data :: "byte list"
  sa_time :: real

record loader_environment =
  le_library :: url_library
  le_registry :: origin_registry
  le_origin :: security_origin
  le_cancels :: "loader_action list \<Rightarrow> bool"
  le_create :: "resource_request \<Rightarrow> security_check \<Rightarrow> create_outcome"
  le_network :: "resource_request \<Rightarrow> sync_answer"

text \<open>
  \<open>tl_loader\<close> says whether \<open>m_loader\<close> is set, \<open>tl_active\<close> whether a subresource loader still calls
  back: it has not come to its end and its client is this loader.
\<close>

record threadable_loader =
  tl_loader :: bool
  tl_active :: bool
  tl_client :: bool
  tl_options :: threadable_options
  tl_sameOriginRequest :: bool
  tl_async :: bool
  tl_actualRequest :: "resource_request option"
  tl_cache :: preflight_cache
  tl_trace :: "loader_action list"

definition act :: "loader_action \<Rightarrow> threadable_loader \<Rightarrow> threadable_loader" where
  "act a s = s\<lparr>tl_trace := a # tl_trace s\<rparr>"

text \<open>
  \<open>cancel()\<close>: a subresource loader that is still active reports its cancellation to the client
  before it loses it. (A client that cancels again in that report recurs without end; it does not
  here.)
\<close>

definition tl_cancel :: "threadable_loader \<Rightarrow> threadable_loader" where
  "tl_cancel s =
     (if \<not> tl_loader s then s
      else (if tl_active s then act ClientDidFailByCancellation s else s)
             \<lparr>tl_active := False, tl_loader := False, tl_client := False\<rparr>)"

definition client_call :: "loader_environment \<Rightarrow> loader_action \<Rightarrow> threadable_loader \<Rightarrow> threadable_loader" where
  "client_call E a s = (let s' = act a s in if le_cancels E (tl_trace s') then tl_cancel s' else s')"

definition tl_destroy :: "threadable_loader \<Rightarrow> threadable_loader" where
  "tl_destroy s = s\<lparr>tl_active := False\<rparr>"

definition isAllowedRedirect :: "loader_environment \<Rightarrow> KURL \<Rightarrow> threadable_loader \<Rightarrow> bool" where
  "isAllowedRedirect E url s =
     (if opt_crossOriginRequestPolicy (tl_options s) = AllowCrossOriginRequests then True
      else tl_sameOriginRequest s \<and> canRequest (le_library E) (le_registry E) (le_origin E) url)"

definition preflightFailure :: "loader_environment \<Rightarrow> threadable_loader \<Rightarrow> threadable_loader" where
  "preflightFailure E s = client_call E ClientDidFail s"

definition tl_didReceiveResponse ::
  "loader_environment \<Rightarrow> real \<Rightarrow> resource_response \<Rightarrow> threadable_loader \<Rightarrow> threadable_loader" where
  "tl_didReceiveResponse E now response s =
     (let L = le_library E;
          allowCredentials = opt_allowCredentials (tl_options s);
          passes = passesAccessControlCheck L (le_registry E) (rs_httpHeaderFields response) allowCredentials (le_origin E)
      in case tl_actualRequest s of
           Some actual \<Rightarrow>
             if \<not> passes then preflightFailure E s
             else let (parsed, item) = preflight_parse (lib_peer L) now (rs_httpHeaderFields response)
                                         (preflight_item_new allowCredentials)
                  in if \<not> parsed \<or> \<not> allowsCrossOriginMethod item (rq_httpMethod actual)
                        \<or> \<not> allowsCrossOriginHeaders (lib_peer L) item (rq_httpHeaderFields actual)
                     then preflightFailure E s
                     else s\<lparr>tl_cache := cache_appendEntry (SecurityOrigin_toString (le_origin E)) (rq_url actual)
                                          item (tl_cache s)\<rparr>
         | None \<Rightarrow>
             if \<not> tl_sameOriginRequest s \<and> opt_crossOriginRequestPolicy (tl_options s) = UseAccessControl \<and> \<not> passes
             then client_call E ClientDidFail s
             else client_call E (ClientDidReceiveResponse response) s)"

definition tl_didReceiveData :: "loader_environment \<Rightarrow> byte list \<Rightarrow> threadable_loader \<Rightarrow> threadable_loader" where
  "tl_didReceiveData E bytes s = client_call E (ClientDidReceiveData bytes) s"

section \<open>Loading\<close>

text \<open>\<open>loadRequest\<close> of an asynchronous loader. A client that cancels during the creation finds no loader.\<close>

definition loadRequest_async ::
  "loader_environment \<Rightarrow> resource_request \<Rightarrow> security_check \<Rightarrow> threadable_loader \<Rightarrow> threadable_loader" where
  "loadRequest_async E rq check s0 =
     (let s = s0\<lparr>tl_loader := False\<rparr>
      in case le_create E rq check of
           Created \<Rightarrow> (act (Requested rq check) s)\<lparr>tl_loader := True, tl_active := True\<rparr>
         | NotCreated \<Rightarrow> s\<lparr>tl_active := False\<rparr>
         | FailedInCreate \<Rightarrow> (client_call E ClientDidFail s)\<lparr>tl_active := False\<rparr>)"

lemma actualRequest_unchanged [simp]:
  "tl_actualRequest (act a s) = tl_actualRequest s" "tl_actualRequest (tl_cancel s) = tl_actualRequest s"
  "tl_actualRequest (client_call E a s) = tl_actualRequest s"
  "tl_actualRequest (tl_didReceiveResponse E now r s) = tl_actualRequest s"
  "tl_actualRequest (tl_didReceiveData E bs s) = tl_actualRequest s"
  by (simp_all add: act_def tl_cancel_def client_call_def tl_didReceiveResponse_def tl_didReceiveData_def
      preflightFailure_def Let_def split: option.splits prod.splits)

text \<open>
  \<open>loadRequest\<close> of a synchronous loader: the whole load, with the end of a preflight starting the
  load of the actual request.
\<close>

function loadRequest_sync ::
  "loader_environment \<Rightarrow> resource_request \<Rightarrow> security_check \<Rightarrow> threadable_loader \<Rightarrow> threadable_loader" where
  "loadRequest_sync E rq check s0 =
     (let s = act (Requested rq check) s0; answer = le_network E rq; response = sa_response answer
      in if sa_error answer \<and> \<not> isLocalFile (rq_url rq) \<and> rs_httpStatusCode response \<le> 0
         then client_call E ClientDidFail s
         else if m_string (rq_url rq) \<noteq> m_string (rs_url response) \<and> \<not> isAllowedRedirect E (rs_url response) s
         then client_call E ClientDidFailRedirectCheck s
         else let s1 = tl_didReceiveData E (sa_data answer) (tl_didReceiveResponse E (sa_time answer) response s)
              in case tl_actualRequest s1 of
                   Some actual \<Rightarrow> loadRequest_sync E actual SkipSecurityCheck (s1\<lparr>tl_actualRequest := None\<rparr>)
                 | None \<Rightarrow> client_call E ClientDidFinishLoading s1)"
  by pat_completeness auto
termination loadRequest_sync
  by (relation "measure (\<lambda>(E, rq, check, s). if tl_actualRequest s = None then 0 else 1)") auto

declare loadRequest_sync.simps [simp del]

definition loadRequest ::
  "loader_environment \<Rightarrow> resource_request \<Rightarrow> security_check \<Rightarrow> threadable_loader \<Rightarrow> threadable_loader" where
  "loadRequest E rq check s =
     (if tl_async s then loadRequest_async E rq check s else loadRequest_sync E rq check s)"

definition preflightSuccess :: "loader_environment \<Rightarrow> resource_request \<Rightarrow> threadable_loader \<Rightarrow> threadable_loader" where
  "preflightSuccess E actual s = loadRequest E actual SkipSecurityCheck (s\<lparr>tl_actualRequest := None\<rparr>)"

definition makeSimpleCrossOriginAccessRequest ::
  "loader_environment \<Rightarrow> resource_request \<Rightarrow> threadable_loader \<Rightarrow> threadable_loader" where
  "makeSimpleCrossOriginAccessRequest E rq s =
     (if \<not> m_protocolInHTTPFamily (rq_url rq) then client_call E ClientDidFail s
      else loadRequest E
             (setHTTPOrigin (lib_peer (le_library E)) (SecurityOrigin_toString (le_origin E))
               ((removeCredentials rq)\<lparr>rq_allowCookies := opt_allowCredentials (tl_options s)\<rparr>))
             DoSecurityCheck s)"

fun comma_separated :: "ustring list \<Rightarrow> ustring" where
  "comma_separated [] = []"
| "comma_separated [name] = name"
| "comma_separated (name # names) = name @ lit '', '' @ comma_separated names"

definition preflight_request :: "loader_environment \<Rightarrow> bool \<Rightarrow> resource_request \<Rightarrow> resource_request" where
  "preflight_request E allowCredentials rq =
     (let U = lib_peer (le_library E);
          preflight = setHTTPHeaderField U (lit ''Access-Control-Request-Method'') (rq_httpMethod rq)
            ((setHTTPOrigin U (SecurityOrigin_toString (le_origin E)) (removeCredentials (ResourceRequest_new (rq_url rq))))
               \<lparr>rq_allowCookies := allowCredentials, rq_httpMethod := lit ''OPTIONS''\<rparr>)
      in if rq_httpHeaderFields rq \<noteq> []
         then setHTTPHeaderField U (lit ''Access-Control-Request-Headers'')
                (comma_separated (map fst (rq_httpHeaderFields rq))) preflight
         else preflight)"

definition makeCrossOriginAccessRequestWithPreflight ::
  "loader_environment \<Rightarrow> resource_request \<Rightarrow> threadable_loader \<Rightarrow> threadable_loader" where
  "makeCrossOriginAccessRequestWithPreflight E rq s =
     loadRequest E (preflight_request E (opt_allowCredentials (tl_options s)) rq) DoSecurityCheck s"

text \<open>The constructor; \<open>now\<close> is the time of the look into the cache.\<close>

definition DocumentThreadableLoader_new ::
  "loader_environment \<Rightarrow> real \<Rightarrow> preflight_cache \<Rightarrow> bool \<Rightarrow> resource_request \<Rightarrow> threadable_options \<Rightarrow> threadable_loader" where
  "DocumentThreadableLoader_new E now cache async rq options =
     (let L = le_library E;
          s = \<lparr>tl_loader = False, tl_active = False, tl_client = True, tl_options = options,
               tl_sameOriginRequest = canRequest L (le_registry E) (le_origin E) (rq_url rq), tl_async = async,
               tl_actualRequest = None, tl_cache = cache, tl_trace = []\<rparr>
      in if tl_sameOriginRequest s \<or> opt_crossOriginRequestPolicy options = AllowCrossOriginRequests
         then loadRequest E rq DoSecurityCheck s
         else if opt_crossOriginRequestPolicy options = DenyCrossOriginRequests then client_call E ClientDidFail s
         else if \<not> opt_forcePreflight options
                 \<and> isSimpleCrossOriginAccessRequest (lib_peer L) (rq_httpMethod rq) (rq_httpHeaderFields rq)
         then makeSimpleCrossOriginAccessRequest E rq s
         else let actual = rq\<lparr>rq_allowCookies := opt_allowCredentials options\<rparr>;
                  (skip, cache') = canSkipPreflight (lib_peer L) now (SecurityOrigin_toString (le_origin E)) (rq_url rq)
                                     (opt_allowCredentials options) (rq_httpMethod rq) (rq_httpHeaderFields rq) cache;
                  s1 = s\<lparr>tl_actualRequest := Some actual, tl_cache := cache'\<rparr>
              in if skip then preflightSuccess E actual s1
                 else makeCrossOriginAccessRequestWithPreflight E rq s1)"

section \<open>The calls of the subresource loader\<close>

text \<open>Before a redirect: whether the request stays as it is; a null request stands for none.\<close>

definition tl_willSendRequest :: "loader_environment \<Rightarrow> KURL \<Rightarrow> threadable_loader \<Rightarrow> bool \<times> threadable_loader" where
  "tl_willSendRequest E url s =
     (if \<not> isAllowedRedirect E url s then (False, client_call E ClientDidFailRedirectCheck s) else (True, s))"

definition tl_didSendData :: "loader_environment \<Rightarrow> nat \<Rightarrow> nat \<Rightarrow> threadable_loader \<Rightarrow> threadable_loader" where
  "tl_didSendData E bytesSent totalBytesToBeSent s = client_call E (ClientDidSendData bytesSent totalBytesToBeSent) s"

definition tl_didFinishLoading :: "loader_environment \<Rightarrow> threadable_loader \<Rightarrow> threadable_loader" where
  "tl_didFinishLoading E s =
     (case tl_actualRequest s of
        Some actual \<Rightarrow> preflightSuccess E actual s
      | None \<Rightarrow> (client_call E ClientDidFinishLoading s)\<lparr>tl_active := False\<rparr>)"

definition tl_didFail :: "loader_environment \<Rightarrow> threadable_loader \<Rightarrow> threadable_loader" where
  "tl_didFail E s = (client_call E ClientDidFail s)\<lparr>tl_active := False\<rparr>"

definition getShouldUseCredentialStorage :: "threadable_loader \<Rightarrow> bool option" where
  "getShouldUseCredentialStorage s = (if \<not> opt_allowCredentials (tl_options s) then Some False else None)"

definition tl_didReceiveAuthenticationChallenge :: "loader_environment \<Rightarrow> threadable_loader \<Rightarrow> threadable_loader" where
  "tl_didReceiveAuthenticationChallenge E s =
     (if \<not> tl_sameOriginRequest s then tl_cancel (client_call E ClientDidFail s) else s)"

definition tl_receivedCancellation :: "loader_environment \<Rightarrow> threadable_loader \<Rightarrow> threadable_loader" where
  "tl_receivedCancellation E s = client_call E ClientDidReceiveAuthenticationCancellation s"

datatype loader_event =
    WillSendRequest KURL
  | DidSendData nat nat
  | DidReceiveResponse real resource_response
  | DidReceiveData "byte list"
  | DidFinishLoading
  | DidFail
  | DidReceiveAuthenticationChallenge
  | ReceivedCancellation
  | Cancel
  | Destroy

text \<open>The subresource loader calls while it is active; the owner may cancel or destroy at any time.\<close>

fun loader_step :: "loader_environment \<Rightarrow> loader_event \<Rightarrow> threadable_loader \<Rightarrow> threadable_loader" where
  "loader_step E Cancel s = tl_cancel s"
| "loader_step E Destroy s = tl_destroy s"
| "loader_step E (WillSendRequest url) s = (if tl_active s then snd (tl_willSendRequest E url s) else s)"
| "loader_step E (DidSendData n m) s = (if tl_active s then tl_didSendData E n m s else s)"
| "loader_step E (DidReceiveResponse now r) s = (if tl_active s then tl_didReceiveResponse E now r s else s)"
| "loader_step E (DidReceiveData bs) s = (if tl_active s then tl_didReceiveData E bs s else s)"
| "loader_step E DidFinishLoading s = (if tl_active s then tl_didFinishLoading E s else s)"
| "loader_step E DidFail s = (if tl_active s then tl_didFail E s else s)"
| "loader_step E DidReceiveAuthenticationChallenge s = (if tl_active s then tl_didReceiveAuthenticationChallenge E s else s)"
| "loader_step E ReceivedCancellation s = (if tl_active s then tl_receivedCancellation E s else s)"

end
