(* ===== verification/ThreadableLoaderFacts.thy ===== *)
theory ThreadableLoaderFacts
  imports ThreadableLoader
begin

text \<open>
  What a script's load may see and send: the client gets a response only if it may read it, an
  unusual cross-origin request of an asynchronous loader goes out only after the server agreed to
  it, and the hole of the synchronous loader.
\<close>

section \<open>Frames\<close>

text \<open>What no step changes: the options, the comparison of the origins and the mode.\<close>

definition same_setting :: "threadable_loader \<Rightarrow> threadable_loader \<Rightarrow> bool" where
  "same_setting s s' \<longleftrightarrow> tl_options s' = tl_options s \<and> tl_sameOriginRequest s' = tl_sameOriginRequest s
     \<and> tl_async s' = tl_async s"

lemma same_setting_refl [simp]: "same_setting s s"
  by (simp add: same_setting_def)

lemma same_setting_trans [trans]: "same_setting s s' \<Longrightarrow> same_setting s' s'' \<Longrightarrow> same_setting s s''"
  by (simp add: same_setting_def)

lemma same_setting_calls [simp]:
  "same_setting s (act a s)" "same_setting s (tl_cancel s)" "same_setting s (client_call E a s)"
  "same_setting s (preflightFailure E s)" "same_setting s (tl_didReceiveResponse E now r s)"
  "same_setting s (tl_didReceiveData E bs s)" "same_setting s (tl_destroy s)"
  by (simp_all add: same_setting_def act_def tl_cancel_def client_call_def preflightFailure_def tl_didReceiveResponse_def
      tl_didReceiveData_def tl_destroy_def Let_def split: option.splits prod.splits)

lemma active_calls:
  "tl_active (client_call E a s) \<Longrightarrow> tl_active s" "tl_active (tl_didReceiveResponse E now r s) \<Longrightarrow> tl_active s"
  "tl_active (tl_didReceiveData E bs s) \<Longrightarrow> tl_active s" "tl_active (tl_cancel s) \<Longrightarrow> tl_active s"
  by (auto simp: act_def tl_cancel_def client_call_def tl_didReceiveResponse_def tl_didReceiveData_def
      preflightFailure_def Let_def split: option.splits prod.splits if_splits)

lemma trace_calls:
  "set (tl_trace (tl_cancel s)) \<subseteq> insert ClientDidFailByCancellation (set (tl_trace s))"
  "set (tl_trace (client_call E a s)) \<subseteq> {a, ClientDidFailByCancellation} \<union> set (tl_trace s)"
  by (auto simp: act_def tl_cancel_def client_call_def Let_def)

section \<open>An invariant of every step\<close>

text \<open>
  A property of states that every call to the client and every request preserves, and that does
  not look at the flags, is preserved by all operations; the locale carries it through the two
  modes of loading.
\<close>

locale loader_invariant =
  fixes E :: loader_environment and inv :: "threadable_loader \<Rightarrow> bool"
  assumes call: "inv s \<Longrightarrow> (\<And>r. a \<noteq> ClientDidReceiveResponse r) \<Longrightarrow> inv (client_call E a s)"
    and response: "inv s \<Longrightarrow> inv (tl_didReceiveResponse E now r s)"
    and cancelled: "inv s \<Longrightarrow> inv (tl_cancel s)"
    and requested: "inv s \<Longrightarrow> inv (act (Requested q c) s)"
    and flags: "inv s \<Longrightarrow> inv (s\<lparr>tl_loader := l, tl_active := b\<rparr>)"
    and request: "inv s \<Longrightarrow> inv (s\<lparr>tl_actualRequest := x, tl_cache := cache\<rparr>)"
begin

lemma one_flag: "inv s \<Longrightarrow> inv (s\<lparr>tl_active := b\<rparr>)" "inv s \<Longrightarrow> inv (s\<lparr>tl_loader := l\<rparr>)"
  "inv s \<Longrightarrow> inv (s\<lparr>tl_actualRequest := x\<rparr>)"
  using flags [of s _ "tl_loader s"] flags [of s "tl_active s"] request [of s "tl_cache s"] by simp_all

lemma data: "inv s \<Longrightarrow> inv (tl_didReceiveData E bs s)"
  by (simp add: tl_didReceiveData_def call)

lemma sync: "E' = E \<Longrightarrow> inv s \<Longrightarrow> inv (loadRequest_sync E' q c s)"
proof (induction E' q c s rule: loadRequest_sync.induct)
  case (1 E' q c s)
  let ?s = "act (Requested q c) s" and ?a = "le_network E q"
  let ?s1 = "tl_didReceiveData E (sa_data ?a) (tl_didReceiveResponse E (sa_time ?a) (sa_response ?a) ?s)"
  have "inv ?s" "inv ?s1" using 1(3) requested response data by blast+
  then show ?case using 1(1) [OF refl refl refl] 1(2)
    by (auto simp: loadRequest_sync.simps [of E q c s] Let_def call one_flag split: option.split)
qed

lemma async: "inv s \<Longrightarrow> inv (loadRequest_async E q c s)"
  by (auto simp: loadRequest_async_def Let_def call one_flag flags requested split: create_outcome.split)

lemma load: "inv s \<Longrightarrow> inv (loadRequest E q c s)"
  by (simp add: loadRequest_def sync async)

lemma started:
  assumes "\<And>x cache' l b. inv \<lparr>tl_loader = l, tl_active = b, tl_client = True, tl_options = options,
      tl_sameOriginRequest = canRequest (le_library E) (le_registry E) (le_origin E) (rq_url rq), tl_async = async,
      tl_actualRequest = x, tl_cache = cache', tl_trace = []\<rparr>"
  shows "inv (DocumentThreadableLoader_new E now cache async rq options)"
  using assms by (auto simp: DocumentThreadableLoader_new_def Let_def load call one_flag preflightSuccess_def
      makeSimpleCrossOriginAccessRequest_def makeCrossOriginAccessRequestWithPreflight_def split: prod.split)

lemma stepped: "inv s \<Longrightarrow> inv (loader_step E e s)"
  by (cases e) (auto simp: cancelled one_flag call response data load tl_destroy_def tl_willSendRequest_def tl_didSendData_def
      tl_didFinishLoading_def tl_didFail_def tl_didReceiveAuthenticationChallenge_def tl_receivedCancellation_def
      preflightSuccess_def split: option.split)

lemma run: "inv s \<Longrightarrow> inv (fold (loader_step E) events s)"
  by (induction events arbitrary: s) (simp_all add: stepped)

end

section \<open>What the client may read\<close>

definition may_read :: "loader_environment \<Rightarrow> threadable_loader \<Rightarrow> resource_response \<Rightarrow> bool" where
  "may_read E s r \<longleftrightarrow> tl_sameOriginRequest s \<or> opt_crossOriginRequestPolicy (tl_options s) \<noteq> UseAccessControl
     \<or> passesAccessControlCheck (le_library E) (le_registry E) (rs_httpHeaderFields r)
         (opt_allowCredentials (tl_options s)) (le_origin E)"

definition responses_ok :: "loader_environment \<Rightarrow> bool \<Rightarrow> threadable_options \<Rightarrow> threadable_loader \<Rightarrow> bool" where
  "responses_ok E same options s \<longleftrightarrow> tl_sameOriginRequest s = same \<and> tl_options s = options
     \<and> (\<forall>r. ClientDidReceiveResponse r \<in> set (tl_trace s) \<longrightarrow> may_read E s r)"

lemma responses_ok_step:
  assumes "responses_ok E same options s" "same_setting s s'"
    and "\<And>r. ClientDidReceiveResponse r \<in> set (tl_trace s') \<Longrightarrow> ClientDidReceiveResponse r \<in> set (tl_trace s) \<or> may_read E s r"
  shows "responses_ok E same options s'"
  using assms unfolding responses_ok_def same_setting_def may_read_def by metis

interpretation responses: loader_invariant E "responses_ok E same options" for E same options
proof (unfold_locales, goal_cases)
  case (1 s a)
  then show ?case using trace_calls(2) [of E a s] by (intro responses_ok_step [OF 1(1)]) auto
next
  case (2 s now r)
  show ?case
  proof (rule responses_ok_step [OF 2])
    fix r'
    assume r': "ClientDidReceiveResponse r' \<in> set (tl_trace (tl_didReceiveResponse E now r s))"
    show "ClientDidReceiveResponse r' \<in> set (tl_trace s) \<or> may_read E s r'"
      using r' trace_calls(2) [of E ClientDidFail s] trace_calls(2) [of E "ClientDidReceiveResponse r" s]
      by (auto simp: tl_didReceiveResponse_def preflightFailure_def may_read_def Let_def split: option.splits prod.splits if_splits)
  qed simp
next
  case (3 s)
  then show ?case using trace_calls(1) [of s] by (intro responses_ok_step [OF 3(1)]) auto
qed (auto simp: responses_ok_def may_read_def act_def)

text \<open>A load that is denied ends before it starts.\<close>

lemma denied_run:
  assumes "\<not> canRequest (le_library E) (le_registry E) (le_origin E) (rq_url rq)"
    and "opt_crossOriginRequestPolicy options = DenyCrossOriginRequests"
  shows "tl_trace (fold (loader_step E) events (DocumentThreadableLoader_new E now cache async rq options)) = [ClientDidFail]"
proof -
  let ?s = "DocumentThreadableLoader_new E now cache async rq options"
  have new: "tl_trace ?s = [ClientDidFail]" "\<not> tl_active ?s" "\<not> tl_loader ?s"
    using assms by (simp_all add: DocumentThreadableLoader_new_def Let_def client_call_def tl_cancel_def act_def)
  have step: "tl_trace (loader_step E e s) = tl_trace s \<and> \<not> tl_active (loader_step E e s) \<and> \<not> tl_loader (loader_step E e s)"
    if "\<not> tl_active s" "\<not> tl_loader s" for e s
    using that by (cases e) (simp_all add: tl_cancel_def tl_destroy_def)
  have "tl_trace (fold (loader_step E) events s) = tl_trace s" if "\<not> tl_active s" "\<not> tl_loader s" for s
    using that by (induction events arbitrary: s) (simp_all add: step)
  then show ?thesis using new by metis
qed

text \<open>C5: Whatever the network answers and whenever the client cancels, a script gets the response of a
  load only if its origin may request the URL, if the load is one for which access control is
  switched off, or if that very response passes the access check.\<close>

theorem script_reads_only_allowed_responses:
  assumes "ClientDidReceiveResponse r
      \<in> set (tl_trace (fold (loader_step E) events (DocumentThreadableLoader_new E now cache async rq options)))"
  shows "canRequest (le_library E) (le_registry E) (le_origin E) (rq_url rq)
    \<or> opt_crossOriginRequestPolicy options = AllowCrossOriginRequests
    \<or> opt_crossOriginRequestPolicy options = UseAccessControl
      \<and> passesAccessControlCheck (le_library E) (le_registry E) (rs_httpHeaderFields r) (opt_allowCredentials options) (le_origin E)"
proof -
  let ?new = "DocumentThreadableLoader_new E now cache async rq options"
  let ?same = "canRequest (le_library E) (le_registry E) (le_origin E) (rq_url rq)"
  have "responses_ok E ?same options (fold (loader_step E) events ?new)"
    by (intro responses.run responses.started) (simp add: responses_ok_def)
  then have "?same \<or> opt_crossOriginRequestPolicy options \<noteq> UseAccessControl
      \<or> passesAccessControlCheck (le_library E) (le_registry E) (rs_httpHeaderFields r) (opt_allowCredentials options) (le_origin E)"
    using assms by (auto simp: responses_ok_def may_read_def)
  moreover have "?same \<or> opt_crossOriginRequestPolicy options \<noteq> DenyCrossOriginRequests"
    using assms denied_run [of E rq options events now cache async] by auto
  ultimately show ?thesis by (cases "opt_crossOriginRequestPolicy options") auto
qed

section \<open>What goes out after a preflight\<close>

definition granted :: "loader_environment \<Rightarrow> threadable_options \<Rightarrow> resource_request \<Rightarrow> real \<Rightarrow> resource_response \<Rightarrow> bool" where
  "granted E options rq now r \<longleftrightarrow>
     passesAccessControlCheck (le_library E) (le_registry E) (rs_httpHeaderFields r) (opt_allowCredentials options) (le_origin E)
     \<and> (\<exists>item. preflight_parse (lib_peer (le_library E)) now (rs_httpHeaderFields r)
                 (preflight_item_new (opt_allowCredentials options)) = (True, item)
          \<and> allowsCrossOriginMethod item (rq_httpMethod rq)
          \<and> allowsCrossOriginHeaders (lib_peer (le_library E)) item (rq_httpHeaderFields rq))"

definition skips_preflight :: "loader_environment \<Rightarrow> real \<Rightarrow> preflight_cache \<Rightarrow> resource_request \<Rightarrow> threadable_options \<Rightarrow> bool" where
  "skips_preflight E now cache rq options \<longleftrightarrow>
     fst (canSkipPreflight (lib_peer (le_library E)) now (SecurityOrigin_toString (le_origin E)) (rq_url rq)
            (opt_allowCredentials options) (rq_httpMethod rq) (rq_httpHeaderFields rq) cache)"

definition agreed :: "loader_environment \<Rightarrow> threadable_options \<Rightarrow> resource_request \<Rightarrow> bool \<Rightarrow> loader_event list \<Rightarrow> bool" where
  "agreed E options rq skip past \<longleftrightarrow> skip \<or> (\<exists>t r. DidReceiveResponse t r \<in> set past \<and> granted E options rq t r)"

definition preflighting :: "loader_environment \<Rightarrow> threadable_options \<Rightarrow> resource_request \<Rightarrow> bool \<Rightarrow> loader_event list \<Rightarrow> threadable_loader \<Rightarrow> bool" where
  "preflighting E options rq skip past s \<longleftrightarrow> tl_async s \<and> tl_options s = options \<and> (tl_active s \<longrightarrow> tl_loader s)
     \<and> (\<forall>q. Requested q SkipSecurityCheck \<in> set (tl_trace s) \<longrightarrow> q = rq)
     \<and> ((\<exists>q. Requested q SkipSecurityCheck \<in> set (tl_trace s)) \<longrightarrow> agreed E options rq skip past)
     \<and> (\<forall>a. tl_actualRequest s = Some a \<and> tl_active s \<longrightarrow> a = rq)
     \<and> (tl_actualRequest s \<noteq> None \<and> tl_active s \<and> (\<exists>t r. DidReceiveResponse t r \<in> set past) \<longrightarrow> agreed E options rq skip past)"

lemma agreed_more: "agreed E options rq skip past \<Longrightarrow> set past \<subseteq> set past' \<Longrightarrow> agreed E options rq skip past'"
  by (auto simp: agreed_def)

lemma agreed_snoc: "agreed E options rq skip past \<Longrightarrow> agreed E options rq skip (past @ [e])"
  by (auto simp: agreed_def)

text \<open>A step that makes no request and activates nothing; then one that receives no response either.\<close>

lemma preflighting_weaken:
  assumes J: "preflighting E options rq skip past s" and S: "same_setting s s'" "tl_actualRequest s' = tl_actualRequest s"
    and active: "tl_active s' \<Longrightarrow> tl_active s \<and> tl_loader s'"
    and requests: "\<And>q. Requested q SkipSecurityCheck \<in> set (tl_trace s') \<Longrightarrow> Requested q SkipSecurityCheck \<in> set (tl_trace s)"
    and e: "tl_actualRequest s' = None \<or> \<not> tl_active s' \<or> (\<forall>t r. e \<noteq> DidReceiveResponse t r)"
  shows "preflighting E options rq skip (past @ [e]) s'"
proof -
  note J = J [unfolded preflighting_def]
  have "tl_async s' \<and> tl_options s' = options" "tl_active s' \<longrightarrow> tl_loader s'"
    using J S(1) active unfolding same_setting_def by simp_all
  moreover have "\<forall>q. Requested q SkipSecurityCheck \<in> set (tl_trace s') \<longrightarrow> q = rq" using J requests by blast
  moreover have "(\<exists>q. Requested q SkipSecurityCheck \<in> set (tl_trace s')) \<longrightarrow> agreed E options rq skip (past @ [e])"
    using J requests agreed_snoc by blast
  moreover have "\<forall>a. tl_actualRequest s' = Some a \<and> tl_active s' \<longrightarrow> a = rq" using J S(2) active by simp
  moreover have "tl_actualRequest s' \<noteq> None \<and> tl_active s' \<and> (\<exists>t r. DidReceiveResponse t r \<in> set (past @ [e])) \<longrightarrow>
      agreed E options rq skip (past @ [e])"
    using J S(2) active e agreed_snoc by auto
  ultimately show ?thesis unfolding preflighting_def by blast
qed

lemma preflighting_frame:
  assumes "preflighting E options rq skip past s" "same_setting s s'" "tl_actualRequest s' = tl_actualRequest s"
    and "tl_active s' \<Longrightarrow> tl_active s \<and> tl_loader s'"
    and "\<And>q. Requested q SkipSecurityCheck \<in> set (tl_trace s') \<Longrightarrow> Requested q SkipSecurityCheck \<in> set (tl_trace s)"
    and "\<And>t r. e \<noteq> DidReceiveResponse t r"
  shows "preflighting E options rq skip (past @ [e]) s'"
  using assms by (intro preflighting_weaken [OF assms(1-5)]) auto

lemma call_keeps:
  "tl_active (client_call E a s) \<Longrightarrow> tl_active s" "tl_loader s \<Longrightarrow> tl_active (client_call E a s) \<Longrightarrow> tl_loader (client_call E a s)"
  "Requested q c \<in> set (tl_trace (client_call E a s)) \<Longrightarrow> a \<noteq> Requested q c \<Longrightarrow> Requested q c \<in> set (tl_trace s)"
  "Requested q c \<in> set (tl_trace (tl_cancel s)) \<Longrightarrow> Requested q c \<in> set (tl_trace s)" "tl_loader s \<Longrightarrow> \<not> tl_active (tl_cancel s)"
  by (auto simp: client_call_def tl_cancel_def act_def Let_def split: if_splits)

lemma preflighting_call:
  assumes J: "preflighting E options rq skip past s" and "\<And>q c. a \<noteq> Requested q c" "\<And>t r. e \<noteq> DidReceiveResponse t r"
  shows "preflighting E options rq skip (past @ [e]) (client_call E a s)"
  by (rule preflighting_frame [OF J]) (use assms call_keeps(1-3) [where E = E and s = s] in \<open>auto simp: preflighting_def\<close>)

lemma preflighting_inactive: "preflighting E options rq skip past s \<Longrightarrow> preflighting E options rq skip past (s\<lparr>tl_active := False\<rparr>)"
  by (simp add: preflighting_def)

lemma preflighting_cancel: "preflighting E options rq skip past s \<Longrightarrow> preflighting E options rq skip past (tl_cancel s)"
  by (cases "tl_loader s"; cases "tl_active s") (simp_all add: preflighting_def tl_cancel_def act_def)

lemma failing_call: "\<forall>tr. le_cancels E (ClientDidFail # tr) \<Longrightarrow> tl_loader s \<Longrightarrow> \<not> tl_active (client_call E ClientDidFail s)"
  by (simp add: client_call_def act_def tl_cancel_def Let_def)

lemma actual_loaded:
  assumes "preflighting E options rq skip past s" "agreed E options rq skip past'" "set past \<subseteq> set past'"
  shows "preflighting E options rq skip past' (preflightSuccess E rq s)"
  using assms agreed_more [OF _ assms(3)] call_keeps(3) [of _ _ E ClientDidFail "s\<lparr>tl_actualRequest := None, tl_loader := False\<rparr>"]
    same_setting_calls(3) [of "s\<lparr>tl_actualRequest := None, tl_loader := False\<rparr>" E ClientDidFail]
  by (auto simp: preflighting_def preflightSuccess_def loadRequest_def loadRequest_async_def Let_def act_def same_setting_def
      split: create_outcome.splits)

lemma preflighting_response:
  assumes J: "preflighting E options rq skip past s" and gives_up: "\<forall>tr. le_cancels E (ClientDidFail # tr)" and "tl_active s"
  shows "preflighting E options rq skip (past @ [DidReceiveResponse t r]) (tl_didReceiveResponse E t r s)"
    (is "preflighting E options rq skip ?past ?s")
proof (cases "tl_actualRequest s")
  case None
  have "\<exists>a. ?s = client_call E a s \<and> (\<forall>q c. a \<noteq> Requested q c)"
    using None by (auto simp: tl_didReceiveResponse_def Let_def)
  then obtain a where a: "?s = client_call E a s" "\<And>q c. a \<noteq> Requested q c" by blast
  have "tl_active s \<longrightarrow> tl_loader s" using J by (simp add: preflighting_def)
  then show ?thesis
    unfolding a(1) using None a(2) call_keeps(1-3) [where E = E and s = s and a = a]
    by (intro preflighting_weaken [OF J]) auto
next
  case (Some a)
  have a: "a = rq" "tl_loader s" "tl_options s = options" using J Some assms(3) by (auto simp: preflighting_def)
  show ?thesis
  proof (cases "granted E options rq t r")
    case True
    then obtain item where i: "preflight_parse (lib_peer (le_library E)) t (rs_httpHeaderFields r)
        (preflight_item_new (opt_allowCredentials options)) = (True, item)" by (auto simp: granted_def)
    have "?s = s\<lparr>tl_cache := cache_appendEntry (SecurityOrigin_toString (le_origin E)) (rq_url rq) item (tl_cache s)\<rparr>"
      using Some a True by (auto simp: tl_didReceiveResponse_def granted_def i)
    moreover have "agreed E options rq skip ?past" using True by (auto simp: agreed_def)
    ultimately show ?thesis using J by (auto simp: preflighting_def)
  next
    case False
    have s: "?s = client_call E ClientDidFail s"
      using Some a False by (auto simp: tl_didReceiveResponse_def granted_def preflightFailure_def Let_def split: prod.split)
    have "\<not> tl_active (client_call E ClientDidFail s)" using failing_call [OF gives_up a(2)] .
    then show ?thesis unfolding s using call_keeps(3) [where E = E and s = s] by (intro preflighting_weaken [OF J]) auto
  qed
qed

lemma preflighting_finish:
  assumes J: "preflighting E options rq skip past s" and "tl_active s" "\<exists>t r. DidReceiveResponse t r \<in> set past"
  shows "preflighting E options rq skip (past @ [DidFinishLoading]) (tl_didFinishLoading E s)"
proof (cases "tl_actualRequest s")
  case None
  then show ?thesis using preflighting_inactive [OF preflighting_call [OF J]] by (simp add: tl_didFinishLoading_def)
next
  case (Some a)
  then have "a = rq" "agreed E options rq skip past" using J assms(2,3) by (auto simp: preflighting_def)
  then show ?thesis
    using Some actual_loaded [OF J agreed_more, of past "past @ [DidFinishLoading]"] by (auto simp: tl_didFinishLoading_def)
qed

lemma preflighting_step:
  assumes J: "preflighting E options rq skip past s" and gives_up: "\<forall>tr. le_cancels E (ClientDidFail # tr)"
    and ordered: "e = DidFinishLoading \<Longrightarrow> \<exists>t r. DidReceiveResponse t r \<in> set past"
  shows "preflighting E options rq skip (past @ [e]) (loader_step E e s)"
proof -
  have idle: "preflighting E options rq skip (past @ [e]) s" if "\<not> tl_active s \<or> (\<forall>t r. e \<noteq> DidReceiveResponse t r)"
    using that J agreed_snoc [of E options rq skip past] by (auto simp: preflighting_def)
  note calls = preflighting_call [OF J] preflighting_inactive [OF preflighting_call [OF J]]
    preflighting_cancel [OF preflighting_call [OF J]]
  show ?thesis
  proof (cases "tl_active s")
    case False
    then show ?thesis
      using idle by (cases e) (simp_all add: preflighting_cancel preflighting_inactive tl_destroy_def)
  next
    case True
    then show ?thesis
      using idle preflighting_response [OF J gives_up] preflighting_finish [OF J] ordered
      by (cases e) (simp_all add: calls preflighting_cancel preflighting_inactive tl_destroy_def tl_willSendRequest_def
        tl_didSendData_def tl_didReceiveData_def tl_didFail_def tl_receivedCancellation_def
        tl_didReceiveAuthenticationChallenge_def)
  qed
qed

lemma preflighting_run:
  assumes "preflighting E options rq skip past s" and gives_up: "\<forall>tr. le_cancels E (ClientDidFail # tr)"
    and "\<forall>xs ys. events = xs @ DidFinishLoading # ys \<longrightarrow> (\<exists>t r. DidReceiveResponse t r \<in> set (past @ xs))"
  shows "preflighting E options rq skip (past @ events) (fold (loader_step E) events s)"
  using assms(1,3)
proof (induction events arbitrary: past s)
  case (Cons e events)
  have "preflighting E options rq skip (past @ [e]) (loader_step E e s)"
    using Cons.prems(2) [rule_format, of "[]" events] by (intro preflighting_step [OF Cons.prems(1) gives_up]) auto
  moreover have "\<exists>t r. DidReceiveResponse t r \<in> set ((past @ [e]) @ xs)" if "events = xs @ DidFinishLoading # ys" for xs ys
    using that Cons.prems(2) [rule_format, of "e # xs" ys] by simp
  ultimately show ?case using Cons.IH [of "past @ [e]" "loader_step E e s"] by auto
qed simp

lemma preflighting_load:
  assumes J: "preflighting E options rq skip [] s"
    and c: "c = SkipSecurityCheck \<Longrightarrow> q = rq \<and> skip" "\<And>a. tl_actualRequest s = Some a \<Longrightarrow> a = rq"
  shows "preflighting E options rq skip [] (loadRequest E q c s)"
proof -
  let ?s = "s\<lparr>tl_loader := False\<rparr>" and ?f = "client_call E ClientDidFail (s\<lparr>tl_loader := False\<rparr>)"
  have async: "loadRequest E q c s = loadRequest_async E q c s" using J by (simp add: loadRequest_def preflighting_def)
  have f: "tl_async ?f = tl_async s" "tl_options ?f = tl_options s"
    using same_setting_calls(3) [of ?s E ClientDidFail] by (simp_all add: same_setting_def)
  have fr: "Requested q SkipSecurityCheck \<in> set (tl_trace ?f) \<Longrightarrow> Requested q SkipSecurityCheck \<in> set (tl_trace s)" for q
    using call_keeps(3) [where E = E and a = ClientDidFail and s = ?s] by simp
  show ?thesis
  proof (cases "le_create E q c")
    case FailedInCreate
    then show ?thesis using J f fr unfolding async by (simp add: loadRequest_async_def Let_def preflighting_def) blast
  qed (use J c in \<open>auto simp: async loadRequest_async_def preflighting_def act_def agreed_def Let_def\<close>)
qed

lemma preflighting_start:
  "preflighting E options (rq\<lparr>rq_allowCookies := opt_allowCredentials options\<rparr>) (skips_preflight E now cache rq options) []
     (DocumentThreadableLoader_new E now cache True rq options)"
proof -
  have init: "preflighting E options actual skip [] \<lparr>tl_loader = False, tl_active = False, tl_client = True, tl_options = options,
      tl_sameOriginRequest = same, tl_async = True, tl_actualRequest = x, tl_cache = cache', tl_trace = []\<rparr>"
    for actual skip same x cache' by (simp add: preflighting_def)
  have fail: "preflighting E options actual skip [] (client_call E ClientDidFail \<lparr>tl_loader = False, tl_active = False, tl_client = True,
      tl_options = options, tl_sameOriginRequest = same, tl_async = True, tl_actualRequest = x, tl_cache = cache', tl_trace = []\<rparr>)"
    for actual skip same x cache' by (simp add: preflighting_def client_call_def act_def tl_cancel_def Let_def)
  show ?thesis
    by (auto simp: DocumentThreadableLoader_new_def Let_def skips_preflight_def preflightSuccess_def
        makeSimpleCrossOriginAccessRequest_def makeCrossOriginAccessRequestWithPreflight_def
        split: prod.split intro!: preflighting_load init fail)
qed

text \<open>C9: For a client that cancels when it is told of a failure, and a network that reports the end of loading only after a response,
  an asynchronous load sends a request without a security check only if it is the request that was asked for and the server
  agreed to its method and headers: by an entry of the cache, or in its answer to the preflight. (After an end without a
  response the loader would send it with no agreement: it tests no flag of its own.)\<close>

theorem actual_request_was_agreed:
  assumes "\<forall>tr. le_cancels E (ClientDidFail # tr)"
    and "\<forall>xs ys. events = xs @ DidFinishLoading # ys \<longrightarrow> (\<exists>t r. DidReceiveResponse t r \<in> set xs)"
    and "Requested q SkipSecurityCheck
      \<in> set (tl_trace (fold (loader_step E) events (DocumentThreadableLoader_new E now cache True rq options)))"
  shows "q = rq\<lparr>rq_allowCookies := opt_allowCredentials options\<rparr>
    \<and> (skips_preflight E now cache rq options \<or> (\<exists>t r. DidReceiveResponse t r \<in> set events \<and> granted E options q t r))"
proof -
  have "preflighting E options (rq\<lparr>rq_allowCookies := opt_allowCredentials options\<rparr>) (skips_preflight E now cache rq options) events
      (fold (loader_step E) events (DocumentThreadableLoader_new E now cache True rq options))"
    using preflighting_run [OF preflighting_start assms(1)] assms(2) by simp
  then show ?thesis using assms(3) by (auto simp: preflighting_def agreed_def)
qed

section \<open>The synchronous loader\<close>

text \<open>Nothing is taken out of the trace.\<close>

interpretation kept: loader_invariant E "\<lambda>s. a \<in> set (tl_trace s)" for E a
  by (unfold_locales) (auto simp: client_call_def tl_cancel_def act_def tl_didReceiveResponse_def preflightFailure_def
      Let_def split: option.split prod.split)

lemma sync_requests: "Requested q c \<in> set (tl_trace (loadRequest_sync E q c s))"
proof -
  have "Requested q c \<in> set (tl_trace (act (Requested q c) s))" by (simp add: act_def)
  then show ?thesis
    by (subst loadRequest_sync.simps)
      (auto simp: Let_def intro!: kept.call kept.sync kept.one_flag kept.data kept.response split: option.split)
qed

text \<open>C28: A synchronous load sends the actual request whatever the answer to its preflight says, as long as
  there is one: the end of the preflight starts it even after the preflight failed.\<close>

theorem synchronous_preflight_ignored:
  fixes rq options
  defines "actual \<equiv> rq\<lparr>rq_allowCookies := opt_allowCredentials options\<rparr>"
  assumes "\<not> canRequest (le_library E) (le_registry E) (le_origin E) (rq_url rq)"
    and "opt_crossOriginRequestPolicy options = UseAccessControl"
    and "\<not> isSimpleCrossOriginAccessRequest (lib_peer (le_library E)) (rq_httpMethod rq) (rq_httpHeaderFields rq)"
    and "\<not> skips_preflight E now cache rq options"
    and "preflight = preflight_request E (opt_allowCredentials options) rq" "\<not> sa_error (le_network E preflight)"
    and "m_string (rs_url (sa_response (le_network E preflight))) = m_string (rq_url preflight)"
  shows "Requested actual SkipSecurityCheck \<in> set (tl_trace (DocumentThreadableLoader_new E now cache False rq options))"
proof -
  define s where "s = \<lparr>tl_loader = False, tl_active = False, tl_client = True, tl_options = options, tl_sameOriginRequest = False,
    tl_async = False, tl_actualRequest = Some actual, tl_cache = snd (canSkipPreflight (lib_peer (le_library E)) now
      (SecurityOrigin_toString (le_origin E)) (rq_url rq) (opt_allowCredentials options) (rq_httpMethod rq)
      (rq_httpHeaderFields rq) cache), tl_trace = []\<rparr>"
  have new: "DocumentThreadableLoader_new E now cache False rq options = loadRequest_sync E preflight DoSecurityCheck s"
    using assms(2-5)
    by (simp add: DocumentThreadableLoader_new_def Let_def makeCrossOriginAccessRequestWithPreflight_def loadRequest_def
        assms(6) s_def actual_def skips_preflight_def case_prod_beta)
  obtain s1 where s1: "loadRequest_sync E preflight DoSecurityCheck s = loadRequest_sync E actual SkipSecurityCheck s1"
    using assms(7,8) by (simp add: loadRequest_sync.simps [of E preflight DoSecurityCheck] Let_def s_def)
  show ?thesis unfolding new s1 by (rule sync_requests)
qed

section \<open>Concrete loads\<close>

text \<open>A page of \<open>http://a.b:81\<close> that puts to another host; its client gives up on the first failure.\<close>

definition example_put :: resource_request where
  "example_put = \<lparr>rq_url = parse (lit ''http://h/'') None, rq_httpMethod = lit ''PUT'', rq_httpHeaderFields = [], rq_allowCookies = True\<rparr>"

definition example_environment :: "header_map \<Rightarrow> loader_environment" where
  "example_environment answer = \<lparr>le_library = ascii_library, le_registry = resetVariables, le_origin = example_origin,
     le_cancels = (\<lambda>tr. tr \<noteq> [] \<and> hd tr = ClientDidFail), le_create = (\<lambda>_ _. Created),
     le_network = (\<lambda>rq. \<lparr>sa_error = False, sa_response = \<lparr>rs_url = rq_url rq, rs_httpStatusCode = 200,
       rs_httpHeaderFields = answer\<rparr>, sa_data = [], sa_time = 0\<rparr>)\<rparr>"

definition example_options :: threadable_options where
  "example_options = \<lparr>opt_sendLoadCallbacks = True, opt_sniffContent = False, opt_allowCredentials = False,
     opt_forcePreflight = False, opt_crossOriginRequestPolicy = UseAccessControl\<rparr>"

lemma example_facts:
  "\<not> canRequest ascii_library resetVariables example_origin (rq_url example_put)"
  "\<not> isSimpleCrossOriginAccessRequest ascii_peer (lit ''PUT'') []"
  by code_simp+

lemmas example_setup = example_environment_def example_options_def

theorem synchronous_preflight_ignored_witness:
  "Requested (example_put\<lparr>rq_allowCookies := False\<rparr>) SkipSecurityCheck
    \<in> set (tl_trace (DocumentThreadableLoader_new (example_environment []) 0 [] False example_put example_options))"
  using synchronous_preflight_ignored [where E = "example_environment []" and rq = example_put and options = example_options
      and now = 0 and cache = "[]"] example_facts
  by (simp add: example_setup skips_preflight_def canSkipPreflight_def example_put_def ascii_library_def del: lit_Cons)

definition example_answer :: header_map where
  "example_answer = [(lit ''Access-Control-Allow-Origin'', lit ''*''), (lit ''Access-Control-Allow-Methods'', lit ''PUT'')]"

definition example_response :: resource_response where
  "example_response = \<lparr>rs_url = rq_url example_put, rs_httpStatusCode = 200, rs_httpHeaderFields = example_answer\<rparr>"

definition example_events :: "loader_event list" where
  "example_events = [DidReceiveResponse 0 example_response, DidFinishLoading, DidReceiveResponse 1 example_response]"

lemma example_answer_passes: "passesAccessControlCheck ascii_library resetVariables example_answer False example_origin"
  by code_simp

lemma example_answer_parses: "preflight_parse ascii_peer t example_answer (preflight_item_new False) =
    (True, \<lparr>pi_absoluteExpiryTime = t + 5, pi_credentials = False, pi_methods = [lit ''PUT''], pi_headers = []\<rparr>)"
proof -
  have "httpHeaderField ascii_peer example_answer (lit ''Access-Control-Allow-Methods'') = lit ''PUT''"
    "httpHeaderField ascii_peer example_answer (lit ''Access-Control-Allow-Headers'') = []"
    "httpHeaderField ascii_peer example_answer (lit ''Access-Control-Max-Age'') = []"
    "parseAccessControlAllowList ascii_peer (=) (lit ''PUT'') [] = (True, [lit ''PUT''])"
    "parseAccessControlAllowList ascii_peer (equalIgnoringCase ascii_peer) [] [] = (True, [])"
    "parseAccessControlMaxAge ascii_peer [] = (0, False)"
    by code_simp+
  then show ?thesis
    by (simp add: preflight_parse_def preflight_item_new_def defaultPreflightCacheTimeoutSeconds_def del: lit_Cons)
qed

lemma example_run:
  "tl_trace (fold (loader_step (example_environment [])) example_events
      (DocumentThreadableLoader_new (example_environment []) 0 [] True example_put example_options))
    = [ClientDidReceiveResponse example_response, Requested (example_put\<lparr>rq_allowCookies := False\<rparr>) SkipSecurityCheck,
       Requested (preflight_request (example_environment []) False example_put) DoSecurityCheck]"
proof -
  have peer: "lib_peer ascii_library = ascii_peer" by (simp add: ascii_library_def)
  have put: "rq_httpMethod example_put = lit ''PUT''" "rq_httpHeaderFields example_put = []" by (simp_all add: example_put_def)
  let ?E = "example_environment []"
  have E: "le_library ?E = ascii_library" "le_registry ?E = resetVariables" "le_origin ?E = example_origin"
    "le_create ?E q c = Created" "le_cancels ?E tr \<longleftrightarrow> tr \<noteq> [] \<and> hd tr = ClientDidFail" for q c tr
    by (simp_all add: example_environment_def)
  have new: "DocumentThreadableLoader_new ?E 0 [] True example_put example_options =
      \<lparr>tl_loader = True, tl_active = True, tl_client = True, tl_options = example_options, tl_sameOriginRequest = False,
       tl_async = True, tl_actualRequest = Some (example_put\<lparr>rq_allowCookies := False\<rparr>), tl_cache = [],
       tl_trace = [Requested (preflight_request ?E False example_put) DoSecurityCheck]\<rparr>"
    using example_facts
    by (simp add: DocumentThreadableLoader_new_def Let_def E peer put example_options_def canSkipPreflight_def
        makeCrossOriginAccessRequestWithPreflight_def loadRequest_def loadRequest_async_def act_def del: lit_Cons)
  show ?thesis
    unfolding new example_events_def
    by (simp add: tl_didReceiveResponse_def E peer put example_options_def example_response_def example_answer_passes
        example_answer_parses allowsCrossOriginMethod_def allowsCrossOriginHeaders_def tl_didFinishLoading_def preflightSuccess_def
        loadRequest_def loadRequest_async_def act_def client_call_def Let_def del: lit_Cons)
qed

theorem script_reads_only_allowed_responses_witness:
  "passesAccessControlCheck ascii_library resetVariables (rs_httpHeaderFields example_response) False example_origin"
  using script_reads_only_allowed_responses [of example_response "example_environment []" example_events 0 "[]" True example_put
      example_options] example_facts(1)
  by (simp add: example_run) (simp add: example_setup)

theorem actual_request_was_agreed_witness:
  "\<exists>t r. DidReceiveResponse t r \<in> set example_events
     \<and> granted (example_environment []) example_options (example_put\<lparr>rq_allowCookies := False\<rparr>) t r"
proof -
  have "\<not> skips_preflight (example_environment []) 0 [] example_put example_options"
    by (simp add: skips_preflight_def canSkipPreflight_def)
  moreover have "\<forall>xs ys. example_events = xs @ DidFinishLoading # ys \<longrightarrow> (\<exists>t r. DidReceiveResponse t r \<in> set xs)"
    by (auto simp: example_events_def Cons_eq_append_conv)
  moreover have "\<forall>tr. le_cancels (example_environment []) (ClientDidFail # tr)" by (simp add: example_environment_def)
  ultimately show ?thesis
    using actual_request_was_agreed [of "example_environment []" example_events "example_put\<lparr>rq_allowCookies := False\<rparr>" 0 "[]"
        example_put example_options] by (simp add: example_run) (simp add: example_options_def)
qed

end
