(* ===== verification/EventSource.thy ===== *)
theory EventSource
  imports SecurityOrigin
begin

text \<open>
  Server-sent events: src/webkit/WebCore/page/EventSource.cpp. The object is a state machine
  over the calls of its loader, its reconnection timer and the script. The text the decoder
  makes of the data is the input; a script is known by whether it calls \<open>close()\<close> when an event
  is dispatched to it, given everything that happened before. That the loader can be created is
  taken for granted.
\<close>

section \<open>Unsigned 64-bit integers\<close>

type_synonym u64 = "64 word"

text \<open>\<open>toIntegralType<uint64_t>\<close> in base 10 and \<open>charactersToUInt64\<close> (String.cpp).\<close>

fun digit_loop_64 :: "ustring \<Rightarrow> u64 \<Rightarrow> (u64 \<times> ustring) option" where
  "digit_loop_64 [] v = Some (v, [])"
| "digit_loop_64 (c # cs) v =
     (if isCharacterAllowedInBase c 10
      then let d = ucast (digitValue c); maxMultiplier = 0xFFFFFFFFFFFFFFFF div 10
           in if v > maxMultiplier \<or> (v = maxMultiplier \<and> d > 0xFFFFFFFFFFFFFFFF mod 10) then None
              else digit_loop_64 cs (10 * v + d)
      else Some (v, c # cs))"

definition charactersToUInt64 :: "unicode_peer \<Rightarrow> ustring \<Rightarrow> u64 \<times> bool" where
  "charactersToUInt64 U characters =
     (let data1 = dropWhile (isSpaceOrNewline U) (take (lengthOfCharactersAsInteger U characters) characters);
          data2 = (if data1 \<noteq> [] \<and> hd data1 = ch CHR ''+'' then tl data1 else data1)
      in if data2 = [] \<or> \<not> isCharacterAllowedInBase (hd data2) 10 then (0, False)
         else case digit_loop_64 data2 0 of
                None \<Rightarrow> (0, False)
              | Some (v, rest) \<Rightarrow> if dropWhile (isSpaceOrNewline U) rest = [] then (v, True) else (0, False))"

section \<open>The object\<close>

datatype ready_state = CONNECTING | OPEN | CLOSED

datatype es_event =
    OpenEvent
  | ErrorEvent
  | MessageEvent ustring ustring ustring

text \<open>A connection with its \<open>Last-Event-ID\<close> (empty for none), or an event that was dispatched.\<close>

datatype es_action = Connected ustring | Dispatched es_event

record event_source =
  es_state :: ready_state
  es_loaderActive :: bool
  es_reconnectTimer :: "nat option"
  es_receiveBuf :: ustring
  es_failSilently :: bool
  es_requestInFlight :: bool
  es_eventName :: ustring
  es_data :: ustring
  es_lastEventId :: ustring
  es_reconnectDelay :: u64
  es_pendingActivity :: int
  es_trace :: "es_action list"

text \<open>The script's answer to the newest entry of the trace: whether it closes the source.\<close>

type_synonym script = "es_action list \<Rightarrow> bool"

definition defaultReconnectDelay :: u64 where
  "defaultReconnectDelay = 3000"

definition es_connect :: "event_source \<Rightarrow> event_source" where
  "es_connect s = s\<lparr>es_trace := Connected (es_lastEventId s) # es_trace s, es_requestInFlight := True, es_loaderActive := True\<rparr>"

definition EventSource_new :: event_source where
  "EventSource_new = es_connect \<lparr>es_state = CONNECTING, es_loaderActive = False, es_reconnectTimer = None, es_receiveBuf = [],
     es_failSilently = False, es_requestInFlight = False, es_eventName = [], es_data = [], es_lastEventId = [],
     es_reconnectDelay = defaultReconnectDelay, es_pendingActivity = 1, es_trace = []\<rparr>"

text \<open>The constructor: an empty or invalid URL and one of another origin are refused; \<open>url\<close> is completed by the page.\<close>

datatype es_error = SYNTAX_ERR | SECURITY_ERR

definition EventSource_create ::
  "url_library \<Rightarrow> origin_registry \<Rightarrow> security_origin \<Rightarrow> ustring \<Rightarrow> KURL \<Rightarrow> es_error + event_source" where
  "EventSource_create L R origin url completed =
     (if url = [] \<or> \<not> m_isValid completed then Inl SYNTAX_ERR
      else if \<not> canRequest L R origin completed then Inl SECURITY_ERR
      else Inr EventSource_new)"

definition unsetPendingActivity :: "event_source \<Rightarrow> event_source" where
  "unsetPendingActivity s = s\<lparr>es_pendingActivity := es_pendingActivity s - 1\<rparr>"

definition scheduleReconnect :: "event_source \<Rightarrow> event_source" where
  "scheduleReconnect s = s\<lparr>es_state := CONNECTING, es_reconnectTimer := Some (unat (es_reconnectDelay s div 1000))\<rparr>"

definition reconnectTimerFired :: "event_source \<Rightarrow> event_source" where
  "reconnectTimerFired s = es_connect (s\<lparr>es_reconnectTimer := None\<rparr>)"

text \<open>
  \<open>endRequest\<close>, \<open>didFail\<close> and the loader's \<open>cancel\<close> (an active loader reports its cancellation),
  over the way the error event is dispatched.
\<close>

definition endRequest :: "(event_source \<Rightarrow> event_source) \<Rightarrow> event_source \<Rightarrow> event_source" where
  "endRequest dispatchError s =
     (let s1 = s\<lparr>es_requestInFlight := False\<rparr>;
          s2 = (if \<not> es_failSilently s1 then dispatchError s1 else s1)
      in if es_state s2 \<noteq> CLOSED then scheduleReconnect s2 else unsetPendingActivity s2)"

definition es_failed :: "(event_source \<Rightarrow> event_source) \<Rightarrow> bool \<Rightarrow> event_source \<Rightarrow> event_source" where
  "es_failed dispatchError canceled s =
     endRequest dispatchError
       (if es_state s = CONNECTING \<and> \<not> canceled \<or> es_state s = OPEN \<and> canceled then s\<lparr>es_state := CLOSED\<rparr> else s)"

definition cancelLoader :: "(event_source \<Rightarrow> event_source) \<Rightarrow> event_source \<Rightarrow> event_source" where
  "cancelLoader dispatchError s =
     (if es_loaderActive s then (es_failed dispatchError True s)\<lparr>es_loaderActive := False\<rparr> else s)"

text \<open>\<open>close()\<close> makes the source fail silently before it cancels, so no error event is dispatched.\<close>

definition es_close :: "event_source \<Rightarrow> event_source" where
  "es_close s =
     (if es_state s = CLOSED then s
      else let s1 = (if es_reconnectTimer s \<noteq> None then unsetPendingActivity (s\<lparr>es_reconnectTimer := None\<rparr>) else s);
               s2 = s1\<lparr>es_state := CLOSED, es_failSilently := True\<rparr>
           in if es_requestInFlight s2 then cancelLoader id s2 else s2)"

definition dispatchEvent :: "script \<Rightarrow> es_event \<Rightarrow> event_source \<Rightarrow> event_source" where
  "dispatchEvent H e s =
     (let s' = s\<lparr>es_trace := Dispatched e # es_trace s\<rparr> in if H (es_trace s') then es_close s' else s')"

section \<open>The event stream\<close>

text \<open>The message takes the data out of its buffer.\<close>

definition dispatchMessage :: "script \<Rightarrow> event_source \<Rightarrow> event_source" where
  "dispatchMessage H s =
     dispatchEvent H (MessageEvent (if es_eventName s = [] then lit ''message'' else es_eventName s) (es_data s) (es_lastEventId s))
       (s\<lparr>es_data := []\<rparr>)"

definition parseEventStreamLine ::
  "unicode_peer \<Rightarrow> script \<Rightarrow> ustring \<Rightarrow> nat \<Rightarrow> nat option \<Rightarrow> nat \<Rightarrow> event_source \<Rightarrow> event_source" where
  "parseEventStreamLine U H buf bufPos fieldLength lineLength s =
     (if lineLength = 0
      then let s1 = (if es_data s \<noteq> [] then dispatchMessage H s else s)
           in if es_eventName s1 \<noteq> [] then s1\<lparr>es_eventName := []\<rparr> else s1
      else if fieldLength \<noteq> Some 0
      then let field = take (case fieldLength of None \<Rightarrow> lineLength | Some n \<Rightarrow> n) (drop bufPos buf);
               step = (case fieldLength of
                         None \<Rightarrow> lineLength
                       | Some n \<Rightarrow> if buf ! (bufPos + n + 1) \<noteq> ch CHR '' '' then n + 1 else n + 2);
               value = take (lineLength - step) (drop (bufPos + step) buf)
           in if equalCStr field (lit ''data'')
              then s\<lparr>es_data := (if es_data s \<noteq> [] then es_data s @ [0x0A] else es_data s) @ value\<rparr>
              else if equalCStr field (lit ''event'') then s\<lparr>es_eventName := value\<rparr>
              else if equalCStr field (lit ''id'') then s\<lparr>es_lastEventId := value\<rparr>
              else if equalCStr field (lit ''retry'')
              then if value = [] then s\<lparr>es_reconnectDelay := defaultReconnectDelay\<rparr>
                   else let (retry, ok) = charactersToUInt64 U value
                        in if ok then s\<lparr>es_reconnectDelay := retry\<rparr> else s
              else s
      else s)"

text \<open>
  The search for the end of the line that starts at \<open>bufPos\<close>: its length, the length of its field
  and whether a carriage return stands before the line feed.
\<close>

function scan_line :: "ustring \<Rightarrow> nat \<Rightarrow> nat \<Rightarrow> nat option \<Rightarrow> (nat \<times> nat option \<times> nat) option" where
  "scan_line buf bufPos i fieldLength =
     (if i < length buf
      then if buf ! i = ch CHR '':''
           then scan_line buf bufPos (i + 1) (if fieldLength = None then Some (i - bufPos) else fieldLength)
           else if buf ! i = 0x0A
           then if i > bufPos \<and> buf ! (i - 1) = 0x0D then Some (i - 1 - bufPos, fieldLength, 1)
                else Some (i - bufPos, fieldLength, 0)
           else scan_line buf bufPos (i + 1) fieldLength
      else None)"
  by pat_completeness auto
termination scan_line
  by (relation "measure (\<lambda>(buf, bufPos, i, fieldLength). length buf - i)") auto

declare scan_line.simps [simp del]

lemma scan_line_end:
  "scan_line buf bufPos i f = Some (l, f', c) \<Longrightarrow> bufPos \<le> i \<Longrightarrow> bufPos + l + c < length buf"
proof (induction buf bufPos i f rule: scan_line.induct)
  case (1 buf bufPos i f)
  then show ?case
    using 1(3) by (subst (asm) (3) scan_line.simps) (auto split: if_splits)
qed

text \<open>The loop over the lines; \<open>m_receiveBuf\<close> does not change while it runs.\<close>

function parse_loop ::
  "unicode_peer \<Rightarrow> script \<Rightarrow> ustring \<Rightarrow> nat \<Rightarrow> event_source \<Rightarrow> nat \<times> event_source" where
  "parse_loop U H buf bufPos s =
     (case scan_line buf bufPos bufPos None of
        None \<Rightarrow> (bufPos, s)
      | Some (lineLength, fieldLength, carriageReturn) \<Rightarrow>
          parse_loop U H buf (bufPos + lineLength + carriageReturn + 1)
            (parseEventStreamLine U H buf bufPos fieldLength lineLength s))"
  by pat_completeness auto
termination parse_loop
proof (relation "measure (\<lambda>(U, H, buf, bufPos, s). length buf - bufPos)", goal_cases)
  case (2 U H buf bufPos s r l fr f c)
  then show ?case using scan_line_end [of buf bufPos bufPos None l f c] by auto
qed simp

declare parse_loop.simps [simp del]

definition parseEventStream :: "unicode_peer \<Rightarrow> script \<Rightarrow> event_source \<Rightarrow> event_source" where
  "parseEventStream U H s =
     (let buf = es_receiveBuf s; (bufPos, s1) = parse_loop U H buf 0 s
      in if bufPos = length buf then s1\<lparr>es_receiveBuf := []\<rparr>
         else if bufPos \<noteq> 0 then s1\<lparr>es_receiveBuf := drop bufPos (es_receiveBuf s1)\<rparr>
         else s1)"

section \<open>The calls of the loader\<close>

definition es_didReceiveResponse :: "script \<Rightarrow> int \<Rightarrow> ustring \<Rightarrow> event_source \<Rightarrow> event_source" where
  "es_didReceiveResponse H statusCode contentType s =
     (if statusCode = 200 \<and> equalCStr contentType (lit ''text/event-stream'')
      then dispatchEvent H OpenEvent (s\<lparr>es_state := OPEN\<rparr>)
      else cancelLoader (dispatchEvent H ErrorEvent)
             (if statusCode \<le> 200 \<or> statusCode > 299 then s\<lparr>es_state := CLOSED\<rparr> else s))"

definition es_didReceiveData :: "unicode_peer \<Rightarrow> script \<Rightarrow> ustring \<Rightarrow> event_source \<Rightarrow> event_source" where
  "es_didReceiveData U H decoded s = parseEventStream U H (s\<lparr>es_receiveBuf := es_receiveBuf s @ decoded\<rparr>)"

definition es_didFinishLoading :: "unicode_peer \<Rightarrow> script \<Rightarrow> event_source \<Rightarrow> event_source" where
  "es_didFinishLoading U H s =
     (let s1 = (if es_receiveBuf s \<noteq> [] \<or> es_data s \<noteq> []
                then parseEventStream U H (s\<lparr>es_receiveBuf := es_receiveBuf s @ [0x0A, 0x0A]\<rparr>) else s)
      in (endRequest (dispatchEvent H ErrorEvent) (s1\<lparr>es_state := CONNECTING\<rparr>))\<lparr>es_loaderActive := False\<rparr>)"

definition es_didFail :: "script \<Rightarrow> bool \<Rightarrow> event_source \<Rightarrow> event_source" where
  "es_didFail H canceled s = (es_failed (dispatchEvent H ErrorEvent) canceled s)\<lparr>es_loaderActive := False\<rparr>"

definition es_didFailRedirectCheck :: "script \<Rightarrow> event_source \<Rightarrow> event_source" where
  "es_didFailRedirectCheck H s = cancelLoader (dispatchEvent H ErrorEvent) (s\<lparr>es_state := CLOSED\<rparr>)"

datatype es_input =
    Response int ustring
  | Data ustring
  | Finished
  | Failed bool
  | RedirectRefused
  | TimerFired
  | Close

text \<open>The loader calls while it is active, the timer fires while it is set, a script may close at any time.\<close>

fun es_step :: "unicode_peer \<Rightarrow> script \<Rightarrow> es_input \<Rightarrow> event_source \<Rightarrow> event_source" where
  "es_step U H (Response statusCode contentType) s =
     (if es_loaderActive s then es_didReceiveResponse H statusCode contentType s else s)"
| "es_step U H (Data decoded) s = (if es_loaderActive s then es_didReceiveData U H decoded s else s)"
| "es_step U H Finished s = (if es_loaderActive s then es_didFinishLoading U H s else s)"
| "es_step U H (Failed canceled) s = (if es_loaderActive s then es_didFail H canceled s else s)"
| "es_step U H RedirectRefused s = (if es_loaderActive s then es_didFailRedirectCheck H s else s)"
| "es_step U H TimerFired s = (if es_reconnectTimer s \<noteq> None then reconnectTimerFired s else s)"
| "es_step U H Close s = es_close s"

end
