(* ===== verification/EventSourceFacts.thy ===== *)
theory EventSourceFacts
  imports EventSource
begin

text \<open>
  What a stream of events comes to: the parser is a fold over the lines of the text, however the
  network cuts it; and the life of the object: what is pending when, and what closing it means.
\<close>

section \<open>Lines\<close>

definition line_of :: "ustring \<Rightarrow> ustring" where
  "line_of raw = (if raw \<noteq> [] \<and> last raw = 0x0D then butlast raw else raw)"

text \<open>The complete lines of a text, and what stands behind the last of them.\<close>

function cut_lines :: "ustring \<Rightarrow> ustring list \<times> ustring" where
  "cut_lines s =
     (if 0x0A \<in> set s
      then let raw = takeWhile (\<lambda>c. c \<noteq> 0x0A) s; (lines, rest) = cut_lines (drop (length raw + 1) s)
           in (line_of raw # lines, rest)
      else ([], s))"
  by pat_completeness auto
termination cut_lines
  by (relation "measure length") (auto simp: in_set_conv_nth)

declare cut_lines.simps [simp del]

lemma cut_no_line: "0x0A \<notin> set s \<Longrightarrow> cut_lines s = ([], s)"
  by (simp add: cut_lines.simps)

lemma cut_line:
  assumes "0x0A \<notin> set raw"
  shows "cut_lines (raw @ 0x0A # s) = (line_of raw # fst (cut_lines s), snd (cut_lines s))"
proof -
  have "takeWhile (\<lambda>c. c \<noteq> 0x0A) (raw @ 0x0A # s) = raw" using assms by (induction raw) auto
  then show ?thesis by (subst cut_lines.simps) (simp add: case_prod_beta Let_def)
qed

lemma line_cases:
  obtains (none) "0x0A \<notin> set s" | (line) raw t where "s = raw @ 0x0A # t" "0x0A \<notin> set (raw :: ustring)"
  by (metis split_list_first)

lemma cut_rest: "0x0A \<notin> set (snd (cut_lines s))"
proof (induction s rule: cut_lines.induct)
  case (1 s)
  then show ?case by (subst cut_lines.simps) (auto simp: case_prod_beta Let_def)
qed

lemma cut_suffix: "\<exists>t. s = t @ snd (cut_lines s) \<and> (t = [] \<longleftrightarrow> 0x0A \<notin> set s)"
proof (induction "length s" arbitrary: s rule: less_induct)
  case less
  show ?case
  proof (cases s rule: line_cases)
    case none
    then show ?thesis by (simp add: cut_no_line)
  next
    case (line raw t)
    obtain u where "t = u @ snd (cut_lines t)" using less.hyps [of t] line by auto
    then show ?thesis using line by (intro exI [of _ "raw @ 0x0A # u"]) (simp add: cut_line)
  qed
qed

lemma cut_append:
  "cut_lines (s @ t) = (fst (cut_lines s) @ fst (cut_lines (snd (cut_lines s) @ t)), snd (cut_lines (snd (cut_lines s) @ t)))"
proof (induction "length s" arbitrary: s rule: less_induct)
  case less
  show ?case
  proof (cases s rule: line_cases)
    case none
    then show ?thesis by (simp add: cut_no_line)
  next
    case (line raw u)
    then show ?thesis using less.hyps [of u] by (simp add: cut_line)
  qed
qed

section \<open>One line\<close>

text \<open>The line without positions: the field up to the first colon, the value behind it and one space.\<close>

definition es_line :: "unicode_peer \<Rightarrow> script \<Rightarrow> ustring \<Rightarrow> event_source \<Rightarrow> event_source" where
  "es_line U H line s =
     (let field = takeWhile (\<lambda>c. c \<noteq> ch CHR '':'') line;
          behind = drop (length field + 1) line;
          value = (if behind \<noteq> [] \<and> hd behind = ch CHR '' '' then tl behind else behind)
      in if line = []
         then let s1 = (if es_data s \<noteq> [] then dispatchMessage H s else s) in s1\<lparr>es_eventName := []\<rparr>
         else if equalCStr field (lit ''data'')
         then s\<lparr>es_data := (if es_data s \<noteq> [] then es_data s @ [0x0A] else []) @ value\<rparr>
         else if equalCStr field (lit ''event'') then s\<lparr>es_eventName := value\<rparr>
         else if equalCStr field (lit ''id'') then s\<lparr>es_lastEventId := value\<rparr>
         else if equalCStr field (lit ''retry'')
         then if value = [] then s\<lparr>es_reconnectDelay := defaultReconnectDelay\<rparr>
              else if snd (charactersToUInt64 U value) then s\<lparr>es_reconnectDelay := fst (charactersToUInt64 U value)\<rparr>
              else s
         else s)"

lemma scan_line_field:
  assumes "0x0A \<notin> set raw" "j \<le> length raw"
  shows "scan_line (pre @ raw @ 0x0A # s) (length pre) (length pre + j) f =
     Some (length (line_of raw),
       (if f \<noteq> None then f
        else if ch CHR '':'' \<in> set (drop j raw) then Some (j + length (takeWhile (\<lambda>c. c \<noteq> ch CHR '':'') (drop j raw))) else None),
       length raw - length (line_of raw))"
  using assms(2)
proof (induction "length raw - j" arbitrary: j f)
  case 0
  then have j: "j = length raw" by simp
  show ?case
  proof (cases raw rule: rev_cases)
    case Nil
    then show ?thesis unfolding j by (subst scan_line.simps) (simp add: line_of_def)
  next
    case (snoc xs x)
    have "(pre @ raw @ 0x0A # s) ! (length pre + length raw) = 0x0A" by (simp add: nth_append)
    moreover have "(pre @ raw @ 0x0A # s) ! (length pre + length raw - 1) = x" using snoc by (simp add: nth_append)
    ultimately show ?thesis unfolding j by (subst scan_line.simps) (auto simp: line_of_def snoc)
  qed
next
  case (Suc n)
  then have j: "j < length raw" by simp
  then have at_j: "(pre @ raw @ 0x0A # s) ! (length pre + j) = raw ! j" "raw ! j \<noteq> 0x0A"
    using assms(1) by (auto simp: nth_append) (metis nth_mem)
  have d: "drop j raw = raw ! j # drop (Suc j) raw" using j by (simp add: Cons_nth_drop_Suc)
  show ?case
    using Suc.hyps(1) [of "Suc j"] Suc.hyps(2) j at_j d
    by (subst scan_line.simps) auto
qed

lemma scan_line_none: "0x0A \<notin> set raw \<Longrightarrow> j \<le> length raw \<Longrightarrow> scan_line (pre @ raw) (length pre) (length pre + j) f = None"
proof (induction "length raw - j" arbitrary: j f)
  case 0
  then show ?case by (subst scan_line.simps) simp
next
  case (Suc n)
  then have "j < length raw" by simp
  then have "(pre @ raw) ! (length pre + j) \<noteq> 0x0A" using Suc.prems(1) by (simp add: nth_append) (metis nth_mem)
  then show ?case using Suc.hyps(1) [of "Suc j"] Suc.hyps(2) Suc.prems \<open>j < length raw\<close>
    by (subst scan_line.simps) auto
qed

lemma line_of_cases: obtains e where "raw = line_of raw @ e" "e = [] \<or> e = [0x0D]"
proof (cases "raw \<noteq> [] \<and> last raw = 0x0D")
  case True
  then have "raw = butlast raw @ [0x0D]" by (metis append_butlast_last_id)
  with True show ?thesis by (intro that [of "[0x0D]"]) (simp_all add: line_of_def)
next
  case False
  then show ?thesis by (intro that [of "[]"]) (auto simp: line_of_def)
qed

text \<open>The value behind the colon of a line that ends at a carriage return or a line feed.\<close>

lemma value_behind:
  fixes field behind :: ustring
  assumes buf: "buf = pre @ field @ ch CHR '':'' # behind @ e @ 0x0A # s" and e: "e = [] \<or> e = [0x0D]"
    and step: "step = (if buf ! (length pre + length field + 1) \<noteq> ch CHR '' '' then length field + 1 else length field + 2)"
  shows "take (length field + 1 + length behind - step) (drop (length pre + step) buf)
     = (if behind \<noteq> [] \<and> hd behind = ch CHR '' '' then tl behind else behind)"
proof (cases behind)
  case Nil
  have "buf ! (length pre + length field + 1) = hd (e @ [0x0A])" using e by (auto simp: buf Nil nth_append)
  moreover have "hd (e @ [0x0A]) \<noteq> ch CHR '' ''" using e by auto
  ultimately show ?thesis unfolding step Nil by simp
next
  case (Cons c cs)
  have "buf ! (length pre + length field + 1) = c" by (simp add: buf Cons nth_append)
  then show ?thesis unfolding step Cons by (simp add: buf Cons)
qed

lemma parse_line:
  assumes "0x0A \<notin> set raw"
  shows "parseEventStreamLine U H (pre @ raw @ 0x0A # s) (length pre)
      (if ch CHR '':'' \<in> set raw then Some (length (takeWhile (\<lambda>c. c \<noteq> ch CHR '':'') raw)) else None)
      (length (line_of raw)) st = es_line U H (line_of raw) st"
proof -
  obtain e where e: "raw = line_of raw @ e" "e = [] \<or> e = [0x0D]" by (rule line_of_cases)
  define line where "line = line_of raw"
  have raw: "raw = line @ e" using e(1) by (simp add: line_def)
  show ?thesis
  proof (cases "ch CHR '':'' \<in> set line")
    case False
    then have none: "(if ch CHR '':'' \<in> set raw then Some (length (takeWhile (\<lambda>c. c \<noteq> ch CHR '':'') raw)) else None) = None"
      using raw e(2) by auto
    have tw: "takeWhile (\<lambda>c. c \<noteq> ch CHR '':'') line = line" using False by (simp add: takeWhile_eq_all_conv) metis
    have whole: "take (length line) (drop (length pre) (pre @ raw @ 0x0A # s)) = line" by (simp add: raw)
    show ?thesis
      unfolding line_def [symmetric] none parseEventStreamLine_def es_line_def tw option.case whole
      by (simp add: Let_def del: lit_Cons)
  next
    case True
    then obtain field behind where fb: "line = field @ ch CHR '':'' # behind" "ch CHR '':'' \<notin> set field"
      by (metis split_list_first)
    have tw: "takeWhile (\<lambda>c. c \<noteq> ch CHR '':'') line = field" "takeWhile (\<lambda>c. c \<noteq> ch CHR '':'') raw = field"
      using fb(2) unfolding raw fb(1) by (induction field) auto
    define buf where "buf = pre @ raw @ 0x0A # s"
    have buf: "buf = pre @ field @ ch CHR '':'' # behind @ e @ 0x0A # s" by (simp add: buf_def raw fb(1))
    have line: "length line = length field + 1 + length behind" "line \<noteq> []" "drop (length field + 1) line = behind"
      by (simp_all add: fb(1))
    have field: "take (length field) (drop (length pre) buf) = field" by (simp add: buf)
    have colon: "ch CHR '':'' \<in> set raw" using True raw by simp
    show ?thesis
    proof (cases "field = []")
      case True
      then show ?thesis
        unfolding line_def [symmetric] es_line_def tw parseEventStreamLine_def using colon line(1)
        by (simp add: Let_def fb(1) equalCStr_def)
    next
      case False
      have some: "(if ch CHR '':'' \<in> set raw then Some (length field) else None) = Some (length field)" using colon by simp
      have conds: "(length line = 0) = False" "(Some (length field) \<noteq> Some 0) = True" "(line = []) = False"
        using False line(2) by simp_all
      show ?thesis
        unfolding line_def [symmetric] es_line_def tw parseEventStreamLine_def buf_def [symmetric] some option.case Let_def
          conds if_False if_True field value_behind [OF buf e(2) refl, folded line(1)] line(3) case_prod_beta
        by simp
    qed
  qed
qed

section \<open>The stream\<close>

lemma line_length: "length (line_of raw) \<le> length raw"
  by (simp add: line_of_def)

lemma parse_loop_fold:
  "parse_loop U H (pre @ s) (length pre) st =
     (length pre + (length s - length (snd (cut_lines s))), fold (es_line U H) (fst (cut_lines s)) st)"
proof (induction "length s" arbitrary: pre s st rule: less_induct)
  case less
  show ?case
  proof (cases s rule: line_cases)
    case none
    then show ?thesis
      using scan_line_none [of s 0 pre None] by (subst parse_loop.simps) (simp add: cut_no_line)
  next
    case (line raw t)
    let ?pre = "pre @ raw @ [0x0A]"
    have behind: "length pre + length (line_of raw) + (length raw - length (line_of raw)) + 1 = length ?pre"
      using line_length [of raw] by simp
    let ?field = "if ch CHR '':'' \<in> set raw then Some (length (takeWhile (\<lambda>c. c \<noteq> ch CHR '':'') raw)) else None"
    have scan: "scan_line (pre @ s) (length pre) (length pre) None =
        Some (length (line_of raw), ?field, length raw - length (line_of raw))"
      using scan_line_field [OF line(2), of 0 pre t None] by (simp add: line(1))
    have "parse_loop U H (pre @ s) (length pre) st = parse_loop U H (pre @ s) (length ?pre) (es_line U H (line_of raw) st)"
      unfolding parse_loop.simps [of U H "pre @ s" "length pre"] scan option.case prod.case behind
      unfolding line(1) parse_line [OF line(2)] ..
    then have "parse_loop U H (pre @ s) (length pre) st = parse_loop U H (?pre @ t) (length ?pre) (es_line U H (line_of raw) st)"
      by (simp add: line(1))
    moreover have "length (snd (cut_lines t)) \<le> length t" using cut_suffix [of t] by (metis le_add2 length_append)
    ultimately show ?thesis
      using less.hyps [of t ?pre "es_line U H (line_of raw) st"] line by (simp add: cut_line)
  qed
qed

text \<open>The calls that a line can lead to do not look at the buffer.\<close>

lemma dispatchMessage_buffer: "dispatchMessage H (s\<lparr>es_receiveBuf := b\<rparr>) = (dispatchMessage H s)\<lparr>es_receiveBuf := b\<rparr>"
  by (simp add: dispatchMessage_def dispatchEvent_def es_close_def unsetPendingActivity_def cancelLoader_def es_failed_def
      endRequest_def scheduleReconnect_def Let_def)

lemma es_line_buffer: "es_line U H line (s\<lparr>es_receiveBuf := b\<rparr>) = (es_line U H line s)\<lparr>es_receiveBuf := b\<rparr>"
  by (simp add: es_line_def dispatchMessage_buffer Let_def)

lemma es_lines_buffer: "fold (es_line U H) lines (s\<lparr>es_receiveBuf := b\<rparr>) = (fold (es_line U H) lines s)\<lparr>es_receiveBuf := b\<rparr>"
  by (induction lines arbitrary: s) (simp_all add: es_line_buffer)

lemma parse_is_fold:
  "parseEventStream U H s =
     (fold (es_line U H) (fst (cut_lines (es_receiveBuf s))) s)\<lparr>es_receiveBuf := snd (cut_lines (es_receiveBuf s))\<rparr>"
proof -
  let ?b = "es_receiveBuf s" and ?s = "fold (es_line U H) (fst (cut_lines (es_receiveBuf s))) s"
  obtain t where t: "?b = t @ snd (cut_lines ?b)" "t = [] \<longleftrightarrow> 0x0A \<notin> set ?b" using cut_suffix by blast
  have keep: "es_receiveBuf ?s = ?b"
    using es_lines_buffer [where lines = "fst (cut_lines ?b)" and s = s and b = ?b] by (metis event_source.select_convs(4) event_source.surjective event_source.update_convs(4))
  have pos: "length ?b - length (snd (cut_lines ?b)) = length t" using t(1) by (metis add_diff_cancel_right' length_append)
  have "parse_loop U H ?b 0 s = (length t, ?s)" using parse_loop_fold [of U H "[]" ?b s] pos by simp
  moreover have "drop (length t) ?b = snd (cut_lines ?b)" using t(1) by (metis append_eq_conv_conj)
  moreover have "?s = ?s\<lparr>es_receiveBuf := ?b\<rparr>" using keep by simp
  ultimately show ?thesis
    using t keep unfolding parseEventStream_def Let_def
    by (cases "length t = length ?b"; cases "t = []") (auto simp: cut_no_line)
qed

text \<open>The parser, called for one chunk after the other.\<close>

lemma data_in_chunks:
  "fold (es_didReceiveData U H) (chunk # chunks) s =
     (let (lines, rest) = cut_lines (es_receiveBuf s @ concat (chunk # chunks))
      in (fold (es_line U H) lines s)\<lparr>es_receiveBuf := rest\<rparr>)"
proof (induction chunks arbitrary: chunk s)
  case Nil
  then show ?case by (simp add: es_didReceiveData_def parse_is_fold es_lines_buffer case_prod_beta Let_def)
next
  case (Cons c cs)
  have data: "es_didReceiveData U H chunk s =
      (fold (es_line U H) (fst (cut_lines (es_receiveBuf s @ chunk))) s)\<lparr>es_receiveBuf := snd (cut_lines (es_receiveBuf s @ chunk))\<rparr>"
    by (simp add: es_didReceiveData_def parse_is_fold es_lines_buffer)
  show ?case
    using Cons.IH [of c "es_didReceiveData U H chunk s"] cut_append [of "es_receiveBuf s @ chunk" "concat (c # cs)"]
    by (simp add: data es_lines_buffer case_prod_beta Let_def)
qed

section \<open>The life of the object\<close>

text \<open>
  Between the steps a source that is not closed waits for its loader or for its timer, never for
  both, and keeps itself alive just as long.
\<close>

definition es_ok :: "event_source \<Rightarrow> bool" where
  "es_ok s \<longleftrightarrow> es_requestInFlight s = es_loaderActive s \<and> \<not> (es_loaderActive s \<and> es_reconnectTimer s \<noteq> None)
     \<and> (es_state s = CLOSED \<longleftrightarrow> \<not> es_loaderActive s \<and> es_reconnectTimer s = None)
     \<and> es_pendingActivity s = (if es_state s = CLOSED then 0 else 1)"

definition es_running :: "event_source \<Rightarrow> bool" where
  "es_running s \<longleftrightarrow> es_requestInFlight s \<and> es_loaderActive s \<and> es_reconnectTimer s = None \<and> es_pendingActivity s = 1"

lemma running: "es_ok s \<Longrightarrow> es_loaderActive s \<Longrightarrow> es_running s \<and> es_state s \<noteq> CLOSED"
  by (auto simp: es_ok_def es_running_def)

lemma running_ok: "es_running s \<Longrightarrow> es_state s \<noteq> CLOSED \<Longrightarrow> es_ok s"
  by (simp add: es_ok_def es_running_def)

lemmas es_calls = es_close_def cancelLoader_def es_failed_def endRequest_def scheduleReconnect_def unsetPendingActivity_def
  dispatchEvent_def dispatchMessage_def

lemma es_close_ok: "es_ok s \<Longrightarrow> es_ok (es_close s) \<and> es_state (es_close s) = CLOSED"
  by (auto simp: es_ok_def es_calls Let_def)

lemma dispatchEvent_ok:
  assumes "es_ok s"
  shows "es_ok (dispatchEvent H e s)"
proof -
  have "es_ok (s\<lparr>es_trace := Dispatched e # es_trace s\<rparr>)" using assms by (simp add: es_ok_def)
  then show ?thesis using es_close_ok by (simp add: dispatchEvent_def Let_def)
qed

lemma endRequest_ok: "es_running s \<Longrightarrow> es_ok ((endRequest (dispatchEvent H ErrorEvent) s)\<lparr>es_loaderActive := False\<rparr>)"
  by (auto simp: es_running_def es_ok_def es_calls Let_def)

lemma es_failed_ok: "es_running s \<Longrightarrow> es_ok ((es_failed (dispatchEvent H ErrorEvent) canceled s)\<lparr>es_loaderActive := False\<rparr>)"
  using endRequest_ok [of "s\<lparr>es_state := CLOSED\<rparr>" H] endRequest_ok [of s H] by (simp add: es_failed_def es_running_def)

lemma cancelLoader_ok: "es_running s \<Longrightarrow> es_ok (cancelLoader (dispatchEvent H ErrorEvent) s)"
  using es_failed_ok [of s H True] by (simp add: cancelLoader_def es_running_def)

lemma es_line_ok:
  assumes "es_ok s"
  shows "es_ok (es_line U H line s)"
proof -
  have "es_ok (dispatchMessage H s)"
    unfolding dispatchMessage_def using assms by (intro dispatchEvent_ok) (simp add: es_ok_def)
  then show ?thesis using assms by (simp add: es_line_def es_ok_def Let_def)
qed

text \<open>A line may close the object; otherwise its request goes on.\<close>

definition es_open_or_closed :: "event_source \<Rightarrow> bool" where
  "es_open_or_closed s \<longleftrightarrow> es_ok s \<and> (if es_state s = CLOSED then es_failSilently s else es_running s)"

lemma open_or_closed: "es_ok s \<Longrightarrow> es_loaderActive s \<Longrightarrow> es_open_or_closed s"
  using running by (auto simp: es_open_or_closed_def)

lemma buffer_open_or_closed: "es_open_or_closed s \<Longrightarrow> es_open_or_closed (s\<lparr>es_receiveBuf := b\<rparr>)"
  unfolding es_open_or_closed_def es_ok_def es_running_def by (cases "es_reconnectTimer s"; simp)

lemma es_line_open_or_closed:
  assumes "es_open_or_closed s"
  shows "es_open_or_closed (es_line U H line s)"
proof -
  have ok: "es_ok s" "if es_state s = CLOSED then es_failSilently s else es_running s"
    using assms by (simp_all add: es_open_or_closed_def)
  have "if es_state (dispatchMessage H s) = CLOSED then es_failSilently (dispatchMessage H s) else es_running (dispatchMessage H s)"
    using ok(2) by (auto simp: es_running_def es_calls Let_def)
  then have "if es_state (es_line U H line s) = CLOSED then es_failSilently (es_line U H line s) else es_running (es_line U H line s)"
    using ok(2) by (cases "line = []") (auto simp: es_line_def es_running_def Let_def split: if_splits)
  with es_line_ok [OF ok(1)] show ?thesis by (simp add: es_open_or_closed_def)
qed

lemma parseEventStream_open_or_closed:
  assumes "es_open_or_closed s"
  shows "es_open_or_closed (parseEventStream U H s)"
proof -
  have "es_open_or_closed t \<Longrightarrow> es_open_or_closed (fold (es_line U H) lines t)" for lines t
    by (induction lines arbitrary: t) (simp_all add: es_line_open_or_closed)
  then have "es_open_or_closed (fold (es_line U H) (fst (cut_lines (es_receiveBuf s))) s)" using assms by blast
  then show ?thesis unfolding parse_is_fold by (rule buffer_open_or_closed)
qed

text \<open>What is flushed when the response ends, and that no script closes the object in it.\<close>

definition es_flush :: "unicode_peer \<Rightarrow> script \<Rightarrow> event_source \<Rightarrow> event_source" where
  "es_flush U H s = (if es_receiveBuf s \<noteq> [] \<or> es_data s \<noteq> []
     then parseEventStream U H (s\<lparr>es_receiveBuf := es_receiveBuf s @ [0x0A, 0x0A]\<rparr>) else s)"

lemma didFinishLoading_flush: "es_didFinishLoading U H s =
    (endRequest (dispatchEvent H ErrorEvent) ((es_flush U H s)\<lparr>es_state := CONNECTING\<rparr>))\<lparr>es_loaderActive := False\<rparr>"
  by (simp only: es_didFinishLoading_def es_flush_def Let_def)

lemma es_flush_open_or_closed: "es_open_or_closed s \<Longrightarrow> es_open_or_closed (es_flush U H s)"
  by (simp add: es_flush_def parseEventStream_open_or_closed buffer_open_or_closed)

fun quiet_flushes :: "unicode_peer \<Rightarrow> script \<Rightarrow> es_input list \<Rightarrow> event_source \<Rightarrow> bool" where
  "quiet_flushes U H [] s = True"
| "quiet_flushes U H (input # inputs) s =
     ((input = Finished \<and> es_loaderActive s \<longrightarrow> es_state (es_flush U H s) \<noteq> CLOSED) \<and> quiet_flushes U H inputs (es_step U H input s))"

lemma es_step_ok:
  assumes ok: "es_ok s" and quiet: "input = Finished \<and> es_loaderActive s \<longrightarrow> es_state (es_flush U H s) \<noteq> CLOSED"
  shows "es_ok (es_step U H input s)"
proof (cases "es_loaderActive s")
  case False
  then show ?thesis
    using ok es_close_ok [OF ok] by (cases input) (auto simp: reconnectTimerFired_def es_connect_def es_ok_def)
next
  case True
  note run = running [OF ok True]
  have changed: "es_running (s\<lparr>es_state := st\<rparr>)" for st using run by (simp add: es_running_def)
  show ?thesis
  proof (cases input)
    case (Response statusCode contentType)
    have "es_ok (dispatchEvent H OpenEvent (s\<lparr>es_state := OPEN\<rparr>))" using changed by (intro dispatchEvent_ok running_ok) simp_all
    then show ?thesis using Response True run changed cancelLoader_ok by (simp add: es_didReceiveResponse_def)
  next
    case (Data decoded)
    have "es_open_or_closed (s\<lparr>es_receiveBuf := b\<rparr>)" for b
      by (rule buffer_open_or_closed [OF open_or_closed [OF ok True]])
    then show ?thesis
      using parseEventStream_open_or_closed Data True by (simp add: es_didReceiveData_def es_open_or_closed_def)
  next
    case Finished
    have "es_running (es_flush U H s)"
      using es_flush_open_or_closed [OF open_or_closed [OF ok True], of U H] quiet Finished True by (simp add: es_open_or_closed_def)
    then have "es_running ((es_flush U H s)\<lparr>es_state := CONNECTING\<rparr>)" by (simp add: es_running_def)
    then have "es_ok (es_didFinishLoading U H s)"
      unfolding didFinishLoading_flush by (rule endRequest_ok)
    then show ?thesis using Finished True by simp
  next
    case (Failed canceled)
    then show ?thesis using True run es_failed_ok by (simp add: es_didFail_def)
  next
    case RedirectRefused
    then show ?thesis using True changed cancelLoader_ok by (simp add: es_didFailRedirectCheck_def)
  next
    case TimerFired
    then show ?thesis using ok True by (simp add: es_ok_def)
  next
    case Close
    then show ?thesis using es_close_ok [OF ok] by simp
  qed
qed

text \<open>C23: For a request that is under way and a script that does not close the source in a message, the network may cut the
  text anywhere, even inside a line end: the object comes to the same state, with the same events in the same order,
  as from the whole text, and that state is the fold of its complete lines, each taken apart at its first colon.\<close>

theorem event_stream_in_chunks:
  assumes "\<forall>n d i tr. \<not> H (Dispatched (MessageEvent n d i) # tr)" "es_loaderActive s"
  shows "fold (es_step U H) (map Data (chunk # chunks)) s =
     (let (lines, rest) = cut_lines (es_receiveBuf s @ concat (chunk # chunks))
      in (fold (es_line U H) lines s)\<lparr>es_receiveBuf := rest\<rparr>)"
proof -
  have line: "es_loaderActive (es_line U H line t) = es_loaderActive t" for line t
    using assms(1) by (simp add: es_line_def dispatchMessage_def dispatchEvent_def Let_def)
  have "es_loaderActive (fold (es_line U H) lines t) = es_loaderActive t" for lines t
    by (induction lines arbitrary: t) (simp_all add: line)
  then have active: "es_loaderActive (es_didReceiveData U H c t) = es_loaderActive t" for c t
    by (simp add: es_didReceiveData_def parse_is_fold es_lines_buffer)
  have "es_loaderActive t \<Longrightarrow> fold (es_step U H) (map Data cs) t = fold (es_didReceiveData U H) cs t" for cs t
    by (induction cs arbitrary: t) (simp_all add: active)
  then show ?thesis using assms(2) active data_in_chunks [of U H chunk chunks s] by simp
qed

theorem event_stream_in_chunks_witness:
  "fold (es_step ascii_peer (\<lambda>_. False)) (map Data [lit ''da'', lit ''ta: x'', [0x0A, 0x0A]]) EventSource_new =
     (let (lines, rest) = cut_lines (lit ''data: x'' @ [0x0A, 0x0A])
      in (fold (es_line ascii_peer (\<lambda>_. False)) lines EventSource_new)\<lparr>es_receiveBuf := rest\<rparr>)"
proof -
  have "es_loaderActive EventSource_new" "es_receiveBuf EventSource_new = []" by (simp_all add: EventSource_new_def es_connect_def)
  then show ?thesis
    using event_stream_in_chunks [of "\<lambda>_. False" EventSource_new ascii_peer "lit ''da''" "[lit ''ta: x'', [0x0A, 0x0A]]"]
    by (simp del: map_eq_conv)
qed

lemma closed_stays: "es_ok s \<Longrightarrow> es_state s = CLOSED \<Longrightarrow> es_step U H input s = s"
  by (cases input) (auto simp: es_ok_def es_close_def)

text \<open>C26: Whatever the network sends and whenever the script closes the source, between the calls the source waits for a request
  or for its timer, never for both, until it is closed, and keeps itself alive exactly as long; and no later call does
  anything to a source that was closed. The one exception is a close in a message that the end of a response flushes out.
  (Within the call in which it was closed the parser goes on with the lines it has.)\<close>

theorem event_source_life:
  assumes "quiet_flushes U H inputs EventSource_new"
  shows "let s = fold (es_step U H) inputs EventSource_new
    in es_requestInFlight s = es_loaderActive s \<and> \<not> (es_loaderActive s \<and> es_reconnectTimer s \<noteq> None)
       \<and> (es_state s = CLOSED \<longleftrightarrow> \<not> es_loaderActive s \<and> es_reconnectTimer s = None)
       \<and> es_pendingActivity s = (if es_state s = CLOSED then 0 else 1)
       \<and> (es_state s = CLOSED \<longrightarrow> (\<forall>more. fold (es_step U H) more s = s))"
proof -
  have "es_ok s \<Longrightarrow> quiet_flushes U H inputs s \<Longrightarrow> es_ok (fold (es_step U H) inputs s)" for s
    by (induction inputs arbitrary: s) (simp_all add: es_step_ok)
  moreover have "es_ok EventSource_new" by (simp add: EventSource_new_def es_connect_def es_ok_def)
  ultimately have ok: "es_ok (fold (es_step U H) inputs EventSource_new)" using assms by blast
  have "fold (es_step U H) more s = s" if "es_ok s" "es_state s = CLOSED" for s more
    using that by (induction more) (simp_all add: closed_stays)
  then show ?thesis using ok unfolding Let_def es_ok_def by blast
qed

text \<open>A script that closes the source in its second message, which arrives with a third: the response then ends and the timer
  would fire, to no effect.\<close>

definition second_message :: script where
  "second_message tr = (case tr of Dispatched (MessageEvent _ d _) # _ \<Rightarrow> d = lit ''b'' | _ \<Rightarrow> False)"

definition three_messages :: "es_input list" where
  "three_messages = [Response 200 (lit ''text/event-stream''),
     Data (concat (map (\<lambda>d. lit ''data:'' @ lit [d] @ [0x0A, 0x0A]) ''abc'')), Finished, TimerFired]"

theorem event_source_life_witness:
  "fold (es_step ascii_peer second_message) [TimerFired, Finished] (fold (es_step ascii_peer second_message) three_messages EventSource_new)
    = fold (es_step ascii_peer second_message) three_messages EventSource_new"
proof -
  have "es_state (fold (es_step ascii_peer second_message) three_messages EventSource_new) = CLOSED"
    "quiet_flushes ascii_peer second_message three_messages EventSource_new" by code_simp+
  then show ?thesis
    using event_source_life [of ascii_peer second_message three_messages] unfolding Let_def by blast
qed

section \<open>Closing in a message\<close>

text \<open>C40: A script that closes the source in the message flushed by the end of a response does not stop it: for every source whose
  request is under way and every script and text for which this happens, the source waits for its timer again, though nothing
  keeps it alive, and connects when the timer fires.\<close>

theorem close_in_last_message_reconnects:
  assumes "es_ok s" "es_loaderActive s" "es_state (es_flush U H s) = CLOSED"
  shows "let t = es_step U H Finished s; t' = es_step U H TimerFired t
    in es_state t = CONNECTING \<and> es_reconnectTimer t \<noteq> None \<and> es_pendingActivity t = 0
       \<and> es_loaderActive t' \<and> es_trace t' = Connected (es_lastEventId t) # es_trace t"
proof -
  have f: "es_open_or_closed (es_flush U H s)" using assms(1,2) by (intro es_flush_open_or_closed open_or_closed)
  then have c: "es_failSilently (es_flush U H s)" "es_pendingActivity (es_flush U H s) = 0"
    using assms(3) by (simp_all add: es_open_or_closed_def es_ok_def)
  have "es_step U H Finished s = (scheduleReconnect ((es_flush U H s)\<lparr>es_state := CONNECTING, es_requestInFlight := False\<rparr>))\<lparr>es_loaderActive := False\<rparr>"
    using assms(2) c(1) by (simp add: didFinishLoading_flush endRequest_def Let_def)
  then show ?thesis using c(2) by (simp add: scheduleReconnect_def reconnectTimerFired_def es_connect_def Let_def)
qed

theorem close_in_last_message_reconnects_witness:
  "let s = fold (es_step ascii_peer second_message) [Response 200 (lit ''text/event-stream''), Data (lit ''data:b'')] EventSource_new
   in es_state (es_step ascii_peer second_message Finished s) = CONNECTING"
proof -
  let ?s = "fold (es_step ascii_peer second_message) [Response 200 (lit ''text/event-stream''), Data (lit ''data:b'')] EventSource_new"
  have "es_ok ?s" "es_loaderActive ?s" "es_state (es_flush ascii_peer second_message ?s) = CLOSED" by code_simp+
  from close_in_last_message_reconnects [OF this] show ?thesis unfolding Let_def by blast
qed

end
