(* ===== verification/PageCache.thy ===== *)
theory PageCache
  imports BackForwardListFacts Complex_Main
begin

text \<open>
  The cache of whole pages behind the session history: src/webkit/WebCore/history/PageCache.cpp.
  The least recently used list runs through the history items themselves, by the links
  \<open>m_next\<close> and \<open>m_prev\<close> of HistoryItem.h; items and pages are addresses. Pages wait in a set for
  their destruction, which a timer starts.
\<close>

section \<open>State\<close>

type_synonym page = nat

record cached_item =
  it_next :: "item option"
  it_prev :: "item option"
  it_cachedPage :: "page option"

record page_cache =
  pc_capacity :: int
  pc_size :: int
  pc_head :: "item option"
  pc_tail :: "item option"
  pc_items :: "item \<Rightarrow> cached_item"
  pc_autoreleaseSet :: "page list"
  pc_autoreleaseTimer :: "real option"
  pc_destroyed :: "page list"
  pc_references :: "item \<Rightarrow> int"

definition autoreleaseInterval :: real where
  "autoreleaseInterval = 3"

definition PageCache_new :: page_cache where
  "PageCache_new = \<lparr>pc_capacity = 0, pc_size = 0, pc_head = None, pc_tail = None,
     pc_items = (\<lambda>_. \<lparr>it_next = None, it_prev = None, it_cachedPage = None\<rparr>), pc_autoreleaseSet = [],
     pc_autoreleaseTimer = None, pc_destroyed = [], pc_references = (\<lambda>_. 0)\<rparr>"

definition set_item :: "item \<Rightarrow> (cached_item \<Rightarrow> cached_item) \<Rightarrow> page_cache \<Rightarrow> page_cache" where
  "set_item x f s = s\<lparr>pc_items := (pc_items s)(x := f (pc_items s x))\<rparr>"

definition pc_get :: "item option \<Rightarrow> page_cache \<Rightarrow> page option" where
  "pc_get item s = (case item of None \<Rightarrow> None | Some x \<Rightarrow> it_cachedPage (pc_items s x))"

section \<open>The list\<close>

definition addToLRUList :: "item \<Rightarrow> page_cache \<Rightarrow> page_cache" where
  "addToLRUList x s =
     (let s1 = set_item x (\<lambda>r. r\<lparr>it_next := pc_head s, it_prev := None\<rparr>) s;
          s2 = (case pc_head s1 of
                  Some h \<Rightarrow> set_item h (\<lambda>r. r\<lparr>it_prev := Some x\<rparr>) s1
                | None \<Rightarrow> s1\<lparr>pc_tail := Some x\<rparr>)
      in s2\<lparr>pc_head := Some x\<rparr>)"

definition removeFromLRUList :: "item \<Rightarrow> page_cache \<Rightarrow> page_cache" where
  "removeFromLRUList x s =
     (let s1 = (case it_next (pc_items s x) of
                  None \<Rightarrow> s\<lparr>pc_tail := it_prev (pc_items s x)\<rparr>
                | Some n \<Rightarrow> set_item n (\<lambda>r. r\<lparr>it_prev := it_prev (pc_items s x)\<rparr>) s)
      in case it_prev (pc_items s1 x) of
           None \<Rightarrow> s1\<lparr>pc_head := it_next (pc_items s1 x)\<rparr>
         | Some p \<Rightarrow> set_item p (\<lambda>r. r\<lparr>it_next := it_next (pc_items s1 x)\<rparr>) s1)"

definition autorelease :: "page \<Rightarrow> page_cache \<Rightarrow> page_cache" where
  "autorelease p s =
     (let s1 = s\<lparr>pc_autoreleaseSet := (if p \<in> set (pc_autoreleaseSet s) then pc_autoreleaseSet s else pc_autoreleaseSet s @ [p])\<rparr>
      in if pc_autoreleaseTimer s1 = None then s1\<lparr>pc_autoreleaseTimer := Some autoreleaseInterval\<rparr> else s1)"

definition add_reference :: "item \<Rightarrow> int \<Rightarrow> page_cache \<Rightarrow> page_cache" where
  "add_reference x n s = s\<lparr>pc_references := (pc_references s)(x := pc_references s x + n)\<rparr>"

text \<open>\<open>remove(item)\<close>: an item that is null or not in the cache is ignored.\<close>

definition pc_remove :: "item option \<Rightarrow> page_cache \<Rightarrow> page_cache" where
  "pc_remove item s =
     (case item of
        None \<Rightarrow> s
      | Some x \<Rightarrow>
          (case it_cachedPage (pc_items s x) of
             None \<Rightarrow> s
           | Some p \<Rightarrow>
               (let s1 = autorelease p (set_item x (\<lambda>r. r\<lparr>it_cachedPage := None\<rparr>) s);
                    s2 = removeFromLRUList x s1
                in add_reference x (-1) (s2\<lparr>pc_size := pc_size s2 - 1\<rparr>))))"

text \<open>\<open>while (m_size > m_capacity) remove(m_tail)\<close>; without a tail it would not end.\<close>

partial_function (option) pc_prune :: "page_cache \<Rightarrow> page_cache option" where
  "pc_prune s = (if pc_size s > pc_capacity s then pc_prune (pc_remove (pc_tail s) s) else Some s)"

definition pc_setCapacity :: "int \<Rightarrow> page_cache \<Rightarrow> page_cache option" where
  "pc_setCapacity capacity s = pc_prune (s\<lparr>pc_capacity := max capacity 0\<rparr>)"

definition pc_add :: "item \<Rightarrow> page \<Rightarrow> page_cache \<Rightarrow> page_cache option" where
  "pc_add x p s =
     (let s0 = add_reference x 1 s;
          s1 = (if it_cachedPage (pc_items s0 x) \<noteq> None then pc_remove (Some x) s0 else s0);
          s2 = addToLRUList x (set_item x (\<lambda>r. r\<lparr>it_cachedPage := Some p\<rparr>) s1)
      in pc_prune (s2\<lparr>pc_size := pc_size s2 + 1\<rparr>))"

section \<open>Letting the pages go\<close>

definition releaseAutoreleasedPagesNow :: "page_cache \<Rightarrow> page_cache" where
  "releaseAutoreleasedPagesNow s =
     s\<lparr>pc_autoreleaseTimer := None, pc_destroyed := pc_destroyed s @ pc_autoreleaseSet s, pc_autoreleaseSet := []\<rparr>"

text \<open>The timer; \<open>userDelta\<close> and \<open>loadDelta\<close> are the seconds since the last input and the last load.\<close>

definition releaseAutoreleasedPagesNowOrReschedule :: "real \<Rightarrow> real \<Rightarrow> page_cache \<Rightarrow> page_cache" where
  "releaseAutoreleasedPagesNowOrReschedule userDelta loadDelta s =
     (if (userDelta < 0.5 \<or> loadDelta < 1.25) \<and> length (pc_autoreleaseSet s) < 42
      then s\<lparr>pc_autoreleaseTimer := Some autoreleaseInterval\<rparr>
      else releaseAutoreleasedPagesNow s)"

section \<open>The list is doubly linked\<close>

fun linked :: "(item \<Rightarrow> cached_item) \<Rightarrow> item option \<Rightarrow> item list \<Rightarrow> item option \<Rightarrow> bool" where
  "linked f p [] n = True"
| "linked f p (x # xs) n = (it_prev (f x) = p \<and> it_next (f x) = (case xs of [] \<Rightarrow> n | y # _ \<Rightarrow> Some y) \<and> linked f (Some x) xs n)"

definition first_or :: "item option \<Rightarrow> item list \<Rightarrow> item option" where
  "first_or n xs = (case xs of [] \<Rightarrow> n | y # _ \<Rightarrow> Some y)"

definition last_or :: "item option \<Rightarrow> item list \<Rightarrow> item option" where
  "last_or p xs = (if xs = [] then p else Some (last xs))"

lemma first_last_or [simp]:
  "first_or n [] = n" "first_or n (x # xs) = Some x" "last_or p [] = p" "last_or p (xs @ [x]) = Some x"
  "last_or p (x # xs) = last_or (Some x) xs"
  by (simp_all add: first_or_def last_or_def)

lemma linked_Cons: "linked f p (x # xs) n \<longleftrightarrow> it_prev (f x) = p \<and> it_next (f x) = first_or n xs \<and> linked f (Some x) xs n"
  by (simp add: first_or_def)

lemma linked_append: "linked f p (xs @ ys) n \<longleftrightarrow> linked f p xs (first_or n ys) \<and> linked f (last_or p xs) ys n"
proof (induction xs arbitrary: p)
  case (Cons x xs)
  then show ?case by (cases xs) (auto simp: linked_Cons first_or_def simp del: linked.simps(2))
qed simp

lemma linked_cong:
  "linked f p xs n \<Longrightarrow> (\<And>x. x \<in> set xs \<Longrightarrow> it_prev (g x) = it_prev (f x) \<and> it_next (g x) = it_next (f x)) \<Longrightarrow> linked g p xs n"
  by (induction xs arbitrary: p) auto

lemma linked_set_next:
  assumes "linked f p (xs @ [y]) n" "y \<notin> set xs" "it_prev (g y) = it_prev (f y)" "it_next (g y) = n'"
    and "\<And>x. x \<in> set xs \<Longrightarrow> it_prev (g x) = it_prev (f x) \<and> it_next (g x) = it_next (f x)"
  shows "linked g p (xs @ [y]) n'"
  using assms linked_cong [of f p xs "Some y" g] by (simp add: linked_append)

lemma linked_set_prev:
  assumes "linked f p (y # ys) n" "y \<notin> set ys" "it_prev (g y) = p'" "it_next (g y) = it_next (f y)"
    and "\<And>x. x \<in> set ys \<Longrightarrow> it_prev (g x) = it_prev (f x) \<and> it_next (g x) = it_next (f x)"
  shows "linked g p' (y # ys) n"
  using assms linked_cong [of f "Some y" ys n g] by simp

end
