(* ===== verification/PageCacheFacts.thy ===== *)
theory PageCacheFacts
  imports PageCache
begin

text \<open>
  The page cache is a bounded list of the pages used last: its links implement the list, its loop
  ends, every page it was given is still there, waiting, or destroyed. Together with the session
  history: no page is kept for an item the history has dropped.
\<close>

section \<open>The links\<close>

definition dll :: "page_cache \<Rightarrow> item list \<Rightarrow> bool" where
  "dll s xs \<longleftrightarrow> distinct xs \<and> linked (pc_items s) None xs None \<and> pc_head s = first_or None xs \<and> pc_tail s = last_or None xs"

lemma set_item_fields [simp]:
  "pc_items (set_item x f s) = (pc_items s)(x := f (pc_items s x))" "pc_head (set_item x f s) = pc_head s"
  "pc_tail (set_item x f s) = pc_tail s" "pc_size (set_item x f s) = pc_size s"
  "pc_capacity (set_item x f s) = pc_capacity s" "pc_autoreleaseSet (set_item x f s) = pc_autoreleaseSet s"
  "pc_autoreleaseTimer (set_item x f s) = pc_autoreleaseTimer s" "pc_destroyed (set_item x f s) = pc_destroyed s"
  by (simp_all add: set_item_def)

text \<open>What a change of the links keeps.\<close>

definition only_links :: "page_cache \<Rightarrow> page_cache \<Rightarrow> bool" where
  "only_links s s' \<longleftrightarrow> (\<forall>x. it_cachedPage (pc_items s' x) = it_cachedPage (pc_items s x)) \<and> pc_size s' = pc_size s
     \<and> pc_capacity s' = pc_capacity s \<and> pc_autoreleaseSet s' = pc_autoreleaseSet s
     \<and> pc_autoreleaseTimer s' = pc_autoreleaseTimer s \<and> pc_destroyed s' = pc_destroyed s"

lemma only_links_list: "only_links s (addToLRUList x s)" "only_links s (removeFromLRUList x s)"
  by (simp_all add: only_links_def addToLRUList_def removeFromLRUList_def Let_def split: option.split)

lemma dll_add:
  assumes "dll s xs" "x \<notin> set xs"
  shows "dll (addToLRUList x s) (x # xs)"
proof (cases xs)
  case Nil
  then show ?thesis using assms by (simp add: dll_def addToLRUList_def Let_def)
next
  case (Cons y ys)
  let ?s = "addToLRUList x s"
  have d: "distinct xs" "linked (pc_items s) None (y # ys) None" "pc_head s = Some y" "pc_tail s = last_or None xs"
    using assms(1) Cons by (simp_all add: dll_def)
  have new: "pc_items ?s = (pc_items s)(x := (pc_items s x)\<lparr>it_next := Some y, it_prev := None\<rparr>,
      y := (pc_items s y)\<lparr>it_prev := Some x\<rparr>)" "pc_head ?s = Some x" "pc_tail ?s = pc_tail s"
    using assms(2) Cons d(3) by (auto simp: addToLRUList_def Let_def)
  have "linked (pc_items ?s) (Some x) (y # ys) None"
    using d(1) Cons assms(2) by (intro linked_set_prev [OF d(2)]) (auto simp: new(1))
  then show ?thesis using assms(2) d Cons by (auto simp: dll_def new linked_Cons simp del: linked.simps(2))
qed

lemma dll_remove:
  assumes "dll s (ys @ x # zs)"
  shows "dll (removeFromLRUList x s) (ys @ zs)"
proof -
  let ?s = "removeFromLRUList x s"
  have dist: "distinct (ys @ x # zs)" and lk: "linked (pc_items s) None ys (Some x)" "linked (pc_items s) (Some x) zs None"
    and x: "it_prev (pc_items s x) = last_or None ys" "it_next (pc_items s x) = first_or None zs"
    and ht: "pc_head s = first_or None (ys @ x # zs)" "pc_tail s = last_or None (ys @ x # zs)"
    using assms by (auto simp: dll_def linked_append linked_Cons simp del: linked.simps(2))
  have ys: "linked g None ys (first_or None zs)"
    if "\<And>y. y \<in> set ys \<Longrightarrow> it_prev (g y) = it_prev (pc_items s y)"
      "\<And>y. y \<in> set ys \<Longrightarrow> it_next (g y) = (if y = last ys then first_or None zs else it_next (pc_items s y))" for g
  proof (cases ys rule: rev_cases)
    case (snoc us u)
    have u: "u \<notin> set us" and l: "linked (pc_items s) None (us @ [u]) (Some x)" using dist lk(1) snoc by auto
    have g: "it_prev (g u) = it_prev (pc_items s u)" "it_next (g u) = first_or None zs"
      "\<And>w. w \<in> set us \<Longrightarrow> it_prev (g w) = it_prev (pc_items s w) \<and> it_next (g w) = it_next (pc_items s w)"
      using that u unfolding snoc by auto
    show ?thesis unfolding snoc by (rule linked_set_next [OF l u g])
  qed simp
  have zs: "linked g (last_or None ys) zs None"
    if "\<And>z. z \<in> set zs \<Longrightarrow> it_next (g z) = it_next (pc_items s z)"
      "\<And>z. z \<in> set zs \<Longrightarrow> it_prev (g z) = (if z = hd zs then last_or None ys else it_prev (pc_items s z))" for g
  proof (cases zs)
    case (Cons v vs)
    have v: "v \<notin> set vs" and l: "linked (pc_items s) (Some x) (v # vs) None" using dist lk(2) Cons by auto
    have g: "it_prev (g v) = last_or None ys" "it_next (g v) = it_next (pc_items s v)"
      "\<And>w. w \<in> set vs \<Longrightarrow> it_prev (g w) = it_prev (pc_items s w) \<and> it_next (g w) = it_next (pc_items s w)"
      using that v unfolding Cons by auto
    show ?thesis unfolding Cons by (rule linked_set_prev [OF l v g])
  qed simp
  have sep: "ys \<noteq> [] \<Longrightarrow> last ys \<notin> set zs" using dist by (auto dest: last_in_set)
  have "linked (pc_items ?s) None (ys @ zs) None"
    unfolding linked_append
  proof
    show "linked (pc_items ?s) None ys (first_or None zs)"
      using dist x sep by (intro ys) (auto simp: removeFromLRUList_def Let_def first_or_def last_or_def split: option.split list.split)
    show "linked (pc_items ?s) (last_or None ys) zs None"
      using dist x sep by (intro zs) (auto simp: removeFromLRUList_def Let_def first_or_def last_or_def split: option.split list.split)
  qed
  moreover have "pc_head ?s = (if it_prev (pc_items s x) = None then it_next (pc_items s x) else pc_head s)"
    "pc_tail ?s = (if it_next (pc_items s x) = None then it_prev (pc_items s x) else pc_tail s)"
    using dist x by (auto simp: removeFromLRUList_def Let_def first_or_def last_or_def split: option.split list.split)
  then have "pc_head ?s = first_or None (ys @ zs)" "pc_tail ?s = last_or None (ys @ zs)"
    unfolding x ht by (cases ys; cases zs; simp add: last_or_def)+
  ultimately show ?thesis using dist by (simp add: dll_def)
qed

section \<open>The cache is a bounded list\<close>

text \<open>
  The abstract cache: the items used last with their pages, the newest first. The concrete one
  shows it by its links and in the items, and a timer runs while pages wait.
\<close>

definition pc_shows :: "(item \<times> page) list \<Rightarrow> page_cache \<Rightarrow> bool" where
  "pc_shows xs s \<longleftrightarrow> dll s (map fst xs) \<and> pc_size s = int (length xs)
     \<and> (\<forall>x. it_cachedPage (pc_items s x) = map_of xs x)
     \<and> (pc_autoreleaseSet s \<noteq> [] \<longrightarrow> pc_autoreleaseTimer s \<noteq> None)"

definition lru_remove :: "item \<Rightarrow> (item \<times> page) list \<Rightarrow> (item \<times> page) list" where
  "lru_remove x xs = filter (\<lambda>(y, p). y \<noteq> x) xs"

lemma map_of_lru_remove: "map_of (lru_remove x xs) y = (if y = x then None else map_of xs y)"
  by (induction xs) (auto simp: lru_remove_def)

lemma lru_remove_absent: "map_of xs x = None \<Longrightarrow> lru_remove x xs = xs"
  by (induction xs) (auto simp: lru_remove_def split: if_splits)

lemma lru_remove_split:
  assumes "map_of xs x = Some p" "distinct (map fst xs)"
  obtains ys zs where "xs = ys @ (x, p) # zs" "lru_remove x xs = ys @ zs"
proof -
  obtain ys zs where xs: "xs = ys @ (x, p) # zs" using map_of_SomeD [OF assms(1)] by (meson split_list)
  moreover have "\<forall>(y, q)\<in>set (ys @ zs). y \<noteq> x" using assms(2) unfolding xs by force
  then have "filter (\<lambda>(y, q). y \<noteq> x) (ys @ zs) = ys @ zs" by (auto simp: filter_id_conv)
  ultimately show thesis using that by (simp add: lru_remove_def)
qed

text \<open>All the pages the cache was given and has not destroyed.\<close>

definition held_pages :: "page_cache \<Rightarrow> page set" where
  "held_pages s = {p. \<exists>x. it_cachedPage (pc_items s x) = Some p} \<union> set (pc_autoreleaseSet s) \<union> set (pc_destroyed s)"

lemma pc_remove_shows:
  assumes "pc_shows xs s"
  shows "pc_shows (lru_remove x xs) (pc_remove (Some x) s) \<and> pc_capacity (pc_remove (Some x) s) = pc_capacity s
    \<and> held_pages (pc_remove (Some x) s) = held_pages s"
proof (cases "map_of xs x")
  case None
  then show ?thesis using assms by (simp add: pc_remove_def pc_shows_def lru_remove_absent)
next
  case (Some p)
  have m: "\<forall>y. it_cachedPage (pc_items s y) = map_of xs y" and d: "dll s (map fst xs)" using assms by (simp_all add: pc_shows_def)
  obtain ys zs where xs: "xs = ys @ (x, p) # zs" "lru_remove x xs = ys @ zs"
    using lru_remove_split [OF Some] d by (auto simp: dll_def)
  define s1 where "s1 = autorelease p (set_item x (\<lambda>r. r\<lparr>it_cachedPage := None\<rparr>) s)"
  have s1: "pc_items s1 = (pc_items s)(x := (pc_items s x)\<lparr>it_cachedPage := None\<rparr>)" "pc_size s1 = pc_size s"
    "pc_capacity s1 = pc_capacity s" "set (pc_autoreleaseSet s1) = insert p (set (pc_autoreleaseSet s))"
    "pc_autoreleaseTimer s1 \<noteq> None" "pc_destroyed s1 = pc_destroyed s" "pc_head s1 = pc_head s" "pc_tail s1 = pc_tail s"
    by (auto simp: s1_def autorelease_def Let_def)
  have "linked (pc_items s1) None (map fst xs) None"
    by (rule linked_cong [of "pc_items s"]) (use d in \<open>simp_all add: dll_def s1\<close>)
  then have "dll s1 (map fst xs)" using d by (simp add: dll_def s1)
  then have "dll s1 (map fst ys @ x # map fst zs)" by (simp add: xs(1))
  then have d2: "dll (removeFromLRUList x s1) (map fst (ys @ zs))" unfolding map_append by (rule dll_remove)
  have links: "only_links s1 (removeFromLRUList x s1)" by (rule only_links_list)
  have r: "pc_remove (Some x) s = add_reference x (-1) ((removeFromLRUList x s1)\<lparr>pc_size := pc_size (removeFromLRUList x s1) - 1\<rparr>)"
    using m Some by (simp add: pc_remove_def s1_def Let_def)
  have pages: "it_cachedPage (pc_items s1 y) = (if y = x then None else map_of xs y)" for y using m by (simp add: s1)
  have gone: "{q. \<exists>y. it_cachedPage (pc_items s1 y) = Some q} \<union> {p} = {q. \<exists>y. it_cachedPage (pc_items s y) = Some q}"
    unfolding pages using m Some by auto (metis option.inject)
  have len: "length xs = Suc (length (lru_remove x xs))" unfolding xs(2) by (simp add: xs(1))
  have "pc_shows (lru_remove x xs) (pc_remove (Some x) s)"
    using d2 [folded xs(2)] links s1(2,5) assms pages len unfolding r
    by (simp add: pc_shows_def dll_def only_links_def add_reference_def map_of_lru_remove)
  moreover have "held_pages (pc_remove (Some x) s) = held_pages s"
    using links s1(4,6) gone unfolding r by (auto simp: held_pages_def only_links_def add_reference_def)
  ultimately show ?thesis using links s1(3) unfolding r by (simp add: only_links_def add_reference_def)
qed

lemma lru_remove_last: "distinct (map fst (xs @ [(x, p)])) \<Longrightarrow> lru_remove x (xs @ [(x, p)]) = xs"
  by (induction xs) (auto simp: lru_remove_def)

text \<open>The loop ends, since the list has a tail as long as the size is positive.\<close>

lemma pc_prune_shows:
  "pc_shows xs s \<Longrightarrow> 0 \<le> pc_capacity s \<Longrightarrow>
     \<exists>s'. pc_prune s = Some s' \<and> pc_shows (take (nat (pc_capacity s)) xs) s' \<and> pc_capacity s' = pc_capacity s
       \<and> held_pages s' = held_pages s"
proof (induction xs arbitrary: s rule: rev_induct)
  case Nil
  then show ?case by (simp add: pc_prune.simps pc_shows_def)
next
  case (snoc y xs)
  obtain x p where y: "y = (x, p)" by (cases y)
  show ?case
  proof (cases "pc_size s > pc_capacity s")
    case False
    then show ?thesis using snoc.prems by (simp add: pc_prune.simps [of s] pc_shows_def)
  next
    case True
    have t: "pc_tail s = Some x" and d: "distinct (map fst (xs @ [(x, p)]))" using snoc.prems(1) y by (auto simp: pc_shows_def dll_def)
    have r: "pc_shows xs (pc_remove (Some x) s)" "pc_capacity (pc_remove (Some x) s) = pc_capacity s"
      "held_pages (pc_remove (Some x) s) = held_pages s"
      using pc_remove_shows [OF snoc.prems(1), of x] lru_remove_last [OF d] y by simp_all
    have "nat (pc_capacity s) \<le> length xs" using True snoc.prems by (simp add: pc_shows_def)
    then show ?thesis using snoc.IH [OF r(1)] r snoc.prems(2) True t by (simp add: pc_prune.simps [of s])
  qed
qed

lemma pc_add_shows:
  assumes "pc_shows xs s" "0 \<le> pc_capacity s"
  shows "\<exists>s'. pc_add x p s = Some s' \<and> pc_shows (take (nat (pc_capacity s)) ((x, p) # lru_remove x xs)) s'
    \<and> pc_capacity s' = pc_capacity s \<and> held_pages s' = insert p (held_pages s)"
proof -
  define s0 where "s0 = add_reference x 1 s"
  have s0: "pc_shows xs s0" "pc_capacity s0 = pc_capacity s" "held_pages s0 = held_pages s"
    using assms(1) by (simp_all add: s0_def add_reference_def pc_shows_def dll_def held_pages_def)
  define s1 where "s1 = (if it_cachedPage (pc_items s0 x) \<noteq> None then pc_remove (Some x) s0 else s0)"
  have "it_cachedPage (pc_items s0 x) = None \<Longrightarrow> map_of xs x = None" using s0(1) by (auto simp: pc_shows_def)
  then have s1: "pc_shows (lru_remove x xs) s1" "pc_capacity s1 = pc_capacity s" "held_pages s1 = held_pages s"
    using pc_remove_shows [OF s0(1), of x] s0 by (auto simp: s1_def lru_remove_absent)
  define s2 where "s2 = set_item x (\<lambda>r. r\<lparr>it_cachedPage := Some p\<rparr>) s1"
  define s3 where "s3 = addToLRUList x s2"
  have absent: "x \<notin> set (map fst (lru_remove x xs))" by (auto simp: lru_remove_def)
  have "linked (pc_items s2) None (map fst (lru_remove x xs)) None"
    by (rule linked_cong [of "pc_items s1"]) (use s1(1) in \<open>simp_all add: pc_shows_def dll_def s2_def\<close>)
  then have "dll s2 (map fst (lru_remove x xs))" using s1(1) by (simp add: pc_shows_def dll_def s2_def)
  then have d: "dll s3 (x # map fst (lru_remove x xs))" unfolding s3_def using absent by (rule dll_add)
  have links: "only_links s2 s3" unfolding s3_def by (rule only_links_list)
  have none: "map_of (lru_remove x xs) x = None" by (simp add: map_of_lru_remove)
  have pages: "it_cachedPage (pc_items s3 y) = map_of ((x, p) # lru_remove x xs) y" for y
    using links s1(1) by (simp add: only_links_def s2_def pc_shows_def)
  have shows3: "pc_shows ((x, p) # lru_remove x xs) (s3\<lparr>pc_size := pc_size s3 + 1\<rparr>)"
    using d links s1(1) pages by (auto simp: pc_shows_def dll_def only_links_def s2_def)
  have "{q. \<exists>y. it_cachedPage (pc_items s3 y) = Some q} = insert p {q. \<exists>y. it_cachedPage (pc_items s1 y) = Some q}"
    using s1(1) none unfolding pages by (auto simp: pc_shows_def split: if_splits) (metis option.distinct(1))+
  then have held: "held_pages (s3\<lparr>pc_size := n\<rparr>) = insert p (held_pages s)" for n
    using links s1(3) by (auto simp: held_pages_def only_links_def s2_def)
  have "pc_capacity s3 = pc_capacity s" using links s1(2) by (simp add: only_links_def s2_def)
  moreover have "pc_add x p s = pc_prune (s3\<lparr>pc_size := pc_size s3 + 1\<rparr>)"
    by (simp add: pc_add_def s0_def s1_def s2_def s3_def Let_def)
  ultimately show ?thesis using pc_prune_shows [OF shows3] assms(2) held by simp
qed

section \<open>Runs\<close>

datatype pc_op =
    AddPage item page
  | RemovePage "item option"
  | SetPageCapacity int
  | ReleaseNow
  | AutoreleaseTimerFired real real

fun pc_apply :: "pc_op \<Rightarrow> page_cache \<Rightarrow> page_cache option" where
  "pc_apply (AddPage x p) s = pc_add x p s"
| "pc_apply (RemovePage item) s = Some (pc_remove item s)"
| "pc_apply (SetPageCapacity n) s = pc_setCapacity n s"
| "pc_apply ReleaseNow s = Some (releaseAutoreleasedPagesNow s)"
| "pc_apply (AutoreleaseTimerFired userDelta loadDelta) s =
     Some (if pc_autoreleaseTimer s = None then s
           else releaseAutoreleasedPagesNowOrReschedule userDelta loadDelta (s\<lparr>pc_autoreleaseTimer := None\<rparr>))"

fun pc_run :: "pc_op list \<Rightarrow> page_cache \<Rightarrow> page_cache option" where
  "pc_run [] s = Some s"
| "pc_run (op # ops) s = Option.bind (pc_apply op s) (pc_run ops)"

text \<open>The specification: a capacity and a list.\<close>

fun lru_apply :: "pc_op \<Rightarrow> nat \<times> (item \<times> page) list \<Rightarrow> nat \<times> (item \<times> page) list" where
  "lru_apply (AddPage x p) (n, xs) = (n, take n ((x, p) # lru_remove x xs))"
| "lru_apply (RemovePage item) (n, xs) = (n, case item of None \<Rightarrow> xs | Some x \<Rightarrow> lru_remove x xs)"
| "lru_apply (SetPageCapacity m) (n, xs) = (nat m, take (nat m) xs)"
| "lru_apply _ (n, xs) = (n, xs)"

definition added_pages :: "pc_op list \<Rightarrow> page set" where
  "added_pages ops = {p. \<exists>x. AddPage x p \<in> set ops}"

lemma pc_apply_shows:
  assumes "pc_shows xs s" "pc_capacity s = int n" "lru_apply op (n, xs) = (n', xs')"
  shows "\<exists>s'. pc_apply op s = Some s' \<and> pc_shows xs' s' \<and> pc_capacity s' = int n'
    \<and> held_pages s' = held_pages s \<union> added_pages [op]"
proof (cases op)
  case (AddPage x p)
  then show ?thesis using assms pc_add_shows [OF assms(1), of x p] by (auto simp: added_pages_def)
next
  case (RemovePage item)
  then show ?thesis using assms pc_remove_shows [OF assms(1)]
    by (cases item) (auto simp: added_pages_def pc_remove_def)
next
  case (SetPageCapacity m)
  have "pc_shows xs (s\<lparr>pc_capacity := max m 0\<rparr>)" "held_pages (s\<lparr>pc_capacity := max m 0\<rparr>) = held_pages s"
    using assms(1) by (simp_all add: pc_shows_def dll_def held_pages_def)
  then show ?thesis using assms(3) SetPageCapacity pc_prune_shows [of xs "s\<lparr>pc_capacity := max m 0\<rparr>"]
    by (auto simp: pc_setCapacity_def added_pages_def)
next
  case ReleaseNow
  then show ?thesis using assms
    by (auto simp: releaseAutoreleasedPagesNow_def pc_shows_def dll_def held_pages_def added_pages_def)
next
  case (AutoreleaseTimerFired userDelta loadDelta)
  then show ?thesis using assms
    by (auto simp: releaseAutoreleasedPagesNowOrReschedule_def releaseAutoreleasedPagesNow_def pc_shows_def dll_def
        held_pages_def added_pages_def)
qed

lemma pc_run_shows:
  "pc_shows xs s \<Longrightarrow> pc_capacity s = int n \<Longrightarrow> fold lru_apply ops (n, xs) = (n', xs') \<Longrightarrow>
     \<exists>s'. pc_run ops s = Some s' \<and> pc_shows xs' s' \<and> pc_capacity s' = int n' \<and> held_pages s' = held_pages s \<union> added_pages ops"
proof (induction ops arbitrary: xs s n)
  case (Cons op ops)
  obtain n1 xs1 where 1: "lru_apply op (n, xs) = (n1, xs1)" by fastforce
  obtain s1 where s1: "pc_apply op s = Some s1" "pc_shows xs1 s1" "pc_capacity s1 = int n1"
    "held_pages s1 = held_pages s \<union> added_pages [op]" using pc_apply_shows [OF Cons.prems(1,2) 1] by blast
  have "fold lru_apply ops (n1, xs1) = (n', xs')" using Cons.prems(3) 1 by simp
  from Cons.IH [OF s1(2,3) this] show ?case using s1 by (auto simp: added_pages_def)
qed (auto simp: added_pages_def)

lemma PageCache_new_shows: "pc_shows [] PageCache_new" "pc_capacity PageCache_new = int 0" "held_pages PageCache_new = {}"
  by (simp_all add: PageCache_new_def pc_shows_def dll_def held_pages_def)

text \<open>C13: The page cache is a list of the pages used last, cut to its capacity: whatever is done to it, every
  operation returns, looking up an item gives the page the list has for it, and every page that
  was ever added is in the list, waits for its destruction with a timer running, or was destroyed.\<close>

theorem page_cache_is_lru_list:
  "\<exists>s. pc_run ops PageCache_new = Some s
     \<and> (let (n, xs) = fold lru_apply ops (0, [])
        in pc_capacity s = int n \<and> pc_size s = int (length xs)
           \<and> (\<forall>x. pc_get (Some x) s = map_of xs x)
           \<and> (case pc_autoreleaseTimer s of None \<Rightarrow> pc_autoreleaseSet s = [] | Some _ \<Rightarrow> True)
           \<and> held_pages s = added_pages ops)"
proof -
  obtain n xs where f: "fold lru_apply ops (0, []) = (n, xs)" by fastforce
  from pc_run_shows [OF PageCache_new_shows(1,2) f] show ?thesis
    unfolding f by (auto simp: pc_shows_def pc_get_def PageCache_new_shows(3) split: option.splits)
qed

end
