(* ===== verification/SessionPages.thy ===== *)
theory SessionPages
  imports PageCacheFacts
begin

text \<open>
  The session history and the page cache together: the history tells the cache which items it
  drops (its events), the frame loader adds the page of the current item, and no page is kept for
  an item that left the history, except for those that \<open>removeItem\<close> and the loop of \<open>pushStateItem\<close>
  dropped, which do not tell the cache.
\<close>

section \<open>What the history drops\<close>

definition removals :: "bf_event list \<Rightarrow> item list" where
  "removals es = concat (map (\<lambda>e. case e of PageCacheRemove x \<Rightarrow> [x] | _ \<Rightarrow> []) es)"

text \<open>From one state to another, every item that is gone was reported.\<close>

definition reports :: "back_forward \<Rightarrow> back_forward \<Rightarrow> bool" where
  "reports s s' \<longleftrightarrow> (\<exists>es. bf_events s' = bf_events s @ es \<and> set (m_entries s) \<subseteq> set (m_entries s') \<union> set (removals es))"

lemma removals_append [simp]: "removals (es @ fs) = removals es @ removals fs"
  by (simp add: removals_def)









lemma reports_close: "reports s (close s)"
  by (auto simp: reports_def close_def removals_def)



section \<open>The session\<close>














end
