(* ===== verification/SegmentedString.thy ===== *)
theory SegmentedString
  imports Prelude
begin

text \<open>
  The input of the HTML tokenizers: src/webkit/WebCore/platform/text/SegmentedString.h and
  SegmentedString.cpp, a queue of pieces of text with two characters that can be pushed back in
  front of them. A piece is the \<open>m_length\<close> characters from its \<open>m_current\<close>, which is null just
  when there are none; \<open>appendTo\<close> shares the string of an untouched piece, with the same result.
  \<open>m_currentChar\<close> points to the first pushed character, into the current piece, or nowhere.
  Copies are values, so the copy constructor and the assignment have no counterpart; lengths, which the
  texts held in memory keep below 2^32, are natural numbers.
\<close>

section \<open>State\<close>

record segmented_substring =
  sub_chars :: ustring
  sub_doNotExcludeLineNumbers :: bool

datatype seg_pointer = ToNothing | ToPushedChar | ToCurrentString

record segmented_string =
  seg_pushedChar1 :: uchar
  seg_pushedChar2 :: uchar
  seg_currentString :: segmented_substring
  seg_currentChar :: seg_pointer
  seg_substrings :: "segmented_substring list"
  seg_composite :: bool

definition SegmentedSubstring :: "ustring \<Rightarrow> segmented_substring" where
  "SegmentedSubstring str = \<lparr>sub_chars = str, sub_doNotExcludeLineNumbers = True\<rparr>"

definition SegmentedSubstring_clear :: "segmented_substring \<Rightarrow> segmented_substring" where
  "SegmentedSubstring_clear s = s\<lparr>sub_chars := []\<rparr>"

definition appendTo :: "segmented_substring \<Rightarrow> ustring \<Rightarrow> ustring" where
  "appendTo s str = str @ sub_chars s"

text \<open>The pointer \<open>m_currentString.m_current\<close>, and the assignment that ends most operations.\<close>

definition current_pointer :: "segmented_substring \<Rightarrow> seg_pointer" where
  "current_pointer c = (if sub_chars c = [] then ToNothing else ToCurrentString)"

definition point :: "segmented_string \<Rightarrow> segmented_string" where
  "point s = s\<lparr>seg_currentChar := (if seg_pushedChar1 s \<noteq> 0 then ToPushedChar else current_pointer (seg_currentString s))\<rparr>"

definition SegmentedString :: "ustring \<Rightarrow> segmented_string" where
  "SegmentedString str = \<lparr>seg_pushedChar1 = 0, seg_pushedChar2 = 0, seg_currentString = SegmentedSubstring str,
     seg_currentChar = current_pointer (SegmentedSubstring str), seg_substrings = [], seg_composite = False\<rparr>"

section \<open>Operations\<close>

definition seg_isEmpty :: "segmented_string \<Rightarrow> bool" where
  "seg_isEmpty s \<longleftrightarrow> seg_currentChar s = ToNothing"

definition escaped :: "segmented_string \<Rightarrow> bool" where
  "escaped s \<longleftrightarrow> seg_pushedChar1 s \<noteq> 0"

text \<open>\<open>operator*\<close>, for a string that is not empty.\<close>

definition seg_current :: "segmented_string \<Rightarrow> uchar" where
  "seg_current s = (if seg_currentChar s = ToPushedChar then seg_pushedChar1 s else hd (sub_chars (seg_currentString s)))"

definition seg_length :: "segmented_string \<Rightarrow> nat" where
  "seg_length s =
     length (sub_chars (seg_currentString s))
     + (if seg_pushedChar1 s \<noteq> 0 then 1 + (if seg_pushedChar2 s \<noteq> 0 then 1 else 0) else 0)
     + (if seg_composite s then sum_list (map (\<lambda>p. length (sub_chars p)) (seg_substrings s)) else 0)"

definition setExcludeLineNumbers :: "segmented_string \<Rightarrow> segmented_string" where
  "setExcludeLineNumbers s =
     (if seg_composite s
      then s\<lparr>seg_substrings := map (\<lambda>p. p\<lparr>sub_doNotExcludeLineNumbers := False\<rparr>) (seg_substrings s)\<rparr>
      else s\<lparr>seg_currentString := (seg_currentString s)\<lparr>sub_doNotExcludeLineNumbers := False\<rparr>\<rparr>)"

definition seg_clear :: "segmented_string \<Rightarrow> segmented_string" where
  "seg_clear s = s\<lparr>seg_pushedChar1 := 0, seg_pushedChar2 := 0, seg_currentChar := ToNothing,
     seg_currentString := SegmentedSubstring_clear (seg_currentString s), seg_substrings := [], seg_composite := False\<rparr>"

definition append_substring :: "segmented_substring \<Rightarrow> segmented_string \<Rightarrow> segmented_string" where
  "append_substring p s =
     (if sub_chars p \<noteq> []
      then if sub_chars (seg_currentString s) = [] then s\<lparr>seg_currentString := p\<rparr>
           else s\<lparr>seg_substrings := seg_substrings s @ [p], seg_composite := True\<rparr>
      else s)"

definition prepend_substring :: "segmented_substring \<Rightarrow> segmented_string \<Rightarrow> segmented_string" where
  "prepend_substring p s =
     (if sub_chars p \<noteq> []
      then if sub_chars (seg_currentString s) = [] then s\<lparr>seg_currentString := p\<rparr>
           else s\<lparr>seg_substrings := seg_currentString s # seg_substrings s, seg_currentString := p, seg_composite := True\<rparr>
      else s)"

definition seg_append :: "segmented_string \<Rightarrow> segmented_string \<Rightarrow> segmented_string" where
  "seg_append t s =
     (let s1 = append_substring (seg_currentString t) s;
          s2 = (if seg_composite t then fold append_substring (seg_substrings t) s1 else s1)
      in point s2)"

definition seg_prepend :: "segmented_string \<Rightarrow> segmented_string \<Rightarrow> segmented_string" where
  "seg_prepend t s =
     (let s1 = (if seg_composite t then fold prepend_substring (rev (seg_substrings t)) s else s)
      in point (prepend_substring (seg_currentString t) s1))"

definition seg_push :: "uchar \<Rightarrow> segmented_string \<Rightarrow> segmented_string" where
  "seg_push c s = (if seg_pushedChar1 s = 0 then point (s\<lparr>seg_pushedChar1 := c\<rparr>) else s\<lparr>seg_pushedChar2 := c\<rparr>)"

definition advanceSubstring :: "segmented_string \<Rightarrow> segmented_string" where
  "advanceSubstring s =
     (if seg_composite s
      then (case seg_substrings s of
              [] \<Rightarrow> s
            | p # rest \<Rightarrow> s\<lparr>seg_currentString := p, seg_substrings := rest,
                             seg_composite := (if rest = [] then False else seg_composite s)\<rparr>)
      else s\<lparr>seg_currentString := SegmentedSubstring_clear (seg_currentString s)\<rparr>)"

text \<open>One character less of the current piece, as the fast and the slow path have it.\<close>

definition drop_char :: "segmented_string \<Rightarrow> segmented_string" where
  "drop_char s = s\<lparr>seg_currentString := (seg_currentString s)\<lparr>sub_chars := tl (sub_chars (seg_currentString s))\<rparr>\<rparr>"

definition advanceSlowCase :: "segmented_string \<Rightarrow> segmented_string" where
  "advanceSlowCase s =
     point (if seg_pushedChar1 s \<noteq> 0 then s\<lparr>seg_pushedChar1 := seg_pushedChar2 s, seg_pushedChar2 := 0\<rparr>
            else if sub_chars (seg_currentString s) \<noteq> []
            then if sub_chars (seg_currentString (drop_char s)) = [] then advanceSubstring (drop_char s) else drop_char s
            else s)"

definition seg_advance :: "segmented_string \<Rightarrow> segmented_string" where
  "seg_advance s =
     (if seg_pushedChar1 s = 0 \<and> length (sub_chars (seg_currentString s)) > 1
      then (drop_char s)\<lparr>seg_currentChar := ToCurrentString\<rparr>
      else advanceSlowCase s)"

text \<open>The versions that count lines: the number to add, which a pushed character never has.\<close>

definition newline_here :: "segmented_string \<Rightarrow> int" where
  "newline_here s =
     (if hd (sub_chars (seg_currentString s)) = 0x0A \<and> sub_doNotExcludeLineNumbers (seg_currentString s) then 1 else 0)"

definition advanceSlowCase_line :: "int \<Rightarrow> segmented_string \<Rightarrow> int \<times> segmented_string" where
  "advanceSlowCase_line lineNumber s =
     (if seg_pushedChar1 s \<noteq> 0 then lineNumber
      else if sub_chars (seg_currentString s) \<noteq> [] then lineNumber + newline_here s else lineNumber,
      advanceSlowCase s)"

definition seg_advance_line :: "int \<Rightarrow> segmented_string \<Rightarrow> int \<times> segmented_string" where
  "seg_advance_line lineNumber s =
     (if seg_pushedChar1 s = 0 \<and> length (sub_chars (seg_currentString s)) > 1
      then (lineNumber + newline_here s, (drop_char s)\<lparr>seg_currentChar := ToCurrentString\<rparr>)
      else advanceSlowCase_line lineNumber s)"

definition advancePastNewline :: "int \<Rightarrow> segmented_string \<Rightarrow> int \<times> segmented_string" where
  "advancePastNewline lineNumber s =
     (if seg_pushedChar1 s = 0 \<and> length (sub_chars (seg_currentString s)) > 1
      then (lineNumber + (if sub_doNotExcludeLineNumbers (seg_currentString s) then 1 else 0),
            (drop_char s)\<lparr>seg_currentChar := ToCurrentString\<rparr>)
      else advanceSlowCase_line lineNumber s)"

definition seg_toString :: "segmented_string \<Rightarrow> ustring" where
  "seg_toString s =
     (let pushed = (if seg_pushedChar1 s \<noteq> 0 then seg_pushedChar1 s # (if seg_pushedChar2 s \<noteq> 0 then [seg_pushedChar2 s] else []) else []);
          result = appendTo (seg_currentString s) pushed
      in if seg_composite s then fold appendTo (seg_substrings s) result else result)"

section \<open>The text\<close>

definition pushed_chars :: "segmented_string \<Rightarrow> ustring" where
  "pushed_chars s = filter (\<lambda>c. c \<noteq> 0) [seg_pushedChar1 s, seg_pushedChar2 s]"

definition seg_text :: "segmented_string \<Rightarrow> ustring" where
  "seg_text s = pushed_chars s @ sub_chars (seg_currentString s) @ concat (map sub_chars (seg_substrings s))"

text \<open>What every operation keeps.\<close>

definition seg_ok :: "segmented_string \<Rightarrow> bool" where
  "seg_ok s \<longleftrightarrow> (seg_pushedChar1 s = 0 \<longrightarrow> seg_pushedChar2 s = 0)
     \<and> (\<forall>p\<in>set (seg_substrings s). sub_chars p \<noteq> [])
     \<and> (sub_chars (seg_currentString s) = [] \<longrightarrow> seg_substrings s = [])
     \<and> seg_composite s = (seg_substrings s \<noteq> []) \<and> point s = s"

lemmas seg_defs = point_def current_pointer_def pushed_chars_def seg_text_def seg_ok_def

lemma seg_new: "seg_ok (SegmentedString str)" "seg_text (SegmentedString str) = str" "\<not> escaped (SegmentedString str)"
  by (simp_all add: SegmentedString_def SegmentedSubstring_def escaped_def seg_defs)

lemma seg_isEmpty_text: "seg_ok s \<Longrightarrow> seg_isEmpty s \<longleftrightarrow> seg_text s = []"
  by (cases s) (auto simp: seg_isEmpty_def seg_defs split: if_splits)

lemma seg_current_text:
  assumes "seg_ok s" "seg_text s = c # t"
  shows "seg_current s = c"
  using assms by (cases s) (auto simp: seg_current_def seg_defs neq_Nil_conv split: if_splits)

lemma seg_length_text: "seg_ok s \<Longrightarrow> seg_length s = length (seg_text s)"
  by (auto simp: seg_length_def seg_defs length_concat comp_def split: if_splits)

lemma fold_appendTo: "fold appendTo ps str = str @ concat (map sub_chars ps)"
  by (induction ps arbitrary: str) (simp_all add: appendTo_def)

lemma seg_toString_text: "seg_ok s \<Longrightarrow> seg_toString s = seg_text s"
  by (auto simp: seg_toString_def fold_appendTo appendTo_def seg_defs Let_def split: if_splits)

lemma append_substring_text:
  assumes "seg_ok (point s)"
  shows "seg_ok (point (append_substring p s))" "seg_text (append_substring p s) = seg_text s @ sub_chars p"
    "escaped (append_substring p s) = escaped s" "pushed_chars (append_substring p s) = pushed_chars s"
  using assms by (auto simp: append_substring_def escaped_def seg_defs)

lemma append_substrings_text:
  assumes "seg_ok (point s)"
  shows "seg_ok (point (fold append_substring ps s)) \<and> seg_text (fold append_substring ps s) = seg_text s @ concat (map sub_chars ps)
    \<and> escaped (fold append_substring ps s) = escaped s \<and> pushed_chars (fold append_substring ps s) = pushed_chars s"
  using assms by (induction ps arbitrary: s) (simp_all add: append_substring_text)

lemma point_point: "point (point s) = point s" "seg_text (point s) = seg_text s" "escaped (point s) = escaped s"
  "pushed_chars (point s) = pushed_chars s"
  by (simp_all add: seg_defs escaped_def)

lemma seg_append_text:
  assumes "seg_ok s" "seg_ok t" "\<not> escaped t"
  shows "seg_ok (seg_append t s)" "seg_text (seg_append t s) = seg_text s @ seg_text t" "escaped (seg_append t s) = escaped s"
    "pushed_chars (seg_append t s) = pushed_chars s"
proof -
  let ?s1 = "append_substring (seg_currentString t) s"
  have p: "point s = s" using assms(1) by (simp add: seg_ok_def)
  have 1: "seg_ok (point ?s1)" "seg_text ?s1 = seg_text s @ sub_chars (seg_currentString t)" "escaped ?s1 = escaped s"
    "pushed_chars ?s1 = pushed_chars s"
    using append_substring_text [of s] assms(1) p by simp_all
  have t: "seg_text t = sub_chars (seg_currentString t) @ concat (map sub_chars (seg_substrings t))"
    "seg_composite t = (seg_substrings t \<noteq> [])"
    using assms(2,3) by (simp_all add: escaped_def seg_defs)
  have a: "seg_append t s = point (fold append_substring (seg_substrings t) ?s1)"
    using t(2) by (simp add: seg_append_def Let_def)
  show "seg_ok (seg_append t s)" "seg_text (seg_append t s) = seg_text s @ seg_text t" "escaped (seg_append t s) = escaped s"
    "pushed_chars (seg_append t s) = pushed_chars s"
    using append_substrings_text [OF 1(1), of "seg_substrings t"] 1 t(1) unfolding a point_point by simp_all
qed

lemma prepend_substring_text:
  assumes "seg_ok (point s)" "\<not> escaped s"
  shows "seg_ok (point (prepend_substring p s))" "seg_text (prepend_substring p s) = sub_chars p @ seg_text s"
    "\<not> escaped (prepend_substring p s)"
  using assms by (auto simp: prepend_substring_def escaped_def seg_defs)

lemma prepend_substrings_text:
  assumes "seg_ok (point s)" "\<not> escaped s"
  shows "seg_ok (point (fold prepend_substring ps s)) \<and> seg_text (fold prepend_substring ps s) = concat (map sub_chars (rev ps)) @ seg_text s
    \<and> \<not> escaped (fold prepend_substring ps s)"
  using assms by (induction ps arbitrary: s) (simp_all add: prepend_substring_text)

lemma seg_prepend_text:
  assumes "seg_ok s" "seg_ok t" "\<not> escaped s" "\<not> escaped t"
  shows "seg_ok (seg_prepend t s)" "seg_text (seg_prepend t s) = seg_text t @ seg_text s" "\<not> escaped (seg_prepend t s)"
proof -
  let ?s1 = "fold prepend_substring (rev (seg_substrings t)) s"
  have p: "point s = s" using assms(1) by (simp add: seg_ok_def)
  have 1: "seg_ok (point ?s1)" "seg_text ?s1 = concat (map sub_chars (seg_substrings t)) @ seg_text s" "\<not> escaped ?s1"
    using prepend_substrings_text [of s "rev (seg_substrings t)"] assms(1,3) p by simp_all
  have t: "seg_text t = sub_chars (seg_currentString t) @ concat (map sub_chars (seg_substrings t))"
    "seg_composite t = (seg_substrings t \<noteq> [])"
    using assms(2,4) by (simp_all add: escaped_def seg_defs)
  have a: "seg_prepend t s = point (prepend_substring (seg_currentString t) ?s1)"
    using t(2) by (simp add: seg_prepend_def Let_def)
  show "seg_ok (seg_prepend t s)" "seg_text (seg_prepend t s) = seg_text t @ seg_text s" "\<not> escaped (seg_prepend t s)"
    using prepend_substring_text [OF 1(1,3), of "seg_currentString t"] 1 t(1) unfolding a point_point by simp_all
qed

text \<open>Characters are pushed in the order in which they are to be read.\<close>

lemma seg_push_text:
  assumes "seg_ok s" "c \<noteq> 0" "seg_pushedChar2 s = 0"
  shows "seg_ok (seg_push c s)" "seg_text (seg_push c s) = pushed_chars s @ c # drop (length (pushed_chars s)) (seg_text s)"
    "pushed_chars (seg_push c s) = pushed_chars s @ [c]"
proof -
  obtain p1 p2 cur ptr ss cp where s: "s = \<lparr>seg_pushedChar1 = p1, seg_pushedChar2 = p2, seg_currentString = cur,
      seg_currentChar = ptr, seg_substrings = ss, seg_composite = cp\<rparr>" by (cases s)
  show "seg_ok (seg_push c s)" using assms unfolding s by (simp add: seg_push_def seg_defs split: if_splits)
  show "pushed_chars (seg_push c s) = pushed_chars s @ [c]"
    using assms unfolding s by (simp add: seg_push_def point_def pushed_chars_def)
  then show "seg_text (seg_push c s) = pushed_chars s @ c # drop (length (pushed_chars s)) (seg_text s)"
    by (simp add: seg_text_def) (simp add: seg_push_def point_def)
qed

lemma seg_advance_text:
  assumes "seg_ok s" "seg_text s \<noteq> []"
  shows "seg_ok (seg_advance s)" "seg_text (seg_advance s) = tl (seg_text s)" "pushed_chars (seg_advance s) = tl (pushed_chars s)"
proof -
  obtain p1 p2 cs f ptr ss cp where s: "s = \<lparr>seg_pushedChar1 = p1, seg_pushedChar2 = p2,
      seg_currentString = \<lparr>sub_chars = cs, sub_doNotExcludeLineNumbers = f\<rparr>, seg_currentChar = ptr, seg_substrings = ss, seg_composite = cp\<rparr>"
    by (metis segmented_string.surjective segmented_substring.surjective old.unit.exhaust)
  have "seg_ok (seg_advance s) \<and> seg_text (seg_advance s) = tl (seg_text s) \<and> pushed_chars (seg_advance s) = tl (pushed_chars s)"
    using assms unfolding s
    by (cases cs; cases "tl cs"; cases ss; cases "tl ss") (auto simp: seg_advance_def advanceSlowCase_def advanceSubstring_def
        drop_char_def SegmentedSubstring_clear_def seg_defs)
  then show "seg_ok (seg_advance s)" "seg_text (seg_advance s) = tl (seg_text s)" "pushed_chars (seg_advance s) = tl (pushed_chars s)"
    by auto
qed

text \<open>Advancing always gets closer to the end, also in a state no operation leads to.\<close>

definition seg_measure :: "segmented_string \<Rightarrow> nat" where
  "seg_measure s = 2 * seg_length s + (if seg_isEmpty s then 0 else 1)"

lemma seg_advance_measure:
  assumes "\<not> seg_isEmpty s"
  shows "seg_measure (seg_advance s) < seg_measure s"
proof -
  obtain p1 p2 cs f ptr ss cp where s: "s = \<lparr>seg_pushedChar1 = p1, seg_pushedChar2 = p2,
      seg_currentString = \<lparr>sub_chars = cs, sub_doNotExcludeLineNumbers = f\<rparr>, seg_currentChar = ptr, seg_substrings = ss, seg_composite = cp\<rparr>"
    by (metis segmented_string.surjective segmented_substring.surjective old.unit.exhaust)
  show ?thesis
    using assms unfolding s
    by (cases cs; cases "tl cs"; cases ss; cases "tl ss") (auto simp: seg_measure_def seg_length_def seg_isEmpty_def seg_advance_def
        advanceSlowCase_def advanceSubstring_def drop_char_def SegmentedSubstring_clear_def point_def current_pointer_def)
qed

lemma seg_clear_text: "seg_ok (seg_clear s)" "seg_text (seg_clear s) = []"
  by (simp_all add: seg_clear_def SegmentedSubstring_clear_def seg_defs)

lemma seg_exclude_text:
  assumes "seg_ok s"
  shows "seg_ok (setExcludeLineNumbers s)" "seg_text (setExcludeLineNumbers s) = seg_text s"
    "pushed_chars (setExcludeLineNumbers s) = pushed_chars s"
  using assms by (cases s; cases "seg_currentString s"; auto simp: setExcludeLineNumbers_def seg_defs comp_def)+

lemma seg_advance_line_text:
  assumes "seg_ok s" "seg_text s = c # t"
  shows "seg_advance_line n s =
    (n + (if \<not> escaped s \<and> c = 0x0A \<and> sub_doNotExcludeLineNumbers (seg_currentString s) then 1 else 0), seg_advance s)"
    "c = 0x0A \<Longrightarrow> advancePastNewline n s = seg_advance_line n s"
  using assms
  by (cases "seg_currentString s"; cases "sub_chars (seg_currentString s)"; auto simp: seg_advance_line_def advancePastNewline_def
      advanceSlowCase_line_def newline_here_def seg_advance_def escaped_def seg_defs split: if_splits)+

text \<open>
  A string of several pieces goes on counting the lines of its first piece after it was told not to:
  only the pieces behind it are marked.
\<close>

lemma excluded_lines_counted:
  "let s = setExcludeLineNumbers (seg_append (SegmentedString (lit ''b'')) (SegmentedString [0x0A, 0x0A]))
   in fst (seg_advance_line 0 s) = 1"
  by code_simp

section \<open>Runs of the operations\<close>

datatype seg_op =
    AppendText ustring
  | PrependText ustring
  | PushChar uchar
  | Advance
  | ExcludeLineNumbers
  | Clear

fun seg_apply :: "seg_op \<Rightarrow> segmented_string \<Rightarrow> segmented_string" where
  "seg_apply (AppendText t) s = seg_append (SegmentedString t) s"
| "seg_apply (PrependText t) s = seg_prepend (SegmentedString t) s"
| "seg_apply (PushChar c) s = seg_push c s"
| "seg_apply Advance s = seg_advance s"
| "seg_apply ExcludeLineNumbers s = setExcludeLineNumbers s"
| "seg_apply Clear s = seg_clear s"

text \<open>What the assertions of the code ask of a caller.\<close>

fun seg_call_ok :: "seg_op \<Rightarrow> segmented_string \<Rightarrow> bool" where
  "seg_call_ok (PrependText t) s = (\<not> escaped s)"
| "seg_call_ok (PushChar c) s = (c \<noteq> 0 \<and> seg_pushedChar2 s = 0)"
| "seg_call_ok Advance s = (\<not> seg_isEmpty s)"
| "seg_call_ok _ s = True"

fun seg_calls_ok :: "seg_op list \<Rightarrow> segmented_string \<Rightarrow> bool" where
  "seg_calls_ok [] s = True"
| "seg_calls_ok (op # ops) s = (seg_call_ok op s \<and> seg_calls_ok ops (seg_apply op s))"

text \<open>The specification: the pushed characters and the text behind them.\<close>

fun queue_apply :: "seg_op \<Rightarrow> ustring \<times> ustring \<Rightarrow> ustring \<times> ustring" where
  "queue_apply (AppendText t) (p, q) = (p, q @ t)"
| "queue_apply (PrependText t) (p, q) = (p, t @ q)"
| "queue_apply (PushChar c) (p, q) = (p @ [c], q)"
| "queue_apply Advance (p, q) = (case p of [] \<Rightarrow> ([], tl q) | _ # p' \<Rightarrow> (p', q))"
| "queue_apply ExcludeLineNumbers pq = pq"
| "queue_apply Clear pq = ([], [])"

definition seg_shows :: "ustring \<times> ustring \<Rightarrow> segmented_string \<Rightarrow> bool" where
  "seg_shows pq s \<longleftrightarrow> seg_ok s \<and> pushed_chars s = fst pq \<and> seg_text s = fst pq @ snd pq"

lemma seg_apply_shows:
  assumes "seg_shows pq s" "seg_call_ok op s"
  shows "seg_shows (queue_apply op pq) (seg_apply op s)"
proof -
  obtain p q where pq: "pq = (p, q)" by (cases pq)
  have s: "seg_ok s" "pushed_chars s = p" "seg_text s = p @ q" using assms(1) pq by (simp_all add: seg_shows_def)
  have esc: "\<not> escaped s \<Longrightarrow> p = []" using s(1,2) by (auto simp: escaped_def seg_defs)
  have none: "\<not> escaped t \<Longrightarrow> seg_ok t \<Longrightarrow> pushed_chars t = []" for t by (simp add: escaped_def seg_defs)
  show ?thesis
  proof (cases op)
    case (AppendText t)
    then show ?thesis using seg_append_text [OF s(1) seg_new(1,3), of t] s seg_new pq by (simp add: seg_shows_def)
  next
    case (PrependText t)
    then show ?thesis
      using seg_prepend_text [OF s(1) seg_new(1) _ seg_new(3), of t] none assms(2) esc s seg_new pq by (simp add: seg_shows_def)
  next
    case (PushChar c)
    then show ?thesis using seg_push_text [OF s(1), of c] assms(2) s pq by (simp add: seg_shows_def)
  next
    case Advance
    have "seg_text s \<noteq> []" using assms(2) Advance seg_isEmpty_text [OF s(1)] by simp
    then show ?thesis using seg_advance_text [OF s(1)] s pq Advance by (cases p) (simp_all add: seg_shows_def)
  next
    case ExcludeLineNumbers
    then show ?thesis using seg_exclude_text [OF s(1)] s pq by (simp add: seg_shows_def)
  next
    case Clear
    then show ?thesis using seg_clear_text [of s] pq by (simp add: seg_shows_def pushed_chars_def seg_clear_def)
  qed
qed

text \<open>A segmented string is a queue of characters: whatever pieces are appended and prepended and whatever
  characters are pushed back, as long as the callers keep to the assertions, it is empty just when
  the queue is, shows its first character, and has its length and its text.\<close>

theorem segmented_string_is_queue:
  assumes "seg_calls_ok ops (SegmentedString str)"
  shows "let s = fold seg_apply ops (SegmentedString str); (p, q) = fold queue_apply ops ([], str)
    in seg_isEmpty s = (p @ q = []) \<and> seg_length s = length (p @ q) \<and> seg_toString s = p @ q
       \<and> (seg_isEmpty s \<or> seg_current s = hd (p @ q))"
proof -
  have "seg_shows (fold queue_apply ops pq) (fold seg_apply ops s)" if "seg_shows pq s" "seg_calls_ok ops s" for pq s
    using that by (induction ops arbitrary: pq s) (simp_all add: seg_apply_shows)
  moreover have "seg_shows ([], str) (SegmentedString str)"
    by (simp add: seg_shows_def seg_new) (simp add: SegmentedString_def pushed_chars_def)
  ultimately have "seg_shows (fold queue_apply ops ([], str)) (fold seg_apply ops (SegmentedString str))" using assms by blast
  moreover obtain p q where pq: "fold queue_apply ops ([], str) = (p, q)" by fastforce
  ultimately have "seg_ok (fold seg_apply ops (SegmentedString str))" "seg_text (fold seg_apply ops (SegmentedString str)) = p @ q"
    by (simp_all add: seg_shows_def)
  then show ?thesis
    using seg_isEmpty_text seg_length_text seg_toString_text seg_current_text
    unfolding pq Let_def prod.case by (metis list.collapse)
qed

theorem segmented_string_is_queue_witness:
  "seg_toString (fold seg_apply [Advance, Advance, PushChar 0x23, PushChar 0x78, AppendText (lit ''d''), Advance, Advance, PrependText (lit ''w'')]
     (SegmentedString (lit ''abc''))) = lit ''wcd''"
proof -
  let ?ops = "[Advance, Advance, PushChar 0x23, PushChar 0x78, AppendText (lit ''d''), Advance, Advance, PrependText (lit ''w'')]"
  have "seg_calls_ok ?ops (SegmentedString (lit ''abc''))" by code_simp
  from segmented_string_is_queue [OF this] show ?thesis by (simp add: Let_def)
qed

end
