(* ===== verification/Spec2Isabelle.thy ===== *)
theory Spec2Isabelle
  imports BackForwardListFacts StorageFacts StringSplit StringNumber KURLDots KURLIdempotent KURLCompare KURLEscapes KURLResolveFacts CrossOriginFacts Base64Facts UTF8Facts TimersFiring UserContentFacts ManifestParserFacts HistoryPropertyList ThreadableLoaderFacts EventSourceFacts SessionPages SegmentedString
begin

text \<open>
  A verification library for the core of the Internet Browser for Nintendo 3DS: WebKit of 2010
  under src/webkit (JavaScriptCore and WebCore) and the port to the console under src/WKC. The
  development models what the browser decides with: texts and URLs, who may read what, what is
  remembered of a session, when things happen, and the files and streams it reads and writes. Each
  definition is the code of one function, method or type, translated with its branches, early
  returns and machine arithmetic, and is executable.


  How the parts work together

  Everything is written with UTF-16 strings (\<open>ustring\<close>); the URL parser and the codecs work on
  bytes (\<open>bytes\<close>). A reference in a page is resolved against the URL of the page and parsed
  (\<open>KURL\<close>), and the origin of the page is made from that URL (\<open>security_origin\<close>). The origin
  decides: whether two pages may access each other, which hosts a white list opens, whether a
  response to a load of a script may be read (with the headers of cross-origin access control and
  the cache of preflight answers), whether an event source may connect, which entries of an
  application cache manifest count. The session history tells the page cache which pages to let
  go, and is saved to a binary property list. Timers drive the reconnection of event sources and
  the release of pages; those two keep the delay that a timer was started with, and Timers.thy
  models what a started timer does.


  Theories, in the order of their imports

  Prelude: machine types, literals at both character widths, reads from a buffer that ends with a
    zero byte, the scanning loop and the facts on lists that the parsers share.
  PlatformString, StringSearch, StringSplit, StringNumber: WebCore/platform/text/String.cpp,
    StringImpl.cpp, PlatformString.h. A string is the list of its code units. Searching, replacing,
    splitting, trimming and reading integers compute the first occurrence, the joined pieces, the
    two-sided \<open>dropWhile\<close> and the number with its overflow test. The loops of split and replace are
    proved once in the locale \<open>string_finder\<close>, interpreted on both searches of the code. The size
    of a replaced text is computed in 32 bits as the code does; a null String is \<open>None\<close>.
  URLCharacters, KURLParse, KURLRender, KURLDots, KURLFacts, KURLIdempotent: \<open>KURL::parse\<close> of
    WebCore/platform/KURL.cpp. KURLParse has the scanner, the assembly and the thirteen offsets.
    KURLRender names the parts of a canonical URL and shows that the parser returns their text and
    offsets; the others draw from it order and bounds of the offsets, the size of the buffer, the
    characters of the result, dot segments against a stack machine, and that parsing twice changes
    nothing, which does not hold for the inputs it excludes.
  KURLOps, KURLOpsFacts, KURLCompare, KURLEscapes: accessors, setters, comparisons, ports and
    escape sequences. A setter is an edit of the parts.
  KURLResolve, KURLResolveFacts: \<open>KURL::init\<close>: host names, query encodings, merging of paths.
  SecurityOrigin, SecurityOriginFacts: WebCore/page/SecurityOrigin.cpp, OriginAccessEntry.cpp. The
    access decisions as a relation between origins, the white lists, the round trips of the two
    texts of an origin; and the decision for the pages of two URLs, whatever domains they set.
  CrossOrigin, CrossOriginFacts: WebCore/loader/CrossOriginAccessControl.cpp,
    CrossOriginPreflightResultCache.cpp.
  ThreadableLoader, ThreadableLoaderFacts: WebCore/loader/DocumentThreadableLoader.cpp over the two
    above. The loader is a state machine between its client, the loader below it and the cache of
    preflight answers; the locale \<open>loader_invariant\<close> carries a property of its trace through all
    calls and is interpreted for what a client is told and for what was asked of the server.
  EventSource, EventSourceFacts: WebCore/page/EventSource.cpp. The parser of the stream is a fold
    over the lines of the text, however the network cuts it, unless a message closes the source; what
    is pending when; which calls a closed source still answers.
  ManifestParser, ManifestParserFacts: WebCore/loader/appcache/ManifestParser.cpp.
  SegmentedString: WebCore/platform/text/SegmentedString.cpp, the input of the tokenizers. Pieces of
    text with two pushed back characters in front of them implement a queue of characters.
  UserContent, UserContentFacts: WebCore/page/UserContentURLPattern.cpp. The backtracking tester
    decides the meaning of a pattern with wild cards.
  HTTPParsers, HTTPParsersFacts: WebCore/platform/network/HTTPParsers.cpp.
  Base64, Base64Facts; UTF8, UTF8Facts: WebCore/platform/text/Base64.cpp and
    JavaScriptCore/wtf/unicode/UTF8.cpp. Round trips, and nothing written outside the target.
  Storage, StorageFacts: WebCore/storage/StorageMap.cpp, StorageAreaImpl.cpp. Areas share maps
    through a store of maps until one of them writes; they behave as if each had its own.
  BackForwardList, BackForwardListFacts: WebCore/history/BackForwardList.cpp. The list with its
    index of 32 bits implements a zipper; the locale \<open>session_history\<close> states the contract.
  PageCache, PageCacheFacts: WebCore/history/PageCache.cpp. The links of the items implement a
    bounded list. SessionPages puts the history and the cache together.
  Timers, TimersFacts, TimersFiring: WebCore/platform/Timer.cpp, ThreadTimers.cpp and the shared
    timer of the port. The heap with the index each timer keeps, through every run of operations,
    nested event loops included; what a timer does when it fires is the locale \<open>timer_client\<close>.
  BinaryPropertyList, PropertyListTable, PropertyListPlan, PropertyListBuffer,
    PropertyListSerializer, PropertyListFacts, HistoryPropertyList: the writer of binary property
    lists, src/WKC/WebCore/platform/cf/WKC/BinaryPropertyList.cpp, and its client that saves the
    history. A client calls an object stream twice. PropertyListTable gives the table of objects
    that the calls mean, and the locale \<open>table_stream\<close> what a stream owes to one call; the plan and
    the serializer are its interpretations. The file then is what the table says, byte for byte,
    and a reader of the published format finds the value again.


  Properties

  Type: the characters of a parsed URL. Invariants: offsets of a URL, the session history, the
  quota of a storage map, the timer heap, the life of an event source. Safety: the authority of a
  resolved reference, what scripts may read and send, preflight answers, the white lists, storage
  areas, cached pages, manifests. Refinement: the history, the page cache, the setters of a URL,
  the two passes over a property list. Equivalence: dot segments, replacing, event streams, wild
  cards. Round trips: URLs, escapes, origins, codecs, property lists. Bounds: the two buffers of
  the URL parser. Termination and liveness: splitting, due timers. Errors: inputs for which the
  code does something else than it means to; the manifest lists these with the lines of the code.


  Conventions

  The target is an ARM with 32 bits: \<open>int\<close>, \<open>unsigned\<close> and \<open>size_t\<close> are 32 bits wide and stay words
  or have their wrap-around written out where it can matter; positions in a text that the code
  keeps below its length are natural numbers. A pointer is an index, an address or the list behind
  it. An access outside a buffer that the code can make has the value None.
  Loops are structural or end by a measure. Loops and call backs that need not end are
  \<open>partial_function (option)\<close>, where None is not returning: \<open>split\<close>, pruning the page cache, the
  nested calls of timers. That they return is proved (for \<open>split\<close> just when the separator is not
  empty). The reader of property lists, which is specification and not code, has fuel: the number
  of objects of the file, which is enough since an object refers to later or other objects
  without a cycle.
  Errors are values: an error of a datatype in a sum, None, or the state that records the failure.
  Time is a real number of seconds, the code's doubles without their rounding. Hash maps and sets
  are functions, or lists with the equality their hash uses where the order of a walk matters or
  a size is read; an order the program cannot know is a parameter.
  Code that is not in the repository is a parameter: the Unicode tables of the peer library
  (\<open>unicode_peer\<close>), text encodings (\<open>text_encoding\<close>), host names beyond ASCII (\<open>idn\<close>), the memory
  behind a string, the renderings of numbers by the C library. So are the network, the clock and
  what scripts do when they are called. The heap algorithms of the standard library are written
  out, because raising a timer in the middle of a heap depends on how they move elements.
  Reference counts are modelled only where the code reads them (storage maps) or where they are
  the subject (page cache); locks and assertions are not.


  Not modelled

  The rest of the browser: parsing of HTML, XML, CSS and scripts, the document tree, style, layout
  and painting, the script engine with its compilers and collector, the bindings, editing, SVG,
  media, plug-ins, the inspector, workers, databases, the frame loader and its clients, image
  decoders, and the other ports. These are large interacting subsystems whose state reaches every
  other one, so that none of them can be cut out at the size of this library without stubbing
  what it calls. Of the parts that are modelled the following is left out: the numeric and
  formatting functions of String that call the C library, \<open>parseDate\<close>, the destruction and the
  synchronization of storage areas, and the code for other configurations (WML, Mac, Qt, Chromium).
\<close>

end
